(* ===== verification/Aquifer_Prelude.thy ===== *)
theory Aquifer_Prelude
  imports Complex_Main "HOL-Library.Word"
begin

text \<open>
  Shared vocabulary of the development: the type synonyms of the model, the
  collections of rewrite rules the component proofs use, and the fragments of
  the Go language and of its standard library that the sources of Aquifer rely
  on (signed 64-bit wrap-around, truncating conversions, the byte-string
  functions of \<^verbatim>\<open>strings\<close> and the integer functions of \<^verbatim>\<open>strconv\<close>).

  Conventions.  A Go \<^verbatim>\<open>string\<close> is a \<^typ>\<open>string\<close>, one \<^typ>\<open>char\<close> per byte.
  A Go \<^verbatim>\<open>int\<close> or \<^verbatim>\<open>int64\<close> is an \<^typ>\<open>int\<close>; where the code can leave the
  64-bit range the wrap-around is written out with \<open>wrap64\<close>.  A \<^verbatim>\<open>float64\<close>
  is an exact \<^typ>\<open>rat\<close>: rounding is not modelled.  Wall-clock instants are
  Unix milliseconds (\<open>ms\<close>) or nanoseconds (\<open>ns\<close>), durations are nanoseconds,
  and every clock reading, random draw and environment lookup of the code is
  an argument of the definition that models it.
\<close>

type_synonym ms = int
type_synonym ns = int
type_synonym f64 = rat
type_synonym environment = "string \<Rightarrow> string"

named_theorems op_defs \<open>unfolding rules of the operations of a component\<close>
named_theorems inv_intros \<open>preservation of a component's invariant by its operations\<close>

section \<open>Integers and conversions\<close>

definition int64_min :: int where
  "int64_min = - (2 ^ 63)"

definition int64_max :: int where
  "int64_max = 2 ^ 63 - 1"

definition wrap64 :: "int \<Rightarrow> int" where
  "wrap64 x = (x + 2 ^ 63) mod 2 ^ 64 - 2 ^ 63"

definition f64_to_int :: "f64 \<Rightarrow> int" where
  "f64_to_int r = (if r \<ge> 0 then \<lfloor>r\<rfloor> else \<lceil>r\<rceil>)"

definition div_trunc :: "int \<Rightarrow> int \<Rightarrow> int" where
  "div_trunc a b = (if (a \<ge> 0) = (b \<ge> 0) then \<bar>a\<bar> div \<bar>b\<bar> else - (\<bar>a\<bar> div \<bar>b\<bar>))"

definition clamp :: "'a::linorder \<Rightarrow> 'a \<Rightarrow> 'a \<Rightarrow> 'a" where
  "clamp v low high = max low (min v high)"

abbreviation millisecond :: ns where "millisecond \<equiv> 1000000"
abbreviation second :: ns where "second \<equiv> 1000000000"

section \<open>Byte strings\<close>

definition is_digit :: "char \<Rightarrow> bool" where
  "is_digit c \<longleftrightarrow> 48 \<le> (of_char c :: nat) \<and> (of_char c :: nat) \<le> 57"

definition digit_val :: "char \<Rightarrow> nat" where
  "digit_val c = of_char c - 48"

definition digit_char :: "nat \<Rightarrow> char" where
  "digit_char d = char_of (48 + d)"

fun nat_digits :: "nat \<Rightarrow> string" where
  "nat_digits n = (if n < 10 then [digit_char n] else nat_digits (n div 10) @ [digit_char (n mod 10)])"

declare nat_digits.simps [simp del]

definition itoa :: "int \<Rightarrow> string" where
  "itoa n = (if n < 0 then CHR ''-'' # nat_digits (nat (- n)) else nat_digits (nat n))"

fun parse_digits :: "nat \<Rightarrow> string \<Rightarrow> nat option" where
  "parse_digits acc [] = Some acc"
| "parse_digits acc (c # cs) =
     (if is_digit c then parse_digits (acc * 10 + digit_val c) cs else None)"

definition parse_unsigned :: "string \<Rightarrow> nat option" where
  "parse_unsigned cs = (if cs = [] then None else parse_digits 0 cs)"

text \<open>\<^verbatim>\<open>strconv.ParseInt(s, 10, 64)\<close>: \<^const>\<open>None\<close> is its error.\<close>

definition parse_int64 :: "string \<Rightarrow> int option" where
  "parse_int64 s =
     (let (neg, rest) = (case s of
            c # cs \<Rightarrow> if c = CHR ''-'' then (True, cs) else if c = CHR ''+'' then (False, cs) else (False, s)
          | [] \<Rightarrow> (False, s))
      in case parse_unsigned rest of
           None \<Rightarrow> None
         | Some n \<Rightarrow>
             (let v = (if neg then - int n else int n)
              in if int64_min \<le> v \<and> v \<le> int64_max then Some v else None))"

definition to_lower :: "string \<Rightarrow> string" where
  "to_lower = map (\<lambda>c. if 65 \<le> (of_char c :: nat) \<and> (of_char c :: nat) \<le> 90 then char_of (of_char c + 32 :: nat) else c)"

definition to_upper :: "string \<Rightarrow> string" where
  "to_upper = map (\<lambda>c. if 97 \<le> (of_char c :: nat) \<and> (of_char c :: nat) \<le> 122 then char_of (of_char c - 32 :: nat) else c)"

definition is_space :: "char \<Rightarrow> bool" where
  "is_space c \<longleftrightarrow> (of_char c :: nat) \<in> {9, 10, 11, 12, 13, 32}"

definition trim_space :: "string \<Rightarrow> string" where
  "trim_space s = rev (dropWhile is_space (rev (dropWhile is_space s)))"

fun split_on :: "char \<Rightarrow> string \<Rightarrow> string list" where
  "split_on sep [] = [[]]"
| "split_on sep (c # cs) =
     (if c = sep then [] # split_on sep cs
      else (case split_on sep cs of [] \<Rightarrow> [[c]] | w # ws \<Rightarrow> (c # w) # ws))"

fun join_with :: "char \<Rightarrow> string list \<Rightarrow> string" where
  "join_with sep [] = []"
| "join_with sep [w] = w"
| "join_with sep (w # ws) = w @ sep # join_with sep ws"

definition has_suffix :: "'a list \<Rightarrow> 'a list \<Rightarrow> bool" where
  "has_suffix s suf \<longleftrightarrow> length suf \<le> length s \<and> drop (length s - length suf) s = suf"

definition has_prefix :: "'a list \<Rightarrow> 'a list \<Rightarrow> bool" where
  "has_prefix s pre \<longleftrightarrow> take (length pre) s = pre"

text \<open>\<^verbatim>\<open>strings.Cut\<close> and \<^verbatim>\<open>strings.TrimRight\<close> with a single byte.\<close>

definition str_cut :: "char \<Rightarrow> string \<Rightarrow> (string \<times> string) option" where
  "str_cut sep s =
     (if sep \<in> set s then Some (takeWhile (\<lambda>c. c \<noteq> sep) s, tl (dropWhile (\<lambda>c. c \<noteq> sep) s)) else None)"

definition trim_right :: "char \<Rightarrow> string \<Rightarrow> string" where
  "trim_right c s = rev (dropWhile (\<lambda>x. x = c) (rev s))"

section \<open>Sorting by a comparison\<close>

text \<open>
  \<^verbatim>\<open>sort.Slice\<close> with a comparison that orders the elements strictly and
  totally has only one result, whatever algorithm it uses; here it is computed
  by insertion.
\<close>

fun insert_by :: "('a \<Rightarrow> 'a \<Rightarrow> bool) \<Rightarrow> 'a \<Rightarrow> 'a list \<Rightarrow> 'a list" where
  "insert_by lt x [] = [x]"
| "insert_by lt x (y # ys) = (if lt y x then y # insert_by lt x ys else x # y # ys)"

definition sort_by :: "('a \<Rightarrow> 'a \<Rightarrow> bool) \<Rightarrow> 'a list \<Rightarrow> 'a list" where
  "sort_by lt xs = foldr (insert_by lt) xs []"

definition strict_total_on :: "'a set \<Rightarrow> ('a \<Rightarrow> 'a \<Rightarrow> bool) \<Rightarrow> bool" where
  "strict_total_on A lt \<longleftrightarrow>
     (\<forall>x\<in>A. \<not> lt x x) \<and> (\<forall>x\<in>A. \<forall>y\<in>A. \<forall>z\<in>A. lt x y \<longrightarrow> lt y z \<longrightarrow> lt x z)
     \<and> (\<forall>x\<in>A. \<forall>y\<in>A. x \<noteq> y \<longrightarrow> lt x y \<or> lt y x)"

section \<open>Association lists\<close>

text \<open>
  A Go \<^verbatim>\<open>map\<close> whose entries the code ranges over is an association list with
  distinct keys: \<open>al_put\<close> replaces in place or appends, \<open>al_del\<close> removes.
\<close>

fun al_put :: "'k \<Rightarrow> 'v \<Rightarrow> ('k \<times> 'v) list \<Rightarrow> ('k \<times> 'v) list" where
  "al_put k v [] = [(k, v)]"
| "al_put k v ((k', v') # xs) = (if k' = k then (k, v) # xs else (k', v') # al_put k v xs)"

definition al_del :: "'k \<Rightarrow> ('k \<times> 'v) list \<Rightarrow> ('k \<times> 'v) list" where
  "al_del k xs = filter (\<lambda>(k', _). k' \<noteq> k) xs"

definition al_wf :: "('k \<times> 'v) list \<Rightarrow> bool" where
  "al_wf xs \<longleftrightarrow> distinct (map fst xs)"

section \<open>Lemmas on integers and conversions\<close>

lemma wrap64_id: "int64_min \<le> x \<Longrightarrow> x \<le> int64_max \<Longrightarrow> wrap64 x = x"
  by (simp add: wrap64_def int64_min_def int64_max_def)

lemma wrap64_range: "int64_min \<le> wrap64 x \<and> wrap64 x \<le> int64_max"
proof -
  have "0 \<le> (x + 2 ^ 63) mod 2 ^ 64" and "(x + 2 ^ 63) mod 2 ^ 64 < (2 ^ 64 :: int)" by simp_all
  then show ?thesis by (simp add: wrap64_def int64_min_def int64_max_def)
qed

lemma f64_to_int_nonneg: "0 \<le> r \<Longrightarrow> 0 \<le> f64_to_int r"
  by (simp add: f64_to_int_def)

lemma f64_to_int_le: "0 \<le> r \<Longrightarrow> of_int (f64_to_int r) \<le> r"
  by (simp add: f64_to_int_def)

lemma f64_to_int_gt: "0 \<le> r \<Longrightarrow> r - 1 < of_int (f64_to_int r)"
  unfolding f64_to_int_def by (simp add: algebra_simps) linarith

lemma f64_to_int_mono: "0 \<le> r \<Longrightarrow> r \<le> s \<Longrightarrow> f64_to_int r \<le> f64_to_int s"
  by (simp add: f64_to_int_def floor_mono)

lemma f64_to_int_of_int [simp]: "f64_to_int (of_int n) = n"
  by (simp add: f64_to_int_def)

lemma div_trunc_nonneg: "0 \<le> a \<Longrightarrow> 0 \<le> b \<Longrightarrow> div_trunc a b = a div b"
  by (simp add: div_trunc_def)

lemma clamp_range: "low \<le> high \<Longrightarrow> low \<le> clamp v low high \<and> clamp v low high \<le> high"
  by (auto simp: clamp_def)

lemma clamp_mono: "v \<le> w \<Longrightarrow> clamp v low high \<le> clamp w low high"
  unfolding clamp_def by (meson max.mono min.mono order_refl)

lemma clamp_le_low: "v \<le> low \<Longrightarrow> low \<le> high \<Longrightarrow> clamp v low high = low"
  by (simp add: clamp_def)

section \<open>Lemmas on byte strings\<close>

lemma of_char_digit_char: "d < 10 \<Longrightarrow> (of_char (digit_char d) :: nat) = 48 + d"
  by (simp add: digit_char_def)

lemma digit_char_simps [simp]:
  "d < 10 \<Longrightarrow> is_digit (digit_char d)"
  "d < 10 \<Longrightarrow> digit_val (digit_char d) = d"
  by (simp_all add: is_digit_def digit_val_def of_char_digit_char)

lemma parse_digits_append:
  "parse_digits acc (xs @ ys) =
     (case parse_digits acc xs of None \<Rightarrow> None | Some n \<Rightarrow> parse_digits n ys)"
  by (induction acc xs rule: parse_digits.induct) auto

lemma nat_digits_nonempty [simp]: "nat_digits n \<noteq> []"
  by (subst nat_digits.simps) simp

lemma nat_digits_all_digits: "c \<in> set (nat_digits n) \<Longrightarrow> is_digit c"
  by (induction n rule: nat_digits.induct) (subst (asm) (2) nat_digits.simps, auto split: if_splits)

lemma parse_digits_nat_digits: "parse_digits 0 (nat_digits n) = Some n"
proof (induction n rule: nat_digits.induct)
  case (1 n)
  show ?case
  proof (cases "n < 10")
    case True
    then show ?thesis by (subst nat_digits.simps) simp
  next
    case False
    with 1 show ?thesis by (subst nat_digits.simps) (simp add: parse_digits_append)
  qed
qed

lemma parse_unsigned_nat_digits [simp]: "parse_unsigned (nat_digits n) = Some n"
  by (simp add: parse_unsigned_def parse_digits_nat_digits)

lemma digit_not_sign: "is_digit c \<Longrightarrow> c \<noteq> CHR ''-'' \<and> c \<noteq> CHR ''+''"
  by (auto simp: is_digit_def)

lemma parse_int64_itoa:
  assumes "int64_min \<le> n" and "n \<le> int64_max"
  shows "parse_int64 (itoa n) = Some n"
proof (cases "n < 0")
  case True
  with assms show ?thesis by (simp add: parse_int64_def itoa_def)
next
  case False
  obtain c cs where eq: "nat_digits (nat n) = c # cs"
    by (cases "nat_digits (nat n)") auto
  then have "is_digit c" using nat_digits_all_digits [of c "nat n"] by simp
  from digit_not_sign [OF this] False assms show ?thesis
    using parse_unsigned_nat_digits [of "nat n"]
    by (simp add: parse_int64_def itoa_def eq)
qed

lemma split_on_nonempty [simp]: "split_on sep s \<noteq> []"
  by (induction s) (auto split: list.splits)

lemma split_on_no_sep: "sep \<notin> set s \<Longrightarrow> split_on sep s = [s]"
  by (induction s) auto

lemma split_on_append:
  "sep \<notin> set w \<Longrightarrow> split_on sep (w @ sep # s) = w # split_on sep s"
  by (induction w) auto

lemma split_on_pieces: "w \<in> set (split_on sep s) \<Longrightarrow> sep \<notin> set w"
  by (induction s arbitrary: w) (auto split: if_splits list.splits)

lemma split_join:
  "ws \<noteq> [] \<Longrightarrow> \<forall>w\<in>set ws. sep \<notin> set w \<Longrightarrow> split_on sep (join_with sep ws) = ws"
  by (induction sep ws rule: join_with.induct) (auto simp: split_on_no_sep split_on_append)

lemma has_suffix_iff: "has_suffix s suf \<longleftrightarrow> (\<exists>p. s = p @ suf)"
proof
  assume "has_suffix s suf"
  then show "\<exists>p. s = p @ suf"
    unfolding has_suffix_def by (metis append_take_drop_id)
qed (auto simp: has_suffix_def)

lemma has_prefix_iff: "has_prefix s pre \<longleftrightarrow> (\<exists>r. s = pre @ r)"
proof
  assume "has_prefix s pre"
  then show "\<exists>r. s = pre @ r"
    unfolding has_prefix_def by (metis append_take_drop_id)
qed (auto simp: has_prefix_def)

lemma str_cut_append: "sep \<notin> set s \<Longrightarrow> str_cut sep (s @ sep # t) = Some (s, t)"
  by (induction s) (auto simp: str_cut_def)

section \<open>Lemmas on sorting by a comparison\<close>

lemma set_insert_by [simp]: "set (insert_by lt x xs) = insert x (set xs)"
  by (induction xs) auto

lemma set_sort_by [simp]: "set (sort_by lt xs) = set xs"
  unfolding sort_by_def by (induction xs) auto

lemma strict_total_onD:
  assumes "strict_total_on A lt"
  shows "x \<in> A \<Longrightarrow> \<not> lt x x"
    and "x \<in> A \<Longrightarrow> y \<in> A \<Longrightarrow> z \<in> A \<Longrightarrow> lt x y \<Longrightarrow> lt y z \<Longrightarrow> lt x z"
    and "x \<in> A \<Longrightarrow> y \<in> A \<Longrightarrow> x \<noteq> y \<Longrightarrow> lt x y \<or> lt y x"
  using assms unfolding strict_total_on_def by blast+

lemma strict_total_on_subset: "strict_total_on A lt \<Longrightarrow> B \<subseteq> A \<Longrightarrow> strict_total_on B lt"
  unfolding strict_total_on_def by blast

lemma sorted_insert_by:
  "strict_total_on (insert x (set xs)) lt \<Longrightarrow> x \<notin> set xs \<Longrightarrow> sorted_wrt lt xs \<Longrightarrow> sorted_wrt lt (insert_by lt x xs)"
proof (induction xs)
  case (Cons y ys)
  have "strict_total_on (insert x (set ys)) lt" by (rule strict_total_on_subset [OF Cons.prems(1)]) auto
  with Cons.IH Cons.prems have IH: "sorted_wrt lt (insert_by lt x ys)" by simp
  show ?case
  proof (cases "lt y x")
    case True
    with IH Cons.prems(3) show ?thesis by simp
  next
    case False
    then have xy: "lt x y" using strict_total_onD(3) [OF Cons.prems(1), of x y] Cons.prems(2) by simp
    have "lt x z" if "z \<in> set ys" for z
      using strict_total_onD(2) [OF Cons.prems(1), of x y z] Cons.prems(3) that xy by simp
    with xy show ?thesis using False Cons.prems(3) by simp
  qed
qed simp

lemma sorted_sort_by: "strict_total_on (set xs) lt \<Longrightarrow> distinct xs \<Longrightarrow> sorted_wrt lt (sort_by lt xs)"
proof (induction xs)
  case (Cons x xs)
  have "strict_total_on (set xs) lt" by (rule strict_total_on_subset [OF Cons.prems(1)]) auto
  with Cons have "sorted_wrt lt (sort_by lt xs)" by simp
  moreover have "strict_total_on (insert x (set (sort_by lt xs))) lt" using Cons.prems(1) by simp
  ultimately have "sorted_wrt lt (insert_by lt x (sort_by lt xs))"
    using Cons.prems(2) by (intro sorted_insert_by) simp_all
  then show ?case by (simp add: sort_by_def)
qed (simp add: sort_by_def)

lemma sorted_by_unique:
  "strict_total_on (set xs) lt \<Longrightarrow> sorted_wrt lt xs \<Longrightarrow> sorted_wrt lt ys \<Longrightarrow> set xs = set ys \<Longrightarrow> xs = ys"
proof (induction xs arbitrary: ys)
  case (Cons x xs)
  then obtain y zs where ys: "ys = y # zs" by (cases ys) auto
  have irr: "\<not> lt z z" if "z \<in> set (x # xs)" for z
    using strict_total_onD(1) [OF Cons.prems(1) that] .
  have "x = y"
  proof (rule ccontr)
    assume "x \<noteq> y"
    with Cons.prems(4) ys have "y \<in> set xs" "x \<in> set zs" by auto
    with Cons.prems(2,3) ys have "lt x y" "lt y x" by auto
    moreover have "x \<in> set (x # xs)" "y \<in> set (x # xs)" using Cons.prems(4) ys by auto
    ultimately have "lt x x" using strict_total_onD(2) [OF Cons.prems(1), of x y x] by blast
    with irr [of x] show False by simp
  qed
  moreover have "x \<notin> set xs" "x \<notin> set zs" using Cons.prems(2,3) ys irr \<open>x = y\<close> by auto
  then have "set xs = set zs" using Cons.prems(4) ys \<open>x = y\<close> by auto
  moreover have "strict_total_on (set xs) lt" by (rule strict_total_on_subset [OF Cons.prems(1)]) auto
  ultimately show ?case using Cons.IH [of zs] Cons.prems(2,3) ys by simp
qed simp

text \<open>Only the set matters, and sorting fewer elements drops the others.\<close>

lemma sort_by_eqI:
  assumes "strict_total_on (set xs) lt" and "distinct xs" "distinct ys" and "set xs = set ys"
  shows "sort_by lt xs = sort_by lt ys"
  using assms sorted_sort_by [of xs lt] sorted_sort_by [of ys lt] by (intro sorted_by_unique) auto

lemma sort_by_filter:
  assumes "strict_total_on (set xs) lt" and "distinct xs"
  shows "sort_by lt (filter P xs) = filter P (sort_by lt xs)"
proof (rule sorted_by_unique)
  have *: "strict_total_on (set (filter P xs)) lt" by (rule strict_total_on_subset [OF assms(1)]) auto
  then show "strict_total_on (set (sort_by lt (filter P xs))) lt" by simp
  show "sorted_wrt lt (sort_by lt (filter P xs))" using * assms(2) by (intro sorted_sort_by) auto
  show "sorted_wrt lt (filter P (sort_by lt xs))" using sorted_sort_by [OF assms] by (rule sorted_wrt_filter)
qed simp

section \<open>Lemmas on association lists\<close>

lemma nth_list_update':
  "xs[i := x] ! j = (if i = j \<and> i < length xs then x else xs ! j)"
  by (cases "i < length xs") (auto simp: nth_list_update not_less list_update_beyond)

lemma map_of_al_put [simp]: "map_of (al_put k v xs) = (map_of xs)(k \<mapsto> v)"
  by (induction k v xs rule: al_put.induct) auto

lemma keys_al_put [simp]: "fst ` set (al_put k v xs) = insert k (fst ` set xs)"
  by (induction k v xs rule: al_put.induct) auto

lemma al_wf_put [simp]: "al_wf xs \<Longrightarrow> al_wf (al_put k v xs)"
  unfolding al_wf_def by (induction k v xs rule: al_put.induct) auto

lemma map_of_al_del [simp]: "map_of (al_del k xs) = (map_of xs)(k := None)"
  unfolding al_del_def by (induction xs) auto

lemma al_wf_del [simp]: "al_wf xs \<Longrightarrow> al_wf (al_del k xs)"
  unfolding al_wf_def al_del_def by (induction xs) auto

lemma al_wf_Nil [simp]: "al_wf []"
  by (simp add: al_wf_def)

lemma al_wf_filter: "al_wf xs \<Longrightarrow> al_wf (filter P xs)"
  unfolding al_wf_def by (induction xs) auto

lemma map_of_filter_wf:
  "al_wf xs \<Longrightarrow> map_of (filter P xs) k =
     (case map_of xs k of None \<Rightarrow> None | Some v \<Rightarrow> if P (k, v) then Some v else None)"
  unfolding al_wf_def
  by (induction xs) (auto split: option.splits simp: map_of_eq_None_iff image_iff dest: map_of_SomeD)

section \<open>Spaced instants\<close>

definition spaced :: "int \<Rightarrow> int list \<Rightarrow> bool" where
  "spaced d xs \<longleftrightarrow> sorted_wrt (\<lambda>x y. x + d \<le> y) xs"

lemma spaced_filter: "spaced d xs \<Longrightarrow> spaced d (filter P xs)"
  by (simp add: spaced_def sorted_wrt_filter)

lemma spaced_count:
  assumes "spaced d xs" and "0 \<le> d" and "\<forall>x\<in>set xs. lo \<le> x \<and> x \<le> hi" and "xs \<noteq> []"
  shows "(int (length xs) - 1) * d \<le> hi - lo"
  using assms
proof (induction xs arbitrary: lo)
  case (Cons x xs)
  show ?case
  proof (cases "xs = []")
    case False
    have "(int (length xs) - 1) * d \<le> hi - (x + d)"
      using Cons.prems False by (intro Cons.IH) (auto simp: spaced_def)
    moreover have "lo \<le> x" using Cons.prems by simp
    ultimately show ?thesis by (simp add: algebra_simps)
  qed (use Cons.prems in auto)
qed simp

section \<open>Components as state machines\<close>

text \<open>
  The components that run one event at a time are used through this interface:
  a step function, the events its callers may issue in a state, and an
  invariant every such step keeps.  Its lemmas lift the invariant to whole
  runs and to every prefix of a run.
\<close>

fun ok_run :: "('e \<Rightarrow> 's \<Rightarrow> 's) \<Rightarrow> ('e \<Rightarrow> 's \<Rightarrow> bool) \<Rightarrow> 'e list \<Rightarrow> 's \<Rightarrow> bool" where
  "ok_run step ok [] s = True"
| "ok_run step ok (e # es) s = (ok e s \<and> ok_run step ok es (step e s))"

locale state_machine =
  fixes step :: "'e \<Rightarrow> 's \<Rightarrow> 's"
    and ok :: "'e \<Rightarrow> 's \<Rightarrow> bool"
    and inv :: "'s \<Rightarrow> bool"
  assumes step_inv: "inv s \<Longrightarrow> ok e s \<Longrightarrow> inv (step e s)"
begin

lemma run_inv: "inv s \<Longrightarrow> ok_run step ok es s \<Longrightarrow> inv (fold step es s)"
  by (induction es arbitrary: s) (auto intro: step_inv)

lemma ok_run_append:
  "ok_run step ok (es @ fs) s \<longleftrightarrow> ok_run step ok es s \<and> ok_run step ok fs (fold step es s)"
  by (induction es arbitrary: s) auto

lemma prefix_inv: "inv s \<Longrightarrow> ok_run step ok (es @ fs) s \<Longrightarrow> inv (fold step es s)"
  by (simp add: ok_run_append run_inv)

lemma run_total: "(\<And>e s. ok e s) \<Longrightarrow> ok_run step ok es s"
  by (induction es arbitrary: s) auto

end

end
