(* ===== verification/Support.thy ===== *)
theory Support
  imports Aquifer_Prelude
begin

text \<open>
  The small shared packages: \<^verbatim>\<open>internal/env\<close> (settings), \<^verbatim>\<open>internal/urlpolicy\<close>
  (allowed hosts), \<^verbatim>\<open>internal/nodeid\<close> (node naming), \<^verbatim>\<open>internal/httpx\<close> (the
  draining answer) and \<^verbatim>\<open>internal/retry\<close> (jitter).  The environment is a
  function from names to values, the empty string being an unset variable.
  The result of \<^verbatim>\<open>url.Parse(...).Hostname()\<close> and of \<^verbatim>\<open>os.Hostname()\<close> is an
  argument, \<^const>\<open>None\<close> standing for their error.
\<close>

definition env_Bool :: "environment \<Rightarrow> string \<Rightarrow> bool \<Rightarrow> bool" where
  "env_Bool env key def =
     (let v = env key
      in if v = '''' then def
         else if to_lower v \<in> {''1'', ''true'', ''yes''} then True
         else if to_lower v \<in> {''0'', ''false'', ''no''} then False
         else def)"

definition env_Int64 :: "environment \<Rightarrow> string \<Rightarrow> int \<Rightarrow> int" where
  "env_Int64 env key def =
     (let v = env key
      in if v = '''' then def else (case parse_int64 v of None \<Rightarrow> def | Some n \<Rightarrow> n))"

definition domain_allows :: "string \<Rightarrow> string \<Rightarrow> bool" where
  "domain_allows host entry =
     (let allowed = trim_space entry
      in allowed \<noteq> '''' \<and> (host = allowed \<or> has_suffix host (''.'' @ allowed)))"

definition Allowed :: "(string \<Rightarrow> string option) \<Rightarrow> environment \<Rightarrow> string \<Rightarrow> bool" where
  "Allowed hostname env rawURL =
     (let allowlist = env ''AQUIFER_ALLOWED_URL_DOMAINS''
      in if allowlist = '''' then True
         else (case hostname rawURL of
                 None \<Rightarrow> False
               | Some host \<Rightarrow> list_ex (domain_allows host) (split_on (CHR '','') allowlist)))"

fun first_set :: "environment \<Rightarrow> string list \<Rightarrow> string option" where
  "first_set env [] = None"
| "first_set env (name # names) =
     (let v = trim_space (env name) in if v \<noteq> '''' then Some v else first_set env names)"

definition Resolve :: "environment \<Rightarrow> string option \<Rightarrow> string" where
  "Resolve env hostname =
     (case first_set env [''AQUIFER_NODE_ID'', ''AQUIFER_CLUSTER_SELF_ID'', ''FLY_MACHINE_ID''] of
        Some v \<Rightarrow> v
      | None \<Rightarrow> (case hostname of Some h \<Rightarrow> if h \<noteq> '''' then h else ''unknown'' | None \<Rightarrow> ''unknown''))"

record response =
  rs_status :: int
  rs_headers :: "(string \<times> string) list"
  rs_error :: string

definition WriteDraining :: "int \<Rightarrow> response" where
  "WriteDraining retryAfter =
     (let secs = (if retryAfter \<le> 0 then 1 else retryAfter)
      in \<lparr> rs_status = 503,
           rs_headers = [(''Retry-After'', itoa secs), (''X-Aqueduct-Node-State'', ''draining''),
                         (''X-Aquifer-Node-State'', ''draining''), (''Connection'', ''close''),
                         (''Content-Type'', ''application/json'')],
           rs_error = ''aquifer is draining'' \<rparr>)"

text \<open>\<^verbatim>\<open>rand.Int63n(n)\<close>: any value of \<open>{0..<n}\<close>, chosen by the draw.\<close>

definition int63n :: "int \<Rightarrow> int \<Rightarrow> int" where
  "int63n draw n = draw mod n"

definition Jitter :: "int \<Rightarrow> ns \<Rightarrow> ns" where
  "Jitter draw d =
     (if d \<le> 0 then d
      else (let c = f64_to_int (of_int d * (1 / 10));
                ceiling = (if c \<le> 0 then 1 else c)
            in wrap64 (d + int63n draw (ceiling + 1))))"

section \<open>Lemmas\<close>

lemma Allowed_empty_list: "env ''AQUIFER_ALLOWED_URL_DOMAINS'' = '''' \<Longrightarrow> Allowed hostname env u"
  by (simp add: Allowed_def)

lemma Allowed_iff:
  assumes "env ''AQUIFER_ALLOWED_URL_DOMAINS'' \<noteq> ''''"
  shows "Allowed hostname env u \<longleftrightarrow>
    (\<exists>host entry. hostname u = Some host
       \<and> entry \<in> set (split_on (CHR '','') (env ''AQUIFER_ALLOWED_URL_DOMAINS''))
       \<and> trim_space entry \<noteq> ''''
       \<and> (host = trim_space entry \<or> (\<exists>sub. host = sub @ ''.'' @ trim_space entry)))"
  using assms by (auto simp: Allowed_def list_ex_iff domain_allows_def has_suffix_iff Let_def split: option.splits)

lemma Resolve_nonempty: "Resolve env hostname \<noteq> ''''"
  by (auto simp: Resolve_def Let_def split: option.splits if_splits)

lemma Jitter_bounds:
  assumes "0 < d" and "d < 2 ^ 62"
  shows "d \<le> Jitter draw d \<and> of_int (Jitter draw d) \<le> max (of_int d * (11 / 10)) (of_int d + 1 :: rat)"
proof -
  define c where "c = f64_to_int (of_int d * (1 / 10))"
  define k where "k = (if c \<le> 0 then 1 else c)"
  define j where "j = int63n draw (k + 1)"
  have c0: "0 \<le> c" and cle: "of_int c \<le> (of_int d * (1 / 10) :: rat)"
    using assms f64_to_int_nonneg [of "of_int d * (1 / 10)"] f64_to_int_le [of "of_int d * (1 / 10)"]
    unfolding c_def by simp_all
  have cd: "c \<le> d"
  proof -
    have "(of_int c :: rat) \<le> of_int d" using cle assms by (simp add: field_simps)
    then show ?thesis by simp
  qed
  have kpos: "0 < k" and kd: "k \<le> d" using c0 cd assms unfolding k_def by auto
  have j: "0 \<le> j" "j \<le> k"
    using pos_mod_bound [of "k + 1" draw] pos_mod_sign [of "k + 1" draw] kpos
    unfolding j_def int63n_def by auto
  have "d + j \<le> int64_max" using j kd assms by (simp add: int64_max_def)
  moreover have "int64_min \<le> d + j" using j assms by (simp add: int64_min_def)
  ultimately have val: "Jitter draw d = d + j"
    using assms unfolding Jitter_def Let_def c_def [symmetric] k_def [symmetric] j_def [symmetric]
    by (simp add: wrap64_id)
  have "(of_int j :: rat) \<le> max (of_int d * (1 / 10)) 1"
  proof (cases "c \<le> 0")
    case True
    then have "j \<le> 1" using j k_def by simp
    then show ?thesis by (simp add: le_max_iff_disj)
  next
    case False
    then have "(of_int j :: rat) \<le> of_int c" using j k_def by simp
    with cle show ?thesis by (simp add: le_max_iff_disj)
  qed
  then show ?thesis using j by (auto simp: val le_max_iff_disj)
qed

end
