(* ===== verification/Fair_Admission.thy ===== *)
theory Fair_Admission
  imports Support
begin

text \<open>
  \<^verbatim>\<open>internal/admission/fair.go\<close>: fair admission of one request to a target API's
  backlog.  The random draw of the code is an argument; the backlog counts
  exclude the request under decision, as in the code's call.
\<close>

record QueueSnapshot =
  qs_ActiveQueues :: int
  qs_UpstreamBacklog :: int
  qs_QueueBacklog :: int
  qs_MaxBacklog :: int
  qs_AdmissionPressure :: f64
  qs_RejectionProbability :: f64

record FairDecision =
  fd_Allowed :: bool
  fd_Reason :: string
  fd_Snapshot :: QueueSnapshot

definition FairStart :: f64 where "FairStart = 70 / 100"
definition FairCeiling :: f64 where "FairCeiling = 125 / 100"
definition defaultMaxPendingPerUpstream :: int where "defaultMaxPendingPerUpstream = 10000"

definition MaxPendingPerUpstream :: "environment \<Rightarrow> int" where
  "MaxPendingPerUpstream env =
     (let raw = env ''AQUIFER_MAX_PENDING_PER_UPSTREAM''
      in if raw = '''' then defaultMaxPendingPerUpstream
         else (case parse_int64 raw of
                 None \<Rightarrow> defaultMaxPendingPerUpstream
               | Some value \<Rightarrow> if value < 0 then defaultMaxPendingPerUpstream else value))"

text \<open>\<^verbatim>\<open>math.Nextafter(1, 0)\<close>, the largest float64 below 1.\<close>

definition nextafter_one :: f64 where
  "nextafter_one = 1 - 1 / 2 ^ 53"

definition DecideFairWithFloor ::
  "int \<Rightarrow> int \<Rightarrow> int \<Rightarrow> int \<Rightarrow> int \<Rightarrow> f64 \<Rightarrow> FairDecision" where
  "DecideFairWithFloor queuePending totalPending activeQueues0 maxBacklog ceilingFloor draw =
     (let activeQueues = (if activeQueues0 < 1 then 1 else activeQueues0);
          projectedQueue = queuePending + 1;
          projectedTotal = totalPending + 1;
          snapshot = \<lparr> qs_ActiveQueues = activeQueues, qs_UpstreamBacklog = projectedTotal,
                       qs_QueueBacklog = projectedQueue, qs_MaxBacklog = maxBacklog,
                       qs_AdmissionPressure = 0, qs_RejectionProbability = 0 \<rparr>
      in if maxBacklog \<le> 0 then \<lparr> fd_Allowed = True, fd_Reason = '''', fd_Snapshot = snapshot \<rparr>
         else
           (let fairShare = (of_int maxBacklog / of_int activeQueues :: f64)
            in if projectedTotal > maxBacklog then
                 (let underShare = (activeQueues > 1 \<and> of_int projectedQueue \<le> fairShare);
                      snapshot = snapshot\<lparr>qs_AdmissionPressure := 1\<rparr>
                  in if underShare \<and> of_int projectedTotal \<le> FairCeiling * of_int (max maxBacklog ceilingFloor)
                     then \<lparr> fd_Allowed = True, fd_Reason = '''', fd_Snapshot = snapshot \<rparr>
                     else \<lparr> fd_Allowed = False, fd_Reason = ''upstream_queue'',
                            fd_Snapshot = snapshot\<lparr>qs_RejectionProbability := 1\<rparr> \<rparr>)
               else if activeQueues = 1 then
                 \<lparr> fd_Allowed = True, fd_Reason = '''', fd_Snapshot = snapshot \<rparr>
               else
                 (let start = FairStart * of_int maxBacklog;
                      pressure = clamp ((of_int projectedTotal - start) / (of_int maxBacklog - start)) 0 1;
                      excess = clamp ((of_int projectedQueue - fairShare) / fairShare) 0 1;
                      probability = pressure * excess;
                      snapshot = snapshot\<lparr>qs_AdmissionPressure := pressure, qs_RejectionProbability := probability\<rparr>
                  in if probability > 0 \<and> clamp draw 0 nextafter_one < probability
                     then \<lparr> fd_Allowed = False, fd_Reason = ''queue_fair_share'', fd_Snapshot = snapshot \<rparr>
                     else \<lparr> fd_Allowed = True, fd_Reason = '''', fd_Snapshot = snapshot \<rparr>)))"

definition DecideFair :: "int \<Rightarrow> int \<Rightarrow> int \<Rightarrow> int \<Rightarrow> f64 \<Rightarrow> FairDecision" where
  "DecideFair queuePending totalPending activeQueues maxBacklog draw =
     DecideFairWithFloor queuePending totalPending activeQueues maxBacklog 0 draw"

section \<open>The contract of an admission policy\<close>

text \<open>
  What the worker of a target API relies on: with a positive budget, nothing is
  admitted past the ceiling, and what is admitted past the budget belongs to
  one of several queues within its share of the budget.
\<close>

locale backlog_policy =
  fixes admits :: "int \<Rightarrow> int \<Rightarrow> int \<Rightarrow> int \<Rightarrow> int \<Rightarrow> f64 \<Rightarrow> bool"
  assumes admits_ceiling:
    "admits q t a m fl draw \<Longrightarrow> 0 < m \<Longrightarrow> 4 * (t + 1) \<le> 5 * max m fl"
    and admits_over_budget:
    "admits q t a m fl draw \<Longrightarrow> 0 < m \<Longrightarrow> m < t + 1 \<Longrightarrow> 1 < a \<and> (q + 1) * a \<le> m"
    and admits_unlimited: "m \<le> 0 \<Longrightarrow> admits q t a m fl draw"
begin

text \<open>A single queue, or a queue past its share, never takes the backlog past the budget.\<close>

lemma over_share_within_budget:
  "admits q t a m fl draw \<Longrightarrow> 0 < m \<Longrightarrow> a \<le> 1 \<or> m < (q + 1) * a \<Longrightarrow> t + 1 \<le> m"
  using admits_over_budget [of q t a m fl draw] by force

text \<open>One admission keeps a backlog that respects the ceiling within it.\<close>

lemma admitted_total_le:
  assumes "admits q t a m fl draw" and "0 < m"
  shows "t + 1 \<le> max m fl + max m fl div 4"
proof -
  define x where "x = max m fl"
  have "4 * (t + 1) \<le> 5 * x" using admits_ceiling [OF assms] by (simp add: x_def)
  then have "t + 1 \<le> x + x div 4" by presburger
  then show ?thesis by (simp add: x_def)
qed

end

section \<open>Lemmas\<close>

definition fair_admits :: "int \<Rightarrow> int \<Rightarrow> int \<Rightarrow> int \<Rightarrow> int \<Rightarrow> f64 \<Rightarrow> bool" where
  "fair_admits q t a m fl draw = fd_Allowed (DecideFairWithFloor q t a m fl draw)"

definition fair_probability :: "int \<Rightarrow> int \<Rightarrow> int \<Rightarrow> int \<Rightarrow> f64" where
  "fair_probability q t a m =
     clamp ((of_int (t + 1) - FairStart * of_int m) / (of_int m - FairStart * of_int m)) 0 1
     * clamp ((of_int (q + 1) - of_int m / of_int a) / (of_int m / of_int a)) 0 1"

lemma fair_admits_unlimited: "m \<le> 0 \<Longrightarrow> fair_admits q t a m fl draw"
  by (simp add: fair_admits_def DecideFairWithFloor_def)

lemma share_le_iff:
  assumes "0 < a"
  shows "(of_int q \<le> (of_int m / of_int a :: rat)) \<longleftrightarrow> q * a \<le> m"
proof -
  have "(of_int q \<le> (of_int m / of_int a :: rat)) \<longleftrightarrow> (of_int (q * a) \<le> (of_int m :: rat))"
    using assms by (simp add: field_simps)
  then show ?thesis by (simp only: of_int_le_iff)
qed

lemma ceiling_le_iff: "(of_int t \<le> FairCeiling * (of_int m :: rat)) \<longleftrightarrow> 4 * t \<le> 5 * m"
proof -
  have "(of_int t \<le> FairCeiling * (of_int m :: rat)) \<longleftrightarrow> (of_int (4 * t) \<le> (of_int (5 * m) :: rat))"
    by (simp add: FairCeiling_def field_simps)
  then show ?thesis by (simp only: of_int_le_iff)
qed

lemma fair_admits_over:
  assumes "0 < m" and "m < t + 1"
  shows "fair_admits q t a m fl draw \<longleftrightarrow> 1 < a \<and> (q + 1) * a \<le> m \<and> 4 * (t + 1) \<le> 5 * max m fl"
proof (cases "1 < a")
  case True
  then show ?thesis
    using assms share_le_iff [of a "q + 1" m] ceiling_le_iff [of "t + 1" "max m fl"]
    by (simp add: fair_admits_def DecideFairWithFloor_def Let_def)
next
  case False
  then show ?thesis using assms by (simp add: fair_admits_def DecideFairWithFloor_def Let_def)
qed

lemma fair_admits_single:
  assumes "0 < m" and "t + 1 \<le> m" and "a \<le> 1"
  shows "fair_admits q t a m fl draw"
  using assms by (simp add: fair_admits_def DecideFairWithFloor_def Let_def)

lemma fair_admits_within:
  assumes "0 < m" and "t + 1 \<le> m" and "1 < a"
  shows "fair_admits q t a m fl draw \<longleftrightarrow>
     \<not> (fair_probability q t a m > 0 \<and> clamp draw 0 nextafter_one < fair_probability q t a m)"
  using assms by (simp add: fair_admits_def DecideFairWithFloor_def fair_probability_def Let_def)

interpretation fair: backlog_policy fair_admits
proof (unfold_locales, goal_cases)
  case (1 q t a m fl draw)
  then show ?case using fair_admits_over [of m t q a fl draw] by (cases "m < t + 1") auto
next
  case (2 q t a m fl draw)
  then show ?case by (simp add: fair_admits_over)
next
  case (3 m q t a fl draw)
  then show ?case by (rule fair_admits_unlimited)
qed

lemma fair_probability_range: "0 \<le> fair_probability q t a m \<and> fair_probability q t a m \<le> 1"
  unfolding fair_probability_def
  using clamp_range [of "0::rat" 1] by (simp add: mult_le_one)

lemma fair_probability_mono:
  assumes "0 < m" and "0 < a" and "q \<le> q'" and "t \<le> t'"
  shows "fair_probability q t a m \<le> fair_probability q' t' a m"
proof -
  have gap: "0 < (of_int m - FairStart * of_int m :: rat)"
    using assms by (simp add: FairStart_def field_simps)
  have share: "0 < (of_int m / of_int a :: rat)" using assms by simp
  have "clamp ((of_int (t + 1) - FairStart * of_int m) / (of_int m - FairStart * of_int m)) 0 (1::rat)
      \<le> clamp ((of_int (t' + 1) - FairStart * of_int m) / (of_int m - FairStart * of_int m)) 0 1"
    using gap assms by (intro clamp_mono divide_right_mono) auto
  moreover have "clamp ((of_int (q + 1) - of_int m / of_int a) / (of_int m / of_int a)) 0 (1::rat)
      \<le> clamp ((of_int (q' + 1) - of_int m / of_int a) / (of_int m / of_int a)) 0 1"
    using share assms by (intro clamp_mono divide_right_mono) auto
  ultimately show ?thesis
    unfolding fair_probability_def
    by (intro mult_mono) (use clamp_range [of "0::rat" 1] in auto)
qed

lemma fair_probability_under_share:
  assumes "0 < m" and "0 < a" and "(q + 1) * a \<le> m"
  shows "fair_probability q t a m = 0"
proof -
  have "of_int (q + 1) \<le> (of_int m / of_int a :: rat)"
    using assms share_le_iff [of a "q + 1" m] by simp
  moreover have "0 < (of_int m / of_int a :: rat)" using assms by simp
  ultimately have "(of_int (q + 1) - of_int m / of_int a) / (of_int m / of_int a) \<le> (0 :: rat)"
    by (intro divide_nonpos_pos) auto
  then show ?thesis by (simp add: fair_probability_def clamp_le_low)
qed

lemma fair_probability_full:
  assumes "0 < m" and "0 < a" and "2 * m \<le> (q + 1) * a" and "m \<le> t + 1"
  shows "fair_probability q t a m = 1"
proof -
  have gap: "0 < (of_int m - FairStart * of_int m :: rat)"
    using assms by (simp add: FairStart_def field_simps)
  have "(of_int m :: rat) \<le> of_int (t + 1)" using assms by (simp only: of_int_le_iff)
  then have "1 \<le> ((of_int (t + 1) - FairStart * of_int m) / (of_int m - FairStart * of_int m) :: rat)"
    using gap by (simp add: le_divide_eq)
  moreover have "1 \<le> ((of_int (q + 1) - of_int m / of_int a) / (of_int m / of_int a) :: rat)"
  proof -
    have "(of_int (2 * m) :: rat) \<le> of_int ((q + 1) * a)" using assms by (simp only: of_int_le_iff)
    then have "2 * (of_int m / of_int a) \<le> (of_int (q + 1) :: rat)"
      using assms by (simp add: field_simps)
    moreover have "0 < (of_int m / of_int a :: rat)" using assms by simp
    ultimately show ?thesis by (subst le_divide_eq_1_pos) linarith+
  qed
  ultimately show ?thesis by (simp add: fair_probability_def clamp_def min_def)
qed

lemma decide_within:
  assumes "0 < m" and "t + 1 \<le> m" and "1 < a"
  shows "qs_RejectionProbability (fd_Snapshot (DecideFairWithFloor q t a m fl draw)) = fair_probability q t a m"
    and "fd_Allowed (DecideFairWithFloor q t a m fl draw)
           \<longleftrightarrow> fair_probability q t a m \<le> clamp draw 0 nextafter_one"
proof -
  show "qs_RejectionProbability (fd_Snapshot (DecideFairWithFloor q t a m fl draw)) = fair_probability q t a m"
    using assms by (simp add: DecideFairWithFloor_def fair_probability_def Let_def)
  have "0 \<le> clamp draw 0 nextafter_one" by (simp add: clamp_def)
  then show "fd_Allowed (DecideFairWithFloor q t a m fl draw)
           \<longleftrightarrow> fair_probability q t a m \<le> clamp draw 0 nextafter_one"
    using fair_admits_within [OF assms, of q fl draw] fair_probability_range [of q t a m]
    by (auto simp: fair_admits_def)
qed

section \<open>Properties\<close>

text \<open>(C18) Fair admission, ceiling and fairness: with a positive budget no decision
  admits a request past 1.25 times the larger of budget and floor; past the
  budget only one of several queues within its share is admitted, and such a
  queue is admitted for every draw until that ceiling is reached.\<close>

theorem fair_ceiling_and_share:
  assumes "0 < m"
  shows "(fd_Allowed (DecideFairWithFloor q t a m fl draw)
            \<longrightarrow> of_int (t + 1) \<le> FairCeiling * of_int (max m fl))
       \<and> (m < t + 1 \<longrightarrow>
            (fd_Allowed (DecideFairWithFloor q t a m fl draw)
              \<longleftrightarrow> 1 < a \<and> (q + 1) * a \<le> m \<and> of_int (t + 1) \<le> FairCeiling * of_int (max m fl)))
       \<and> (1 < a \<and> (q + 1) * a \<le> m \<and> of_int (t + 1) \<le> FairCeiling * of_int (max m fl)
            \<longrightarrow> fd_Allowed (DecideFairWithFloor q t a m fl draw))"
proof -
  have over: "m < t + 1 \<Longrightarrow> fd_Allowed (DecideFairWithFloor q t a m fl draw)
      \<longleftrightarrow> 1 < a \<and> (q + 1) * a \<le> m \<and> 4 * (t + 1) \<le> 5 * max m fl"
    using fair_admits_over [OF assms] by (simp add: fair_admits_def)
  have "1 < a \<and> (q + 1) * a \<le> m \<and> t + 1 \<le> m \<longrightarrow> fd_Allowed (DecideFairWithFloor q t a m fl draw)"
    using assms decide_within(2) [of m t a q fl draw] fair_probability_under_share [of m a q t]
    by (simp add: clamp_def)
  moreover have "fd_Allowed (DecideFairWithFloor q t a m fl draw) \<longrightarrow> 4 * (t + 1) \<le> 5 * max m fl"
    using fair.admits_ceiling [of q t a m fl draw] assms by (simp add: fair_admits_def)
  ultimately show ?thesis unfolding ceiling_le_iff using over by (meson not_less)
qed

theorem fair_ceiling_and_share_witness:
  "(0::int) < 100 \<and> fd_Allowed (DecideFairWithFloor 4 110 10 100 0 0)
   \<and> \<not> fd_Allowed (DecideFairWithFloor 10 110 10 100 0 0)"
  using fair_ceiling_and_share [of 100 4 110 10 0 0] fair_ceiling_and_share [of 100 10 110 10 0 0]
  by (simp add: FairCeiling_def)

text \<open>The rejection probability below the budget: it lies between 0 and 1, the
  request is admitted exactly when the clamped draw reaches it, it is 0 for a
  queue within its share, grows with the queue's and the target's backlog, and
  a queue at twice its share is refused for every draw once the budget is full.\<close>

theorem rejection_probability_laws:
  assumes "0 < m" and "1 < a" and "t + 1 \<le> m"
  shows "let d = DecideFairWithFloor q t a m fl draw; p = qs_RejectionProbability (fd_Snapshot d)
         in 0 \<le> p \<and> p \<le> 1
          \<and> (fd_Allowed d \<longleftrightarrow> p \<le> clamp draw 0 nextafter_one)
          \<and> ((q + 1) * a \<le> m \<longrightarrow> p = 0)
          \<and> (2 * m \<le> (q + 1) * a \<and> t + 1 = m \<longrightarrow> \<not> fd_Allowed d)
          \<and> (q \<le> q' \<and> t \<le> t' \<and> t' + 1 \<le> m \<longrightarrow>
               p \<le> qs_RejectionProbability (fd_Snapshot (DecideFairWithFloor q' t' a m fl draw')))"
proof -
  have "clamp draw 0 nextafter_one < 1" by (simp add: clamp_def nextafter_one_def)
  moreover have "0 < a" using assms by simp
  ultimately show ?thesis
    using assms fair_probability_range [of q t a m] fair_probability_under_share [of m a q t]
      fair_probability_full [of m a q t] fair_probability_mono [of m a q q' t t']
    by (auto simp: Let_def decide_within)
qed

theorem rejection_probability_laws_witness:
  "(0::int) < 100 \<and> (1::int) < 2 \<and> (99::int) + 1 \<le> 100
   \<and> \<not> fd_Allowed (DecideFairWithFloor 99 99 2 100 0 1)
   \<and> qs_RejectionProbability (fd_Snapshot (DecideFairWithFloor 40 90 2 100 0 0)) = 0"
  using rejection_probability_laws [of 100 2 99 99 0 1 99 99 1]
    rejection_probability_laws [of 100 2 90 40 0 0 40 90 0]
  by (auto simp: Let_def)

end
