(* ===== verification/Admission_Control.thy ===== *)
theory Admission_Control
  imports Fair_Admission
begin

text \<open>
  \<^verbatim>\<open>internal/admission/admission.go\<close>: the limits that protect the process
  itself and the controller that checks them on every new job.  The readings
  the code takes (memory in use, database size, sync lag, file contents, free
  disk space) and the clock are arguments; times are nanoseconds, \<^const>\<open>None\<close> the
  zero time.  \<^verbatim>\<open>Check\<close> returns its decision and the controller it leaves.
\<close>

record Limits =
  li_MemoryLimitMB :: int
  li_MaxBodyBytes :: int
  li_DBMaxBytes :: int
  li_RetryAfterSeconds :: int
  li_MaxSyncLagMS :: int
  li_MemoryHardLimitPercent :: int

record memorySources =
  src_cgroupV2 :: "string option"
  src_cgroupV1 :: "string option"
  src_meminfo :: "string option"

definition defaultMaxBodyBytes :: int where "defaultMaxBodyBytes = 1 * 1024 * 1024"
definition defaultDBMaxBytes :: int where "defaultDBMaxBytes = 800 * 1024 * 1024"
definition autoDBMaxBytes :: int where "autoDBMaxBytes = -1"
definition dbShareOfDisk :: f64 where "dbShareOfDisk = 8 / 10"
definition autoMemoryLimitMB :: int where "autoMemoryLimitMB = -1"
definition memoryShareOfMachine :: f64 where "memoryShareOfMachine = 7 / 10"
definition maxRetryAfterSeconds :: int where "maxRetryAfterSeconds = 60"
definition defaultMemoryHardLimitPercent :: int where "defaultMemoryHardLimitPercent = 115"
definition defaultMaxSyncLagMS :: int where "defaultMaxSyncLagMS = 1000"
definition SampleTTL :: ns where "SampleTTL = 250 * millisecond"

fun fields_acc :: "string \<Rightarrow> string \<Rightarrow> string list" where
  "fields_acc w [] = (if w = [] then [] else [w])"
| "fields_acc w (c # cs) =
     (if is_space c then (if w = [] then fields_acc [] cs else w # fields_acc [] cs)
      else fields_acc (w @ [c]) cs)"

definition fields :: "string \<Rightarrow> string list" where
  "fields s = fields_acc [] s"

definition readIntFile :: "string option \<Rightarrow> int option" where
  "readIntFile data = (case data of None \<Rightarrow> None | Some d \<Rightarrow> parse_int64 (trim_space d))"

definition memTotal_line :: "string \<Rightarrow> int option" where
  "memTotal_line line =
     (case fields line of
        f0 # f1 # _ \<Rightarrow>
          if f0 = ''MemTotal:'' then
            (case parse_int64 f1 of
               Some kb \<Rightarrow> if kb > 0 then Some (wrap64 (kb * 1024)) else None
             | None \<Rightarrow> None)
          else None
      | _ \<Rightarrow> None)"

fun first_memTotal :: "string list \<Rightarrow> int option" where
  "first_memTotal [] = None"
| "first_memTotal (l # ls) = (case memTotal_line l of Some b \<Rightarrow> Some b | None \<Rightarrow> first_memTotal ls)"

definition cgroup_limit :: "string option \<Rightarrow> int option" where
  "cgroup_limit data =
     (case readIntFile data of
        Some n \<Rightarrow> if n > 0 \<and> n < 2 ^ 60 then Some n else None
      | None \<Rightarrow> None)"

definition availableMemoryBytes :: "memorySources \<Rightarrow> int \<times> string" where
  "availableMemoryBytes src =
     (case cgroup_limit (src_cgroupV2 src) of
        Some n \<Rightarrow> (n, ''the container's memory limit'')
      | None \<Rightarrow>
        (case cgroup_limit (src_cgroupV1 src) of
           Some n \<Rightarrow> (n, ''the container's memory limit'')
         | None \<Rightarrow>
           (case src_meminfo src of
              None \<Rightarrow> (0, '''')
            | Some d \<Rightarrow>
              (case first_memTotal (split_on (CHR 0x0A) d) of
                 Some b \<Rightarrow> (b, ''the machine's memory'')
               | None \<Rightarrow> (0, '''')))))"

definition deriveMemoryLimitMB :: "memorySources \<Rightarrow> int" where
  "deriveMemoryLimitMB src =
     (let bytes = fst (availableMemoryBytes src)
      in if bytes \<le> 0 then 0
         else div_trunc (f64_to_int (of_int bytes * memoryShareOfMachine)) (1024 * 1024))"

definition LoadLimits :: "environment \<Rightarrow> memorySources \<Rightarrow> Limits" where
  "LoadLimits env src =
     (let limits =
        \<lparr> li_MemoryLimitMB = env_Int64 env ''AQUIFER_MEMORY_LIMIT_MB'' autoMemoryLimitMB,
          li_MaxBodyBytes = env_Int64 env ''AQUIFER_MAX_BODY_BYTES'' defaultMaxBodyBytes,
          li_DBMaxBytes = env_Int64 env ''AQUIFER_DB_MAX_BYTES'' autoDBMaxBytes,
          li_RetryAfterSeconds = env_Int64 env ''AQUIFER_RETRY_AFTER_SECONDS'' 5,
          li_MaxSyncLagMS = env_Int64 env ''AQUIFER_MAX_SYNC_LAG_MS'' defaultMaxSyncLagMS,
          li_MemoryHardLimitPercent =
            env_Int64 env ''AQUIFER_MEMORY_HARD_LIMIT_PERCENT'' defaultMemoryHardLimitPercent \<rparr>
      in if li_MemoryLimitMB limits = autoMemoryLimitMB
         then limits\<lparr>li_MemoryLimitMB := deriveMemoryLimitMB src\<rparr>
         else limits)"

record Decision =
  d_Allowed :: bool
  d_Reason :: string
  d_Limit :: int
  d_Current :: int
  d_Queue :: "QueueSnapshot option"
  d_Soft :: bool

definition allow :: Decision where
  "allow = \<lparr> d_Allowed = True, d_Reason = '''', d_Limit = 0, d_Current = 0, d_Queue = None, d_Soft = False \<rparr>"

definition refuse :: "string \<Rightarrow> int \<Rightarrow> int \<Rightarrow> Decision" where
  "refuse reason limit current =
     \<lparr> d_Allowed = False, d_Reason = reason, d_Limit = limit, d_Current = current,
       d_Queue = None, d_Soft = False \<rparr>"

record Sampled =
  s_value :: int
  s_at :: "ns option"

definition sampled_Get :: "ns \<Rightarrow> int \<Rightarrow> Sampled \<Rightarrow> int \<times> Sampled" where
  "sampled_Get now reading s =
     (if (case s_at s of None \<Rightarrow> True | Some t0 \<Rightarrow> now - t0 \<ge> SampleTTL)
      then (reading, \<lparr> s_value = reading, s_at = Some now \<rparr>)
      else (s_value s, s))"

record Controller =
  c_limits :: Limits
  c_dbPath :: string
  c_rejectStreak :: int
  c_memSample :: Sampled
  c_dbSample :: Sampled
  c_syncLag :: bool

datatype fs_entry = NoEntry | RegularFile int | Directory "int list"

definition dbSizeBytes :: "fs_entry \<Rightarrow> int" where
  "dbSizeBytes e = (case e of NoEntry \<Rightarrow> 0 | RegularFile n \<Rightarrow> n | Directory sizes \<Rightarrow> sum_list sizes)"

definition processMemoryMB :: "64 word \<Rightarrow> 64 word \<Rightarrow> int" where
  "processMemoryMB totalBytes released = uint ((totalBytes - released) div (1024 * 1024))"

definition deriveDBMaxBytes :: "int option \<Rightarrow> fs_entry \<Rightarrow> int" where
  "deriveDBMaxBytes free db =
     (case free of
        None \<Rightarrow> defaultDBMaxBytes
      | Some f \<Rightarrow> f64_to_int (of_int (f + dbSizeBytes db) * dbShareOfDisk))"

definition NewController :: "Limits \<Rightarrow> string \<Rightarrow> int option \<Rightarrow> fs_entry \<Rightarrow> Controller" where
  "NewController limits dbPath free db =
     \<lparr> c_limits = (if li_DBMaxBytes limits < 0
                   then limits\<lparr>li_DBMaxBytes := deriveDBMaxBytes free db\<rparr> else limits),
       c_dbPath = dbPath, c_rejectStreak = 0,
       c_memSample = \<lparr> s_value = 0, s_at = None \<rparr>, c_dbSample = \<lparr> s_value = 0, s_at = None \<rparr>,
       c_syncLag = False \<rparr>"

definition WatchSyncLag :: "bool \<Rightarrow> Controller \<Rightarrow> Controller" where
  "WatchSyncLag reports c = (if reports then c\<lparr>c_syncLag := True\<rparr> else c)"

definition syncLagMS :: "ns \<Rightarrow> Controller \<Rightarrow> int" where
  "syncLagMS lag c = (if c_syncLag c then div_trunc lag millisecond else 0)"

definition memoryHardLimitMB :: "Controller \<Rightarrow> int" where
  "memoryHardLimitMB c =
     (let pct = li_MemoryHardLimitPercent (c_limits c)
      in if pct \<le> 100 then li_MemoryLimitMB (c_limits c)
         else div_trunc (li_MemoryLimitMB (c_limits c) * pct) 100)"

definition Refused :: "Controller \<Rightarrow> Controller" where
  "Refused c = c\<lparr>c_rejectStreak := c_rejectStreak c + 1\<rparr>"

definition Admitted :: "Controller \<Rightarrow> Controller" where
  "Admitted c = c\<lparr>c_rejectStreak := 0\<rparr>"

record readings =
  rd_now :: ns
  rd_memoryMB :: int
  rd_dbBytes :: int
  rd_syncLag :: ns

definition check_memory :: "readings \<Rightarrow> Controller \<Rightarrow> (Decision + Decision option) \<times> Controller" where
  "check_memory r c =
     (if li_MemoryLimitMB (c_limits c) > 0 then
        (let (currentMB, s) = sampled_Get (rd_now r) (rd_memoryMB r) (c_memSample c);
             c = c\<lparr>c_memSample := s\<rparr>
         in if currentMB > li_MemoryLimitMB (c_limits c) then
              (let memory = refuse ''memory'' (li_MemoryLimitMB (c_limits c)) currentMB
               in if currentMB > memoryHardLimitMB c then (Inl memory, Refused c)
                  else (Inr (Some (memory\<lparr>d_Soft := True\<rparr>)), c))
            else (Inr None, c))
      else (Inr None, c))"

definition check_db :: "readings \<Rightarrow> Controller \<Rightarrow> Decision option \<times> Controller" where
  "check_db r c =
     (if li_DBMaxBytes (c_limits c) > 0 \<and> c_dbPath c \<noteq> '''' then
        (let (size, s) = sampled_Get (rd_now r) (rd_dbBytes r) (c_dbSample c);
             c = c\<lparr>c_dbSample := s\<rparr>
         in if size > li_DBMaxBytes (c_limits c)
            then (Some (refuse ''db_size'' (li_DBMaxBytes (c_limits c)) size), Refused c)
            else (None, c))
      else (None, c))"

definition check_sync_lag :: "readings \<Rightarrow> Controller \<Rightarrow> Decision option \<times> Controller" where
  "check_sync_lag r c =
     (if li_MaxSyncLagMS (c_limits c) > 0 \<and> syncLagMS (rd_syncLag r) c > li_MaxSyncLagMS (c_limits c)
      then (Some (refuse ''sync_lag'' (li_MaxSyncLagMS (c_limits c)) (syncLagMS (rd_syncLag r) c)), Refused c)
      else (None, c))"

definition Check :: "readings \<Rightarrow> Controller \<Rightarrow> Decision \<times> Controller" where
  "Check r c =
     (case check_memory r c of
        (Inl hard, c) \<Rightarrow> (hard, c)
      | (Inr soft, c) \<Rightarrow>
        (case check_db r c of
           (Some d, c) \<Rightarrow> (d, c)
         | (None, c) \<Rightarrow>
           (case check_sync_lag r c of
              (Some d, c) \<Rightarrow> (d, c)
            | (None, c) \<Rightarrow>
              (case soft of
                 Some d \<Rightarrow> (d, c)
               | None \<Rightarrow> (allow, Admitted c)))))"

fun double_until_cap :: "nat \<Rightarrow> int \<Rightarrow> int" where
  "double_until_cap 0 backoff = backoff"
| "double_until_cap (Suc n) backoff =
     (if backoff < maxRetryAfterSeconds then double_until_cap n (backoff * 2) else backoff)"

definition RetryAfterSeconds :: "Controller \<Rightarrow> int" where
  "RetryAfterSeconds c =
     (let base = (if li_RetryAfterSeconds (c_limits c) \<le> 0 then 5 else li_RetryAfterSeconds (c_limits c));
          streak = c_rejectStreak c
      in if streak \<le> 1 then base
         else (let backoff = double_until_cap (nat (streak - 1)) base
               in if backoff > maxRetryAfterSeconds then maxRetryAfterSeconds else backoff))"

definition controller_Memory :: "readings \<Rightarrow> Controller \<Rightarrow> (int \<times> int) \<times> Controller" where
  "controller_Memory r c =
     (let (v, s) = sampled_Get (rd_now r) (rd_memoryMB r) (c_memSample c)
      in ((v, li_MemoryLimitMB (c_limits c)), c\<lparr>c_memSample := s\<rparr>))"

definition AnyLimitConfigured :: "Controller \<Rightarrow> bool" where
  "AnyLimitConfigured c \<longleftrightarrow> li_MemoryLimitMB (c_limits c) > 0 \<or> li_MaxBodyBytes (c_limits c) > 0
     \<or> li_DBMaxBytes (c_limits c) > 0"

definition FullnessRatio :: "readings \<Rightarrow> Controller \<Rightarrow> f64 \<times> Controller" where
  "FullnessRatio r c =
     (let (ratio, c) =
            (if li_MemoryLimitMB (c_limits c) > 0 then
               (let (v, s) = sampled_Get (rd_now r) (rd_memoryMB r) (c_memSample c)
                in (max 0 (of_int v / of_int (li_MemoryLimitMB (c_limits c))), c\<lparr>c_memSample := s\<rparr>))
             else (0, c));
          (ratio, c) =
            (if li_DBMaxBytes (c_limits c) > 0 \<and> c_dbPath c \<noteq> '''' then
               (let (v, s) = sampled_Get (rd_now r) (rd_dbBytes r) (c_dbSample c)
                in (max ratio (of_int v / of_int (li_DBMaxBytes (c_limits c))), c\<lparr>c_dbSample := s\<rparr>))
             else (ratio, c))
      in if li_MaxSyncLagMS (c_limits c) > 0
         then (max ratio (of_int (syncLagMS (rd_syncLag r) c) / of_int (li_MaxSyncLagMS (c_limits c))), c)
         else (ratio, c))"

text \<open>The decisions of successive checks and the controller after them.\<close>

fun check_run :: "readings list \<Rightarrow> Controller \<Rightarrow> Decision list \<times> Controller" where
  "check_run [] c = ([], c)"
| "check_run (r # rs) c =
     (let (d, c) = Check r c; (ds, c) = check_run rs c in (d # ds, c))"

definition effective_base :: "Controller \<Rightarrow> int" where
  "effective_base c =
     (if li_RetryAfterSeconds (c_limits c) \<le> 0 then 5 else li_RetryAfterSeconds (c_limits c))"

definition memory_reading :: "readings \<Rightarrow> Controller \<Rightarrow> int" where
  "memory_reading r c = fst (sampled_Get (rd_now r) (rd_memoryMB r) (c_memSample c))"

definition db_reading :: "readings \<Rightarrow> Controller \<Rightarrow> int" where
  "db_reading r c = fst (sampled_Get (rd_now r) (rd_dbBytes r) (c_dbSample c))"

definition sampled_mem :: "readings \<Rightarrow> Controller \<Rightarrow> Controller" where
  "sampled_mem r c =
     (if li_MemoryLimitMB (c_limits c) > 0
      then c\<lparr>c_memSample := snd (sampled_Get (rd_now r) (rd_memoryMB r) (c_memSample c))\<rparr> else c)"

definition sampled_db :: "readings \<Rightarrow> Controller \<Rightarrow> Controller" where
  "sampled_db r c =
     (if li_DBMaxBytes (c_limits c) > 0 \<and> c_dbPath c \<noteq> []
      then c\<lparr>c_dbSample := snd (sampled_Get (rd_now r) (rd_dbBytes r) (c_dbSample c))\<rparr> else c)"

definition over_soft :: "readings \<Rightarrow> Controller \<Rightarrow> bool" where
  "over_soft r c \<longleftrightarrow> li_MemoryLimitMB (c_limits c) > 0 \<and> memory_reading r c > li_MemoryLimitMB (c_limits c)"

definition over_hard :: "readings \<Rightarrow> Controller \<Rightarrow> bool" where
  "over_hard r c \<longleftrightarrow> over_soft r c \<and> memory_reading r c > memoryHardLimitMB c"

definition over_db :: "readings \<Rightarrow> Controller \<Rightarrow> bool" where
  "over_db r c \<longleftrightarrow> li_DBMaxBytes (c_limits c) > 0 \<and> c_dbPath c \<noteq> ''''
     \<and> db_reading r c > li_DBMaxBytes (c_limits c)"

definition over_lag :: "readings \<Rightarrow> Controller \<Rightarrow> bool" where
  "over_lag r c \<longleftrightarrow> li_MaxSyncLagMS (c_limits c) > 0
     \<and> syncLagMS (rd_syncLag r) c > li_MaxSyncLagMS (c_limits c)"

definition sample_controller :: Controller where
  "sample_controller =
     \<lparr> c_limits = \<lparr> li_MemoryLimitMB = 100, li_MaxBodyBytes = 0, li_DBMaxBytes = 0,
                     li_RetryAfterSeconds = 5, li_MaxSyncLagMS = 0, li_MemoryHardLimitPercent = 115 \<rparr>,
       c_dbPath = '''', c_rejectStreak = 0, c_memSample = \<lparr> s_value = 0, s_at = None \<rparr>,
       c_dbSample = \<lparr> s_value = 0, s_at = None \<rparr>, c_syncLag = False \<rparr>"

section \<open>Lemmas\<close>

lemma sampled_Get_fresh:
  assumes "sampled_Get now reading s = (v, s')"
  shows "v = s_value s' \<and> (\<exists>t. s_at s' = Some t \<and> (t = now \<or> now - t < SampleTTL))"
  using assms by (auto simp: sampled_Get_def SampleTTL_def split: if_splits option.splits)

lemma check_memory_cases:
  "check_memory r c =
     (if over_hard r c then
        (Inl (refuse ''memory'' (li_MemoryLimitMB (c_limits c)) (memory_reading r c)), Refused (sampled_mem r c))
      else if over_soft r c then
        (Inr (Some ((refuse ''memory'' (li_MemoryLimitMB (c_limits c)) (memory_reading r c))\<lparr>d_Soft := True\<rparr>)), sampled_mem r c)
      else (Inr None, sampled_mem r c))"
  by (simp add: check_memory_def over_hard_def over_soft_def memory_reading_def sampled_mem_def
      memoryHardLimitMB_def Let_def case_prod_beta)

lemma check_db_cases:
  "check_db r c =
     (if over_db r c then (Some (refuse ''db_size'' (li_DBMaxBytes (c_limits c)) (db_reading r c)), Refused (sampled_db r c))
      else (None, sampled_db r c))"
  by (simp add: check_db_def over_db_def sampled_db_def db_reading_def Let_def case_prod_beta)

lemma check_sync_lag_cases:
  "check_sync_lag r c =
     (if over_lag r c then (Some (refuse ''sync_lag'' (li_MaxSyncLagMS (c_limits c)) (syncLagMS (rd_syncLag r) c)), Refused c)
      else (None, c))"
  by (simp add: check_sync_lag_def over_lag_def)

lemma sampled_frame [simp]:
  "c_limits (sampled_mem r c) = c_limits c" "c_limits (sampled_db r c) = c_limits c"
  "c_rejectStreak (sampled_mem r c) = c_rejectStreak c" "c_rejectStreak (sampled_db r c) = c_rejectStreak c"
  "over_db r (sampled_mem r c) = over_db r c" "over_lag r (sampled_mem r c) = over_lag r c"
  "over_lag r (sampled_db r c) = over_lag r c"
  "db_reading r (sampled_mem r c) = db_reading r c"
  "syncLagMS l (sampled_mem r c) = syncLagMS l c" "syncLagMS l (sampled_db r c) = syncLagMS l c"
  by (simp_all add: sampled_mem_def sampled_db_def over_db_def over_lag_def db_reading_def syncLagMS_def)

lemma Check_cases:
  "Check r c =
     (if over_hard r c then
        (refuse ''memory'' (li_MemoryLimitMB (c_limits c)) (memory_reading r c), Refused (sampled_mem r c))
      else if over_db r c then
        (refuse ''db_size'' (li_DBMaxBytes (c_limits c)) (db_reading r c), Refused (sampled_db r (sampled_mem r c)))
      else if over_lag r c then
        (refuse ''sync_lag'' (li_MaxSyncLagMS (c_limits c)) (syncLagMS (rd_syncLag r) c),
         Refused (sampled_db r (sampled_mem r c)))
      else if over_soft r c then
        ((refuse ''memory'' (li_MemoryLimitMB (c_limits c)) (memory_reading r c))\<lparr>d_Soft := True\<rparr>,
         sampled_db r (sampled_mem r c))
      else (allow, Admitted (sampled_db r (sampled_mem r c))))"
  by (simp add: Check_def check_memory_cases check_db_cases check_sync_lag_cases)

lemma Check_streak:
  "c_rejectStreak (snd (Check r c)) =
     (if d_Allowed (fst (Check r c)) then 0
      else if d_Soft (fst (Check r c)) then c_rejectStreak c else c_rejectStreak c + 1)"
  unfolding Check_cases
  by (simp add: Refused_def Admitted_def allow_def refuse_def)

lemma Check_limits [simp]: "c_limits (snd (Check r c)) = c_limits c"
  unfolding Check_cases by (simp add: Refused_def Admitted_def)

lemma double_until_cap_done: "maxRetryAfterSeconds \<le> b \<Longrightarrow> double_until_cap n b = b"
  by (cases n) auto

lemma double_until_cap_closed:
  "0 < b \<Longrightarrow> min maxRetryAfterSeconds (double_until_cap n b) = min maxRetryAfterSeconds (b * 2 ^ n)"
proof (induction n arbitrary: b)
  case (Suc n)
  show ?case
  proof (cases "b < maxRetryAfterSeconds")
    case True
    with Suc.IH [of "b * 2"] Suc.prems show ?thesis by (simp add: ac_simps)
  next
    case False
    have "b * 1 \<le> b * 2 ^ Suc n" using Suc.prems by (intro mult_left_mono one_le_power) auto
    with False show ?thesis by (simp add: min_def)
  qed
qed simp

lemma RetryAfter_closed:
  assumes "1 \<le> c_rejectStreak c" and "effective_base c \<le> maxRetryAfterSeconds"
  shows "RetryAfterSeconds c
         = min maxRetryAfterSeconds (effective_base c * 2 ^ nat (c_rejectStreak c - 1))"
proof (cases "c_rejectStreak c = 1")
  case True
  with assms show ?thesis by (simp add: RetryAfterSeconds_def effective_base_def)
next
  case False
  have "0 < effective_base c" by (simp add: effective_base_def)
  from double_until_cap_closed [OF this, of "nat (c_rejectStreak c - 1)"] False assms
  show ?thesis by (simp add: RetryAfterSeconds_def effective_base_def [symmetric] Let_def min_def split: if_splits)
qed

lemma check_run_refused_streak:
  "\<forall>d\<in>set (fst (check_run rs c)). \<not> d_Allowed d \<and> \<not> d_Soft d
   \<Longrightarrow> c_rejectStreak (snd (check_run rs c)) = c_rejectStreak c + int (length rs)"
proof (induction rs arbitrary: c)
  case (Cons r rs)
  then have "\<not> d_Allowed (fst (Check r c))" "\<not> d_Soft (fst (Check r c))"
    and "\<forall>d\<in>set (fst (check_run rs (snd (Check r c)))). \<not> d_Allowed d \<and> \<not> d_Soft d"
    by (simp_all add: Let_def case_prod_beta)
  with Cons.IH [of "snd (Check r c)"] Check_streak [of r c] show ?case
    by (simp add: Let_def case_prod_beta)
qed simp

lemma check_run_limits [simp]: "c_limits (snd (check_run rs c)) = c_limits c"
  by (induction rs arbitrary: c) (simp_all add: Let_def case_prod_beta)

lemma check_run_append:
  "check_run (rs @ ss) c =
     (fst (check_run rs c) @ fst (check_run ss (snd (check_run rs c))),
      snd (check_run ss (snd (check_run rs c))))"
  by (induction rs arbitrary: c) (simp_all add: Let_def case_prod_beta)

lemma retry_after_can_drop:
  assumes "c_rejectStreak c = 1" and "li_RetryAfterSeconds (c_limits c) > maxRetryAfterSeconds"
  shows "RetryAfterSeconds c = li_RetryAfterSeconds (c_limits c)
    \<and> RetryAfterSeconds (Refused c) = maxRetryAfterSeconds"
  using assms by (simp add: RetryAfterSeconds_def Refused_def Let_def double_until_cap_done maxRetryAfterSeconds_def)

section \<open>Properties\<close>

text \<open>The self-protection check: a job is admitted exactly when no limit is
  exceeded; the soft refusal, left to the caller, is issued exactly when memory
  is between the limit and the hard limit and nothing else is exceeded; every
  other refusal raises the rejection streak by one, an admission clears it and
  a soft refusal leaves it alone; the limits never change.\<close>

theorem Check_decision:
  "let (d, c') = Check r c
   in (d_Allowed d \<longleftrightarrow> \<not> over_soft r c \<and> \<not> over_db r c \<and> \<not> over_lag r c)
    \<and> (d_Soft d \<longleftrightarrow> over_soft r c \<and> \<not> over_hard r c \<and> \<not> over_db r c \<and> \<not> over_lag r c)
    \<and> (d_Reason d = ''memory'' \<longleftrightarrow> over_hard r c \<or> d_Soft d)
    \<and> c_rejectStreak c' = (if d_Allowed d then 0 else if d_Soft d then c_rejectStreak c else c_rejectStreak c + 1)
    \<and> c_limits c' = c_limits c"
proof -
  have "over_hard r c \<Longrightarrow> over_soft r c" by (simp add: over_hard_def)
  moreover have "d_Allowed (fst (Check r c)) = (\<not> over_hard r c \<and> \<not> over_soft r c \<and> \<not> over_db r c \<and> \<not> over_lag r c)"
    and "d_Soft (fst (Check r c)) = (over_soft r c \<and> \<not> over_hard r c \<and> \<not> over_db r c \<and> \<not> over_lag r c)"
    and "(d_Reason (fst (Check r c)) = ''memory'')
          = (over_hard r c \<or> (over_soft r c \<and> \<not> over_hard r c \<and> \<not> over_db r c \<and> \<not> over_lag r c))"
    unfolding Check_cases by (simp_all add: allow_def refuse_def)
  ultimately show ?thesis
    using Check_streak [of r c] by (auto simp: Let_def case_prod_beta)
qed

text \<open>Retry-After: for a configured base of at most 60 seconds, after n consecutive
  hard refusals the advertised Retry-After is the base doubled n-1 times and
  capped at 60, and the first admitted job sends it back to the base.\<close>

theorem retry_after_backoff:
  assumes "c_rejectStreak c = 0" and "effective_base c \<le> maxRetryAfterSeconds" and "rs \<noteq> []"
    and "\<forall>d\<in>set (fst (check_run rs c)). \<not> d_Allowed d \<and> \<not> d_Soft d"
  shows "RetryAfterSeconds (snd (check_run rs c))
           = min maxRetryAfterSeconds (effective_base c * 2 ^ (length rs - 1))
       \<and> (d_Allowed (last (fst (check_run (rs @ [r]) c)))
            \<longrightarrow> RetryAfterSeconds (snd (check_run (rs @ [r]) c)) = effective_base c)"
proof
  let ?c = "snd (check_run rs c)"
  have streak: "c_rejectStreak ?c = int (length rs)"
    using check_run_refused_streak [OF assms(4)] assms(1) by simp
  have "effective_base ?c = effective_base c" by (simp add: effective_base_def)
  moreover have "nat (int (length rs) - 1) = length rs - 1" by simp
  ultimately show "RetryAfterSeconds ?c = min maxRetryAfterSeconds (effective_base c * 2 ^ (length rs - 1))"
    using RetryAfter_closed [of ?c] streak assms by (simp add: Suc_leI)
  show "d_Allowed (last (fst (check_run (rs @ [r]) c)))
        \<longrightarrow> RetryAfterSeconds (snd (check_run (rs @ [r]) c)) = effective_base c"
    using Check_streak [of r ?c]
    by (simp add: check_run_append Let_def case_prod_beta RetryAfterSeconds_def effective_base_def)
qed

theorem retry_after_backoff_witness:
  "RetryAfterSeconds (snd (check_run (replicate 3 \<lparr> rd_now = 0, rd_memoryMB = 200, rd_dbBytes = 0, rd_syncLag = 0 \<rparr>) sample_controller)) = 20"
proof -
  let ?r = "\<lparr> rd_now = 0, rd_memoryMB = 200, rd_dbBytes = 0, rd_syncLag = 0 \<rparr>"
  have "\<forall>d\<in>set (fst (check_run (replicate 3 ?r) sample_controller)). \<not> d_Allowed d \<and> \<not> d_Soft d"
    by code_simp
  from retry_after_backoff [OF _ _ _ this, of ?r] show ?thesis
    by (simp add: sample_controller_def effective_base_def maxRetryAfterSeconds_def)
qed

end
