(* ===== verification/Inbound_Rate.thy ===== *)
theory Inbound_Rate
  imports Support
begin

text \<open>
  \<^verbatim>\<open>internal/admission/inbound_rate.go\<close>: the controller of the rate advertised to
  callers.  \<open>tick\<close> is the whole per-second handler; the clock, the backlog and the
  sync lag it reads are its arguments.  Times and durations are nanoseconds.
\<close>

record InboundRateSnapshot =
  is_AdvertisedRPS :: f64
  is_PerCallerRPS :: f64
  is_ActiveCallers :: int
  is_InsertsPerSec :: int
  is_P95InsertMs :: f64
  is_BaselineMs :: f64
  is_BenchmarkRPS :: f64
  is_ServerBacklog :: int
  is_SyncLagMs :: f64
  is_ThresholdRPS :: f64
  is_Cuts :: int
  is_Raises :: int
  is_LastAdjustment :: string

record InboundRateController =
  ib_benchmark :: f64
  ib_floor :: f64
  ib_ceiling :: f64
  ib_rate :: f64
  ib_threshold :: f64
  ib_cooldown :: int
  ib_congested :: bool
  ib_episode :: int
  ib_backlog :: bool
  ib_syncLag :: bool
  ib_syncLagLimit :: ns
  ib_prevBacklog :: int
  ib_backlogGrows :: int
  ib_inserts :: int
  ib_latencies :: "ns list"
  ib_callers :: "(string \<times> ns) list"
  ib_baseline :: ns
  ib_last :: InboundRateSnapshot

definition inboundCallerTTL :: ns where "inboundCallerTTL = 3 * second"
definition inboundMinSamples :: int where "inboundMinSamples = 20"
definition inboundLatencySlack :: ns where "inboundLatencySlack = 2 * millisecond"
definition inboundMaxSamples :: int where "inboundMaxSamples = 8192"
definition inboundCut :: f64 where "inboundCut = 7 / 10"
definition inboundFastGrowth :: f64 where "inboundFastGrowth = 15 / 10"
definition inboundCarefulGrowth :: f64 where "inboundCarefulGrowth = 105 / 100"
definition inboundCutCooldownTicks :: int where "inboundCutCooldownTicks = 3"
definition inboundEpisodeRecutTicks :: int where "inboundEpisodeRecutTicks = 10"
definition inboundBacklogGrowthTicks :: int where "inboundBacklogGrowthTicks = 3"
definition inboundOvershootFactor :: f64 where "inboundOvershootFactor = 15 / 10"
definition inboundUsedFraction :: f64 where "inboundUsedFraction = 8 / 10"
definition inboundSyncLagLimit :: ns where "inboundSyncLagLimit = 500 * millisecond"

lemmas inbound_consts = inboundCallerTTL_def inboundMinSamples_def inboundLatencySlack_def
  inboundMaxSamples_def inboundCut_def inboundFastGrowth_def inboundCarefulGrowth_def
  inboundCutCooldownTicks_def inboundEpisodeRecutTicks_def inboundBacklogGrowthTicks_def
  inboundOvershootFactor_def inboundUsedFraction_def inboundSyncLagLimit_def

text \<open>\<^verbatim>\<open>math.Round\<close>: half away from zero.\<close>

definition math_Round :: "f64 \<Rightarrow> f64" where
  "math_Round v = (if v \<ge> 0 then of_int \<lfloor>v + 1 / 2\<rfloor> else of_int \<lceil>v - 1 / 2\<rceil>)"

definition round2 :: "f64 \<Rightarrow> f64" where
  "round2 v = math_Round (v * 100) / 100"

definition percentile :: "ns list \<Rightarrow> f64 \<Rightarrow> ns" where
  "percentile samples q =
     (if samples = [] then 0
      else (let sorted = sort samples;
                n = int (length sorted)
            in sorted ! nat (min (f64_to_int (of_int (n - 1) * q + 1 / 2)) (n - 1))))"

definition activeCallersLocked :: "ns \<Rightarrow> InboundRateController \<Rightarrow> int \<times> InboundRateController" where
  "activeCallersLocked now c =
     (let live = filter (\<lambda>(_, seen). \<not> now - seen > inboundCallerTTL) (ib_callers c)
      in (int (length live), c\<lparr>ib_callers := live\<rparr>))"

definition snapshotLocked ::
  "ns \<Rightarrow> int \<Rightarrow> ns \<Rightarrow> string \<Rightarrow> InboundRateController \<Rightarrow> InboundRateSnapshot \<times> InboundRateController" where
  "snapshotLocked now inserts p95 adjustment c0 =
     (let (active, c) = activeCallersLocked now c0;
          snap = \<lparr> is_AdvertisedRPS = round2 (ib_rate c),
                   is_PerCallerRPS = round2 (ib_rate c / of_int (max active 1)),
                   is_ActiveCallers = active, is_InsertsPerSec = inserts,
                   is_P95InsertMs = round2 (of_int p95 / of_int millisecond),
                   is_BaselineMs = round2 (of_int (ib_baseline c) / of_int millisecond),
                   is_BenchmarkRPS = ib_benchmark c, is_ServerBacklog = 0, is_SyncLagMs = 0,
                   is_ThresholdRPS = round2 (ib_threshold c), is_Cuts = is_Cuts (ib_last c),
                   is_Raises = is_Raises (ib_last c), is_LastAdjustment = adjustment \<rparr>
      in (if has_prefix adjustment ''cut'' then snap\<lparr>is_Cuts := is_Cuts snap + 1\<rparr>
          else if adjustment = ''raise'' then snap\<lparr>is_Raises := is_Raises snap + 1\<rparr>
          else snap, c))"

definition empty_snapshot :: InboundRateSnapshot where
  "empty_snapshot =
     \<lparr> is_AdvertisedRPS = 0, is_PerCallerRPS = 0, is_ActiveCallers = 0, is_InsertsPerSec = 0,
       is_P95InsertMs = 0, is_BaselineMs = 0, is_BenchmarkRPS = 0, is_ServerBacklog = 0,
       is_SyncLagMs = 0, is_ThresholdRPS = 0, is_Cuts = 0, is_Raises = 0, is_LastAdjustment = '''' \<rparr>"

definition newInboundRateController :: "f64 \<Rightarrow> f64 \<Rightarrow> ns \<Rightarrow> InboundRateController" where
  "newInboundRateController benchmark0 startPercent now =
     (let benchmark = (if benchmark0 \<le> 0 then 400 else benchmark0);
          c = \<lparr> ib_benchmark = benchmark, ib_floor = 1, ib_ceiling = benchmark * 10,
                ib_rate = max (benchmark * startPercent / 100) 1, ib_threshold = benchmark,
                ib_cooldown = 0, ib_congested = False, ib_episode = 0, ib_backlog = False,
                ib_syncLag = False, ib_syncLagLimit = 0, ib_prevBacklog = -1, ib_backlogGrows = 0,
                ib_inserts = 0, ib_latencies = [], ib_callers = [], ib_baseline = 0,
                ib_last = empty_snapshot \<rparr>;
          (snap, c) = snapshotLocked now 0 0 ''start'' c
      in c\<lparr>ib_last := snap\<rparr>)"

definition SetBacklogSource :: "InboundRateController \<Rightarrow> InboundRateController" where
  "SetBacklogSource c = c\<lparr>ib_backlog := True\<rparr>"

definition SetSyncLagSource :: "ns \<Rightarrow> InboundRateController \<Rightarrow> InboundRateController" where
  "SetSyncLagSource flushInterval c =
     c\<lparr>ib_syncLag := True, ib_syncLagLimit := max inboundSyncLagLimit (2 * flushInterval)\<rparr>"

definition Observe :: "ns \<Rightarrow> string \<Rightarrow> ns \<Rightarrow> bool \<Rightarrow> InboundRateController \<Rightarrow> InboundRateController" where
  "Observe now userID latency inserted c =
     (let c = (if userID \<noteq> '''' then c\<lparr>ib_callers := al_put userID now (ib_callers c)\<rparr> else c);
          c = (if inserted then c\<lparr>ib_inserts := ib_inserts c + 1\<rparr> else c)
      in if int (length (ib_latencies c)) < inboundMaxSamples
         then c\<lparr>ib_latencies := ib_latencies c @ [latency]\<rparr> else c)"

definition AdvertisedRPS :: "ns \<Rightarrow> string \<Rightarrow> InboundRateController \<Rightarrow> f64 \<times> InboundRateController" where
  "AdvertisedRPS now userID c =
     (let c = (if userID \<noteq> '''' then c\<lparr>ib_callers := al_put userID now (ib_callers c)\<rparr> else c);
          (active, c) = activeCallersLocked now c
      in (ib_rate c / of_int (max active 1), c))"

text \<open>\<open>tick\<close> in the order of the code: latency, backlog, disk, then the adjustment.\<close>

definition tick_baseline :: "ns list \<Rightarrow> InboundRateController \<Rightarrow> InboundRateController" where
  "tick_baseline samples c =
     (let p95 = percentile samples (95 / 100)
      in if int (length samples) \<ge> inboundMinSamples then
           (if ib_baseline c = 0 \<or> p95 < ib_baseline c then c\<lparr>ib_baseline := p95\<rparr>
            else c\<lparr>ib_baseline := f64_to_int (of_int (ib_baseline c) * (99 / 100) + of_int p95 * (1 / 100))\<rparr>)
         else c)"

definition latency_healthy :: "ns list \<Rightarrow> InboundRateController \<Rightarrow> bool" where
  "latency_healthy samples c \<longleftrightarrow>
     \<not> int (length samples) \<ge> inboundMinSamples
     \<or> percentile samples (95 / 100) \<le> f64_to_int (of_int (ib_baseline c) * (15 / 10)) + inboundLatencySlack"

definition backlog_growing :: "int \<Rightarrow> int \<Rightarrow> InboundRateController \<Rightarrow> bool" where
  "backlog_growing backlog inserts c \<longleftrightarrow>
     ib_prevBacklog c \<ge> 0 \<and> backlog \<ge> 0
     \<and> of_int (backlog - ib_prevBacklog c) > max (10 :: f64) ((1 / 10) * of_int inserts)"

definition tick_adjust ::
  "bool \<Rightarrow> string \<Rightarrow> bool \<Rightarrow> int \<Rightarrow> InboundRateController \<Rightarrow> string \<times> InboundRateController" where
  "tick_adjust healthy cutReason backlogGrowing inserts c0 =
     (let overshoot = of_int inserts > ib_rate c0 * inboundOvershootFactor;
          used = of_int inserts \<ge> ib_rate c0 * inboundUsedFraction;
          c = (if healthy then c0\<lparr>ib_congested := False\<rparr> else c0);
          c = (if ib_cooldown c > 0 then c\<lparr>ib_cooldown := ib_cooldown c - 1\<rparr> else c);
          c = (if ib_congested c then c\<lparr>ib_episode := ib_episode c + 1\<rparr> else c)
      in if \<not> healthy \<and> (\<not> ib_congested c \<or> ib_episode c \<ge> inboundEpisodeRecutTicks) \<and> ib_cooldown c = 0 then
           (let c = (if \<not> ib_congested c
                     then c\<lparr>ib_threshold := max (ib_rate c * (9 / 10)) (ib_floor c), ib_congested := True\<rparr>
                     else c)
            in (cutReason,
                c\<lparr>ib_episode := 0, ib_rate := max (ib_rate c * inboundCut) (ib_floor c),
                  ib_cooldown := inboundCutCooldownTicks\<rparr>))
         else if \<not> healthy then (''hold: waiting for last cut'', c)
         else if backlogGrowing then (''hold: backlog growing'', c)
         else if overshoot then (''hold: callers over advertised rate'', c)
         else if used then
           (let c = c\<lparr>ib_congested := False\<rparr>;
                growth = (if ib_rate c \<ge> ib_threshold c then inboundCarefulGrowth else inboundFastGrowth)
            in (''raise'', c\<lparr>ib_rate := min (ib_rate c * growth) (ib_ceiling c)\<rparr>))
         else (''hold'', c))"

definition tick :: "ns \<Rightarrow> int \<Rightarrow> ns \<Rightarrow> InboundRateController \<Rightarrow> InboundRateController" where
  "tick now backlogReading syncLagReading c0 =
     (let inserts = ib_inserts c0;
          samples = ib_latencies c0;
          c = c0\<lparr>ib_inserts := 0, ib_latencies := []\<rparr>;
          p95 = percentile samples (95 / 100);
          c = tick_baseline samples c;
          latencyHealthy = latency_healthy samples c;
          backlog = (if ib_backlog c then backlogReading else -1);
          backlogGrowing = backlog_growing backlog inserts c;
          c = c\<lparr>ib_backlogGrows := (if backlogGrowing then ib_backlogGrows c + 1 else 0), ib_prevBacklog := backlog\<rparr>;
          backlogOverloaded = (ib_backlogGrows c \<ge> inboundBacklogGrowthTicks);
          syncLag = (if ib_syncLag c then syncLagReading else 0);
          diskBehind = (ib_syncLag c \<and> syncLag > ib_syncLagLimit c);
          healthy = (latencyHealthy \<and> \<not> backlogOverloaded \<and> \<not> diskBehind);
          cutReason = (if \<not> latencyHealthy then ''cut: insert latency''
                       else if diskBehind then ''cut: disk behind'' else ''cut: backlog growing'');
          (adjustment, c) = tick_adjust healthy cutReason backlogGrowing inserts c;
          (snap, c) = snapshotLocked now inserts p95 adjustment c
      in c\<lparr>ib_last := snap\<lparr>is_ServerBacklog := max backlog 0,
                          is_SyncLagMs := round2 (of_int syncLag / of_int millisecond)\<rparr>\<rparr>)"

text \<open>The calls a controller receives over its life.\<close>

datatype inbound_event =
    ITick ns int ns
  | IObserve ns string ns bool
  | IAdvertise ns string
  | ISetBacklog
  | ISetSyncLag ns

fun inbound_step :: "inbound_event \<Rightarrow> InboundRateController \<Rightarrow> InboundRateController" where
  "inbound_step (ITick now b l) c = tick now b l c"
| "inbound_step (IObserve now u lat ins) c = Observe now u lat ins c"
| "inbound_step (IAdvertise now u) c = snd (AdvertisedRPS now u c)"
| "inbound_step ISetBacklog c = SetBacklogSource c"
| "inbound_step (ISetSyncLag flush) c = SetSyncLagSource flush c"

definition inbound_inv :: "InboundRateController \<Rightarrow> bool" where
  "inbound_inv c \<longleftrightarrow> 0 < ib_floor c \<and> ib_floor c \<le> ib_rate c \<and> ib_rate c \<le> ib_ceiling c
     \<and> 0 \<le> ib_cooldown c \<and> ib_cooldown c \<le> inboundCutCooldownTicks
     \<and> al_wf (ib_callers c) \<and> int (length (ib_latencies c)) \<le> inboundMaxSamples"

definition is_cut :: "InboundRateController \<Rightarrow> bool" where
  "is_cut c \<longleftrightarrow> has_prefix (is_LastAdjustment (ib_last c)) ''cut''"

fun is_tick :: "inbound_event \<Rightarrow> bool" where
  "is_tick (ITick now b l) = True"
| "is_tick _ = False"

section \<open>Lemmas\<close>

lemma activeCallers_frame [simp]:
  "ib_rate (snd (activeCallersLocked now c)) = ib_rate c"
  "ib_floor (snd (activeCallersLocked now c)) = ib_floor c"
  "ib_ceiling (snd (activeCallersLocked now c)) = ib_ceiling c"
  "ib_cooldown (snd (activeCallersLocked now c)) = ib_cooldown c"
  "ib_latencies (snd (activeCallersLocked now c)) = ib_latencies c"
  "ib_last (snd (activeCallersLocked now c)) = ib_last c"
  by (simp_all add: activeCallersLocked_def Let_def)

lemma activeCallers_wf [simp]:
  "al_wf (ib_callers c) \<Longrightarrow> al_wf (ib_callers (snd (activeCallersLocked now c)))"
  by (simp add: activeCallersLocked_def Let_def al_wf_filter)

lemma snapshot_frame [simp]:
  "snd (snapshotLocked now i p a c) = snd (activeCallersLocked now c)"
  "is_LastAdjustment (fst (snapshotLocked now i p a c)) = a"
  by (simp_all add: snapshotLocked_def Let_def case_prod_beta)

lemma tick_adjust_inv:
  assumes "inbound_inv c"
  shows "inbound_inv (snd (tick_adjust h r g i c))"
proof -
  have grow: "x \<le> x * inboundCarefulGrowth" "x \<le> x * inboundFastGrowth" if "0 < x" for x :: rat
    using that by (simp_all add: inbound_consts)
  show ?thesis
    using assms grow(1) [of "ib_rate c"] grow(2) [of "ib_rate c"]
    unfolding tick_adjust_def Let_def inbound_inv_def
    by (auto simp: inbound_consts split: if_splits)
qed

lemma tick_baseline_frame [simp]:
  "ib_rate (tick_baseline s c) = ib_rate c" "ib_floor (tick_baseline s c) = ib_floor c"
  "ib_ceiling (tick_baseline s c) = ib_ceiling c" "ib_cooldown (tick_baseline s c) = ib_cooldown c"
  "ib_callers (tick_baseline s c) = ib_callers c" "ib_latencies (tick_baseline s c) = ib_latencies c"
  "ib_threshold (tick_baseline s c) = ib_threshold c" "ib_congested (tick_baseline s c) = ib_congested c"
  "ib_episode (tick_baseline s c) = ib_episode c"
  by (simp_all add: tick_baseline_def Let_def)

text \<open>Every tick is one adjustment of the controller's core fields.\<close>

lemma tick_adjustment:
  obtains c1 h r g where
    "ib_rate c1 = ib_rate c" "ib_floor c1 = ib_floor c" "ib_ceiling c1 = ib_ceiling c"
    "ib_cooldown c1 = ib_cooldown c" "ib_callers c1 = ib_callers c" "ib_latencies c1 = []"
    "has_prefix r ''cut''"
    "tick now b l c = (snd (activeCallersLocked now (snd (tick_adjust h r g (ib_inserts c) c1))))
       \<lparr>ib_last := ib_last (tick now b l c)\<rparr>"
    "is_LastAdjustment (ib_last (tick now b l c)) = fst (tick_adjust h r g (ib_inserts c) c1)"
proof -
  let ?c0 = "c\<lparr>ib_inserts := 0, ib_latencies := []\<rparr>"
  let ?cb = "tick_baseline (ib_latencies c) ?c0"
  let ?bl = "if ib_backlog ?cb then b else -1"
  let ?g = "backlog_growing ?bl (ib_inserts c) ?cb"
  let ?c1 = "?cb\<lparr>ib_backlogGrows := (if ?g then ib_backlogGrows ?cb + 1 else 0), ib_prevBacklog := ?bl\<rparr>"
  let ?lh = "latency_healthy (ib_latencies c) ?cb"
  let ?dk = "ib_syncLag ?c1 \<and> (if ib_syncLag ?c1 then l else 0) > ib_syncLagLimit ?c1"
  let ?h = "?lh \<and> \<not> ib_backlogGrows ?c1 \<ge> inboundBacklogGrowthTicks \<and> \<not> ?dk"
  let ?r = "if \<not> ?lh then ''cut: insert latency'' else if ?dk then ''cut: disk behind'' else ''cut: backlog growing''"
  show ?thesis
    by (rule that [of ?c1 ?r ?h ?g])
      (simp_all add: has_prefix_def tick_def Let_def case_prod_beta)
qed

lemma tick_inv: "inbound_inv c \<Longrightarrow> inbound_inv (tick now b l c)"
proof -
  assume inv: "inbound_inv c"
  obtain c1 h r g where c1: "ib_rate c1 = ib_rate c" "ib_floor c1 = ib_floor c" "ib_ceiling c1 = ib_ceiling c"
    "ib_cooldown c1 = ib_cooldown c" "ib_callers c1 = ib_callers c" "ib_latencies c1 = []"
    and tick: "tick now b l c = (snd (activeCallersLocked now (snd (tick_adjust h r g (ib_inserts c) c1))))
       \<lparr>ib_last := ib_last (tick now b l c)\<rparr>"
    by (rule tick_adjustment [of c now b l]) blast
  have "inbound_inv c1" using inv c1 by (simp add: inbound_inv_def inbound_consts)
  from tick_adjust_inv [OF this, of h r g "ib_inserts c"] show ?thesis
    by (subst tick) (simp add: inbound_inv_def)
qed

lemma Observe_inv: "inbound_inv c \<Longrightarrow> inbound_inv (Observe now u lat ins c)"
  by (auto simp: inbound_inv_def Observe_def Let_def)

lemma AdvertisedRPS_inv: "inbound_inv c \<Longrightarrow> inbound_inv (snd (AdvertisedRPS now u c))"
  by (auto simp: inbound_inv_def AdvertisedRPS_def Let_def case_prod_beta)

lemma source_inv:
  "inbound_inv c \<Longrightarrow> inbound_inv (SetBacklogSource c)"
  "inbound_inv c \<Longrightarrow> inbound_inv (SetSyncLagSource flush c)"
  by (simp_all add: inbound_inv_def SetBacklogSource_def SetSyncLagSource_def)

interpretation inbound: state_machine inbound_step "\<lambda>_ _. True" inbound_inv
proof unfold_locales
  fix c :: InboundRateController and e
  assume "inbound_inv c"
  then show "inbound_inv (inbound_step e c)"
    by (cases e) (simp_all add: tick_inv Observe_inv AdvertisedRPS_inv source_inv)
qed

lemma new_controller_inv:
  assumes "1 / 10 \<le> benchmark" and "startPercent \<le> 1000"
  shows "inbound_inv (newInboundRateController benchmark startPercent now)"
proof -
  have "benchmark * startPercent / 100 \<le> benchmark * 10"
    using assms mult_left_mono [of startPercent 1000 benchmark] by simp
  then show ?thesis
    using assms unfolding newInboundRateController_def inbound_inv_def
    by (simp add: Let_def case_prod_beta inbound_consts)
qed

lemma tick_adjust_cut:
  assumes "has_prefix (fst (tick_adjust h r g i c)) ''cut''" and "0 \<le> ib_cooldown c"
  shows "ib_cooldown c \<le> 1 \<and> ib_cooldown (snd (tick_adjust h r g i c)) = inboundCutCooldownTicks
       \<and> ib_rate (snd (tick_adjust h r g i c)) = max (ib_rate c * inboundCut) (ib_floor c)"
  using assms by (auto simp: tick_adjust_def Let_def has_prefix_def split: if_splits)

lemma tick_adjust_cooldown:
  "ib_cooldown c - 1 \<le> ib_cooldown (snd (tick_adjust h r g i c)) \<or> ib_cooldown c \<le> 0"
  by (auto simp: tick_adjust_def Let_def inbound_consts split: if_splits)

lemma tick_cut:
  assumes "is_cut (tick now b l c)" and "inbound_inv c"
  shows "ib_cooldown c \<le> 1 \<and> ib_cooldown (tick now b l c) = inboundCutCooldownTicks
       \<and> ib_rate (tick now b l c) = max (ib_rate c * inboundCut) (ib_floor c)"
proof -
  obtain c1 h r g where c1: "ib_rate c1 = ib_rate c" "ib_floor c1 = ib_floor c" "ib_cooldown c1 = ib_cooldown c"
    and tick: "tick now b l c = (snd (activeCallersLocked now (snd (tick_adjust h r g (ib_inserts c) c1))))
       \<lparr>ib_last := ib_last (tick now b l c)\<rparr>"
    and adj: "is_LastAdjustment (ib_last (tick now b l c)) = fst (tick_adjust h r g (ib_inserts c) c1)"
    by (rule tick_adjustment [of c now b l]) blast
  have "has_prefix (fst (tick_adjust h r g (ib_inserts c) c1)) ''cut''" "0 \<le> ib_cooldown c1"
    using assms adj c1 by (simp_all add: is_cut_def inbound_inv_def)
  from tick_adjust_cut [OF this] c1 show ?thesis
    by (subst (1 2) tick) simp
qed

lemma tick_cooldown: "ib_cooldown c - 1 \<le> ib_cooldown (tick now b l c) \<or> ib_cooldown c \<le> 0"
proof -
  obtain c1 h r g where c1: "ib_cooldown c1 = ib_cooldown c"
    and tick: "tick now b l c = (snd (activeCallersLocked now (snd (tick_adjust h r g (ib_inserts c) c1))))
       \<lparr>ib_last := ib_last (tick now b l c)\<rparr>"
    by (rule tick_adjustment [of c now b l]) blast
  have "ib_cooldown (tick now b l c) = ib_cooldown (snd (tick_adjust h r g (ib_inserts c) c1))"
    by (subst tick) simp
  then show ?thesis using tick_adjust_cooldown [of c1 h r g "ib_inserts c"] c1 by simp
qed

lemma run_cooldown:
  assumes "inbound_inv c"
  shows "ib_cooldown c - int (length (filter is_tick es)) \<le> ib_cooldown (fold inbound_step es c)"
  using assms
proof (induction es arbitrary: c)
  case (Cons e es)
  have inv: "inbound_inv (inbound_step e c)" using Cons.prems by (simp add: inbound.step_inv)
  have "ib_cooldown c - (if is_tick e then 1 else 0) \<le> ib_cooldown (inbound_step e c)"
  proof (cases e)
    case (ITick now b l)
    then show ?thesis using tick_cooldown [of c now b l] inv by (auto simp: inbound_inv_def)
  qed (simp_all add: Observe_def AdvertisedRPS_def SetBacklogSource_def SetSyncLagSource_def Let_def case_prod_beta)
  with Cons.IH [OF inv] show ?case by (auto split: if_splits)
qed simp

section \<open>Properties\<close>

text \<open>(C19) The advertised rate stays within its bounds: from a controller started with
  a benchmark of at least 0.1 and a start of at most 1000 percent, after any
  sequence of ticks, observations and advertisements, whatever the clock,
  backlog and disk readings, the rate lies between the floor of 1 and the
  ceiling, the next caller is advertised an equal positive share of it, and no
  more than 8192 latency samples are held.\<close>

theorem inbound_rate_bounds:
  assumes "1 / 10 \<le> benchmark" and "startPercent \<le> 1000"
    and "c = fold inbound_step es (newInboundRateController benchmark startPercent t0)"
    and "AdvertisedRPS now u c = (share, c')"
  shows "0 < ib_floor c \<and> ib_floor c \<le> ib_rate c \<and> ib_rate c \<le> ib_ceiling c
       \<and> 0 < share \<and> share * of_int (max (int (length (ib_callers c'))) 1) = ib_rate c
       \<and> int (length (ib_latencies c)) \<le> inboundMaxSamples"
proof -
  have inv: "inbound_inv c"
    unfolding assms(3) by (intro inbound.run_inv inbound.run_total new_controller_inv assms(1,2)) simp
  let ?n = "max (int (length (ib_callers c'))) 1"
  have share: "share = ib_rate c / of_int ?n"
    using assms(4) by (auto simp: AdvertisedRPS_def activeCallersLocked_def Let_def split: if_splits)
  have n: "(0::rat) < of_int ?n" by (simp only: of_int_0_less_iff)
  have "0 < share" unfolding share using inv n by (intro divide_pos_pos) (auto simp: inbound_inv_def)
  moreover have "share * of_int ?n = ib_rate c" unfolding share using n by simp
  ultimately show ?thesis using inv by (simp add: inbound_inv_def)
qed

theorem inbound_rate_bounds_witness:
  "ib_rate (fold inbound_step [IObserve 0 ''u'' 5 True, ITick 1 0 0] (newInboundRateController 400 40 0)) \<ge> 1
   \<and> fst (AdvertisedRPS 2 ''u'' (fold inbound_step [IObserve 0 ''u'' 5 True, ITick 1 0 0] (newInboundRateController 400 40 0))) > 0"
proof -
  let ?c = "fold inbound_step [IObserve 0 ''u'' 5 True, ITick 1 0 0] (newInboundRateController 400 40 0)"
  have "ib_floor ?c = 1" by code_simp
  with inbound_rate_bounds [of 400 40 ?c "[IObserve 0 ''u'' 5 True, ITick 1 0 0]" 0 2 "''u''"
      "fst (AdvertisedRPS 2 ''u'' ?c)" "snd (AdvertisedRPS 2 ''u'' ?c)"]
  show ?thesis by simp
qed

text \<open>Cuts are spaced and sized: in any such run, each cut sets the rate to 70
  percent of what it was (not below the floor), and between two ticks that cut
  there are at least two ticks that do not, so callers have three ticks to
  react.\<close>

theorem inbound_cut_spacing:
  assumes "1 / 10 \<le> benchmark" and "startPercent \<le> 1000"
    and "c0 = fold inbound_step es (newInboundRateController benchmark startPercent t0)"
    and "c1 = tick n1 b1 l1 c0" and "is_cut c1"
    and "c2 = fold inbound_step mid c1"
    and "is_cut (tick n2 b2 l2 c2)"
  shows "ib_rate c1 = max (ib_rate c0 * inboundCut) (ib_floor c0)
       \<and> 2 \<le> length (filter is_tick mid)"
proof -
  have inv0: "inbound_inv c0"
    unfolding assms(3) by (intro inbound.run_inv inbound.run_total new_controller_inv assms(1,2)) simp
  then have inv1: "inbound_inv c1" unfolding assms(4) by (rule tick_inv)
  then have inv2: "inbound_inv c2"
    unfolding assms(6) by (intro inbound.run_inv inbound.run_total) simp_all
  have cut1: "ib_cooldown c1 = inboundCutCooldownTicks"
    "ib_rate c1 = max (ib_rate c0 * inboundCut) (ib_floor c0)"
    using tick_cut [OF _ inv0] assms(4,5) by auto
  have "ib_cooldown c2 \<le> 1" using tick_cut [OF assms(7) inv2] by simp
  with run_cooldown [OF inv1, of mid] cut1 assms(6) show ?thesis
    by (simp add: inbound_consts)
qed

theorem inbound_cut_spacing_witness:
  "is_cut (tick 0 0 (10 * second) (fold inbound_step [ISetSyncLag 0] (newInboundRateController 400 40 0)))
   \<and> ib_rate (tick 0 0 (10 * second) (fold inbound_step [ISetSyncLag 0] (newInboundRateController 400 40 0))) = 112
   \<and> (2::nat) \<le> 9"
proof -
  let ?c0 = "fold inbound_step [ISetSyncLag 0] (newInboundRateController 400 40 0)"
  let ?c1 = "tick 0 0 (10 * second) ?c0"
  let ?mid = "replicate 9 (ITick 0 0 (10 * second))"
  have cut1: "is_cut ?c1" by code_simp
  have cut2: "is_cut (tick 0 0 (10 * second) (fold inbound_step ?mid ?c1))" by code_simp
  have "ib_rate ?c0 = 160 \<and> ib_floor ?c0 = 1" by code_simp
  with inbound_cut_spacing [OF _ _ refl refl cut1 refl cut2] cut1
  show ?thesis by (simp add: inbound_consts)
qed

end
