(* ===== verification/Jobs.thy ===== *)
theory Jobs
  imports Support
begin

text \<open>
  \<^verbatim>\<open>internal/jobs/job.go\<close>: the job record, request validation, idempotency
  identities, retry limits and the deadlines of a queued job.  Times are Unix
  milliseconds.  \<^verbatim>\<open>HashKey\<close> (hex SHA-256) is the argument \<open>H\<close> of the definitions
  that use it; a fresh id from \<^verbatim>\<open>NewID\<close> is an argument of \<open>new_job\<close>.
\<close>

datatype Status = StatusQueued | StatusInFlight | StatusCompleted | StatusFailed

record Job =
  j_ID :: string
  j_UserID :: string
  j_IdempotentKey :: string
  j_URL :: string
  j_PoolID :: string
  j_Method :: string
  j_Headers :: "(string \<times> string) list"
  j_Body :: string
  j_WebhookURL :: string
  j_Kind :: string
  j_Status :: Status
  j_CreatedAt :: ms
  j_ExecuteBefore :: ms
  j_IdempotencyScope :: string
  j_MaxRetries :: int
  j_Attempts :: int
  j_WebhookMaxRetries :: "int option"
  j_DedupHash :: string
  j_OriginMachineID :: string
  j_OriginRegion :: string
  j_VisitedRegions :: "string list"
  j_RerouteCount :: int

record LedgerEntry =
  le_HashKey :: string
  le_JobID :: string
  le_Status :: Status

record DrainEvent =
  de_Sequence :: int
  de_HashKey :: string
  de_JobID :: string
  de_Status :: Status
  de_RecordedAt :: ms

record Request =
  r_UserID :: string
  r_IdempotentKey :: string
  r_URL :: string
  r_PoolID :: string
  r_Method :: string
  r_Headers :: "(string \<times> string) list"
  r_Body :: string
  r_WebhookURL :: string
  r_ExecuteBefore :: ms
  r_IdempotencyScope :: string
  r_MaxRetries :: "int option"
  r_WebhookMaxRetries :: "int option"
  r_OriginMachineID :: string
  r_OriginRegion :: string
  r_VisitedRegions :: "string list"
  r_RerouteCount :: int
  r_DirectOnly :: bool
  r_AccountQueueMode :: string

record Result =
  re_JobID :: string
  re_Status :: Status
  re_ResponseStatus :: int
  re_ContentType :: string
  re_Body :: string
  re_BodyTruncated :: bool
  re_RecordedAt :: ms
  re_Source :: string

record PageCursor =
  pc_CreatedAt :: ms
  pc_ID :: string

definition DefaultMaxRetries :: int where "DefaultMaxRetries = 4"
definition RetryUntilComplete :: int where "RetryUntilComplete = -1"
definition MaxAllowedRetries :: int where "MaxAllowedRetries = 100"
definition DefaultWebhookMaxRetries :: int where "DefaultWebhookMaxRetries = 10"
definition IdempotencyScopeUser :: string where "IdempotencyScopeUser = ''user''"
definition IdempotencyScopeShared :: string where "IdempotencyScopeShared = ''shared''"
definition KindUser :: string where "KindUser = ''user''"
definition KindWebhookDelivery :: string where "KindWebhookDelivery = ''webhook_delivery''"
definition QueuedTTL :: ms where "QueuedTTL = 24 * 60 * 60 * 1000"
definition PendingRowGrace :: ms where "PendingRowGrace = 15 * 60 * 1000"

lemmas job_consts = DefaultMaxRetries_def RetryUntilComplete_def MaxAllowedRetries_def
  DefaultWebhookMaxRetries_def IdempotencyScopeUser_def IdempotencyScopeShared_def
  KindUser_def KindWebhookDelivery_def QueuedTTL_def PendingRowGrace_def

definition nul :: char where "nul = CHR 0x00"

definition em_dash :: string where "em_dash = [CHR 0xE2, CHR 0x80, CHR 0x94]"

definition SharedIdempotencyEnabled :: "environment \<Rightarrow> bool" where
  "SharedIdempotencyEnabled env = env_Bool env ''AQUIFER_SHARED_IDEMPOTENCY_ENABLED'' False"

definition validRetryLimit :: "int option \<Rightarrow> bool" where
  "validRetryLimit n =
     (case n of None \<Rightarrow> True | Some k \<Rightarrow> RetryUntilComplete \<le> k \<and> k \<le> MaxAllowedRetries)"

definition Validate :: "(string \<Rightarrow> string option) \<Rightarrow> environment \<Rightarrow> Request \<Rightarrow> string" where
  "Validate hostname env r =
     (if r_ExecuteBefore r < 0 then ''execute_before must be a positive Unix timestamp in milliseconds''
      else if r_UserID r = '''' then ''user_id is required''
      else if nul \<in> set (r_UserID r) then ''user_id must not contain NUL characters''
      else if r_IdempotentKey r = '''' then ''idempotent_key is required''
      else if \<not> validRetryLimit (r_MaxRetries r)
        then ''max_retries must be -1 (retry until complete) or between 0 and 100''
      else if \<not> validRetryLimit (r_WebhookMaxRetries r)
        then ''webhook_max_retries must be -1 (retry until delivered) or between 0 and 100''
      else if r_IdempotencyScope r \<noteq> '''' \<and> r_IdempotencyScope r \<noteq> IdempotencyScopeUser
              \<and> r_IdempotencyScope r \<noteq> IdempotencyScopeShared
        then ''idempotency_scope must be \"user\" or \"shared\"''
      else if r_IdempotencyScope r = IdempotencyScopeShared \<and> \<not> SharedIdempotencyEnabled env
        then ''idempotency_scope \"shared\" requires AQUIFER_SHARED_IDEMPOTENCY_ENABLED=true''
      else if r_URL r = '''' \<and> r_PoolID r = '''' then ''either url or pool_id is required''
      else if r_URL r \<noteq> '''' \<and> r_PoolID r \<noteq> ''''
        then ''url and pool_id are mutually exclusive '' @ em_dash @ '' a job dispatches to one or the other''
      else if r_Method r = '''' then ''method is required''
      else if r_URL r \<noteq> '''' \<and> \<not> Allowed hostname env (r_URL r)
        then ''url domain is not in the configured allowlist (AQUIFER_ALLOWED_URL_DOMAINS)''
      else '''')"

definition dedup_identity :: "string \<Rightarrow> string \<Rightarrow> string \<Rightarrow> string" where
  "dedup_identity userID key scope =
     (if scope = IdempotencyScopeShared then ''shared'' @ nul # key else userID @ '':'' @ key)"

definition DedupHash :: "(string \<Rightarrow> string) \<Rightarrow> string \<Rightarrow> string \<Rightarrow> string \<Rightarrow> string" where
  "DedupHash H userID key scope = H (dedup_identity userID key scope)"

definition IdempotencyHash :: "(string \<Rightarrow> string) \<Rightarrow> Job \<Rightarrow> string" where
  "IdempotencyHash H j =
     (if j_DedupHash j \<noteq> '''' then j_DedupHash j
      else DedupHash H (j_UserID j) (j_IdempotentKey j) (j_IdempotencyScope j))"

definition resolveMaxRetries :: "int option \<Rightarrow> int" where
  "resolveMaxRetries requested = (case requested of None \<Rightarrow> DefaultMaxRetries | Some n \<Rightarrow> n)"

definition new_job :: "(string \<Rightarrow> string) \<Rightarrow> string \<Rightarrow> ms \<Rightarrow> Request \<Rightarrow> Job" where
  "new_job H newID now r =
     \<lparr> j_ID = newID, j_UserID = r_UserID r, j_IdempotentKey = r_IdempotentKey r,
       j_URL = r_URL r, j_PoolID = r_PoolID r, j_Method = to_upper (r_Method r),
       j_Headers = r_Headers r, j_Body = r_Body r, j_WebhookURL = r_WebhookURL r,
       j_Kind = KindUser, j_Status = StatusQueued, j_CreatedAt = now,
       j_ExecuteBefore = r_ExecuteBefore r, j_IdempotencyScope = r_IdempotencyScope r,
       j_MaxRetries = resolveMaxRetries (r_MaxRetries r), j_Attempts = 0,
       j_WebhookMaxRetries = r_WebhookMaxRetries r,
       j_DedupHash = DedupHash H (r_UserID r) (r_IdempotentKey r) (r_IdempotencyScope r),
       j_OriginMachineID = r_OriginMachineID r, j_OriginRegion = r_OriginRegion r,
       j_VisitedRegions = r_VisitedRegions r, j_RerouteCount = r_RerouteCount r \<rparr>"

definition WebhookRetryLimit :: "Job \<Rightarrow> int" where
  "WebhookRetryLimit j =
     (case j_WebhookMaxRetries j of None \<Rightarrow> DefaultWebhookMaxRetries | Some n \<Rightarrow> n)"

definition RetryDeadline :: "Job \<Rightarrow> ms" where
  "RetryDeadline j =
     (if j_ExecuteBefore j > 0 then j_ExecuteBefore j else j_CreatedAt j + QueuedTTL)"

definition HasRetriesLeft :: "Job \<Rightarrow> bool" where
  "HasRetriesLeft j \<longleftrightarrow> j_MaxRetries j = RetryUntilComplete \<or> j_Attempts j < j_MaxRetries j"

definition ExecutionExpired :: "ms \<Rightarrow> Job \<Rightarrow> bool" where
  "ExecutionExpired now j \<longleftrightarrow> j_ExecuteBefore j > 0 \<and> now \<ge> j_ExecuteBefore j"

definition IsWebhookDelivery :: "Job \<Rightarrow> bool" where
  "IsWebhookDelivery j =
     (if j_Kind j \<noteq> '''' then j_Kind j = KindWebhookDelivery else j_WebhookURL j = '''')"

text \<open>Go compares strings bytewise; \<open>str_le\<close> is \<^verbatim>\<open><=\<close> on strings.\<close>

fun str_le :: "string \<Rightarrow> string \<Rightarrow> bool" where
  "str_le [] t = True"
| "str_le (a # s) [] = False"
| "str_le (a # s) (b # t) =
     ((of_char a :: nat) < of_char b \<or> (a = b \<and> str_le s t))"

definition CursorAt :: "Job \<Rightarrow> PageCursor" where
  "CursorAt j = \<lparr> pc_CreatedAt = j_CreatedAt j, pc_ID = j_ID j \<rparr>"

definition Covers :: "PageCursor \<Rightarrow> Job \<Rightarrow> bool" where
  "Covers c j \<longleftrightarrow> j_CreatedAt j < pc_CreatedAt c
     \<or> (j_CreatedAt j = pc_CreatedAt c \<and> str_le (j_ID j) (pc_ID c))"

definition QueueDeadline :: "Job \<Rightarrow> ms" where
  "QueueDeadline j =
     (if j_ExecuteBefore j > 0 then j_ExecuteBefore j
      else if j_CreatedAt j > 0 then j_CreatedAt j + QueuedTTL
      else 0)"

definition QueueExpired :: "ms \<Rightarrow> Job \<Rightarrow> bool" where
  "QueueExpired now j \<longleftrightarrow> QueueDeadline j > 0 \<and> now \<ge> QueueDeadline j"

definition PendingExpiresAt :: "ms \<Rightarrow> Job \<Rightarrow> ms" where
  "PendingExpiresAt now j = max (now + QueuedTTL) (QueueDeadline j) + PendingRowGrace"

definition valid_job_limits :: "Job \<Rightarrow> bool" where
  "valid_job_limits j \<longleftrightarrow> (RetryUntilComplete \<le> j_MaxRetries j \<and> j_MaxRetries j \<le> MaxAllowedRetries)
     \<and> RetryUntilComplete \<le> WebhookRetryLimit j \<and> WebhookRetryLimit j \<le> MaxAllowedRetries"

text \<open>A valid request, for the concrete instances below.\<close>

definition sample_request :: Request where
  "sample_request =
     \<lparr> r_UserID = ''u1'', r_IdempotentKey = ''k1'', r_URL = ''http://api.test/x'', r_PoolID = '''',
       r_Method = ''post'', r_Headers = [], r_Body = '''', r_WebhookURL = ''http://hook.test/'',
       r_ExecuteBefore = 0, r_IdempotencyScope = '''', r_MaxRetries = None,
       r_WebhookMaxRetries = Some 3, r_OriginMachineID = '''', r_OriginRegion = '''',
       r_VisitedRegions = [], r_RerouteCount = 0, r_DirectOnly = False, r_AccountQueueMode = '''' \<rparr>"

section \<open>Lemmas\<close>

lemma str_le_refl [simp]: "str_le s s"
  by (induction s) auto

lemma str_le_antisym: "str_le s t \<Longrightarrow> str_le t s \<Longrightarrow> s = t"
  by (induction s t rule: str_le.induct) (auto elim: str_le.elims)

lemma str_le_trans: "str_le s t \<Longrightarrow> str_le t u \<Longrightarrow> str_le s u"
proof (induction s t arbitrary: u rule: str_le.induct)
  case (3 a s b t)
  then show ?case by (cases u) auto
qed auto

lemma str_le_total: "str_le s t \<or> str_le t s"
proof (induction s t rule: str_le.induct)
  case (3 a s b t)
  then show ?case
    by (metis linorder_neqE_nat of_char_eq_iff str_le.simps(3))
qed auto

lemma Covers_CursorAt: "Covers (CursorAt j) j"
  by (simp add: Covers_def CursorAt_def)

lemma Covers_mono:
  assumes "Covers (CursorAt j) j'" and "Covers c j"
  shows "Covers c j'"
  using assms str_le_trans by (auto simp: Covers_def CursorAt_def)

lemma dedup_identity_simps [simp]:
  "dedup_identity u k IdempotencyScopeShared = ''shared'' @ nul # k"
  "scope \<noteq> IdempotencyScopeShared \<Longrightarrow> dedup_identity u k scope = u @ '':'' @ k"
  by (simp_all add: dedup_identity_def)

lemma nul_free_split:
  assumes "x \<notin> set u" "x \<notin> set v" and "u @ x # k = v @ x # l"
  shows "u = v \<and> k = l"
  using assms by (induction u arbitrary: v) (auto simp: Cons_eq_append_conv split: list.splits)

lemma shared_identity_distinct:
  assumes "nul \<notin> set u"
  shows "''shared'' @ nul # k \<noteq> u @ '':'' @ l"
proof
  assume eq: "''shared'' @ nul # k = u @ '':'' @ l"
  show False
  proof (cases "length u \<le> 6")
    case True
    then have "(u @ '':'' @ l) ! length u = CHR '':''" by (simp add: nth_append)
    moreover have "(''shared'' @ nul # k) ! length u \<noteq> CHR '':''"
    proof -
      have "length u \<in> {0, 1, 2, 3, 4, 5, 6}"
        using True unfolding insert_iff empty_iff by linarith
      then show ?thesis by (auto simp: nul_def)
    qed
    ultimately show False using eq by simp
  next
    case False
    then have "u ! 6 = nul" using arg_cong [OF eq, of "\<lambda>s. s ! 6"] by (simp add: nth_append)
    with False assms show False by (metis linorder_not_le nth_mem)
  qed
qed

lemma PendingExpiresAt_ge:
  "QueueDeadline j + PendingRowGrace \<le> PendingExpiresAt now j"
  "now + QueuedTTL + PendingRowGrace \<le> PendingExpiresAt now j"
  by (simp_all add: PendingExpiresAt_def)

lemma new_job_valid_limits:
  assumes "Validate hostname env r = ''''"
  shows "valid_job_limits (new_job H i now r)"
  using assms
  by (auto simp: Validate_def valid_job_limits_def new_job_def validRetryLimit_def
      resolveMaxRetries_def WebhookRetryLimit_def job_consts split: if_splits option.splits)

lemma RetryDeadline_QueueDeadline:
  "0 < j_CreatedAt j \<Longrightarrow> RetryDeadline j = QueueDeadline j"
  by (simp add: RetryDeadline_def QueueDeadline_def)

section \<open>Properties\<close>

text \<open>(C17) Idempotency identities of valid requests: under a collision-free hash, two
  requests that pass \<open>Validate\<close> share a dedup hash exactly when both are
  shared-scope with the same key, or both are per-user with the same
  colon-joined pair; a shared key never collides with a per-user one, and
  without colons in the user ids the per-user hash determines user and key.\<close>

theorem dedup_hash_identity:
  assumes "inj H" and "Validate hostname env r = ''''" and "Validate hostname env s = ''''"
  shows "(DedupHash H (r_UserID r) (r_IdempotentKey r) (r_IdempotencyScope r)
            = DedupHash H (r_UserID s) (r_IdempotentKey s) (r_IdempotencyScope s)
          \<longleftrightarrow> (if r_IdempotencyScope r = IdempotencyScopeShared \<or> r_IdempotencyScope s = IdempotencyScopeShared
               then r_IdempotencyScope r = r_IdempotencyScope s \<and> r_IdempotentKey r = r_IdempotentKey s
               else r_UserID r @ '':'' @ r_IdempotentKey r = r_UserID s @ '':'' @ r_IdempotentKey s))
       \<and> (r_IdempotencyScope r \<noteq> IdempotencyScopeShared \<and> r_IdempotencyScope s \<noteq> IdempotencyScopeShared
           \<and> CHR '':'' \<notin> set (r_UserID r) \<and> CHR '':'' \<notin> set (r_UserID s)
           \<and> DedupHash H (r_UserID r) (r_IdempotentKey r) (r_IdempotencyScope r)
               = DedupHash H (r_UserID s) (r_IdempotentKey s) (r_IdempotencyScope s)
          \<longrightarrow> r_UserID r = r_UserID s \<and> r_IdempotentKey r = r_IdempotentKey s)"
proof -
  have nuls: "nul \<notin> set (r_UserID r)" "nul \<notin> set (r_UserID s)"
    using assms by (auto simp: Validate_def split: if_splits)
  have H: "DedupHash H u k sc = DedupHash H u' k' sc' \<longleftrightarrow> dedup_identity u k sc = dedup_identity u' k' sc'"
    for u k sc u' k' sc' using assms(1) by (simp add: DedupHash_def inj_eq)
  note distinct = shared_identity_distinct [OF nuls(1), simplified]
    shared_identity_distinct [OF nuls(2), simplified]
    shared_identity_distinct [OF nuls(1), simplified, symmetric]
  show ?thesis
  proof (cases "r_IdempotencyScope r = IdempotencyScopeShared")
    case True
    then show ?thesis
      unfolding H by (cases "r_IdempotencyScope s = IdempotencyScopeShared") (simp_all add: distinct)
  next
    case False
    then show ?thesis
      unfolding H
      using nul_free_split [of "CHR '':''" "r_UserID r" "r_UserID s" "r_IdempotentKey r" "r_IdempotentKey s"]
      by (cases "r_IdempotencyScope s = IdempotencyScopeShared") (simp_all add: distinct)
  qed
qed

theorem dedup_hash_identity_witness:
  "inj (id :: string \<Rightarrow> string)
   \<and> Validate (\<lambda>_. None) (\<lambda>_. '''') sample_request = ''''
   \<and> Validate (\<lambda>_. None) (\<lambda>_. '''') (sample_request\<lparr>r_UserID := ''u2''\<rparr>) = ''''
   \<and> DedupHash id ''u1'' ''k1'' '''' \<noteq> DedupHash id ''u2'' ''k1'' ''''"
  using dedup_hash_identity [of id "\<lambda>_. None" "\<lambda>_. ''''" sample_request "sample_request\<lparr>r_UserID := ''u2''\<rparr>"]
  by (simp add: sample_request_def Validate_def validRetryLimit_def job_consts Allowed_def nul_def)

lemma dedup_cross_user_collision:
  "scope \<noteq> IdempotencyScopeShared
     \<Longrightarrow> DedupHash H (u @ '':'' @ v) k scope = DedupHash H u (v @ '':'' @ k) scope"
  by (simp add: DedupHash_def)

end
