(* ===== verification/Attempt.thy ===== *)
theory Attempt
  imports Jobs
begin

text \<open>
  One dispatch attempt: \<^verbatim>\<open>internal/orca/orca.go\<close> and the part of
  \<^verbatim>\<open>internal/dispatch/account_queue.go\<close> from \<^verbatim>\<open>execute\<close> on (response
  classification, pacing signals, retry delay, terminal bookkeeping, the request
  that is sent).  Everything an attempt does to the store, the result recorder,
  the event broker, the webhook queue and the pool is an \<open>effect\<close> of the list the
  definitions return.  The network's answer, the recorder's and broker's replies,
  clock readings and random draws are arguments; metrics calls, which only observe,
  are left out.
\<close>

section \<open>Headers and number scanning\<close>

type_synonym headers = "(string \<times> string) list"

text \<open>\<^verbatim>\<open>http.Header\<close> keyed by the lower-cased name.\<close>

definition header_get :: "string \<Rightarrow> headers \<Rightarrow> string" where
  "header_get name h = (case map_of h (to_lower name) of None \<Rightarrow> '''' | Some v \<Rightarrow> v)"

definition header_set :: "string \<Rightarrow> string \<Rightarrow> headers \<Rightarrow> headers" where
  "header_set name v h = al_put (to_lower name) v h"

definition split_sign :: "string \<Rightarrow> bool \<times> string" where
  "split_sign s =
     (case s of [] \<Rightarrow> (False, [])
      | c # cs \<Rightarrow> if c = CHR ''-'' then (True, cs) else if c = CHR ''+'' then (False, cs) else (False, s))"

definition digits_value :: "string \<Rightarrow> nat" where
  "digits_value s = (case parse_digits 0 s of None \<Rightarrow> 0 | Some n \<Rightarrow> n)"

text \<open>\<^verbatim>\<open>strconv.ParseFloat\<close> on decimal text (infinities, NaN and hexadecimal forms,
  which have no value in the model, count as errors); values that overflow are
  errors, as there.\<close>

definition parse_float :: "string \<Rightarrow> f64 option" where
  "parse_float s0 =
     (let (neg, s) = split_sign s0;
          ip = takeWhile is_digit s;
          r = dropWhile is_digit s;
          (fp, r) = (case r of [] \<Rightarrow> ([], [])
                     | c # cs \<Rightarrow> if c = CHR ''.'' then (takeWhile is_digit cs, dropWhile is_digit cs) else ([], r));
          m = of_nat (digits_value (ip @ fp)) / 10 ^ length fp;
          sgn = (if neg then -1 else 1)
      in if ip @ fp = [] then None
         else (case (case r of [] \<Rightarrow> Some m
                     | c # cs \<Rightarrow>
                         if c = CHR ''e'' \<or> c = CHR ''E'' then
                           (let (eneg, es) = split_sign cs
                            in if es = [] \<or> \<not> list_all is_digit es then None
                               else Some (if eneg then m / 10 ^ digits_value es else m * 10 ^ digits_value es))
                         else None) of
                 None \<Rightarrow> None
               | Some v \<Rightarrow> if v < 2 ^ 1024 - 2 ^ 970 then Some (sgn * v) else None))"

definition float_digit :: "char \<Rightarrow> bool" where
  "float_digit c \<longleftrightarrow> is_digit c \<or> c = CHR ''_''"

text \<open>The longest prefix \<^verbatim>\<open>fmt\<close>'s scanner takes for a decimal \<^verbatim>\<open>%f\<close>.\<close>

definition float_token :: "string \<Rightarrow> string" where
  "float_token s =
     (let sg = (case s of c # _ \<Rightarrow> if c = CHR ''-'' \<or> c = CHR ''+'' then [c] else [] | [] \<Rightarrow> []);
          s1 = drop (length sg) s;
          ip = takeWhile float_digit s1;
          r = dropWhile float_digit s1;
          (dot, r) = (case r of [] \<Rightarrow> ([], [])
                      | c # cs \<Rightarrow> if c = CHR ''.'' then (c # takeWhile float_digit cs, dropWhile float_digit cs) else ([], r));
          ex = (case r of [] \<Rightarrow> []
                | c # cs \<Rightarrow> if c = CHR ''e'' \<or> c = CHR ''E'' then
                    (let esg = (case cs of d # _ \<Rightarrow> if d = CHR ''-'' \<or> d = CHR ''+'' then [d] else [] | [] \<Rightarrow> [])
                     in c # esg @ takeWhile float_digit (drop (length esg) cs)) else [])
      in sg @ ip @ dot @ ex)"

text \<open>\<^verbatim>\<open>fmt.Sscanf(val, "%f", &x)\<close> and \<^verbatim>\<open>fmt.Sscanf(val, "%d", &n)\<close>, \<^const>\<open>None\<close> being the error.\<close>

definition sscanf_f :: "string \<Rightarrow> f64 option" where
  "sscanf_f s = parse_float (float_token (dropWhile is_space s))"

definition sscanf_d :: "string \<Rightarrow> int option" where
  "sscanf_d s0 =
     (let s = dropWhile is_space s0;
          (neg, r) = split_sign s;
          ds = takeWhile is_digit r
      in case parse_unsigned ds of
           None \<Rightarrow> None
         | Some n \<Rightarrow> (let v = (if neg then - int n else int n)
                      in if int64_min \<le> v \<and> v \<le> int64_max then Some v else None))"

text \<open>\<^verbatim>\<open>fmt.Sprintf("%.2f", x)\<close>: nearest hundredth, ties to even.\<close>

definition round_even :: "f64 \<Rightarrow> int" where
  "round_even r =
     (let f = \<lfloor>r\<rfloor>; d = r - of_int f
      in if d < 1 / 2 then f else if d > 1 / 2 then f + 1 else if even f then f else f + 1)"

definition fmt_2f :: "f64 \<Rightarrow> string" where
  "fmt_2f r =
     (let n = round_even (\<bar>r\<bar> * 100)
      in (if r < 0 then ''-'' else []) @ itoa (n div 100) @ ''.''
         @ [digit_char (nat (n mod 100 div 10)), digit_char (nat (n mod 10))])"

section \<open>ORCA load reports\<close>

definition RequestHeaderName :: string where "RequestHeaderName = ''endpoint-load-metrics-format''"
definition HeaderName :: string where "HeaderName = ''endpoint-load-metrics''"
definition kvCacheMetricNames :: "string list" where
  "kvCacheMetricNames = [''kv_cache_usage_perc'', ''kv_cache_utilization'']"

definition LoadToRps :: "f64 \<Rightarrow> f64 option" where
  "LoadToRps util =
     (if util < 70 / 100 then None
      else Some (if util < 90 / 100 then 2 else if util < 97 / 100 then 1 / 2 else 1 / 4))"

definition trim_prefix :: "string \<Rightarrow> string \<Rightarrow> string" where
  "trim_prefix pre s = (if has_prefix s pre then drop (length pre) s else s)"

definition orca_pair :: "string \<Rightarrow> (string \<times> f64) list \<Rightarrow> (string \<times> f64) list" where
  "orca_pair pair ms =
     (case str_cut (CHR ''='') (trim_space pair) of
        None \<Rightarrow> ms
      | Some (name, valStr) \<Rightarrow>
          (case parse_float (trim_space valStr) of
             None \<Rightarrow> ms
           | Some v \<Rightarrow> al_put (trim_prefix ''named_metrics.'' (trim_space name)) v ms))"

definition parseOrcaText :: "string \<Rightarrow> (string \<times> f64) list option" where
  "parseOrcaText data =
     (let ms = fold orca_pair (split_on (CHR '','') data) [] in if ms = [] then None else Some ms)"

text \<open>\<open>json\<close> is \<^verbatim>\<open>json.Unmarshal\<close> into the \<^verbatim>\<open>named_metrics\<close> map, \<^const>\<open>None\<close> on an error.\<close>

definition parseOrcaJSON ::
  "(string \<Rightarrow> (string \<times> f64) list option) \<Rightarrow> string \<Rightarrow> (string \<times> f64) list option" where
  "parseOrcaJSON json data =
     (case json data of None \<Rightarrow> None | Some ms \<Rightarrow> if ms = [] then None else Some ms)"

definition parseOrcaHeader ::
  "(string \<Rightarrow> (string \<times> f64) list option) \<Rightarrow> string \<Rightarrow> (string \<times> f64) list option" where
  "parseOrcaHeader json raw =
     (case str_cut (CHR '' '') raw of
        None \<Rightarrow> None
      | Some (fmt, data) \<Rightarrow>
          if to_upper fmt = ''TEXT'' then parseOrcaText data
          else if to_upper fmt = ''JSON'' then parseOrcaJSON json data
          else None)"

fun first_metric :: "string list \<Rightarrow> (string \<times> f64) list \<Rightarrow> f64 option" where
  "first_metric [] ms = None"
| "first_metric (name # names) ms =
     (case map_of ms name of Some util \<Rightarrow> LoadToRps util | None \<Rightarrow> first_metric names ms)"

definition orca_Rps :: "(string \<Rightarrow> (string \<times> f64) list option) \<Rightarrow> headers \<Rightarrow> f64 option" where
  "orca_Rps json h =
     (let raw = header_get HeaderName h
      in if raw = '''' then None
         else (case parseOrcaHeader json raw of None \<Rightarrow> None | Some ms \<Rightarrow> first_metric kvCacheMetricNames ms))"


section \<open>Effects and messages\<close>

datatype json_value = JStr string | JInt int

type_synonym payload_map = "(string \<times> json_value) list"

datatype effect =
    UpdateStatus string Status
  | PutResult string Result
  | RecordResult string Result
  | RecordRetry string int
  | SetQueueKey string string
  | Publish string string payload_map
  | PublishTerminal string string payload_map
  | EnqueueWebhook string string string int payload_map
  | PoolSuccess string
  | PoolFailure string
  | Dispatched ns string string
  | SignalSlowStart bool
  | SignalMaxBacklog int
  | SignalAccountQueue bool
  | JobDone Job

record jobDoneMsg =
  dm_job :: "Job option"
  dm_completed :: bool
  dm_rps :: "f64 option"
  dm_maxConcurrent :: "int option"
  dm_accountQueue :: "string option"
  dm_slowStart :: "bool option"
  dm_maxBacklog :: "int option"
  dm_failed :: bool
  dm_reached :: bool
  dm_local :: bool
  dm_retry :: "Job option"
  dm_retryAt :: ns
  dm_retryReason :: string

definition empty_msg :: jobDoneMsg where
  "empty_msg = \<lparr> dm_job = None, dm_completed = False, dm_rps = None, dm_maxConcurrent = None,
     dm_accountQueue = None, dm_slowStart = None, dm_maxBacklog = None, dm_failed = False,
     dm_reached = False, dm_local = False, dm_retry = None, dm_retryAt = 0, dm_retryReason = '''' \<rparr>"

record http_response =
  rp_status :: int
  rp_headers :: headers
  rp_body :: string

text \<open>What \<^verbatim>\<open>MakeRequest\<close> returned: an error (its text, and whether it is a
  \<^verbatim>\<open>localRequestError\<close>) or a response.\<close>

datatype attempt_result = AErr string bool | AResp http_response

text \<open>What an attempt reads besides the job: settings, the clock at its start and
  after the answer, the jitter draw, whether its context was cancelled, the
  recorder's reply and whether a streaming client took the terminal event.\<close>

record attempt_ctx =
  ax_env :: environment
  ax_hash :: "string \<Rightarrow> string"
  ax_json :: "string \<Rightarrow> (string \<times> f64) list option"
  ax_started :: ns
  ax_now :: ns
  ax_draw :: int
  ax_cancelled :: bool
  ax_recorder :: "(string \<Rightarrow> Result \<Rightarrow> string option) option"
  ax_streamed :: bool

definition unix_ms :: "ns \<Rightarrow> ms" where
  "unix_ms t = t div millisecond"

section \<open>Classification and pacing signals\<close>

definition retryableStatus :: "int \<Rightarrow> bool" where
  "retryableStatus code \<longleftrightarrow> code \<ge> 500 \<or> code = 429 \<or> code = 408"

definition PacingHeader :: "headers \<Rightarrow> string \<Rightarrow> string" where
  "PacingHeader h name =
     (let v = header_get (''X-Aqueduct-'' @ name) h
      in if v \<noteq> '''' then v else header_get (''X-Aquifer-'' @ name) h)"

definition pacingSignals :: "(string \<Rightarrow> (string \<times> f64) list option) \<Rightarrow> headers \<Rightarrow> jobDoneMsg" where
  "pacingSignals json h =
     (let rps = PacingHeader h ''Rps'';
          conc = PacingHeader h ''Max-Concurrent'';
          account = PacingHeader h ''Account-Queue'';
          slow = PacingHeader h ''Slow-Start'';
          backlog = PacingHeader h ''Max-Backlog''
      in empty_msg
           \<lparr> dm_rps := (if rps \<noteq> '''' then Some (case sscanf_f rps of None \<Rightarrow> 0 | Some v \<Rightarrow> v) else orca_Rps json h),
             dm_maxConcurrent := (if conc \<noteq> '''' then Some (case sscanf_d conc of None \<Rightarrow> 0 | Some v \<Rightarrow> v) else None),
             dm_accountQueue := (if account \<noteq> '''' then Some account else None),
             dm_slowStart := (if slow = ''true'' \<or> slow = ''false'' then Some (slow = ''true'') else None),
             dm_maxBacklog := (if backlog \<noteq> '''' then
                 (case sscanf_d backlog of Some v \<Rightarrow> if v \<ge> 0 then Some v else None | None \<Rightarrow> None) else None) \<rparr>)"

definition defaultRetryMaxBackoffSeconds :: int where "defaultRetryMaxBackoffSeconds = 300"

definition defaultRetryBackoff :: "environment \<Rightarrow> int \<Rightarrow> int \<Rightarrow> ns" where
  "defaultRetryBackoff env draw attempts =
     (let ceiling = wrap64 (env_Int64 env ''AQUIFER_RETRY_MAX_BACKOFF_SECONDS'' defaultRetryMaxBackoffSeconds * second);
          backoff = wrap64 (second * 2 ^ nat (min attempts 30))
      in Jitter draw (if backoff > ceiling \<or> backoff \<le> 0 then ceiling else backoff))"

definition retryDelay :: "environment \<Rightarrow> int \<Rightarrow> int \<Rightarrow> headers option \<Rightarrow> ns" where
  "retryDelay env draw attempts h =
     (case (case h of None \<Rightarrow> None | Some h \<Rightarrow> parse_int64 (header_get ''Retry-After'' h)) of
        Some secs \<Rightarrow> if secs \<ge> 0 then wrap64 (secs * second) else defaultRetryBackoff env draw attempts
      | None \<Rightarrow> defaultRetryBackoff env draw attempts)"

section \<open>Terminal bookkeeping\<close>

definition TruncateStringBytes :: "string \<Rightarrow> int \<Rightarrow> string \<times> bool" where
  "TruncateStringBytes s maxBytes =
     (if maxBytes = 0 then ('''', s \<noteq> '''')
      else if maxBytes < 0 \<or> int (length s) \<le> maxBytes then (s, False)
      else (take (nat maxBytes) s, True))"

definition defaultLocalResultMaxBytes :: int where "defaultLocalResultMaxBytes = 64 * 1024"

definition SaveLocalResult ::
  "attempt_ctx \<Rightarrow> ms \<Rightarrow> Job \<Rightarrow> Status \<Rightarrow> int \<Rightarrow> string \<Rightarrow> string \<Rightarrow> effect list" where
  "SaveLocalResult ax now job status responseStatus contentType body =
     (if IsWebhookDelivery job then []
      else (let (truncated, wasTruncated) =
                  TruncateStringBytes body (env_Int64 (ax_env ax) ''AQUIFER_RESULT_MAX_BYTES'' defaultLocalResultMaxBytes)
            in [PutResult (j_ID job)
                  \<lparr> re_JobID = j_ID job, re_Status = status, re_ResponseStatus = responseStatus,
                    re_ContentType = contentType, re_Body = truncated, re_BodyTruncated = wasTruncated,
                    re_RecordedAt = now, re_Source = ''aquifer'' \<rparr>]))"

definition recordJobResult ::
  "attempt_ctx \<Rightarrow> ms \<Rightarrow> Job \<Rightarrow> Status \<Rightarrow> int \<Rightarrow> string \<Rightarrow> string \<Rightarrow> string \<times> effect list" where
  "recordJobResult ax now job status responseStatus contentType body =
     (case ax_recorder ax of
        None \<Rightarrow> ('''', [])
      | Some recorder \<Rightarrow>
          if IsWebhookDelivery job then ('''', [])
          else (let h = IdempotencyHash (ax_hash ax) job;
                    result = \<lparr> re_JobID = j_ID job, re_Status = status, re_ResponseStatus = responseStatus,
                      re_ContentType = contentType, re_Body = body, re_BodyTruncated = False,
                      re_RecordedAt = now, re_Source = ''aquifer'' \<rparr>
                in (case recorder h result of None \<Rightarrow> '''' | Some key \<Rightarrow> key, [RecordResult h result])))"

definition with_key :: "string \<Rightarrow> payload_map \<Rightarrow> payload_map" where
  "with_key resultKey p = (if resultKey \<noteq> '''' then p @ [(''result_key'', JStr resultKey)] else p)"

definition webhook_effect :: "Job \<Rightarrow> payload_map \<Rightarrow> effect" where
  "webhook_effect job p = EnqueueWebhook (j_ID job) (j_UserID job) (j_WebhookURL job) (WebhookRetryLimit job) p"

definition failJob :: "attempt_ctx \<Rightarrow> ms \<Rightarrow> Job \<Rightarrow> string \<Rightarrow> int \<Rightarrow> string \<Rightarrow> effect list" where
  "failJob ax now job reason responseStatus body =
     (let (resultKey, rec) = recordJobResult ax now job StatusFailed responseStatus '''' body
      in UpdateStatus (j_ID job) StatusFailed
         # SaveLocalResult ax now job StatusFailed responseStatus '''' body
         @ rec
         @ PublishTerminal (j_ID job) ''failed''
             [(''job_id'', JStr (j_ID job)), (''reason'', JStr reason), (''response_status'', JInt responseStatus),
              (''body'', JStr body), (''attempts'', JInt (j_Attempts job + 1))]
         # (if \<not> IsWebhookDelivery job \<and> j_WebhookURL job \<noteq> '''' \<and> \<not> ax_streamed ax
            then [webhook_effect job (with_key resultKey
                    [(''job_id'', JStr (j_ID job)), (''status'', JStr ''failed''), (''reason'', JStr reason),
                     (''response_status'', JInt responseStatus), (''body'', JStr body)])]
            else []))"

definition completeJob :: "attempt_ctx \<Rightarrow> ms \<Rightarrow> Job \<Rightarrow> http_response \<Rightarrow> effect list" where
  "completeJob ax now job resp =
     (let ct = header_get ''Content-Type'' (rp_headers resp);
          (resultKey, rec) = recordJobResult ax now job StatusCompleted (rp_status resp) ct (rp_body resp)
      in UpdateStatus (j_ID job) StatusCompleted
         # SaveLocalResult ax now job StatusCompleted (rp_status resp) ct (rp_body resp)
         @ rec
         @ PublishTerminal (j_ID job) ''completed''
             [(''job_id'', JStr (j_ID job)), (''response_status'', JInt (rp_status resp)), (''body'', JStr (rp_body resp))]
         # (if \<not> IsWebhookDelivery job \<and> j_WebhookURL job \<noteq> '''' \<and> \<not> ax_streamed ax
            then [webhook_effect job (with_key resultKey
                    [(''job_id'', JStr (j_ID job)), (''status'', JStr ''completed''),
                     (''response_status'', JInt (rp_status resp)), (''body'', JStr (rp_body resp))])]
            else []))"

definition failQueuedJob :: "attempt_ctx \<Rightarrow> ms \<Rightarrow> Job \<Rightarrow> string \<Rightarrow> effect list" where
  "failQueuedJob ax now job reason =
     (let (resultKey, rec) = recordJobResult ax now job StatusFailed 0 '''' ''''
      in UpdateStatus (j_ID job) StatusFailed
         # SaveLocalResult ax now job StatusFailed 0 '''' ''''
         @ rec
         @ Publish (j_ID job) ''failed'' [(''job_id'', JStr (j_ID job)), (''reason'', JStr reason)]
         # (if \<not> IsWebhookDelivery job \<and> j_WebhookURL job \<noteq> ''''
            then [webhook_effect job (with_key resultKey
                    [(''job_id'', JStr (j_ID job)), (''status'', JStr ''failed''), (''reason'', JStr reason)])]
            else []))"

definition failExpiredJob :: "attempt_ctx \<Rightarrow> ms \<Rightarrow> Job \<Rightarrow> string \<Rightarrow> effect list" where
  "failExpiredJob ax now job lastReason =
     failQueuedJob ax now job
       (if ExecutionExpired now job then ''execution_deadline_exceeded''
        else if lastReason \<noteq> '''' then ''retry_window_exhausted: '' @ lastReason
        else ''queued_ttl_exceeded'')"


section \<open>One attempt\<close>

definition attempt_failed ::
  "attempt_ctx \<Rightarrow> Job \<Rightarrow> string option \<Rightarrow> string \<Rightarrow> int \<Rightarrow> string \<Rightarrow> bool \<Rightarrow> headers option \<Rightarrow> jobDoneMsg
   \<Rightarrow> effect list \<times> jobDoneMsg" where
  "attempt_failed ax job member reason responseStatus body local h msg =
     (let pool = (case member of None \<Rightarrow> [] | Some m \<Rightarrow> [PoolFailure m]);
          msg = msg\<lparr>dm_failed := True, dm_local := local\<rparr>;
          retryAt = ax_now ax + retryDelay (ax_env ax) (ax_draw ax) (j_Attempts job) h
      in if \<not> HasRetriesLeft job \<or> \<not> retryAt < RetryDeadline job * millisecond
         then (pool @ failJob ax (unix_ms (ax_now ax)) job
                 (if HasRetriesLeft job then ''retry_window_exhausted: '' @ reason else reason) responseStatus body, msg)
         else (let job = job\<lparr>j_Attempts := j_Attempts job + 1\<rparr>
               in (pool @
                   [RecordRetry (j_ID job) (j_Attempts job),
                    Publish (j_ID job) ''retrying''
                      [(''job_id'', JStr (j_ID job)), (''attempt'', JInt (j_Attempts job)),
                       (''max_retries'', JInt (j_MaxRetries job)), (''retry_at'', JInt (unix_ms retryAt)),
                       (''reason'', JStr reason), (''response_status'', JInt responseStatus)]],
                   msg\<lparr>dm_retry := Some job, dm_retryAt := retryAt, dm_retryReason := reason\<rparr>)))"

definition execute ::
  "attempt_ctx \<Rightarrow> Job \<Rightarrow> string option \<Rightarrow> attempt_result \<Rightarrow> effect list \<times> jobDoneMsg" where
  "execute ax job member result =
     (if ExecutionExpired (unix_ms (ax_started ax)) job
      then (failJob ax (unix_ms (ax_started ax)) job ''execution_deadline_exceeded'' 0 '''', empty_msg)
      else
        (let pub = Publish (j_ID job) ''dispatching''
                     [(''job_id'', JStr (j_ID job)), (''attempt'', JInt (j_Attempts job + 1))];
             (es, msg) =
               (case result of
                  AErr reason local \<Rightarrow>
                    if ax_cancelled ax then ([UpdateStatus (j_ID job) StatusQueued], empty_msg)
                    else attempt_failed ax job member reason 0 '''' local None empty_msg
                | AResp resp \<Rightarrow>
                    if retryableStatus (rp_status resp)
                    then attempt_failed ax job member (''upstream returned '' @ itoa (rp_status resp)) (rp_status resp)
                           (rp_body resp) False (Some (rp_headers resp)) (pacingSignals (ax_json ax) (rp_headers resp))
                    else ((case member of None \<Rightarrow> [] | Some m \<Rightarrow> [PoolSuccess m])
                            @ completeJob ax (unix_ms (ax_now ax)) job resp,
                          (pacingSignals (ax_json ax) (rp_headers resp))\<lparr>dm_reached := True\<rparr>))
         in (pub # es, msg)))"

text \<open>The goroutine around an attempt: a panic inside it fails the job.\<close>

definition panicked_attempt :: "Job \<Rightarrow> effect list \<times> jobDoneMsg" where
  "panicked_attempt job =
     (UpdateStatus (j_ID job) StatusFailed
      # (if \<not> IsWebhookDelivery job \<and> j_WebhookURL job \<noteq> ''''
         then [webhook_effect job [(''job_id'', JStr (j_ID job)), (''status'', JStr ''failed''),
                                   (''reason'', JStr ''internal panic'')]]
         else []),
      empty_msg)"

definition run_attempt ::
  "attempt_ctx \<Rightarrow> Job \<Rightarrow> string option \<Rightarrow> attempt_result option \<Rightarrow> effect list \<times> jobDoneMsg" where
  "run_attempt ax job member result =
     (let (es, msg) = (case result of None \<Rightarrow> panicked_attempt job | Some r \<Rightarrow> execute ax job member r)
      in (es, msg\<lparr>dm_job := Some job, dm_completed := True\<rparr>))"

section \<open>The request\<close>

record http_request =
  hr_method :: string
  hr_url :: string
  hr_headers :: headers
  hr_body :: string
  hr_checked_redirects :: bool

definition SetLoadHeader :: "string \<Rightarrow> string \<Rightarrow> headers \<Rightarrow> headers" where
  "SetLoadHeader name value h =
     header_set (''X-Aquifer-'' @ name) value (header_set (''X-Aqueduct-'' @ name) value h)"

definition load_headers ::
  "string \<Rightarrow> int \<Rightarrow> int \<Rightarrow> f64 \<Rightarrow> int \<Rightarrow> int \<Rightarrow> headers \<Rightarrow> headers" where
  "load_headers nodeID totalJobs queueDepth flowRate activeQueues upstreamBacklog h =
     SetLoadHeader ''Node-Id'' nodeID
       (SetLoadHeader ''Upstream-Backlog'' (itoa upstreamBacklog)
         (SetLoadHeader ''Active-Queues'' (itoa activeQueues)
           (SetLoadHeader ''Flow-Rate'' (fmt_2f flowRate)
             (SetLoadHeader ''Queue-Depth'' (itoa queueDepth)
               (SetLoadHeader ''Total-Jobs'' (itoa totalJobs) h)))))"

text \<open>\<open>seal\<close> is the L8 registry's \<^verbatim>\<open>SealDelivery\<close> when one is configured, \<open>build\<close> says
  whether \<^verbatim>\<open>http.NewRequestWithContext\<close> accepts method and URL, and \<open>send\<close> is the
  HTTP client.\<close>

definition MakeRequest ::
  "(string \<Rightarrow> string \<Rightarrow> string \<Rightarrow> string + (string \<times> headers)) option \<Rightarrow> (string \<Rightarrow> string \<Rightarrow> string option)
   \<Rightarrow> (http_request \<Rightarrow> string + http_response) \<Rightarrow> string \<Rightarrow> Job \<Rightarrow> string \<Rightarrow> int \<Rightarrow> int \<Rightarrow> f64 \<Rightarrow> int \<Rightarrow> int
   \<Rightarrow> attempt_result" where
  "MakeRequest seal build send nodeID job dispatchURL totalJobs queueDepth flowRate activeQueues upstreamBacklog =
     (let ct = (case map_of (j_Headers job) ''Content-Type'' of None \<Rightarrow> '''' | Some v \<Rightarrow> v);
          sealed = (case seal of
              Some f \<Rightarrow> if IsWebhookDelivery job
                         then f dispatchURL (j_Body job) (if ct = '''' then ''application/json'' else ct)
                         else Inr (j_Body job, [])
            | None \<Rightarrow> Inr (j_Body job, []))
      in case sealed of
           Inl err \<Rightarrow> AErr err True
         | Inr (body, l8Headers) \<Rightarrow>
             (case build (j_Method job) dispatchURL of
                Some err \<Rightarrow> AErr err True
              | None \<Rightarrow>
                  (let h = fold (\<lambda>(k, v). header_set k v) (j_Headers job @ l8Headers) [];
                       h = load_headers nodeID totalJobs queueDepth flowRate activeQueues upstreamBacklog h;
                       h = (if header_get RequestHeaderName h = '''' then header_set RequestHeaderName ''text'' h else h)
                   in case send \<lparr> hr_method = j_Method job, hr_url = dispatchURL, hr_headers = h, hr_body = body,
                                  hr_checked_redirects = (j_PoolID job = '''' \<and> \<not> IsWebhookDelivery job) \<rparr> of
                        Inl err \<Rightarrow> AErr err False
                      | Inr resp \<Rightarrow> AResp resp)))"

definition check_redirect :: "(string \<Rightarrow> string option) \<Rightarrow> environment \<Rightarrow> nat \<Rightarrow> string \<Rightarrow> string option" where
  "check_redirect hostname env via url =
     (if via \<ge> 10 then Some ''stopped after 10 redirects''
      else if \<not> Allowed hostname env url
      then Some ''redirect url domain is not in the configured allowlist (AQUIFER_ALLOWED_URL_DOMAINS)''
      else None)"

section \<open>Lemmas\<close>

definition terminal_status :: "effect list \<Rightarrow> (string \<times> Status) list" where
  "terminal_status es =
     List.map_filter (\<lambda>e. case e of UpdateStatus i s \<Rightarrow> if s = StatusCompleted \<or> s = StatusFailed then Some (i, s) else None | _ \<Rightarrow> None) es"

definition webhooks :: "effect list \<Rightarrow> (string \<times> string \<times> int) list" where
  "webhooks es = List.map_filter (\<lambda>e. case e of EnqueueWebhook i u w n p \<Rightarrow> Some (i, w, n) | _ \<Rightarrow> None) es"

definition stored_results :: "effect list \<Rightarrow> (string \<times> Status) list" where
  "stored_results es = List.map_filter (\<lambda>e. case e of PutResult i r \<Rightarrow> Some (i, re_Status r) | _ \<Rightarrow> None) es"

lemmas observers = terminal_status_def webhooks_def stored_results_def

lemma observers_simps [simp]:
  "terminal_status [] = []" "webhooks [] = []" "stored_results [] = []"
  "terminal_status (e # es) = (case e of UpdateStatus i s \<Rightarrow> if s = StatusCompleted \<or> s = StatusFailed then [(i, s)] else [] | _ \<Rightarrow> []) @ terminal_status es"
  "webhooks (e # es) = (case e of EnqueueWebhook i u w n p \<Rightarrow> [(i, w, n)] | _ \<Rightarrow> []) @ webhooks es"
  "stored_results (e # es) = (case e of PutResult i r \<Rightarrow> [(i, re_Status r)] | _ \<Rightarrow> []) @ stored_results es"
  by (simp_all add: observers List.map_filter_simps split: effect.splits)

lemma observers_append [simp]:
  "terminal_status (es @ fs) = terminal_status es @ terminal_status fs"
  "webhooks (es @ fs) = webhooks es @ webhooks fs"
  "stored_results (es @ fs) = stored_results es @ stored_results fs"
  by (simp_all add: observers List.map_filter_def)

definition webhook_due :: "attempt_ctx \<Rightarrow> Job \<Rightarrow> bool" where
  "webhook_due ax job \<longleftrightarrow> \<not> IsWebhookDelivery job \<and> j_WebhookURL job \<noteq> '''' \<and> \<not> ax_streamed ax"

text \<open>A terminal bookkeeping list: one status, one stored result and one webhook.\<close>

definition finishes :: "Job \<Rightarrow> Status \<Rightarrow> bool \<Rightarrow> effect list \<Rightarrow> bool" where
  "finishes job status due es \<longleftrightarrow>
     terminal_status es = [(j_ID job, status)]
   \<and> stored_results es = (if IsWebhookDelivery job then [] else [(j_ID job, status)])
   \<and> webhooks es = (if due then [(j_ID job, j_WebhookURL job, WebhookRetryLimit job)] else [])"

lemma failJob_finishes: "finishes job StatusFailed (webhook_due ax job) (failJob ax now job reason code body)"
  by (auto simp: finishes_def failJob_def SaveLocalResult_def recordJobResult_def webhook_due_def webhook_effect_def
      Let_def split: option.splits prod.splits)

lemma completeJob_finishes: "finishes job StatusCompleted (webhook_due ax job) (completeJob ax now job resp)"
  by (auto simp: finishes_def completeJob_def SaveLocalResult_def recordJobResult_def webhook_due_def webhook_effect_def
      Let_def split: option.splits prod.splits)

lemma failQueuedJob_finishes:
  "finishes job StatusFailed (\<not> IsWebhookDelivery job \<and> j_WebhookURL job \<noteq> '''') (failQueuedJob ax now job reason)"
  by (auto simp: finishes_def failQueuedJob_def SaveLocalResult_def recordJobResult_def webhook_effect_def
      Let_def split: option.splits prod.splits)


lemma empty_msg_simps [simp]:
  "dm_retry empty_msg = None" "dm_failed empty_msg = False" "dm_reached empty_msg = False"
  by (simp_all add: empty_msg_def)

lemma pacingSignals_plain [simp]:
  "dm_retry (pacingSignals json h) = None" "dm_reached (pacingSignals json h) = False" "dm_failed (pacingSignals json h) = False"
  by (simp_all add: pacingSignals_def Let_def)

definition retries_as :: "Job \<Rightarrow> Job \<Rightarrow> ns \<Rightarrow> effect list \<Rightarrow> bool" where
  "retries_as job job' retryAt es \<longleftrightarrow>
     HasRetriesLeft job \<and> retryAt < RetryDeadline job * millisecond
   \<and> job' = job\<lparr>j_Attempts := j_Attempts job + 1\<rparr> \<and> RecordRetry (j_ID job) (j_Attempts job + 1) \<in> set es
   \<and> terminal_status es = [] \<and> stored_results es = [] \<and> webhooks es = []"

lemma attempt_failed_cases:
  assumes "attempt_failed ax job member reason code body local h msg = (es, msg')" and "dm_retry msg = None"
  shows "(dm_retry msg' = None \<and> finishes job StatusFailed (webhook_due ax job) es)
       \<or> (\<exists>job'. dm_retry msg' = Some job' \<and> retries_as job job' (dm_retryAt msg') es)"
    and "dm_failed msg' \<and> dm_reached msg' = dm_reached msg"
proof -
  have pool: "finishes j s d (PoolFailure m # fs) = finishes j s d fs" for j s d m fs by (simp add: finishes_def)
  show "(dm_retry msg' = None \<and> finishes job StatusFailed (webhook_due ax job) es)
       \<or> (\<exists>job'. dm_retry msg' = Some job' \<and> retries_as job job' (dm_retryAt msg') es)"
    using assms failJob_finishes
    by (auto simp: attempt_failed_def Let_def retries_as_def pool split: option.splits if_splits)
  show "dm_failed msg' \<and> dm_reached msg' = dm_reached msg"
    using assms by (auto simp: attempt_failed_def Let_def split: if_splits)
qed

lemma retry_backoff_value:
  assumes "0 \<le> attempts" and "env_Int64 env ''AQUIFER_RETRY_MAX_BACKOFF_SECONDS'' defaultRetryMaxBackoffSeconds = c"
    and "1 \<le> c" and "c \<le> 4000000000"
  shows "defaultRetryBackoff env draw attempts
       = Jitter draw (min (second * 2 ^ nat (min attempts 30)) (c * second))"
proof -
  have le: "(2::int) ^ nat (min attempts 30) \<le> 2 ^ 30" by (intro power_increasing) auto
  then have b: "second * 2 ^ nat (min attempts 30) < 2 ^ 62" by simp
  have pos: "0 < second * (2::int) ^ nat (min attempts 30)" by simp
  have w1: "wrap64 (second * 2 ^ nat (min attempts 30)) = second * 2 ^ nat (min attempts 30)"
  proof (rule wrap64_id)
    have "int64_min \<le> 0" "2 ^ 62 \<le> int64_max" by (simp_all add: int64_min_def int64_max_def)
    then show "int64_min \<le> second * 2 ^ nat (min attempts 30)" "second * 2 ^ nat (min attempts 30) \<le> int64_max"
      using b pos by linarith+
  qed
  have w2: "wrap64 (c * second) = c * second"
    using assms(3,4) by (intro wrap64_id) (simp_all add: int64_min_def int64_max_def)
  show ?thesis
    unfolding defaultRetryBackoff_def assms(2) Let_def w1 w2 using pos by (auto simp: min_def)
qed

section \<open>Properties\<close>

text \<open>(C22) One attempt has exactly one of three outcomes.  It finishes the job: one
  terminal status, one stored result with that status (none for a webhook delivery
  itself), and one webhook exactly when one is due and no streaming client took the
  result; the status is completed exactly when a non-retryable answer arrived.  Or it
  schedules a retry, only with retries left and before the job's deadline, counting
  the attempt and touching nothing terminal.  Or its context was cancelled and the
  job is put back as queued.\<close>

theorem execute_outcome:
  assumes "execute ax job member result = (es, msg)"
  shows "(case dm_retry msg of
            Some job' \<Rightarrow> retries_as job job' (dm_retryAt msg) es \<and> dm_failed msg
          | None \<Rightarrow>
              if ax_cancelled ax \<and> (\<exists>r l. result = AErr r l) \<and> \<not> ExecutionExpired (unix_ms (ax_started ax)) job
              then UpdateStatus (j_ID job) StatusQueued \<in> set es
                   \<and> terminal_status es = [] \<and> stored_results es = [] \<and> webhooks es = []
              else finishes job (if dm_reached msg then StatusCompleted else StatusFailed) (webhook_due ax job) es)
       \<and> (dm_reached msg \<longleftrightarrow> \<not> ExecutionExpired (unix_ms (ax_started ax)) job
            \<and> (\<exists>resp. result = AResp resp \<and> \<not> retryableStatus (rp_status resp)))"
proof -
  have pub: "finishes j s d (Publish i n p # fs) = finishes j s d fs"
    "finishes j s d (PoolSuccess i # fs) = finishes j s d fs"
    "retries_as j j' t (Publish i n p # fs) = retries_as j j' t fs" for j j' t s d i n p fs
    by (simp_all add: finishes_def retries_as_def)
  show ?thesis
  proof (cases "ExecutionExpired (unix_ms (ax_started ax)) job")
    case True
    then show ?thesis using assms failJob_finishes by (auto simp: execute_def)
  next
    case False
    show ?thesis
    proof (cases result)
      case (AErr reason local)
      obtain fs m where f: "attempt_failed ax job member reason 0 '''' local None empty_msg = (fs, m)" by fastforce
      from attempt_failed_cases [OF f] AErr assms False show ?thesis
        by (auto simp: execute_def f pub split: if_splits)
    next
      case (AResp resp)
      show ?thesis
      proof (cases "retryableStatus (rp_status resp)")
        case True
        obtain fs m where f: "attempt_failed ax job member (''upstream returned '' @ itoa (rp_status resp)) (rp_status resp)
            (rp_body resp) False (Some (rp_headers resp)) (pacingSignals (ax_json ax) (rp_headers resp)) = (fs, m)" by fastforce
        from attempt_failed_cases [OF f] AResp assms False True show ?thesis
          by (auto simp: execute_def pub simp del: append.simps simp add: f)
      next
        case nr: False
        with assms False AResp completeJob_finishes show ?thesis
          by (auto simp: execute_def Let_def pub split: option.splits)
      qed
    qed
  qed
qed


definition sample_job :: Job where
  "sample_job = new_job id ''j1'' 1000 sample_request"

definition sample_ctx :: attempt_ctx where
  "sample_ctx = \<lparr> ax_env = (\<lambda>_. ''''), ax_hash = id, ax_json = (\<lambda>_. None), ax_started = 2000 * millisecond,
     ax_now = 3000 * millisecond, ax_draw = 7, ax_cancelled = False, ax_recorder = None, ax_streamed = False \<rparr>"

definition answer :: "int \<Rightarrow> attempt_result" where
  "answer code = AResp \<lparr> rp_status = code, rp_headers = [(''x-aqueduct-slow-start'', ''true'')], rp_body = ''ok'' \<rparr>"

theorem execute_outcome_witness:
  "finishes sample_job StatusCompleted True (fst (execute sample_ctx sample_job None (answer 200)))
   \<and> (\<exists>job'. dm_retry (snd (execute sample_ctx sample_job None (answer 503))) = Some job'
        \<and> retries_as sample_job job' (dm_retryAt (snd (execute sample_ctx sample_job None (answer 503))))
             (fst (execute sample_ctx sample_job None (answer 503))))"
proof -
  have "Option.is_none (dm_retry (snd (execute sample_ctx sample_job None (answer 200))))" by code_simp
  then have a: "dm_retry (snd (execute sample_ctx sample_job None (answer 200))) = None" by (simp add: Option.is_none_def)
  have a': "dm_reached (snd (execute sample_ctx sample_job None (answer 200)))"
    "webhook_due sample_ctx sample_job" "\<not> ax_cancelled sample_ctx" by code_simp+
  have "\<not> Option.is_none (dm_retry (snd (execute sample_ctx sample_job None (answer 503))))" by code_simp
  then have b: "\<exists>job'. dm_retry (snd (execute sample_ctx sample_job None (answer 503))) = Some job'"
    by (simp add: Option.is_none_def)
  show ?thesis
    using execute_outcome [of sample_ctx sample_job None "answer 200", OF surjective_pairing]
      execute_outcome [of sample_ctx sample_job None "answer 503", OF surjective_pairing] a a' b
    by (auto split: option.splits)
qed

text \<open>The delay before a retry: a target's own Retry-After is honoured exactly;
  otherwise the delay is the exponential backoff for the attempts already made,
  capped at the configured ceiling, plus at most a tenth of jitter.\<close>

theorem retry_delay_bounds:
  fixes attempts :: int
  assumes "0 \<le> attempts" and "1 \<le> c" and "c \<le> 4000000000"
    and "env_Int64 env ''AQUIFER_RETRY_MAX_BACKOFF_SECONDS'' defaultRetryMaxBackoffSeconds = c"
  defines "base \<equiv> min (second * 2 ^ nat (min attempts 30)) (c * second)"
  shows "(\<forall>h secs. parse_int64 (header_get ''Retry-After'' h) = Some secs \<and> 0 \<le> secs \<and> secs \<le> 9000000000
            \<longrightarrow> retryDelay env draw attempts (Some h) = secs * second)
       \<and> base \<le> retryDelay env draw attempts None
       \<and> rat_of_int (retryDelay env draw attempts None) \<le> of_int base * (11 / 10)"
proof (intro conjI allI impI)
  fix h secs
  assume h: "parse_int64 (header_get ''Retry-After'' h) = Some secs \<and> 0 \<le> secs \<and> secs \<le> 9000000000"
  then have "wrap64 (secs * second) = secs * second"
    by (intro wrap64_id) (simp_all add: int64_min_def int64_max_def)
  with h show "retryDelay env draw attempts (Some h) = secs * second" by (simp add: retryDelay_def)
next
  have delay: "retryDelay env draw attempts None = Jitter draw base"
    using retry_backoff_value [OF assms(1) assms(4) assms(2,3)] by (simp add: retryDelay_def base_def)
  have lower: "second \<le> base" using assms(2) by (simp add: base_def)
  have "base \<le> c * second" by (simp add: base_def)
  also have "\<dots> < 2 ^ 62" using assms(3) by simp
  finally have upper: "base < 2 ^ 62" .
  note j = Jitter_bounds [of base draw, OF _ upper]
  show "base \<le> retryDelay env draw attempts None" using j lower delay by simp
  have "(of_int base + 1 :: rat) \<le> of_int base * (11 / 10)"
  proof -
    have "(10 :: rat) \<le> of_int base" using lower by linarith
    then show ?thesis by simp
  qed
  with j lower show "rat_of_int (retryDelay env draw attempts None) \<le> of_int base * (11 / 10)"
    unfolding delay by simp
qed

theorem retry_delay_bounds_witness:
  "8 * second \<le> retryDelay (\<lambda>_. '''') 5 3 None \<and> rat_of_int (retryDelay (\<lambda>_. '''') 5 3 None) \<le> of_int (8 * second) * (11 / 10)"
proof -
  have "env_Int64 (\<lambda>_. '''') ''AQUIFER_RETRY_MAX_BACKOFF_SECONDS'' defaultRetryMaxBackoffSeconds = 300"
    by (simp add: env_Int64_def defaultRetryMaxBackoffSeconds_def)
  from retry_delay_bounds [of 3 300, OF _ _ _ this] show ?thesis by simp
qed

end
