(* ===== verification/Target_State.thy ===== *)
theory Target_State
  imports Jobs "HOL-Library.Multiset"
begin

text \<open>
  The per-target and per-user bookkeeping of \<^verbatim>\<open>internal/dispatch\<close>:
  \<^verbatim>\<open>user_load.go\<close> (accepted but unfinished work of each user),
  \<^verbatim>\<open>dead_target.go\<close> (how long a target has been failing) and
  \<^verbatim>\<open>drain_rate.go\<close> (how fast a target's queues finish jobs).
\<close>

section \<open>User load\<close>

record userLoad =
  ul_jobs :: int
  ul_webhooks :: int

record userLoadTracker =
  ut_users :: "(string \<times> userLoad) list"
  ut_accepted :: int

definition defaultMaxPendingWebhooksPerUser :: int where "defaultMaxPendingWebhooksPerUser = 1000"

definition newUserLoadTracker :: userLoadTracker where
  "newUserLoadTracker = \<lparr> ut_users = [], ut_accepted = 0 \<rparr>"

definition user_add :: "Job \<Rightarrow> userLoadTracker \<Rightarrow> userLoadTracker" where
  "user_add job t =
     (let load = (case map_of (ut_users t) (j_UserID job) of None \<Rightarrow> \<lparr> ul_jobs = 0, ul_webhooks = 0 \<rparr> | Some l \<Rightarrow> l);
          load = (if IsWebhookDelivery job then load\<lparr>ul_webhooks := ul_webhooks load + 1\<rparr>
                  else load\<lparr>ul_jobs := ul_jobs load + 1\<rparr>)
      in t\<lparr>ut_users := al_put (j_UserID job) load (ut_users t), ut_accepted := ut_accepted t + 1\<rparr>)"

definition user_active :: "userLoadTracker \<Rightarrow> int" where
  "user_active t = int (length (ut_users t))"

definition user_done :: "Job \<Rightarrow> userLoadTracker \<Rightarrow> userLoadTracker" where
  "user_done job t =
     (case map_of (ut_users t) (j_UserID job) of
        None \<Rightarrow> t
      | Some load \<Rightarrow>
          (let load = (if IsWebhookDelivery job then load\<lparr>ul_webhooks := max (ul_webhooks load - 1) 0\<rparr>
                       else load\<lparr>ul_jobs := max (ul_jobs load - 1) 0\<rparr>)
           in t\<lparr>ut_users := (if ul_jobs load = 0 \<and> ul_webhooks load = 0
                             then al_del (j_UserID job) (ut_users t)
                             else al_put (j_UserID job) load (ut_users t))\<rparr>))"

definition configuredMaxPendingWebhooksPerUser :: "environment \<Rightarrow> int" where
  "configuredMaxPendingWebhooksPerUser env =
     (let raw = env ''AQUIFER_MAX_PENDING_WEBHOOKS_PER_USER''
      in if raw = '''' then defaultMaxPendingWebhooksPerUser
         else (case parse_int64 raw of
                 None \<Rightarrow> defaultMaxPendingWebhooksPerUser
               | Some v \<Rightarrow> if v < 0 then defaultMaxPendingWebhooksPerUser else v))"

definition webhookBacklogDecision :: "environment \<Rightarrow> string \<Rightarrow> f64 \<Rightarrow> userLoadTracker \<Rightarrow> bool \<times> int \<times> int" where
  "webhookBacklogDecision env userID draw t =
     (let limit = configuredMaxPendingWebhooksPerUser env
      in if limit \<le> 0 then (False, limit, 0)
         else
           (let backlog = (case map_of (ut_users t) userID of None \<Rightarrow> 0 | Some l \<Rightarrow> ul_webhooks l);
                n = length (ut_users t);
                othersActive = (n > 1 \<or> (n = 1 \<and> map_of (ut_users t) userID = None))
            in if \<not> othersActive \<or> backlog \<le> limit then (False, limit, backlog)
               else (draw < min (of_int (backlog - limit) / of_int limit) 1, limit, backlog)))"

definition UserLoad :: "string \<Rightarrow> userLoadTracker \<Rightarrow> int \<times> int" where
  "UserLoad userID t =
     (case map_of (ut_users t) userID of None \<Rightarrow> (0, 0) | Some l \<Rightarrow> (ul_jobs l, ul_webhooks l))"

text \<open>What the tracker stands for: the multiset of accepted and unfinished work.\<close>

definition outstanding_of :: "Job multiset \<Rightarrow> string \<Rightarrow> int \<times> int" where
  "outstanding_of M u =
     (int (size (filter_mset (\<lambda>j. j_UserID j = u \<and> \<not> IsWebhookDelivery j) M)),
      int (size (filter_mset (\<lambda>j. j_UserID j = u \<and> IsWebhookDelivery j) M)))"

definition load_of :: "int \<times> int \<Rightarrow> userLoad option" where
  "load_of x = (if x = (0, 0) then None else Some \<lparr> ul_jobs = fst x, ul_webhooks = snd x \<rparr>)"

definition tracks :: "userLoadTracker \<Rightarrow> Job multiset \<Rightarrow> bool" where
  "tracks t M \<longleftrightarrow> al_wf (ut_users t) \<and> map_of (ut_users t) = load_of \<circ> outstanding_of M"

datatype load_event = LAdd Job | LDone Job

fun load_step :: "load_event \<Rightarrow> userLoadTracker \<times> Job multiset \<Rightarrow> userLoadTracker \<times> Job multiset" where
  "load_step (LAdd j) (t, M) = (user_add j t, add_mset j M)"
| "load_step (LDone j) (t, M) = (user_done j t, M - {#j#})"

fun load_ok :: "load_event \<Rightarrow> userLoadTracker \<times> Job multiset \<Rightarrow> bool" where
  "load_ok (LAdd j) (t, M) = True"
| "load_ok (LDone j) (t, M) = (j \<in># M)"

section \<open>Target health\<close>

record targetHealth =
  th_failingSince :: ms
  th_served :: int

definition answered :: "targetHealth \<Rightarrow> targetHealth" where
  "answered h = h\<lparr>th_failingSince := 0\<rparr>"

definition failed :: "ms \<Rightarrow> targetHealth \<Rightarrow> targetHealth" where
  "failed now h = (if th_failingSince h = 0 then h\<lparr>th_failingSince := now\<rparr> else h)"

definition failingFor :: "ns \<Rightarrow> targetHealth \<Rightarrow> ns" where
  "failingFor now h = (if th_failingSince h = 0 then 0 else now - th_failingSince h * millisecond)"

definition deadTargetFailAfter :: "environment \<Rightarrow> ns" where
  "deadTargetFailAfter env = wrap64 (env_Int64 env ''AQUIFER_DEAD_TARGET_FAIL_AFTER_SECONDS'' 0 * second)"

definition deadTargetSweepEvery :: ns where "deadTargetSweepEvery = 2 * second"

section \<open>Drain rate\<close>

definition DefaultStuckBacklogSeconds :: int where "DefaultStuckBacklogSeconds = 60"

definition StuckBacklogLimit :: "environment \<Rightarrow> ns" where
  "StuckBacklogLimit env = wrap64 (env_Int64 env ''AQUIFER_MEMORY_STUCK_BACKLOG_SECONDS'' DefaultStuckBacklogSeconds * second)"

record drainTracker =
  dt_lastAt :: "ns option"
  dt_lastServed :: int
  dt_rate :: f64
  dt_sampled :: bool

definition seconds :: "ns \<Rightarrow> f64" where
  "seconds d = of_int d / of_int second"

definition sampleDrain :: "ns \<Rightarrow> int \<Rightarrow> int \<Rightarrow> drainTracker \<Rightarrow> drainTracker" where
  "sampleDrain now served backlog d =
     (case dt_lastAt d of
        None \<Rightarrow> d\<lparr>dt_lastAt := Some now, dt_lastServed := served, dt_sampled := False\<rparr>
      | Some lastAt \<Rightarrow>
          if backlog \<le> 0 then d\<lparr>dt_lastAt := Some now, dt_lastServed := served, dt_sampled := False\<rparr>
          else
            (let dt = seconds (now - lastAt)
             in if dt \<le> 0 then d
                else
                  (let instant = of_int (served - dt_lastServed d) / dt
                   in d\<lparr>dt_rate := (if dt_sampled d then 7 / 10 * dt_rate d + 3 / 10 * instant else instant),
                        dt_sampled := True, dt_lastAt := Some now, dt_lastServed := served\<rparr>)))"

definition BacklogStuck :: "ns \<Rightarrow> int \<Rightarrow> drainTracker \<Rightarrow> bool" where
  "BacklogStuck limit backlog d =
     (if backlog \<le> 0 \<or> limit \<le> 0 then False
      else if \<not> dt_sampled d then False
      else of_int backlog > dt_rate d * seconds limit)"

section \<open>Lemmas\<close>

lemma outstanding_add:
  "outstanding_of (add_mset j M) u =
     (if j_UserID j = u then (if IsWebhookDelivery j then (fst (outstanding_of M u), snd (outstanding_of M u) + 1)
                              else (fst (outstanding_of M u) + 1, snd (outstanding_of M u)))
      else outstanding_of M u)"
  by (simp add: outstanding_of_def)

lemma outstanding_nonneg: "0 \<le> fst (outstanding_of M u)" "0 \<le> snd (outstanding_of M u)"
  by (simp_all add: outstanding_of_def)

lemma tracks_UserLoad: "tracks t M \<Longrightarrow> UserLoad u t = outstanding_of M u"
  by (cases "outstanding_of M u") (auto simp: tracks_def UserLoad_def load_of_def)

lemma user_add_tracks: "tracks t M \<Longrightarrow> tracks (user_add j t) (add_mset j M)"
proof -
  assume t: "tracks t M"
  let ?u = "j_UserID j"
  have "map_of (ut_users t) ?u = load_of (outstanding_of M ?u)" using t by (simp add: tracks_def)
  then have "(case map_of (ut_users t) ?u of None \<Rightarrow> \<lparr> ul_jobs = 0, ul_webhooks = 0 \<rparr> | Some l \<Rightarrow> l)
      = \<lparr> ul_jobs = fst (outstanding_of M ?u), ul_webhooks = snd (outstanding_of M ?u) \<rparr>"
    by (auto simp: load_of_def)
  with t show ?thesis
    using outstanding_nonneg [of M ?u]
    by (auto simp: tracks_def user_add_def Let_def fun_eq_iff outstanding_add load_of_def prod_eq_iff)
qed

lemma user_done_tracks:
  assumes "tracks t (add_mset j M)" shows "tracks (user_done j t) M"
proof -
  let ?u = "j_UserID j"
  have l: "map_of (ut_users t) ?u = load_of (outstanding_of (add_mset j M) ?u)"
    and others: "\<And>v. v \<noteq> ?u \<Longrightarrow> map_of (ut_users t) v = load_of (outstanding_of M v)"
    using assms by (simp_all add: tracks_def outstanding_add)
  show ?thesis
    using assms l others outstanding_nonneg [of M ?u]
    by (cases "IsWebhookDelivery j")
      (auto simp: tracks_def user_done_def Let_def outstanding_add load_of_def fun_eq_iff prod_eq_iff)
qed

interpretation user_load: state_machine load_step load_ok "\<lambda>(t, M). tracks t M"
proof unfold_locales
  fix s e assume "case s of (t, M) \<Rightarrow> tracks t M" and "load_ok e s"
  then show "case load_step e s of (t, M) \<Rightarrow> tracks t M"
    by (cases s; cases e) (auto simp: user_add_tracks user_done_tracks insert_DiffM)
qed

lemma new_tracks: "tracks newUserLoadTracker {#}"
  by (auto simp: tracks_def newUserLoadTracker_def outstanding_of_def load_of_def)


lemma tracks_active:
  assumes "tracks t M"
  shows "user_active t = int (card {u. outstanding_of M u \<noteq> (0, 0)})"
proof -
  have "fst ` set (ut_users t) = dom (map_of (ut_users t))" by (simp add: dom_map_of_conv_image_fst)
  also have "\<dots> = {u. outstanding_of M u \<noteq> (0, 0)}"
    using assms by (auto simp: tracks_def dom_def load_of_def)
  finally have "card (set (map fst (ut_users t))) = card {u. outstanding_of M u \<noteq> (0, 0)}" by simp
  moreover have "distinct (map fst (ut_users t))" using assms by (simp add: tracks_def al_wf_def)
  ultimately show ?thesis
    using distinct_card [of "map fst (ut_users t)"] by (simp add: user_active_def)
qed

lemma others_active_iff:
  assumes "tracks t M"
  shows "(length (ut_users t) > 1 \<or> (length (ut_users t) = 1 \<and> map_of (ut_users t) u = None))
     \<longleftrightarrow> (\<exists>v. v \<noteq> u \<and> outstanding_of M v \<noteq> (0, 0))"
proof -
  let ?A = "{u. outstanding_of M u \<noteq> (0, 0)}"
  have n: "length (ut_users t) = card ?A" using tracks_active [OF assms] by (simp add: user_active_def)
  have u: "map_of (ut_users t) u = None \<longleftrightarrow> u \<notin> ?A" using assms by (auto simp: tracks_def load_of_def)
  have "?A = fst ` set (ut_users t)"
    using assms by (auto simp: tracks_def load_of_def dom_map_of_conv_image_fst [symmetric] dom_def)
  then have fin: "finite ?A" by simp
  have "card ?A > 1 \<or> (card ?A = 1 \<and> u \<notin> ?A) \<longleftrightarrow> card (?A - {u}) > 0"
    using fin by (cases "u \<in> ?A") (auto simp: card_Diff_singleton Suc_le_eq)
  also have "\<dots> \<longleftrightarrow> (\<exists>v. v \<noteq> u \<and> v \<in> ?A)" using fin by (auto simp: card_gt_0_iff)
  finally show ?thesis by (simp add: n u)
qed

text \<open>Samples whose pace stays in a band keep the smoothed rate in it.\<close>

fun drain_step :: "ns \<times> int \<times> int \<Rightarrow> drainTracker \<Rightarrow> drainTracker" where
  "drain_step (now, served, backlog) d = sampleDrain now served backlog d"

fun paced :: "f64 \<Rightarrow> f64 \<Rightarrow> ns \<times> int \<times> int \<Rightarrow> drainTracker \<Rightarrow> bool" where
  "paced lo hi (now, served, backlog) d =
     (case dt_lastAt d of None \<Rightarrow> True
      | Some lastAt \<Rightarrow>
          backlog \<le> 0 \<or> now \<le> lastAt
          \<or> (lo * seconds (now - lastAt) \<le> of_int (served - dt_lastServed d)
             \<and> of_int (served - dt_lastServed d) \<le> hi * seconds (now - lastAt)))"

definition in_band :: "f64 \<Rightarrow> f64 \<Rightarrow> drainTracker \<Rightarrow> bool" where
  "in_band lo hi d \<longleftrightarrow> (dt_sampled d \<longrightarrow> lo \<le> dt_rate d \<and> dt_rate d \<le> hi)"

lemma seconds_pos: "0 < seconds d \<longleftrightarrow> 0 < d"
  by (simp add: seconds_def zero_less_divide_iff)

lemma sampleDrain_in_band:
  assumes "in_band lo hi d" and "paced lo hi (now, served, backlog) d"
  shows "in_band lo hi (sampleDrain now served backlog d)"
proof (cases "dt_lastAt d")
  case (Some lastAt)
  show ?thesis
  proof (cases "backlog \<le> 0 \<or> seconds (now - lastAt) \<le> 0")
    case False
    let ?dt = "seconds (now - lastAt)" and ?i = "of_int (served - dt_lastServed d) / seconds (now - lastAt)"
    have "now > lastAt" using False seconds_pos [of "now - lastAt"] by auto
    with assms(2) Some False have "lo * ?dt \<le> of_int (served - dt_lastServed d)" "of_int (served - dt_lastServed d) \<le> hi * ?dt"
      by auto
    with False have i: "lo \<le> ?i" "?i \<le> hi" by (simp_all add: field_simps)
    show ?thesis
    proof (cases "dt_sampled d")
      case True
      then have "lo \<le> dt_rate d" "dt_rate d \<le> hi" using assms(1) by (auto simp: in_band_def)
      with i have "lo \<le> 7 / 10 * dt_rate d + 3 / 10 * ?i" "7 / 10 * dt_rate d + 3 / 10 * ?i \<le> hi" by linarith+
      with Some False True show ?thesis by (simp add: sampleDrain_def in_band_def Let_def)
    next
      case nos: False
      with i Some False show ?thesis by (simp add: sampleDrain_def in_band_def Let_def)
    qed
  qed (use Some assms in \<open>auto simp: sampleDrain_def in_band_def Let_def\<close>)
qed (simp add: sampleDrain_def in_band_def)

interpretation drain_band: state_machine drain_step "paced lo hi" "in_band lo hi" for lo hi
proof unfold_locales
  fix d e assume "in_band lo hi d" and "paced lo hi e d"
  then show "in_band lo hi (drain_step e d)" by (cases e) (simp add: sampleDrain_in_band)
qed

section \<open>Properties\<close>

text \<open>(C23) The user load tracker is exact: after any sequence of accepted and finished
  work in which only accepted, unfinished work finishes, every user's counters are
  the numbers of their unfinished jobs and webhook deliveries, and the tracker holds
  exactly the users with unfinished work.\<close>

theorem user_load_exact:
  assumes "ok_run load_step load_ok es (newUserLoadTracker, {#})"
    and "fold load_step es (newUserLoadTracker, {#}) = (t, M)"
  shows "UserLoad u t = outstanding_of M u \<and> user_active t = int (card {v. outstanding_of M v \<noteq> (0, 0)})"
proof -
  have "tracks t M" using user_load.run_inv [OF _ assms(1)] assms(2) new_tracks by simp
  then show ?thesis by (simp add: tracks_UserLoad tracks_active)
qed

theorem user_load_exact_witness:
  "let j = new_job id ''j'' 0 sample_request;
       (t, M) = fold load_step [LAdd j, LAdd (j\<lparr>j_ID := ''k''\<rparr>), LDone j] (newUserLoadTracker, {#})
   in UserLoad ''u1'' t = (1, 0) \<and> user_active t = 1"
proof -
  let ?j = "new_job id ''j'' 0 sample_request"
  let ?es = "[LAdd ?j, LAdd (?j\<lparr>j_ID := ''k''\<rparr>), LDone ?j]"
  let ?M = "{#?j\<lparr>j_ID := ''k''\<rparr>#}"
  obtain t where run: "fold load_step ?es (newUserLoadTracker, {#}) = (t, ?M)" by simp
  have u: "j_UserID ?j = ''u1''" "\<not> IsWebhookDelivery (?j\<lparr>j_ID := ''k''\<rparr>)"
    by (simp_all add: new_job_def sample_request_def IsWebhookDelivery_def KindUser_def KindWebhookDelivery_def)
  have o: "outstanding_of ?M v = (if v = ''u1'' then (1, 0) else (0, 0))" for v
    using u by (auto simp: outstanding_of_def)
  have "UserLoad ''u1'' t = (1, 0) \<and> user_active t = 1"
    using user_load_exact [OF _ run, of "''u1''"] by (simp add: o)
  with run show ?thesis by simp
qed

text \<open>Webhook back-pressure on intake: a user is refused only while another user has
  unfinished work and their own undelivered webhooks exceed the limit, and is
  refused for certain from twice the limit on.\<close>

theorem webhook_backpressure:
  fixes env :: environment and u :: string
  assumes "tracks t M" and "0 \<le> draw" and "draw < 1"
  defines "limit \<equiv> configuredMaxPendingWebhooksPerUser env"
  defines "refused \<equiv> fst (webhookBacklogDecision env u draw t)"
  shows "(refused \<longrightarrow> 0 < limit \<and> (\<exists>v. v \<noteq> u \<and> outstanding_of M v \<noteq> (0, 0)) \<and> limit < snd (outstanding_of M u))
       \<and> (0 < limit \<and> (\<exists>v. v \<noteq> u \<and> outstanding_of M v \<noteq> (0, 0)) \<and> 2 * limit \<le> snd (outstanding_of M u) \<longrightarrow> refused)"
proof -
  let ?b = "snd (outstanding_of M u)"
  have b: "(case map_of (ut_users t) u of None \<Rightarrow> 0 | Some l \<Rightarrow> ul_webhooks l) = ?b"
    using assms(1) by (auto simp: tracks_def load_of_def)
  have "(of_int (?b - limit) / of_int limit :: rat) \<ge> 1" if "0 < limit" "2 * limit \<le> ?b"
  proof -
    have "of_int limit \<le> (of_int (?b - limit) :: rat)" using that by (simp only: of_int_le_iff)
    with that show ?thesis by (simp add: le_divide_eq)
  qed
  then show ?thesis
    using assms(2,3) others_active_iff [OF assms(1), of u]
    by (auto simp: refused_def webhookBacklogDecision_def Let_def b limit_def [symmetric] not_le)
qed


theorem webhook_backpressure_witness:
  "let j = \<lambda>u. (new_job id u 0 sample_request)\<lparr>j_UserID := u\<rparr>
   in tracks (user_add (j ''b'') (user_add (j ''a'') newUserLoadTracker)) {#j ''b'', j ''a''#}
      \<and> \<not> fst (webhookBacklogDecision (\<lambda>_. '''') ''a'' 0 (user_add (j ''b'') (user_add (j ''a'') newUserLoadTracker)))"
proof -
  let ?j = "\<lambda>u. (new_job id u 0 sample_request)\<lparr>j_UserID := u\<rparr>"
  have t: "tracks (user_add (?j ''b'') (user_add (?j ''a'') newUserLoadTracker)) {#?j ''b'', ?j ''a''#}"
    by (intro user_add_tracks new_tracks)
  have "snd (outstanding_of {#?j ''b'', ?j ''a''#} ''a'') = 0"
    by (simp add: outstanding_of_def new_job_def IsWebhookDelivery_def KindUser_def KindWebhookDelivery_def)
  with webhook_backpressure [OF t, of 0 "\<lambda>_. ''''" "''a''"]
  have "\<not> fst (webhookBacklogDecision (\<lambda>_. '''') ''a'' 0 (user_add (?j ''b'') (user_add (?j ''a'') newUserLoadTracker)))"
    by linarith
  with t show ?thesis unfolding Let_def by blast
qed

text \<open>The stuck-backlog verdict follows the measured pace: if between samples a
  target always finished at least \<open>lo\<close> and at most \<open>hi\<close> jobs per second, a backlog it
  can clear within the limit at \<open>lo\<close> is never called stuck, and once measured, one
  that \<open>hi\<close> could not clear always is.\<close>

theorem stuck_verdict_follows_pace:
  assumes "ok_run drain_step (paced lo hi) es d" and "\<not> dt_sampled d" and "0 < limit"
  defines "d' \<equiv> fold drain_step es d"
  shows "(of_int backlog \<le> lo * seconds limit \<longrightarrow> \<not> BacklogStuck limit backlog d')
       \<and> (dt_sampled d' \<and> hi * seconds limit < of_int backlog \<and> 0 < backlog \<longrightarrow> BacklogStuck limit backlog d')"
proof -
  have band: "in_band lo hi d'"
    unfolding d'_def by (rule drain_band.run_inv [OF _ assms(1)]) (use assms(2) in \<open>simp add: in_band_def\<close>)
  have s: "0 < seconds limit" using assms(3) by (simp add: seconds_pos)
  show ?thesis
  proof (cases "dt_sampled d'")
    case True
    with band have "lo * seconds limit \<le> dt_rate d' * seconds limit" "dt_rate d' * seconds limit \<le> hi * seconds limit"
      using s by (auto simp: in_band_def mult_right_mono)
    with True assms(3) show ?thesis by (auto simp: BacklogStuck_def)
  qed (simp add: BacklogStuck_def)
qed

definition no_samples :: drainTracker where
  "no_samples = \<lparr> dt_lastAt = None, dt_lastServed = 0, dt_rate = 0, dt_sampled = False \<rparr>"

theorem stuck_verdict_follows_pace_witness:
  "let d = fold drain_step [(0, 0, 5), (second, 10, 5), (2 * second, 22, 5)] no_samples
   in \<not> BacklogStuck (6 * second) 50 d \<and> BacklogStuck (6 * second) 80 d"
proof -
  let ?es = "[(0, 0, 5), (second, 10, 5), (2 * second, 22, 5)]"
  have ok: "ok_run drain_step (paced 10 12) ?es no_samples"
    by (simp add: no_samples_def sampleDrain_def seconds_def Let_def)
  have s: "dt_sampled (fold drain_step ?es no_samples)" "\<not> dt_sampled no_samples"
    by (simp_all add: no_samples_def sampleDrain_def seconds_def Let_def)
  define d where "d = fold drain_step ?es no_samples"
  have "seconds (6 * second) = 6" by (simp add: seconds_def)
  with stuck_verdict_follows_pace [OF ok s(2), of "6 * second" 50, folded d_def]
    stuck_verdict_follows_pace [OF ok s(2), of "6 * second" 80, folded d_def] s(1) [folded d_def]
  have "\<not> BacklogStuck (6 * second) 50 d \<and> BacklogStuck (6 * second) 80 d" by simp
  then show ?thesis unfolding d_def Let_def .
qed

end
