(* ===== verification/Shared_Pace.thy ===== *)
theory Shared_Pace
  imports Support
begin

text \<open>
  \<^verbatim>\<open>internal/dispatch/shared_pace.go\<close>: the pace all account queues of one target
  share.  \<open>reserve\<close> returns the wait (0 is a granted slot) and the new state; the
  rate the code reads and the clock are arguments.  The map of waiting queues is
  an association list; the code only tests it for membership and existence, so
  its iteration order does not matter.
\<close>

definition MinRPS :: f64 where "MinRPS = 1 / 2"

record waiter =
  w_since :: ns
  w_asked :: ns

record 'k sharedPace =
  sp_last :: ns
  sp_granted :: bool
  sp_waiting :: "('k \<times> waiter) list"

definition newSharedPace :: "'k sharedPace" where
  "newSharedPace = \<lparr> sp_last = 0, sp_granted = False, sp_waiting = [] \<rparr>"

definition pace_interval :: "f64 \<Rightarrow> ns" where
  "pace_interval r = f64_to_int (of_int second / r)"

definition drop_stale :: "ns \<Rightarrow> ns \<Rightarrow> 'k sharedPace \<Rightarrow> 'k sharedPace" where
  "drop_stale interval now s =
     s\<lparr>sp_waiting := filter (\<lambda>(_, w). \<not> now - w_asked w > 2 * interval + 100 * millisecond) (sp_waiting s)\<rparr>"

definition pace_wait :: "ns \<Rightarrow> 'k \<Rightarrow> ns \<Rightarrow> 'k sharedPace \<Rightarrow> ns \<times> 'k sharedPace" where
  "pace_wait interval who now s =
     (let w = (case map_of (sp_waiting s) who of
                 Some w \<Rightarrow> w\<lparr>w_asked := now\<rparr>
               | None \<Rightarrow> \<lparr> w_since = now, w_asked = now \<rparr>);
          s = s\<lparr>sp_waiting := al_put who w (sp_waiting s)\<rparr>
      in (if sp_granted s \<and> now < sp_last s + interval then sp_last s + interval - now
          else min interval (5 * millisecond), s))"

definition outwaited :: "'k \<Rightarrow> 'k sharedPace \<Rightarrow> bool" where
  "outwaited who s \<longleftrightarrow>
     list_ex (\<lambda>(k, w). k \<noteq> who \<and>
        (case map_of (sp_waiting s) who of None \<Rightarrow> True | Some mine \<Rightarrow> w_since w < w_since mine))
       (sp_waiting s)"

definition reserve :: "f64 \<Rightarrow> 'k \<Rightarrow> ns \<Rightarrow> 'k sharedPace \<Rightarrow> ns \<times> 'k sharedPace" where
  "reserve rate who now s0 =
     (if rate \<le> 0 then (0, s0)
      else
        (let r = max rate MinRPS;
             interval = pace_interval r;
             s = drop_stale interval now s0;
             start = now - interval
         in if sp_granted s \<and> now < sp_last s + interval then pace_wait interval who now s
            else
              (let start = (if sp_granted s \<and> sp_last s + interval > start then sp_last s + interval else start)
               in if outwaited who s then pace_wait interval who now s
                  else (0, s\<lparr>sp_waiting := al_del who (sp_waiting s), sp_last := start, sp_granted := True\<rparr>))))"

text \<open>
  A run of calls \<open>(rate, who, now)\<close>: for each granted slot, when it was granted
  and the instant the pace recorded for it.
\<close>

fun pace_run :: "(f64 \<times> 'k \<times> ns) list \<Rightarrow> 'k sharedPace \<Rightarrow> (ns \<times> ns) list" where
  "pace_run [] s = []"
| "pace_run ((rate, who, now) # calls) s =
     (let (wait, s') = reserve rate who now s
      in if wait = 0 then (now, sp_last s') # pace_run calls s' else pace_run calls s')"

section \<open>Lemmas\<close>

lemma pace_interval_antimono: "0 < r \<Longrightarrow> r \<le> r' \<Longrightarrow> pace_interval r' \<le> pace_interval r"
  unfolding pace_interval_def by (intro f64_to_int_mono) (auto simp: field_simps)

lemma drop_stale_frame [simp]:
  "sp_last (drop_stale i now s) = sp_last s" "sp_granted (drop_stale i now s) = sp_granted s"
  by (simp_all add: drop_stale_def)

lemma pace_wait_frame [simp]:
  "sp_last (snd (pace_wait i who now s)) = sp_last s"
  "sp_granted (snd (pace_wait i who now s)) = sp_granted s"
  by (simp_all add: pace_wait_def Let_def)

lemma pace_wait_pos: "0 < i \<Longrightarrow> 0 < fst (pace_wait i who now s)"
  by (auto simp: pace_wait_def Let_def)

lemma reserve_grant:
  assumes "reserve rate who now s = (0, s')" and "0 < rate" and "0 < pace_interval (max rate MinRPS)"
  defines "i \<equiv> pace_interval (max rate MinRPS)"
  shows "sp_granted s' \<and> (sp_granted s \<longrightarrow> sp_last s + i \<le> sp_last s')
       \<and> now - i \<le> sp_last s' \<and> sp_last s' \<le> now \<and> \<not> outwaited who (drop_stale i now s)
       \<and> sp_waiting s' = al_del who (sp_waiting (drop_stale i now s))"
proof -
  let ?s = "drop_stale i now s"
  have i: "0 < i" using assms by simp
  have nowait: "pace_wait i who now ?s \<noteq> (0, s')" using pace_wait_pos [OF i, of who now ?s] by auto
  from assms(1,2) nowait have free: "\<not> (sp_granted s \<and> now < sp_last s + i)" "\<not> outwaited who ?s"
    and s': "s' = ?s\<lparr>sp_waiting := al_del who (sp_waiting ?s),
        sp_last := (if sp_granted s \<and> sp_last s + i > now - i then sp_last s + i else now - i),
        sp_granted := True\<rparr>"
    by (auto simp: reserve_def Let_def i_def split: if_splits)
  with i show ?thesis by auto
qed

lemma reserve_deny:
  assumes "fst (reserve rate who now s) \<noteq> 0"
  shows "sp_last (snd (reserve rate who now s)) = sp_last s
       \<and> sp_granted (snd (reserve rate who now s)) = sp_granted s"
  using assms by (auto simp: reserve_def Let_def split: if_splits)

lemma pace_run_spaced:
  assumes "\<forall>(rate, who, now)\<in>set calls. 0 < rate \<and> d \<le> pace_interval (max rate MinRPS)" and "0 < d"
  shows "spaced d (map snd (pace_run calls s))
       \<and> (sp_granted s \<longrightarrow> (\<forall>p\<in>set (pace_run calls s). sp_last s + d \<le> snd p))"
  using assms
proof (induction calls s rule: pace_run.induct)
  case (2 rate who now calls s)
  obtain w s' where r: "reserve rate who now s = (w, s')" by fastforce
  note IH = "2.IH" [OF r [symmetric] refl]
  show ?case
  proof (cases "w = 0")
    case True
    have g: "sp_granted s'" "sp_granted s \<longrightarrow> sp_last s + d \<le> sp_last s'"
      using reserve_grant [of rate who now s s'] r True "2.prems" by fastforce+
    with IH(1) True "2.prems" r show ?thesis by (fastforce simp: spaced_def)
  next
    case False
    with reserve_deny [of rate who now s] r IH(2) "2.prems" show ?thesis by simp
  qed
qed (simp add: spaced_def)

lemma pace_run_starts:
  assumes "\<forall>(rate, who, now)\<in>set calls. 0 < rate \<and> 0 < pace_interval (max rate MinRPS)
             \<and> pace_interval (max rate MinRPS) \<le> e"
    and "p \<in> set (pace_run calls s)"
  shows "fst p - e \<le> snd p \<and> snd p \<le> fst p"
  using assms
proof (induction calls s rule: pace_run.induct)
  case (2 rate who now calls s)
  obtain w s' where r: "reserve rate who now s = (w, s')" by fastforce
  note IH = "2.IH" [OF r [symmetric] refl]
  show ?case
  proof (cases "w = 0")
    case True
    have "now - e \<le> sp_last s'" "sp_last s' \<le> now"
      using reserve_grant [of rate who now s s'] r True "2.prems" by fastforce+
    with IH(1) True "2.prems" r show ?thesis by auto
  next
    case False
    with IH(2) "2.prems" r show ?thesis by simp
  qed
qed simp

lemma drop_stale_wf [simp]: "al_wf (sp_waiting s) \<Longrightarrow> al_wf (sp_waiting (drop_stale i now s))"
  by (simp add: drop_stale_def al_wf_filter)

lemma reserve_wf [inv_intros]:
  "al_wf (sp_waiting s) \<Longrightarrow> al_wf (sp_waiting (snd (reserve rate who now s)))"
  by (auto simp: reserve_def pace_wait_def Let_def)

lemma outwaited_iff:
  assumes "al_wf (sp_waiting s)"
  shows "outwaited who s \<longleftrightarrow>
    (\<exists>k w. map_of (sp_waiting s) k = Some w \<and> k \<noteq> who
       \<and> (\<forall>mine. map_of (sp_waiting s) who = Some mine \<longrightarrow> w_since w < w_since mine))"
  using assms unfolding outwaited_def al_wf_def list_ex_iff
  by (auto split: option.splits)

lemma pace_interval_two: "pace_interval (max 2 MinRPS) = 500000000"
  by (simp add: pace_interval_def MinRPS_def f64_to_int_def)

lemma reserve_wait_state:
  assumes "fst (reserve rate who now s) \<noteq> 0" and "0 < rate"
  defines "i \<equiv> pace_interval (max rate MinRPS)"
  shows "reserve rate who now s = pace_wait i who now (drop_stale i now s)"
  using assms by (auto simp: reserve_def Let_def i_def split: if_splits)

section \<open>Properties\<close>



text \<open>Slots go to queues in the order they started waiting: a request is granted
  exactly when the slot is free and every other live waiter started waiting no
  earlier than the requester (a requester that is not waiting yet yields to any
  waiter); a refused request is told to wait a positive time, keeps or gets its
  place, and every other live waiter keeps its own.\<close>

theorem pace_first_waiting_first:
  fixes s :: "'k sharedPace"
  assumes "reserve rate who now s = (wait, s')" and "0 < rate"
    and "0 < pace_interval (max rate MinRPS)" and "al_wf (sp_waiting s)"
  defines "i \<equiv> pace_interval (max rate MinRPS)"
  defines "live \<equiv> map_of (sp_waiting (drop_stale i now s))"
  shows "(wait = 0 \<longleftrightarrow> \<not> (sp_granted s \<and> now < sp_last s + i)
            \<and> (\<forall>k w. live k = Some w \<and> k \<noteq> who
                 \<longrightarrow> (\<exists>mine. live who = Some mine \<and> w_since mine \<le> w_since w)))
       \<and> (wait \<noteq> 0 \<longrightarrow> 0 < wait \<and> wait \<le> max i (sp_last s + i - now)
            \<and> (\<exists>me. map_of (sp_waiting s') who = Some me
                 \<and> w_since me = (case live who of None \<Rightarrow> now | Some mine \<Rightarrow> w_since mine))
            \<and> (\<forall>k. k \<noteq> who \<longrightarrow> map_of (sp_waiting s') k = live k))"
proof -
  let ?s = "drop_stale i now s"
  have i: "0 < i" using assms by simp
  have out: "outwaited who ?s \<longleftrightarrow> (\<exists>k w. live k = Some w \<and> k \<noteq> who
       \<and> (\<forall>mine. live who = Some mine \<longrightarrow> w_since w < w_since mine))"
    using outwaited_iff [of ?s who] assms(4) by (simp add: live_def)
  have "(\<forall>k w. live k = Some w \<and> k \<noteq> who \<longrightarrow> (\<exists>mine. live who = Some mine \<and> w_since mine \<le> w_since w))
        \<longleftrightarrow> \<not> outwaited who ?s"
    unfolding out by (auto simp: not_less)
  moreover have "wait = 0 \<longleftrightarrow> \<not> (sp_granted s \<and> now < sp_last s + i) \<and> \<not> outwaited who ?s"
    using assms(1,2) pace_wait_pos [OF i, of who now ?s]
    by (auto simp: reserve_def Let_def i_def split: if_splits)
  moreover have "wait \<noteq> 0 \<Longrightarrow> pace_wait i who now ?s = (wait, s')"
    using reserve_wait_state [of rate who now s] assms(1,2) by (simp add: i_def)
  then have "wait \<noteq> 0 \<Longrightarrow> 0 < wait \<and> wait \<le> max i (sp_last s + i - now)
            \<and> (\<exists>me. map_of (sp_waiting s') who = Some me
                 \<and> w_since me = (case live who of None \<Rightarrow> now | Some mine \<Rightarrow> w_since mine))
            \<and> (\<forall>k. k \<noteq> who \<longrightarrow> map_of (sp_waiting s') k = live k)"
    using i by (auto simp: pace_wait_def Let_def live_def split: option.splits if_splits)
  ultimately show ?thesis by blast
qed

theorem pace_first_waiting_first_witness:
  "fst (reserve 2 (3::nat) 10 \<lparr> sp_last = 0, sp_granted = False,
      sp_waiting = [(1, \<lparr> w_since = 0, w_asked = 0 \<rparr>)] \<rparr>) \<noteq> 0
   \<and> fst (reserve 2 (1::nat) 10 \<lparr> sp_last = 0, sp_granted = False,
      sp_waiting = [(1, \<lparr> w_since = 0, w_asked = 0 \<rparr>)] \<rparr>) = 0"
proof -
  let ?s = "\<lparr> sp_last = 0, sp_granted = False, sp_waiting = [(1::nat, \<lparr> w_since = 0, w_asked = 0 \<rparr>)] \<rparr>"
  have "al_wf (sp_waiting ?s)" by (simp add: al_wf_def)
  then show ?thesis
    using pace_first_waiting_first [of 2 3 10 ?s "fst (reserve 2 3 10 ?s)" "snd (reserve 2 3 10 ?s)"]
      pace_first_waiting_first [of 2 1 10 ?s "fst (reserve 2 1 10 ?s)" "snd (reserve 2 1 10 ?s)"]
    by (simp add: pace_interval_two drop_stale_def)
qed

end
