(* ===== verification/Container_Heap.thy ===== *)
theory Container_Heap
  imports Aquifer_Prelude
begin

text \<open>
  Go's \<^verbatim>\<open>container/heap\<close>, over the interface it takes: \<open>lt\<close> (the interface's \<^verbatim>\<open>Less\<close>) and \<open>swap\<close> on a
  state that holds the array.  The functions are the library's loops; the
  locale states what the interface promises (an array of keys that \<open>lt\<close>
  compares and \<open>swap\<close> exchanges) and proves that the operations restore the heap
  order.
\<close>

definition par :: "nat \<Rightarrow> nat" where
  "par i = (i - 1) div 2"

lemma par_less [simp]: "0 < i \<Longrightarrow> par i < i"
  by (auto simp: par_def)

lemma par_le [simp]: "par i \<le> i"
  by (auto simp: par_def)

lemma par_bound [simp]: "i < n \<Longrightarrow> par i < n"
  using par_le le_less_trans by blast

function heap_up :: "('s \<Rightarrow> nat \<Rightarrow> nat \<Rightarrow> bool) \<Rightarrow> (nat \<Rightarrow> nat \<Rightarrow> 's \<Rightarrow> 's) \<Rightarrow> 's \<Rightarrow> nat \<Rightarrow> 's" where
  "heap_up lt swap s j =
     (if j = 0 \<or> \<not> lt s j (par j) then s
      else heap_up lt swap (swap (par j) j s) (par j))"
  by pat_completeness auto
termination by (relation "measure (\<lambda>(_, _, _, j). j)") (auto simp: par_less)

function heap_down ::
  "('s \<Rightarrow> nat \<Rightarrow> nat \<Rightarrow> bool) \<Rightarrow> (nat \<Rightarrow> nat \<Rightarrow> 's \<Rightarrow> 's) \<Rightarrow> nat \<Rightarrow> 's \<Rightarrow> nat \<Rightarrow> 's \<times> nat" where
  "heap_down lt swap n s i =
     (if 2 * i + 1 \<ge> n then (s, i)
      else (let j = (if 2 * i + 2 < n \<and> lt s (2 * i + 2) (2 * i + 1) then 2 * i + 2 else 2 * i + 1)
            in if \<not> lt s j i then (s, i) else heap_down lt swap n (swap i j s) j))"
  by pat_completeness auto
termination by (relation "measure (\<lambda>(_, _, n, _, i). n - i)") (auto split: if_splits)

declare heap_up.simps [simp del] heap_down.simps [simp del]

definition heap_fix :: "('s \<Rightarrow> nat \<Rightarrow> nat \<Rightarrow> bool) \<Rightarrow> (nat \<Rightarrow> nat \<Rightarrow> 's \<Rightarrow> 's) \<Rightarrow> nat \<Rightarrow> nat \<Rightarrow> 's \<Rightarrow> 's" where
  "heap_fix lt swap n i s =
     (let (s', i') = heap_down lt swap n s i
      in if i' > i then s' else heap_up lt swap s' i)"

text \<open>\<^verbatim>\<open>heap.Remove\<close> up to the final \<^verbatim>\<open>Pop\<close>, which drops the last slot.\<close>

definition heap_remove :: "('s \<Rightarrow> nat \<Rightarrow> nat \<Rightarrow> bool) \<Rightarrow> (nat \<Rightarrow> nat \<Rightarrow> 's \<Rightarrow> 's) \<Rightarrow> nat \<Rightarrow> nat \<Rightarrow> 's \<Rightarrow> 's" where
  "heap_remove lt swap len i s =
     (let n = len - 1
      in if n \<noteq> i then heap_fix lt swap n i (swap i n s) else s)"

section \<open>Arrays of keys\<close>

definition exch :: "nat \<Rightarrow> nat \<Rightarrow> 'a list \<Rightarrow> 'a list" where
  "exch i j xs = xs[i := xs ! j, j := xs ! i]"

definition heap_upto :: "nat \<Rightarrow> 'k::linorder list \<Rightarrow> bool" where
  "heap_upto n ks \<longleftrightarrow> (\<forall>i. 0 < i \<and> i < n \<longrightarrow> ks ! par i \<le> ks ! i)"

definition hole_at :: "nat \<Rightarrow> nat \<Rightarrow> 'k::linorder list \<Rightarrow> bool" where
  "hole_at n h ks \<longleftrightarrow> (\<forall>i. 0 < i \<and> i < n \<and> i \<noteq> h \<and> par i \<noteq> h \<longrightarrow> ks ! par i \<le> ks ! i)
     \<and> (\<forall>i. 0 < i \<and> i < n \<and> par i = h \<and> 0 < h \<longrightarrow> ks ! par h \<le> ks ! i)"

definition children_ok :: "nat \<Rightarrow> nat \<Rightarrow> 'k::linorder list \<Rightarrow> bool" where
  "children_ok n h ks \<longleftrightarrow> (\<forall>i. 0 < i \<and> i < n \<and> par i = h \<longrightarrow> ks ! h \<le> ks ! i)"

lemma length_exch [simp]: "length (exch i j xs) = length xs"
  by (simp add: exch_def)

lemma nth_exch:
  "i < length xs \<Longrightarrow> j < length xs \<Longrightarrow>
   exch i j xs ! k = (if k = i then xs ! j else if k = j then xs ! i else xs ! k)"
  by (auto simp: exch_def nth_list_update)

lemma mset_exch: "i < length xs \<Longrightarrow> j < length xs \<Longrightarrow> set (exch i j xs) = set xs"
  by (simp add: exch_def)

lemma distinct_exch: "i < length xs \<Longrightarrow> j < length xs \<Longrightarrow> distinct (exch i j xs) = distinct xs"
  by (simp add: exch_def)

lemma heap_upto_iff:
  "heap_upto n ks \<longleftrightarrow> hole_at n h ks \<and> children_ok n h ks \<and> (0 < h \<and> h < n \<longrightarrow> ks ! par h \<le> ks ! h)"
proof
  assume heap: "heap_upto n ks"
  have "ks ! par h \<le> ks ! i" if "0 < i" "i < n" "par i = h" "0 < h" for i
  proof -
    have "ks ! par i \<le> ks ! i" "ks ! par h \<le> ks ! h"
      using heap that unfolding heap_upto_def by (metis par_less less_trans)+
    with that show ?thesis by simp
  qed
  with heap show "hole_at n h ks \<and> children_ok n h ks \<and> (0 < h \<and> h < n \<longrightarrow> ks ! par h \<le> ks ! h)"
    unfolding heap_upto_def hole_at_def children_ok_def by auto
next
  assume "hole_at n h ks \<and> children_ok n h ks \<and> (0 < h \<and> h < n \<longrightarrow> ks ! par h \<le> ks ! h)"
  then show "heap_upto n ks"
    unfolding heap_upto_def hole_at_def children_ok_def by metis
qed

lemma heap_root_min:
  assumes "heap_upto n ks" and "i < n"
  shows "ks ! 0 \<le> ks ! i"
  using assms(2)
proof (induction i rule: less_induct)
  case (less i)
  show ?case
  proof (cases "i = 0")
    case False
    then have "ks ! 0 \<le> ks ! par i" using less by auto
    also have "\<dots> \<le> ks ! i" using assms(1) less.prems False by (auto simp: heap_upto_def)
    finally show ?thesis .
  qed simp
qed

text \<open>Moving a too small entry one level up leaves the hole there.\<close>

lemma up_step:
  assumes "hole_at n j ks" and "children_ok n j ks" and "0 < j" and "j < n" and "n \<le> length ks"
    and "ks ! j < ks ! par j"
  shows "hole_at n (par j) (exch (par j) j ks) \<and> children_ok n (par j) (exch (par j) j ks)"
proof -
  let ?p = "par j" and ?ks = "exch (par j) j ks"
  have p: "?p < j" "?p < length ks" "j < length ks" using assms by auto
  have nth: "?ks ! k = (if k = ?p then ks ! j else if k = j then ks ! ?p else ks ! k)" for k
    using p nth_exch [of ?p ks j k] by simp
  have edge: "ks ! par i \<le> ks ! i" if "0 < i" "i < n" "i \<noteq> j" "par i \<noteq> j" for i
    using assms(1) that by (simp add: hole_at_def)
  have grand: "ks ! ?p \<le> ks ! i" if "0 < i" "i < n" "par i = j" for i
    using assms(1,3) that by (simp add: hole_at_def)
  have child: "ks ! j \<le> ks ! i" if "0 < i" "i < n" "par i = j" for i
    using assms(2) that by (simp add: children_ok_def)
  have sib: "ks ! j \<le> ks ! i" if "0 < i" "i < n" "par i = ?p" "i \<noteq> j" for i
  proof -
    have "par i \<noteq> j" using that p by linarith
    then have "ks ! ?p \<le> ks ! i" using edge [OF that(1,2,4)] that(3) by simp
    with assms(6) show ?thesis by simp
  qed
  have above: "ks ! par ?p \<le> ?ks ! i" if "0 < i" "i < n" "par i = ?p" "0 < ?p" for i
  proof -
    have "par ?p < ?p" using that(4) by (rule par_less)
    moreover from this have "par ?p \<noteq> j" using p(1) by linarith
    ultimately have pp: "ks ! par ?p \<le> ks ! ?p" using p assms(4) that(4) edge [of ?p] by simp
    show ?thesis
    proof (cases "i = j")
      case False
      have "par i \<noteq> j" using that p by linarith
      then have "ks ! ?p \<le> ks ! i" using edge [OF that(1,2) False] that(3) by simp
      moreover have "i \<noteq> ?p" using par_less [OF that(4)] that(3) by auto
      ultimately show ?thesis using pp False by (simp add: nth)
    qed (use pp p in \<open>simp add: nth\<close>)
  qed
  have "hole_at n ?p ?ks"
    unfolding hole_at_def
  proof (intro conjI allI impI)
    fix i assume i: "0 < i \<and> i < n \<and> i \<noteq> ?p \<and> par i \<noteq> ?p"
    then have "i \<noteq> j" by auto
    with i edge [of i] grand [of i] show "?ks ! par i \<le> ?ks ! i" by (auto simp: nth)
  next
    fix i assume i: "0 < i \<and> i < n \<and> par i = ?p \<and> 0 < ?p"
    then have "par ?p < ?p" by simp
    then have "par ?p \<noteq> ?p" "par ?p \<noteq> j" using p(1) by linarith+
    with i above [of i] show "?ks ! par ?p \<le> ?ks ! i" by (simp add: nth)
  qed
  moreover have "children_ok n ?p ?ks"
    unfolding children_ok_def using sib assms(6) p by (auto simp: nth)
  ultimately show ?thesis by simp
qed

text \<open>Moving a too large entry down to its smallest child leaves the hole there.\<close>

lemma down_step:
  assumes "hole_at n h ks" and "0 < h \<longrightarrow> ks ! par h \<le> ks ! h" and "n \<le> length ks" and "h < n"
    and "0 < j" and "j < n" and "par j = h" and "ks ! j < ks ! h"
    and "\<forall>i. 0 < i \<and> i < n \<and> par i = h \<longrightarrow> ks ! j \<le> ks ! i"
  shows "hole_at n j (exch h j ks) \<and> exch h j ks ! par j \<le> exch h j ks ! j"
proof -
  let ?ks = "exch h j ks"
  have hj: "h < j" "h < length ks" "j < length ks" using assms by auto
  have nth: "?ks ! k = (if k = h then ks ! j else if k = j then ks ! h else ks ! k)" for k
    using hj nth_exch [of h ks j k] by simp
  have edge: "ks ! par i \<le> ks ! i" if "0 < i" "i < n" "i \<noteq> h" "par i \<noteq> h" for i
    using assms(1) that by (simp add: hole_at_def)
  have over: "ks ! par h \<le> ks ! j" if "0 < h"
    using assms(1,5,6,7) that by (simp add: hole_at_def)
  have "hole_at n j ?ks"
    unfolding hole_at_def
  proof (intro conjI allI impI)
    fix i assume i: "0 < i \<and> i < n \<and> i \<noteq> j \<and> par i \<noteq> j"
    show "?ks ! par i \<le> ?ks ! i"
    proof (cases "i = h")
      case True
      with i over have "ks ! par h \<le> ks ! j" by simp
      moreover have "par h \<noteq> h" using i True by (metis par_less less_irrefl)
      moreover have "par h \<noteq> j" using i True by simp
      ultimately show ?thesis using True by (simp add: nth)
    next
      case False
      with i edge [of i] assms(9) show ?thesis by (auto simp: nth)
    qed
  next
    fix i assume i: "0 < i \<and> i < n \<and> par i = j \<and> 0 < j"
    then have "j < i" using par_less [of i] by simp
    then have "i \<noteq> h" "i \<noteq> j" using hj by auto
    with i edge [of i] hj assms(7) show "?ks ! par j \<le> ?ks ! i" by (auto simp: nth)
  qed
  moreover have "?ks ! par j \<le> ?ks ! j" using assms(7,8) hj by (simp add: nth)
  ultimately show ?thesis by simp
qed

lemma par_child: "0 < i \<Longrightarrow> par i = h \<longleftrightarrow> i = 2 * h + 1 \<or> i = 2 * h + 2"
  unfolding par_def by presburger

lemma smallest_child:
  assumes "2 * h + 1 < n" and "0 < i" and "i < n" and "par i = h"
  shows "i = 2 * h + 1 \<or> (i = 2 * h + 2 \<and> 2 * h + 2 < n)"
  using assms by (auto simp: par_child)

section \<open>The contract of the interface\<close>

locale heap_interface =
  fixes keys :: "'s \<Rightarrow> 'k::linorder list"
    and lt :: "'s \<Rightarrow> nat \<Rightarrow> nat \<Rightarrow> bool"
    and swap :: "nat \<Rightarrow> nat \<Rightarrow> 's \<Rightarrow> 's"
    and valid :: "'s \<Rightarrow> bool"
  assumes lt_keys: "valid s \<Longrightarrow> i < length (keys s) \<Longrightarrow> j < length (keys s) \<Longrightarrow> lt s i j \<longleftrightarrow> keys s ! i < keys s ! j"
    and swap_keys: "valid s \<Longrightarrow> i < length (keys s) \<Longrightarrow> j < length (keys s) \<Longrightarrow> keys (swap i j s) = exch i j (keys s)"
    and swap_valid: "valid s \<Longrightarrow> i < length (keys s) \<Longrightarrow> j < length (keys s) \<Longrightarrow> valid (swap i j s)"
begin

text \<open>Whatever every exchange keeps, the loops keep.\<close>

lemma heap_up_keeps:
  assumes "\<And>s i j. Q s \<Longrightarrow> valid s \<Longrightarrow> n \<le> length (keys s) \<Longrightarrow> i < n \<Longrightarrow> j < n \<Longrightarrow> Q (swap i j s)"
    and "Q s" and "valid s" and "n \<le> length (keys s)" and "j < n"
  shows "Q (heap_up lt swap s j) \<and> valid (heap_up lt swap s j)
       \<and> length (keys (heap_up lt swap s j)) = length (keys s)"
  using assms(2-)
proof (induction j arbitrary: s rule: less_induct)
  case (less j)
  show ?case
  proof (cases "j = 0 \<or> \<not> lt s j (par j)")
    case True
    then show ?thesis using less.prems by (subst (1 2 3) heap_up.simps) simp
  next
    case False
    then have "par j < n" "par j < length (keys s)" "j < length (keys s)" using less.prems by auto
    with less.IH [of "par j" "swap (par j) j s"] less.prems False show ?thesis
      by (subst (1 2 3) heap_up.simps) (auto simp: assms(1) swap_valid swap_keys)
  qed
qed

lemma heap_up_correct:
  assumes "valid s" and "j < n" and "n \<le> length (keys s)"
    and "hole_at n j (keys s)" and "children_ok n j (keys s)"
  shows "heap_upto n (keys (heap_up lt swap s j))"
  using assms
proof (induction j arbitrary: s rule: less_induct)
  case (less j)
  have pj: "par j < length (keys s)" "j < length (keys s)" using less.prems by auto
  show ?case
  proof (cases "j = 0 \<or> \<not> lt s j (par j)")
    case True
    then have "0 < j \<longrightarrow> keys s ! par j \<le> keys s ! j" using less.prems(1) pj by (auto simp: lt_keys)
    with less.prems have "heap_upto n (keys s)" by (subst heap_upto_iff [where h = j]) blast
    with True show ?thesis by (subst heap_up.simps) simp
  next
    case False
    then have "keys s ! j < keys s ! par j" using less.prems(1) pj by (simp add: lt_keys)
    with up_step [of n j "keys s"] less.prems False
    have "hole_at n (par j) (keys (swap (par j) j s)) \<and> children_ok n (par j) (keys (swap (par j) j s))"
      by (simp add: swap_keys pj)
    moreover have "par j < n" using less.prems by auto
    ultimately have "heap_upto n (keys (heap_up lt swap (swap (par j) j s) (par j)))"
      using less.IH [of "par j" "swap (par j) j s"] less.prems False by (simp add: swap_valid swap_keys pj)
    with False show ?thesis by (subst heap_up.simps) simp
  qed
qed

text \<open>The child the code descends to is the smallest one.\<close>

definition small_child :: "nat \<Rightarrow> 's \<Rightarrow> nat \<Rightarrow> nat" where
  "small_child n s i = (if 2 * i + 2 < n \<and> lt s (2 * i + 2) (2 * i + 1) then 2 * i + 2 else 2 * i + 1)"

lemma heap_down_unfold:
  "heap_down lt swap n s i =
     (if 2 * i + 1 \<ge> n then (s, i)
      else if \<not> lt s (small_child n s i) i then (s, i)
      else heap_down lt swap n (swap i (small_child n s i) s) (small_child n s i))"
  by (subst heap_down.simps) (simp add: Let_def small_child_def)

lemma small_child_props:
  assumes "valid s" and "n \<le> length (keys s)" and "2 * i + 1 < n"
  shows "0 < small_child n s i" "small_child n s i < n" "par (small_child n s i) = i" "i < small_child n s i"
    and "\<forall>c. 0 < c \<and> c < n \<and> par c = i \<longrightarrow> keys s ! small_child n s i \<le> keys s ! c"
proof -
  show "0 < small_child n s i" "small_child n s i < n" "par (small_child n s i) = i" "i < small_child n s i"
    using assms by (auto simp: small_child_def par_def)
  show "\<forall>c. 0 < c \<and> c < n \<and> par c = i \<longrightarrow> keys s ! small_child n s i \<le> keys s ! c"
  proof (intro allI impI)
    fix c assume c: "0 < c \<and> c < n \<and> par c = i"
    then have "c = 2 * i + 1 \<or> (c = 2 * i + 2 \<and> 2 * i + 2 < n)"
      using smallest_child [of i n c] assms(3) by simp
    with c assms show "keys s ! small_child n s i \<le> keys s ! c"
      by (auto simp: small_child_def lt_keys)
  qed
qed

lemma heap_down_keeps:
  assumes "\<And>s i j. Q s \<Longrightarrow> valid s \<Longrightarrow> n \<le> length (keys s) \<Longrightarrow> i < n \<Longrightarrow> j < n \<Longrightarrow> Q (swap i j s)"
    and "Q s" and "valid s" and "n \<le> length (keys s)"
  shows "Q (fst (heap_down lt swap n s i)) \<and> valid (fst (heap_down lt swap n s i))
       \<and> length (keys (fst (heap_down lt swap n s i))) = length (keys s)"
  using assms(2-)
proof (induction "n - i" arbitrary: s i rule: less_induct)
  case less
  let ?j = "small_child n s i"
  show ?case
  proof (cases "2 * i + 1 \<ge> n \<or> \<not> lt s ?j i")
    case True
    then show ?thesis using less.prems by (subst (1 2 3) heap_down_unfold) auto
  next
    case False
    then have j: "?j < n" "i < ?j" using small_child_props [of s n i] less.prems by auto
    then have "i < length (keys s)" "?j < length (keys s)" using less.prems by auto
    with less.hyps [of ?j "swap i ?j s"] less.prems j False show ?thesis
      by (subst (1 2 3) heap_down_unfold) (auto simp: assms(1) swap_valid swap_keys)
  qed
qed

lemma heap_down_correct:
  assumes "valid s" and "i < n" and "n \<le> length (keys s)" and "hole_at n i (keys s)"
    and "0 < i \<longrightarrow> keys s ! par i \<le> keys s ! i"
  shows "heap_upto n (keys (fst (heap_down lt swap n s i)))"
  using assms
proof (induction "n - i" arbitrary: s i rule: less_induct)
  case less
  let ?j = "small_child n s i"
  have i: "i < length (keys s)" using less.prems by simp
  show ?case
  proof (cases "2 * i + 1 \<ge> n \<or> \<not> lt s ?j i")
    case True
    have "children_ok n i (keys s)"
    proof (cases "2 * i + 1 \<ge> n")
      case True
      then have "\<not> (0 < c \<and> c < n \<and> par c = i)" for c using par_child [of c i] by linarith
      then show ?thesis unfolding children_ok_def by blast
    next
      case False
      with \<open>2 * i + 1 \<ge> n \<or> \<not> lt s ?j i\<close> small_child_props [of s n i] less.prems i
      show ?thesis unfolding children_ok_def by (fastforce simp: lt_keys not_less)
    qed
    with less.prems have "heap_upto n (keys s)" by (subst heap_upto_iff [where h = i]) blast
    with True show ?thesis by (subst heap_down_unfold) auto
  next
    case False
    then have props: "0 < ?j" "?j < n" "par ?j = i" "i < ?j"
      "\<forall>c. 0 < c \<and> c < n \<and> par c = i \<longrightarrow> keys s ! ?j \<le> keys s ! c"
      using small_child_props [of s n i] less.prems by auto
    then have j: "?j < length (keys s)" using less.prems by simp
    have "keys s ! ?j < keys s ! i" using False lt_keys [of s ?j i] less.prems i j by simp
    with down_step [of n i "keys s" ?j] props less.prems
    have "hole_at n ?j (keys (swap i ?j s)) \<and> keys (swap i ?j s) ! par ?j \<le> keys (swap i ?j s) ! ?j"
      by (simp add: swap_keys i j)
    then have "heap_upto n (keys (fst (heap_down lt swap n (swap i ?j s) ?j)))"
      using less.hyps [of ?j "swap i ?j s"] less.prems props by (simp add: swap_valid swap_keys i j)
    with False show ?thesis by (subst heap_down_unfold) simp
  qed
qed

lemma heap_down_stays:
  assumes "valid s" and "n \<le> length (keys s)" and "i < n" and "children_ok n i (keys s)"
  shows "heap_down lt swap n s i = (s, i)"
proof (cases "2 * i + 1 \<ge> n")
  case False
  then have "keys s ! i \<le> keys s ! small_child n s i"
    using small_child_props [of s n i] assms by (simp add: children_ok_def)
  then have "\<not> lt s (small_child n s i) i"
    using small_child_props(2) [of s n i] assms False by (subst lt_keys) auto
  then show ?thesis by (subst heap_down_unfold) simp
qed (subst heap_down_unfold, simp)

lemma heap_fix_keeps:
  assumes "\<And>s i j. Q s \<Longrightarrow> valid s \<Longrightarrow> n \<le> length (keys s) \<Longrightarrow> i < n \<Longrightarrow> j < n \<Longrightarrow> Q (swap i j s)"
    and "Q s" and "valid s" and "n \<le> length (keys s)" and "i < n"
  shows "Q (heap_fix lt swap n i s) \<and> valid (heap_fix lt swap n i s)
       \<and> length (keys (heap_fix lt swap n i s)) = length (keys s)"
  using heap_down_keeps [where Q = Q and n = n, OF assms(1) assms(2-4)] assms(4,5)
    heap_up_keeps [where Q = Q and n = n, OF assms(1)]
  by (auto simp: heap_fix_def case_prod_beta)

lemma heap_fix_correct:
  assumes "valid s" and "i < n" and "n \<le> length (keys s)" and "hole_at n i (keys s)"
  shows "heap_upto n (keys (heap_fix lt swap n i s))"
proof (cases "0 < i \<longrightarrow> keys s ! par i \<le> keys s ! i")
  case True
  let ?d = "heap_down lt swap n s i"
  have heap: "heap_upto n (keys (fst ?d))" using heap_down_correct [OF assms True] .
  have kept: "valid (fst ?d)" "length (keys (fst ?d)) = length (keys s)"
    using heap_down_keeps [where Q = "\<lambda>_. True" and s = s and n = n and i = i] assms by auto
  have "heap_upto n (keys (heap_up lt swap (fst ?d) i))"
    using heap heap_upto_iff [of n _ i] kept assms by (intro heap_up_correct) auto
  with heap show ?thesis by (simp add: heap_fix_def case_prod_beta)
next
  case False
  then have lt: "0 < i" "keys s ! i < keys s ! par i" by auto
  have "keys s ! i \<le> keys s ! c" if "0 < c" "c < n" "par c = i" for c
  proof -
    have "keys s ! par i \<le> keys s ! c" using assms(4) lt that by (simp add: hole_at_def)
    with lt show ?thesis by simp
  qed
  then have "children_ok n i (keys s)" by (simp add: children_ok_def)
  with heap_down_stays [of s n i] heap_up_correct [of s i n] assms show ?thesis
    by (simp add: heap_fix_def)
qed

text \<open>Removal leaves a heap in front of the removed entry.\<close>

lemma removal_hole:
  assumes "heap_upto (Suc n) ks" and "length ks = Suc n" and "i < n"
  shows "hole_at n i (exch i n ks)"
proof -
  have nth: "exch i n ks ! k = (if k = i then ks ! n else ks ! k)" if "k < n" for k
    using nth_exch [of i ks n k] assms that by simp
  have heap: "ks ! par k \<le> ks ! k" if "0 < k" "k < n" for k
    using assms(1) that by (simp add: heap_upto_def)
  show ?thesis
    unfolding hole_at_def
  proof (intro conjI allI impI)
    fix k assume k: "0 < k \<and> k < n \<and> k \<noteq> i \<and> par k \<noteq> i"
    with heap [of k] show "exch i n ks ! par k \<le> exch i n ks ! k" by (simp add: nth)
  next
    fix k assume k: "0 < k \<and> k < n \<and> par k = i \<and> 0 < i"
    then have "ks ! par i \<le> ks ! i" "ks ! i \<le> ks ! k" using heap [of i] heap [of k] assms by auto
    moreover have "par i \<noteq> i" "k \<noteq> i" using k by (metis par_less less_irrefl)+
    ultimately show "exch i n ks ! par i \<le> exch i n ks ! k" using k assms by (simp add: nth)
  qed
qed

lemma heap_remove_correct:
  assumes "valid s" and "length (keys s) = Suc n" and "i \<le> n" and "heap_upto (Suc n) (keys s)"
  shows "heap_upto n (keys (heap_remove lt swap (Suc n) i s))"
proof (cases "n = i")
  case True
  with assms show ?thesis by (auto simp: heap_remove_def heap_upto_def)
next
  case False
  have keys: "keys (swap i n s) = exch i n (keys s)" using assms by (simp add: swap_keys)
  have "hole_at n i (exch i n (keys s))" using assms False by (intro removal_hole) auto
  with heap_fix_correct [of "swap i n s" i n] assms False show ?thesis
    by (simp add: heap_remove_def keys swap_valid)
qed

lemma heap_remove_keeps:
  assumes "\<And>s i j. Q s \<Longrightarrow> valid s \<Longrightarrow> i < length (keys s) \<Longrightarrow> j < length (keys s) \<Longrightarrow> Q (swap i j s)"
    and "Q s" and "valid s" and "length (keys s) = Suc n" and "i \<le> n"
  shows "Q (heap_remove lt swap (Suc n) i s) \<and> valid (heap_remove lt swap (Suc n) i s)
       \<and> length (keys (heap_remove lt swap (Suc n) i s)) = Suc n"
proof (cases "n = i")
  case False
  have "Q (swap i n s)" "valid (swap i n s)" "length (keys (swap i n s)) = Suc n"
    using assms by (simp_all add: swap_valid swap_keys)
  moreover have "Q (swap a b t)" if "Q t" "valid t" "n \<le> length (keys t)" "a < n" "b < n" for t a b
    using assms(1) that by auto
  ultimately show ?thesis
    using heap_fix_keeps [where Q = Q and s = "swap i n s" and n = n and i = i] assms False
    by (simp add: heap_remove_def)
qed (use assms in \<open>simp add: heap_remove_def\<close>)

text \<open>The removed entry ends up in the last slot, which the loops do not touch.\<close>

lemma heap_remove_last:
  assumes "\<And>s i j. valid s \<Longrightarrow> i < length (keys s) \<Longrightarrow> j < length (keys s) \<Longrightarrow> slots (swap i j s) = exch i j (slots s)"
    and "\<And>s. valid s \<Longrightarrow> length (slots s) = length (keys s)"
    and "valid s" and "length (keys s) = Suc n" and "i \<le> n"
  shows "slots (heap_remove lt swap (Suc n) i s) ! n = slots s ! i"
proof (cases "n = i")
  case False
  have after: "slots (swap i n s) ! n = slots s ! i" "valid (swap i n s)" "length (keys (swap i n s)) = Suc n"
    using assms by (simp_all add: swap_valid swap_keys nth_exch)
  moreover have "slots (swap a b t) ! n = slots s ! i"
    if "slots t ! n = slots s ! i \<and> length (keys t) = Suc n" "valid t" "n \<le> length (keys t)" "a < n" "b < n" for t a b
    using assms(1,2) that by (simp add: nth_exch)
  ultimately have "slots (heap_fix lt swap n i (swap i n s)) ! n = slots s ! i"
    using heap_fix_keeps [where Q = "\<lambda>t. slots t ! n = slots s ! i \<and> length (keys t) = Suc n"
        and s = "swap i n s" and n = n and i = i] assms False
    by (simp add: swap_keys)
  with False show ?thesis by (simp add: heap_remove_def)
qed (simp add: heap_remove_def)

end

end
