(* ===== verification/Pool.thy ===== *)
theory Pool
  imports Container_Heap Support
begin

text \<open>
  \<^verbatim>\<open>internal/dispatch/pool.go\<close>: registered pool members, their reputation, and
  virtual-time weighted round robin over a \<^verbatim>\<open>container/heap\<close>.  The member
  objects live in \<open>p_members\<close>; the heap array \<open>p_h\<close> holds their ids, which stand
  for the code's pointers.  The clock is an argument (nanoseconds; \<^const>\<open>None\<close> is
  the zero time).
\<close>

record PoolMember =
  m_ID :: string
  m_Address :: string
  m_DeclaredRPS :: f64
  m_HeartbeatInterval :: ns
  m_LastHeartbeat :: ns
  m_reputation :: f64
  m_virtualPosition :: f64
  m_floorSince :: "ns option"
  m_heapIndex :: int

record Pool =
  p_id :: string
  p_members :: "(string \<times> PoolMember) list"
  p_h :: "string list"

type_synonym PoolRegistry = "(string \<times> Pool) list"

definition defaultReputationFloor :: f64 where "defaultReputationFloor = 5 / 100"
definition defaultFloorEvictionWindow :: ns where "defaultFloorEvictionWindow = 12 * second"
definition reputationRecoveryFactor :: f64 where "reputationRecoveryFactor = 15 / 10"
definition heartbeatRecoveryFactor :: f64 where "heartbeatRecoveryFactor = 11 / 10"
definition defaultHeartbeatMissLimit :: int where "defaultHeartbeatMissLimit = 3"

lemmas pool_consts = defaultReputationFloor_def defaultFloorEvictionWindow_def
  reputationRecoveryFactor_def heartbeatRecoveryFactor_def defaultHeartbeatMissLimit_def

definition weight :: "PoolMember \<Rightarrow> f64" where
  "weight m = (let w = m_DeclaredRPS m * m_reputation m in if w \<le> 0 then 1 / 1000 else w)"

definition newPool :: "string \<Rightarrow> Pool" where
  "newPool i = \<lparr> p_id = i, p_members = [], p_h = [] \<rparr>"

definition member :: "Pool \<Rightarrow> string \<Rightarrow> PoolMember" where
  "member p i = the (map_of (p_members p) i)"

definition set_member :: "string \<Rightarrow> PoolMember \<Rightarrow> Pool \<Rightarrow> Pool" where
  "set_member i m p = p\<lparr>p_members := al_put i m (p_members p)\<rparr>"

definition memberHeap_Less :: "Pool \<Rightarrow> nat \<Rightarrow> nat \<Rightarrow> bool" where
  "memberHeap_Less p i j \<longleftrightarrow>
     m_virtualPosition (member p (p_h p ! i)) < m_virtualPosition (member p (p_h p ! j))"

definition set_heapIndex :: "string \<Rightarrow> int \<Rightarrow> Pool \<Rightarrow> Pool" where
  "set_heapIndex k i p = set_member k ((member p k)\<lparr>m_heapIndex := i\<rparr>) p"

definition memberHeap_Swap :: "nat \<Rightarrow> nat \<Rightarrow> Pool \<Rightarrow> Pool" where
  "memberHeap_Swap i j p =
     (let p = p\<lparr>p_h := exch i j (p_h p)\<rparr>;
          p = set_heapIndex (p_h p ! i) (int i) p
      in set_heapIndex (p_h p ! j) (int j) p)"

definition memberHeap_Push :: "string \<Rightarrow> Pool \<Rightarrow> Pool" where
  "memberHeap_Push k p =
     (let p = set_heapIndex k (int (length (p_h p))) p in p\<lparr>p_h := p_h p @ [k]\<rparr>)"

definition memberHeap_Pop :: "Pool \<Rightarrow> Pool" where
  "memberHeap_Pop p = (set_heapIndex (last (p_h p)) (-1) p)\<lparr>p_h := butlast (p_h p)\<rparr>"

definition heap_Push :: "string \<Rightarrow> Pool \<Rightarrow> Pool" where
  "heap_Push k p =
     (let p = memberHeap_Push k p
      in heap_up memberHeap_Less memberHeap_Swap p (length (p_h p) - 1))"

definition heap_Fix :: "nat \<Rightarrow> Pool \<Rightarrow> Pool" where
  "heap_Fix i p = heap_fix memberHeap_Less memberHeap_Swap (length (p_h p)) i p"

definition heap_Remove :: "nat \<Rightarrow> Pool \<Rightarrow> Pool" where
  "heap_Remove i p = memberHeap_Pop (heap_remove memberHeap_Less memberHeap_Swap (length (p_h p)) i p)"

definition Register :: "ns \<Rightarrow> string \<Rightarrow> string \<Rightarrow> f64 \<Rightarrow> ns \<Rightarrow> Pool \<Rightarrow> Pool" where
  "Register now i address declaredRPS heartbeatInterval p =
     (case map_of (p_members p) i of
        Some m \<Rightarrow>
          set_member i
            (m\<lparr>m_Address := address, m_DeclaredRPS := declaredRPS,
               m_HeartbeatInterval := heartbeatInterval, m_LastHeartbeat := now,
               m_reputation := min 1 (m_reputation m * heartbeatRecoveryFactor)\<rparr>) p
      | None \<Rightarrow>
          (let startPos = (if p_h p \<noteq> [] then m_virtualPosition (member p (p_h p ! 0)) else 0);
               m = \<lparr> m_ID = i, m_Address = address, m_DeclaredRPS = declaredRPS,
                     m_HeartbeatInterval = heartbeatInterval, m_LastHeartbeat = now,
                     m_reputation = 1, m_virtualPosition = startPos, m_floorSince = None,
                     m_heapIndex = 0 \<rparr>
           in heap_Push i (set_member i m p)))"

definition Pick :: "Pool \<Rightarrow> PoolMember option \<times> Pool" where
  "Pick p =
     (if p_h p = [] then (None, p)
      else (let i = p_h p ! 0;
                m = member p i;
                m = m\<lparr>m_virtualPosition := m_virtualPosition m + 1 / weight m\<rparr>;
                p = heap_Fix 0 (set_member i m p)
            in (Some (member p i), p)))"

definition RecordSuccess :: "string \<Rightarrow> Pool \<Rightarrow> Pool" where
  "RecordSuccess i p =
     (case map_of (p_members p) i of
        None \<Rightarrow> p
      | Some m \<Rightarrow>
          set_member i (m\<lparr>m_reputation := min 1 (m_reputation m * reputationRecoveryFactor),
                          m_floorSince := None\<rparr>) p)"

definition removeLocked :: "string \<Rightarrow> Pool \<Rightarrow> Pool" where
  "removeLocked i p =
     (case map_of (p_members p) i of
        None \<Rightarrow> p
      | Some m \<Rightarrow>
          (let p = (if 0 \<le> m_heapIndex m \<and> m_heapIndex m < int (length (p_h p))
                    then heap_Remove (nat (m_heapIndex m)) p else p)
           in p\<lparr>p_members := al_del i (p_members p)\<rparr>))"

definition RecordFailure :: "ns \<Rightarrow> string \<Rightarrow> Pool \<Rightarrow> bool \<times> Pool" where
  "RecordFailure now i p =
     (case map_of (p_members p) i of
        None \<Rightarrow> (False, p)
      | Some m \<Rightarrow>
          (let m = m\<lparr>m_reputation := m_reputation m * (1 / 2)\<rparr>
           in if m_reputation m \<le> defaultReputationFloor then
                (case m_floorSince m of
                   None \<Rightarrow> (False, set_member i (m\<lparr>m_floorSince := Some now\<rparr>) p)
                 | Some since \<Rightarrow>
                     if now - since \<ge> defaultFloorEvictionWindow
                     then (True, removeLocked i (set_member i m p))
                     else (False, set_member i m p))
              else (False, set_member i (m\<lparr>m_floorSince := None\<rparr>) p)))"

definition heartbeat_lost :: "ns \<Rightarrow> int \<Rightarrow> PoolMember \<Rightarrow> bool" where
  "heartbeat_lost now missLimit m \<longleftrightarrow>
     \<not> m_HeartbeatInterval m \<le> 0 \<and> now - m_LastHeartbeat m > m_HeartbeatInterval m * missLimit"

definition sweepHeartbeats :: "ns \<Rightarrow> int \<Rightarrow> Pool \<Rightarrow> Pool" where
  "sweepHeartbeats now missLimit p =
     fold (\<lambda>(i, m) p. if heartbeat_lost now missLimit m then removeLocked i p else p) (p_members p) p"

definition TotalCapacity :: "Pool \<Rightarrow> f64" where
  "TotalCapacity p = sum_list (map (\<lambda>(_, m). weight m) (p_members p))"

definition PoolRegistry_Get :: "string \<Rightarrow> PoolRegistry \<Rightarrow> Pool \<times> PoolRegistry" where
  "PoolRegistry_Get poolID pr =
     (case map_of pr poolID of
        Some p \<Rightarrow> (p, pr)
      | None \<Rightarrow> (newPool poolID, al_put poolID (newPool poolID) pr))"

definition PoolRegistry_Register ::
  "ns \<Rightarrow> string \<Rightarrow> string \<Rightarrow> string \<Rightarrow> f64 \<Rightarrow> ns \<Rightarrow> PoolRegistry \<Rightarrow> PoolRegistry" where
  "PoolRegistry_Register now poolID memberID address declaredRPS heartbeatInterval pr =
     (let (p, pr) = PoolRegistry_Get poolID pr
      in al_put poolID (Register now memberID address declaredRPS heartbeatInterval p) pr)"

definition heartbeatSweep :: "ns \<Rightarrow> PoolRegistry \<Rightarrow> PoolRegistry" where
  "heartbeatSweep now pr = map (\<lambda>(i, p). (i, sweepHeartbeats now defaultHeartbeatMissLimit p)) pr"

text \<open>The calls a pool receives.\<close>

datatype pool_event =
    PRegister ns string string f64 ns
  | PPick
  | PSuccess string
  | PFailure ns string
  | PSweep ns int

fun pool_step :: "pool_event \<Rightarrow> Pool \<Rightarrow> Pool" where
  "pool_step (PRegister now i a r hb) p = Register now i a r hb p"
| "pool_step PPick p = snd (Pick p)"
| "pool_step (PSuccess i) p = RecordSuccess i p"
| "pool_step (PFailure now i) p = snd (RecordFailure now i p)"
| "pool_step (PSweep now limit) p = sweepHeartbeats now limit p"

fun pick_run :: "nat \<Rightarrow> Pool \<Rightarrow> string list \<times> Pool" where
  "pick_run 0 p = ([], p)"
| "pick_run (Suc n) p =
     (let (picked, p') = pick_run n p;
          (m, p'') = Pick p'
      in (case m of None \<Rightarrow> picked | Some m \<Rightarrow> picked @ [m_ID m], p''))"

section \<open>Invariant\<close>

definition pool_keys :: "Pool \<Rightarrow> f64 list" where
  "pool_keys p = map (\<lambda>i. m_virtualPosition (member p i)) (p_h p)"

definition pool_valid :: "Pool \<Rightarrow> bool" where
  "pool_valid p \<longleftrightarrow> al_wf (p_members p) \<and> distinct (p_h p) \<and> set (p_h p) = fst ` set (p_members p)
     \<and> (\<forall>i < length (p_h p). m_heapIndex (member p (p_h p ! i)) = int i)"

definition member_ok :: "string \<times> PoolMember \<Rightarrow> bool" where
  "member_ok x \<longleftrightarrow> m_ID (snd x) = fst x \<and> 0 < m_reputation (snd x) \<and> m_reputation (snd x) \<le> 1"

definition pool_inv :: "Pool \<Rightarrow> bool" where
  "pool_inv p \<longleftrightarrow> pool_valid p \<and> heap_upto (length (p_h p)) (pool_keys p)
     \<and> list_all member_ok (p_members p)"

text \<open>The member objects without their heap positions.\<close>

definition payload :: "Pool \<Rightarrow> (string \<times> PoolMember) list" where
  "payload p = map (\<lambda>(i, m). (i, m\<lparr>m_heapIndex := 0\<rparr>)) (p_members p)"

section \<open>Lemmas on members and the heap interface\<close>

lemma member_set_member [simp]: "member (set_member i m p) k = (if k = i then m else member p k)"
  by (simp add: member_def set_member_def)

lemma p_h_set_member [simp]: "p_h (set_member i m p) = p_h p"
  by (simp add: set_member_def)

lemma p_h_set_heapIndex [simp]: "p_h (set_heapIndex k i p) = p_h p"
  by (simp add: set_heapIndex_def)

lemma member_p_h_update [simp]: "member (p\<lparr>p_h := h\<rparr>) k = member p k"
  by (simp add: member_def)

lemma set_heapIndex_member [simp]:
  "member (set_heapIndex k i p) x = (if x = k then (member p k)\<lparr>m_heapIndex := i\<rparr> else member p x)"
  by (simp add: set_heapIndex_def)

lemma payload_p_h [simp]: "payload (p\<lparr>p_h := h\<rparr>) = payload p"
  by (simp add: payload_def)

lemma map_al_put_same:
  "map_of xs k = Some v \<Longrightarrow> g (k, v') = g (k, v) \<Longrightarrow> map g (al_put k v' xs) = map g xs"
  by (induction k v' xs rule: al_put.induct) auto

lemma member_known: "k \<in> fst ` set (p_members p) \<Longrightarrow> map_of (p_members p) k = Some (member p k)"
  by (cases "map_of (p_members p) k") (auto simp: member_def map_of_eq_None_iff)

lemma payload_set_heapIndex [simp]:
  "k \<in> fst ` set (p_members p) \<Longrightarrow> payload (set_heapIndex k i p) = payload p"
  by (simp add: payload_def set_heapIndex_def set_member_def)
    (rule map_al_put_same [OF member_known], simp_all)

lemma keys_set_heapIndex [simp]:
  "k \<in> fst ` set (p_members p) \<Longrightarrow> fst ` set (p_members (set_heapIndex k i p)) = fst ` set (p_members p)"
  by (auto simp: set_heapIndex_def set_member_def)

lemma wf_set_member [simp]: "al_wf (p_members p) \<Longrightarrow> al_wf (p_members (set_member k m p))"
  by (simp add: set_member_def)

lemma wf_set_heapIndex [simp]: "al_wf (p_members p) \<Longrightarrow> al_wf (p_members (set_heapIndex k i p))"
  by (simp add: set_heapIndex_def)

lemma length_pool_keys [simp]: "length (pool_keys p) = length (p_h p)"
  by (simp add: pool_keys_def)

lemma map_exch: "i < length xs \<Longrightarrow> j < length xs \<Longrightarrow> map f (exch i j xs) = exch i j (map f xs)"
  by (simp add: exch_def map_update)

lemma swap_p_h [simp]: "p_h (memberHeap_Swap i j p) = exch i j (p_h p)"
  by (simp add: memberHeap_Swap_def Let_def)

lemma swap_keys_known:
  assumes "pool_valid p" and "i < length (p_h p)" and "j < length (p_h p)"
  shows "p_h p ! i \<in> fst ` set (p_members p)" "p_h p ! j \<in> fst ` set (p_members p)"
  using assms unfolding pool_valid_def by (metis nth_mem)+

lemma swap_payload:
  assumes "pool_valid p" and "i < length (p_h p)" and "j < length (p_h p)"
  shows "payload (memberHeap_Swap i j p) = payload p"
  using swap_keys_known [OF assms] assms(2,3)
  by (simp add: memberHeap_Swap_def Let_def nth_exch)

lemma swap_vp:
  "m_virtualPosition (member (memberHeap_Swap i j p) k) = m_virtualPosition (member p k)"
  by (simp add: memberHeap_Swap_def Let_def)

lemma pool_keys_swap:
  "i < length (p_h p) \<Longrightarrow> j < length (p_h p) \<Longrightarrow> pool_keys (memberHeap_Swap i j p) = exch i j (pool_keys p)"
  by (simp add: pool_keys_def swap_vp map_exch)

lemma swap_pool_valid:
  assumes "pool_valid p" and "i < length (p_h p)" and "j < length (p_h p)"
  shows "pool_valid (memberHeap_Swap i j p)"
proof -
  let ?h = "exch i j (p_h p)"
  note known = swap_keys_known [OF assms]
  have dist: "distinct ?h" and set_eq: "set ?h = set (p_h p)"
    using assms by (simp_all add: pool_valid_def distinct_exch mset_exch)
  have members: "fst ` set (p_members (memberHeap_Swap i j p)) = fst ` set (p_members p)"
    using known assms(2,3) by (simp add: memberHeap_Swap_def Let_def nth_exch)
  have "m_heapIndex (member (memberHeap_Swap i j p) (?h ! x)) = int x" if "x < length (p_h p)" for x
  proof -
    have "?h ! x = ?h ! y \<longleftrightarrow> x = y" if "y < length (p_h p)" for y
      using dist that \<open>x < _\<close> by (simp add: nth_eq_iff_index_eq)
    from this [of i] this [of j] show ?thesis
      using assms that nth_exch [of i "p_h p" j x]
      by (auto simp: memberHeap_Swap_def Let_def pool_valid_def)
  qed
  moreover have "al_wf (p_members (memberHeap_Swap i j p))"
    using assms(1) by (simp add: memberHeap_Swap_def Let_def pool_valid_def)
  ultimately show ?thesis
    using assms(1) dist set_eq members by (simp add: pool_valid_def)
qed

interpretation pool_heap: heap_interface pool_keys memberHeap_Less memberHeap_Swap pool_valid
proof (unfold_locales, goal_cases)
  case (1 p i j)
  then show ?case by (simp add: memberHeap_Less_def pool_keys_def)
next
  case (2 p i j)
  then show ?case by (simp add: pool_keys_swap)
next
  case (3 p i j)
  then show ?case by (simp add: swap_pool_valid)
qed

lemma map_of_payload: "map_of (payload p) k = map_option (\<lambda>m. m\<lparr>m_heapIndex := 0\<rparr>) (map_of (p_members p) k)"
  by (simp add: payload_def map_of_map)

lemma payload_member:
  assumes "payload p = payload q" and "k \<in> fst ` set (p_members p)"
  shows "(member p k)\<lparr>m_heapIndex := 0\<rparr> = (member q k)\<lparr>m_heapIndex := 0\<rparr>"
proof -
  have pl: "map_of (payload p) k = map_of (payload q) k" using assms(1) by simp
  have "fst ` set (payload r) = fst ` set (p_members r)" for r by (force simp: payload_def)
  then have "k \<in> fst ` set (p_members q)" using assms by metis
  with member_known [OF this] member_known [OF assms(2)] pl
  show ?thesis by (simp add: map_of_payload)
qed

section \<open>Preservation of the invariant\<close>

lemma member_ok_payload: "list_all member_ok (p_members p) \<longleftrightarrow> list_all member_ok (payload p)"
  by (auto simp: payload_def list_all_iff member_ok_def)

lemma keys_payload: "fst ` set (p_members p) = fst ` set (payload p)"
  by (force simp: payload_def)

lemma set_member_valid:
  assumes "pool_valid p" and "i \<in> fst ` set (p_members p)" and "m_heapIndex m = m_heapIndex (member p i)"
  shows "pool_valid (set_member i m p)"
proof -
  have "fst ` set (p_members (set_member i m p)) = fst ` set (p_members p)"
    using assms(2) by (auto simp: set_member_def)
  with assms show ?thesis by (auto simp: pool_valid_def)
qed

lemma set_member_ok:
  assumes "list_all member_ok (p_members p)" and "member_ok (i, m)"
  shows "list_all member_ok (p_members (set_member i m p))"
proof -
  have "set (al_put i m xs) \<subseteq> insert (i, m) (set xs)" for xs
    by (induction i m xs rule: al_put.induct) auto
  with assms show ?thesis unfolding list_all_iff set_member_def by fastforce
qed

lemma inv_member_ok: "pool_inv p \<Longrightarrow> map_of (p_members p) i = Some m \<Longrightarrow> member_ok (i, m)"
  using map_of_SomeD by (fastforce simp: pool_inv_def list_all_iff)

lemma set_member_inv:
  assumes "pool_inv p" and "map_of (p_members p) i = Some m0"
    and "m_virtualPosition m = m_virtualPosition m0" and "m_heapIndex m = m_heapIndex m0"
    and "member_ok (i, m)"
  shows "pool_inv (set_member i m p)"
proof -
  have m0: "member p i = m0" using assms(2) by (simp add: member_def)
  have "i \<in> fst ` set (p_members p)" using assms(2) by (metis map_of_SomeD fst_conv image_eqI)
  moreover have "pool_keys (set_member i m p) = pool_keys p"
    using assms(3) m0 by (simp add: pool_keys_def)
  ultimately show ?thesis
    using assms m0 set_member_valid set_member_ok by (simp add: pool_inv_def)
qed

lemma heap_Fix_root:
  assumes "pool_valid p" and "p_h p \<noteq> []" and "hole_at (length (p_h p)) 0 (pool_keys p)"
  shows "pool_valid (heap_Fix 0 p) \<and> heap_upto (length (p_h (heap_Fix 0 p))) (pool_keys (heap_Fix 0 p))
       \<and> payload (heap_Fix 0 p) = payload p"
proof -
  have "payload (heap_Fix 0 p) = payload p \<and> pool_valid (heap_Fix 0 p)
        \<and> length (pool_keys (heap_Fix 0 p)) = length (pool_keys p)"
    unfolding heap_Fix_def
    using pool_heap.heap_fix_keeps [where Q = "\<lambda>q. payload q = payload p" and s = p and n = "length (p_h p)" and i = 0]
      assms by (simp add: swap_payload)
  with pool_heap.heap_fix_correct [of p 0 "length (p_h p)"] assms show ?thesis
    by (simp add: heap_Fix_def)
qed

lemma advance_hole:
  assumes "heap_upto n ks" and "n \<le> length ks"
  shows "hole_at n 0 (ks[0 := v])"
  using assms by (auto simp: heap_upto_def hole_at_def nth_list_update)

lemma Pick_parts:
  assumes "pool_inv p" and "p_h p \<noteq> []"
  defines "i \<equiv> p_h p ! 0"
  defines "q \<equiv> set_member i ((member p i)\<lparr>m_virtualPosition := m_virtualPosition (member p i) + 1 / weight (member p i)\<rparr>) p"
  shows "i \<in> fst ` set (p_members p)" and "pool_valid q" and "hole_at (length (p_h q)) 0 (pool_keys q)"
    and "list_all member_ok (p_members q)"
proof -
  have v: "pool_valid p" and ok: "list_all member_ok (p_members p)" using assms by (auto simp: pool_inv_def)
  show i: "i \<in> fst ` set (p_members p)" using v assms(2) unfolding i_def pool_valid_def by (metis length_greater_0_conv nth_mem)
  note known = member_known [OF i]
  show "pool_valid q" unfolding q_def using v i by (intro set_member_valid) auto
  have "pool_keys q = (pool_keys p)[0 := m_virtualPosition (member q i)]"
  proof (rule nth_equalityI)
    fix x assume "x < length (pool_keys q)"
    then have x: "x < length (p_h p)" by (simp add: q_def)
    have "p_h p ! x = i \<longleftrightarrow> x = 0"
      using v x assms(2) unfolding i_def pool_valid_def by (simp add: nth_eq_iff_index_eq)
    with x show "pool_keys q ! x = (pool_keys p)[0 := m_virtualPosition (member q i)] ! x"
      by (auto simp: pool_keys_def q_def)
  qed (simp add: q_def)
  with advance_hole [of "length (p_h p)" "pool_keys p"] assms(1) show "hole_at (length (p_h q)) 0 (pool_keys q)"
    by (simp add: pool_inv_def q_def)
  have "member_ok (i, member p i)" using inv_member_ok [OF assms(1) known] .
  then show "list_all member_ok (p_members q)"
    unfolding q_def using ok by (intro set_member_ok) (auto simp: member_ok_def)
qed

lemma Pick_inv: "pool_inv p \<Longrightarrow> pool_inv (snd (Pick p))"
proof (cases "p_h p = []")
  case False
  assume inv: "pool_inv p"
  note parts = Pick_parts [OF inv False]
  show ?thesis
    using heap_Fix_root [OF parts(2) _ parts(3)] parts(4) False
    unfolding pool_inv_def Pick_def by (simp add: Let_def member_ok_payload)
qed (simp add: Pick_def)

lemma Register_existing_inv:
  assumes "pool_inv p" and "map_of (p_members p) i = Some m"
  shows "pool_inv (Register now i a r hb p)"
  unfolding Register_def assms(2) option.case
  by (rule set_member_inv [OF assms]) (use inv_member_ok [OF assms] in \<open>auto simp: member_ok_def pool_consts\<close>)

lemma al_put_new: "k \<notin> fst ` set xs \<Longrightarrow> al_put k v xs = xs @ [(k, v)]"
  by (induction k v xs rule: al_put.induct) auto

lemma heap_Push_inv:
  assumes "pool_inv p" and "i \<notin> fst ` set (p_members p)" and "member_ok (i, m)"
  shows "pool_inv (heap_Push i (set_member i m p))"
    and "payload (heap_Push i (set_member i m p)) = payload (set_member i m p)"
proof -
  let ?n = "length (p_h p)"
  let ?q = "memberHeap_Push i (set_member i m p)"
  have v: "pool_valid p" using assms by (simp add: pool_inv_def)
  have new: "i \<notin> set (p_h p)" using v assms(2) by (simp add: pool_valid_def)
  have h: "p_h ?q = p_h p @ [i]" by (simp add: memberHeap_Push_def Let_def)
  have mem: "p_members ?q = p_members p @ [(i, m\<lparr>m_heapIndex := int ?n\<rparr>)]"
  proof -
    have "al_put i m' (xs @ [(i, m)]) = xs @ [(i, m')]" if "i \<notin> fst ` set xs" for m' xs
      using that by (induction xs) auto
    then show ?thesis
      using assms(2) by (simp add: memberHeap_Push_def Let_def set_heapIndex_def set_member_def al_put_new member_def map_add_def map_of_eq_None_iff [THEN iffD2])
  qed
  have member_q: "member ?q k = (if k = i then m\<lparr>m_heapIndex := int ?n\<rparr> else member p k)" for k
    by (simp add: memberHeap_Push_def Let_def)
  have "m_heapIndex (member ?q ((p_h p @ [i]) ! x)) = int x" if "x < Suc ?n" for x
  proof (cases "x = ?n")
    case False
    then have x: "x < ?n" using that by simp
    with new have "p_h p ! x \<noteq> i" by (metis nth_mem)
    with x v show ?thesis by (simp add: member_q nth_append pool_valid_def)
  qed (simp add: member_q)
  then have valid_q: "pool_valid ?q"
    using v new assms(2) unfolding pool_valid_def h by (simp add: mem al_wf_def)
  have keys_q: "pool_keys ?q = pool_keys p @ [m_virtualPosition m]"
    using new by (auto simp: pool_keys_def h member_q)
  have "hole_at (Suc ?n) ?n (pool_keys ?q)" "children_ok (Suc ?n) ?n (pool_keys ?q)"
  proof -
    have none: "\<not> (0 < c \<and> c < Suc ?n \<and> par c = ?n)" for c using par_child [of c ?n] by linarith
    then show "children_ok (Suc ?n) ?n (pool_keys ?q)" unfolding children_ok_def by blast
    show "hole_at (Suc ?n) ?n (pool_keys ?q)"
      unfolding hole_at_def
    proof (intro conjI allI impI)
      fix c assume "0 < c \<and> c < Suc ?n \<and> c \<noteq> ?n \<and> par c \<noteq> ?n"
      with assms(1) show "pool_keys ?q ! par c \<le> pool_keys ?q ! c"
        by (simp add: keys_q nth_append pool_inv_def heap_upto_def)
    qed (use none in blast)
  qed
  then have heap: "heap_upto (Suc ?n) (pool_keys (heap_Push i (set_member i m p)))"
    unfolding heap_Push_def using pool_heap.heap_up_correct [of ?q ?n "Suc ?n"] valid_q h by (simp add: Let_def)
  have kept: "payload (heap_Push i (set_member i m p)) = payload ?q" "pool_valid (heap_Push i (set_member i m p))"
    "length (p_h (heap_Push i (set_member i m p))) = Suc ?n"
    unfolding heap_Push_def
    using pool_heap.heap_up_keeps [where Q = "\<lambda>x. payload x = payload ?q" and s = ?q and n = "Suc ?n" and j = ?n]
      valid_q h by (auto simp: swap_payload Let_def)
  have "list_all member_ok (p_members ?q)"
    using assms(1,3) by (auto simp: mem pool_inv_def member_ok_def list_all_iff)
  with kept heap show "pool_inv (heap_Push i (set_member i m p))" by (simp add: pool_inv_def member_ok_payload)
  show "payload (heap_Push i (set_member i m p)) = payload (set_member i m p)"
    unfolding kept(1) by (simp add: memberHeap_Push_def Let_def payload_set_heapIndex) (simp add: set_member_def)
qed

lemma Register_inv: "pool_inv p \<Longrightarrow> pool_inv (Register now i a r hb p)"
proof (cases "map_of (p_members p) i")
  case None
  assume inv: "pool_inv p"
  have "i \<notin> fst ` set (p_members p)" using None by (simp add: map_of_eq_None_iff)
  from heap_Push_inv(1) [OF inv this] None show ?thesis
    unfolding Register_def by (simp add: Let_def member_ok_def)
qed (rule Register_existing_inv)

lemma RecordSuccess_inv: "pool_inv p \<Longrightarrow> pool_inv (RecordSuccess i p)"
proof (cases "map_of (p_members p) i")
  case (Some m)
  assume inv: "pool_inv p"
  show ?thesis
    unfolding RecordSuccess_def Some option.case
    by (rule set_member_inv [OF inv Some])
      (use inv_member_ok [OF inv Some] in \<open>auto simp: member_ok_def pool_consts\<close>)
qed (simp add: RecordSuccess_def)

text \<open>Removing a member: its heap slot and its entry go, everything else stays.\<close>

lemma al_del_put: "al_del k (al_put k v xs) = al_del k xs"
  by (induction k v xs rule: al_put.induct) (auto simp: al_del_def)

lemma pop_and_delete:
  "p_h r = hs @ [i] \<Longrightarrow>
   (memberHeap_Pop r)\<lparr>p_members := al_del i (p_members (memberHeap_Pop r))\<rparr>
     = r\<lparr>p_members := al_del i (p_members r), p_h := hs\<rparr>"
  by (simp add: memberHeap_Pop_def set_heapIndex_def set_member_def al_del_put)

lemma drop_last_valid:
  assumes "pool_valid r" and "p_h r = hs @ [i]"
  defines "q \<equiv> r\<lparr>p_members := al_del i (p_members r), p_h := hs\<rparr>"
  shows "pool_valid q" and "pool_keys q = take (length hs) (pool_keys r)"
proof -
  have wf: "al_wf (p_members r)" "distinct (hs @ [i])" "set (hs @ [i]) = fst ` set (p_members r)"
    and idx: "\<And>y. y < Suc (length hs) \<Longrightarrow> m_heapIndex (member r ((hs @ [i]) ! y)) = int y"
    using assms(1,2) by (auto simp: pool_valid_def)
  have mem: "member q k = member r k" if "k \<noteq> i" for k using that by (simp add: member_def q_def)
  have "m_heapIndex (member q (hs ! y)) = int y" if "y < length hs" for y
  proof -
    have "hs ! y \<noteq> i" using wf(2) nth_mem [OF that] by auto
    then show ?thesis using idx [of y] that mem by (simp add: nth_append)
  qed
  moreover have "set hs = fst ` set (al_del i (p_members r))"
  proof -
    have "fst ` set (al_del i (p_members r)) = fst ` set (p_members r) - {i}" by (force simp: al_del_def)
    then show ?thesis using wf(2,3) by auto
  qed
  ultimately show "pool_valid q" using wf by (simp add: pool_valid_def q_def)
  show "pool_keys q = take (length hs) (pool_keys r)"
  proof -
    have "map (\<lambda>k. m_virtualPosition (member q k)) hs = map (\<lambda>k. m_virtualPosition (member r k)) hs"
      using wf(2) by (intro map_cong refl) (metis disjoint_insert(2) distinct_append list.set(2) mem)
    then show ?thesis using assms(2) by (simp add: pool_keys_def q_def)
  qed
qed

lemma payload_del: "payload (r\<lparr>p_members := al_del i (p_members r), p_h := hs\<rparr>) = al_del i (payload r)"
  by (auto simp: payload_def al_del_def filter_map comp_def case_prod_beta intro!: map_cong filter_cong)

lemma heap_remove_pool:
  assumes "pool_inv p" and "x < length (p_h p)"
  obtains r hs where "r = heap_remove memberHeap_Less memberHeap_Swap (length (p_h p)) x p"
    and "pool_valid r" and "payload r = payload p" and "p_h r = hs @ [p_h p ! x]"
    and "heap_upto (length hs) (pool_keys r)"
proof -
  obtain n where n: "length (p_h p) = Suc n" using assms(2) by (cases "length (p_h p)") auto
  let ?r = "heap_remove memberHeap_Less memberHeap_Swap (Suc n) x p"
  have p: "pool_valid p" "length (pool_keys p) = Suc n" "x \<le> n" "heap_upto (Suc n) (pool_keys p)"
    using assms n by (auto simp: pool_inv_def)
  have kept: "payload ?r = payload p \<and> pool_valid ?r \<and> length (pool_keys ?r) = Suc n"
    by (rule pool_heap.heap_remove_keeps [where Q = "\<lambda>q. payload q = payload p"])
      (use p in \<open>simp_all add: swap_payload\<close>)
  have last: "p_h ?r ! n = p_h p ! x"
    by (rule pool_heap.heap_remove_last [where slots = p_h]) (use p in simp_all)
  from kept have len: "length (p_h ?r) = Suc n" by simp
  have eq: "p_h ?r = take n (p_h ?r) @ [p_h p ! x]"
    using take_Suc_conv_app_nth [of n "p_h ?r"] len last by simp
  show thesis
    by (rule that [of ?r "take n (p_h ?r)"])
      (use n kept eq len pool_heap.heap_remove_correct [OF p] in simp_all)
qed

lemma removeLocked_spec:
  assumes "pool_inv p" and "map_of (p_members p) i = Some m"
  shows "pool_inv (removeLocked i p)" and "payload (removeLocked i p) = al_del i (payload p)"
proof -
  have v: "pool_valid p" using assms by (simp add: pool_inv_def)
  have "i \<in> fst ` set (p_members p)" using assms(2) by (metis map_of_SomeD fst_conv image_eqI)
  then have "i \<in> set (p_h p)" using v by (simp add: pool_valid_def)
  then obtain x where x: "x < length (p_h p)" "p_h p ! x = i" by (auto simp: in_set_conv_nth)
  have "member p i = m" using assms(2) by (simp add: member_def)
  with v x have idx: "m_heapIndex m = int x" by (auto simp: pool_valid_def)
  obtain r hs where r: "r = heap_remove memberHeap_Less memberHeap_Swap (length (p_h p)) x p"
    "pool_valid r" "payload r = payload p" "p_h r = hs @ [i]" "heap_upto (length hs) (pool_keys r)"
    using heap_remove_pool [OF assms(1) x(1)] x(2) by metis
  let ?q = "r\<lparr>p_members := al_del i (p_members r), p_h := hs\<rparr>"
  have q: "removeLocked i p = ?q"
    unfolding removeLocked_def assms(2) option.case heap_Remove_def Let_def
    using idx x pop_and_delete [OF r(4)] by (simp add: r(1) [symmetric])
  show pl: "payload (removeLocked i p) = al_del i (payload p)" unfolding q payload_del r(3) ..
  have "list_all member_ok (payload p)" using assms(1) member_ok_payload by (simp add: pool_inv_def)
  then have "list_all member_ok (payload ?q)" using pl q by (auto simp: al_del_def list_all_iff)
  then have "list_all member_ok (p_members ?q)" using member_ok_payload by blast
  moreover have "heap_upto (length hs) (pool_keys ?q)"
    using drop_last_valid(2) [OF r(2,4)] r(5) by (auto simp: heap_upto_def)
  ultimately show "pool_inv (removeLocked i p)"
    using drop_last_valid(1) [OF r(2,4)] by (simp add: q pool_inv_def)
qed

lemma removeLocked_inv: "pool_inv p \<Longrightarrow> pool_inv (removeLocked i p)"
  by (cases "map_of (p_members p) i") (auto simp: removeLocked_spec, simp add: removeLocked_def)


lemma RecordFailure_inv: "pool_inv p \<Longrightarrow> pool_inv (snd (RecordFailure now i p))"
proof (cases "map_of (p_members p) i")
  case (Some m)
  assume inv: "pool_inv p"
  have "pool_inv (set_member i (m\<lparr>m_reputation := m_reputation m * (1 / 2), m_floorSince := f\<rparr>) p)" for f
    by (rule set_member_inv [OF inv Some]) (use inv_member_ok [OF inv Some] in \<open>auto simp: member_ok_def\<close>)
  from this [of None] this [of "Some now"] this [of "m_floorSince m"] show ?thesis
    unfolding RecordFailure_def Some
    by (auto simp: Let_def removeLocked_inv split: option.splits)
qed (simp add: RecordFailure_def)

lemma sweepHeartbeats_inv: "pool_inv p \<Longrightarrow> pool_inv (sweepHeartbeats now limit p)"
proof -
  have "pool_inv q \<Longrightarrow> pool_inv (fold (\<lambda>(i, m) p. if heartbeat_lost now limit m then removeLocked i p else p) ms q)" for ms q
    by (induction ms arbitrary: q) (auto simp: removeLocked_inv)
  then show "pool_inv p \<Longrightarrow> pool_inv (sweepHeartbeats now limit p)" by (simp add: sweepHeartbeats_def)
qed

lemma newPool_inv: "pool_inv (newPool i)"
  by (simp add: pool_inv_def pool_valid_def newPool_def heap_upto_def)

interpretation pool: state_machine pool_step "\<lambda>_ _. True" pool_inv
proof unfold_locales
  fix p e assume "pool_inv p"
  then show "pool_inv (pool_step e p)"
    by (cases e) (simp_all add: Register_inv Pick_inv RecordSuccess_inv RecordFailure_inv sweepHeartbeats_inv)
qed


section \<open>What a pick returns\<close>

lemma weight_pos: "0 < weight m"
  by (simp add: weight_def Let_def)

lemma weight_cong:
  "m\<lparr>m_heapIndex := 0\<rparr> = m'\<lparr>m_heapIndex := 0\<rparr> \<Longrightarrow>
   weight m = weight m' \<and> m_virtualPosition m = m_virtualPosition m' \<and> m_ID m = m_ID m'"
  by (cases m; cases m') (auto simp: weight_def)

lemma Pick_payload:
  assumes "pool_inv p" and "p_h p \<noteq> []"
  defines "i \<equiv> p_h p ! 0"
  defines "m \<equiv> (member p i)\<lparr>m_virtualPosition := m_virtualPosition (member p i) + 1 / weight (member p i)\<rparr>"
  shows "payload (snd (Pick p)) = payload (set_member i m p)"
    and "fst (Pick p) = Some (member (snd (Pick p)) i)"
    and "fst ` set (p_members (snd (Pick p))) = fst ` set (p_members p)"
    and "k \<in> fst ` set (p_members p) \<Longrightarrow>
         (member (snd (Pick p)) k)\<lparr>m_heapIndex := 0\<rparr> = (if k = i then m else member p k)\<lparr>m_heapIndex := 0\<rparr>"
proof -
  note parts = Pick_parts [OF assms(1,2), folded i_def, folded m_def]
  have pick: "snd (Pick p) = heap_Fix 0 (set_member i m p)"
    using assms(2) by (simp add: Pick_def Let_def i_def m_def)
  show pl: "payload (snd (Pick p)) = payload (set_member i m p)"
    using heap_Fix_root [OF parts(2) _ parts(3)] assms(2) by (simp add: pick)
  show "fst (Pick p) = Some (member (snd (Pick p)) i)"
    using assms(2) by (simp add: Pick_def Let_def i_def)
  show keys: "fst ` set (p_members (snd (Pick p))) = fst ` set (p_members p)"
    using pl parts(1) unfolding keys_payload by (simp flip: keys_payload) (auto simp: set_member_def)
  show "(member (snd (Pick p)) k)\<lparr>m_heapIndex := 0\<rparr> = (if k = i then m else member p k)\<lparr>m_heapIndex := 0\<rparr>"
    if "k \<in> fst ` set (p_members p)"
    using payload_member [OF pl, of k] that keys by simp
qed

lemma root_minimal:
  assumes "pool_inv p" and "k \<in> fst ` set (p_members p)"
  shows "m_virtualPosition (member p (p_h p ! 0)) \<le> m_virtualPosition (member p k)"
proof -
  have "k \<in> set (p_h p)" using assms by (simp add: pool_inv_def pool_valid_def)
  then obtain x where x: "x < length (p_h p)" "p_h p ! x = k" by (auto simp: in_set_conv_nth)
  then have "pool_keys p ! 0 = m_virtualPosition (member p (p_h p ! 0))"
    unfolding pool_keys_def by (intro nth_map) linarith
  with x show ?thesis
    using heap_root_min [of "length (p_h p)" "pool_keys p" x] assms(1)
    by (auto simp: pool_inv_def pool_keys_def)
qed


section \<open>Fairness of repeated picks\<close>

definition ahead :: "Pool \<Rightarrow> bool" where
  "ahead p \<longleftrightarrow> (\<forall>a \<in> set (p_h p). \<forall>b \<in> set (p_h p).
     m_virtualPosition (member p a) - 1 / weight (member p a) \<le> m_virtualPosition (member p b))"

lemma keys_h: "pool_inv p \<Longrightarrow> set (p_h p) = fst ` set (p_members p)"
  by (simp add: pool_inv_def pool_valid_def)

lemma Pick_member:
  assumes "pool_inv p" and "k \<in> set (p_h p)"
  defines "i \<equiv> p_h p ! 0"
  shows "weight (member (snd (Pick p)) k) = weight (member p k)"
    and "m_ID (member (snd (Pick p)) k) = m_ID (member p k)"
    and "m_virtualPosition (member (snd (Pick p)) k)
       = m_virtualPosition (member p k) + (if k = i then 1 / weight (member p i) else 0)"
proof -
  have "p_h p \<noteq> []" "k \<in> fst ` set (p_members p)" using assms(2) keys_h [OF assms(1)] by auto
  note w = Pick_payload(4) [OF assms(1) this, THEN weight_cong]
  show "weight (member (snd (Pick p)) k) = weight (member p k)"
    and "m_ID (member (snd (Pick p)) k) = m_ID (member p k)"
    and "m_virtualPosition (member (snd (Pick p)) k)
       = m_virtualPosition (member p k) + (if k = i then 1 / weight (member p i) else 0)"
    using w by (auto simp: i_def weight_def)
qed

lemma Pick_ahead:
  assumes "pool_inv p" and "ahead p"
  shows "ahead (snd (Pick p))"
proof (cases "p_h p = []")
  case False
  let ?q = "snd (Pick p)"
  have h: "set (p_h ?q) = set (p_h p)"
    using keys_h [OF Pick_inv [OF assms(1)]] keys_h [OF assms(1)] Pick_payload(3) [OF assms(1) False] by simp
  have "m_virtualPosition (member ?q a) - 1 / weight (member ?q a) \<le> m_virtualPosition (member ?q b)"
    if "a \<in> set (p_h p)" "b \<in> set (p_h p)" for a b
  proof -
    have "m_virtualPosition (member p a) - 1 / weight (member p a) \<le> m_virtualPosition (member p b)"
      using assms(2) that by (simp add: ahead_def)
    moreover have "m_virtualPosition (member p (p_h p ! 0)) \<le> m_virtualPosition (member p b)"
      using root_minimal [OF assms(1), of b] keys_h [OF assms(1)] that by simp
    moreover have "m_virtualPosition (member p b) \<le> m_virtualPosition (member ?q b)"
      using Pick_member(3) [OF assms(1) that(2)] weight_pos [of "member p (p_h p ! 0)"] by (simp add: less_imp_le)
    ultimately show ?thesis
      using Pick_member [OF assms(1) that(1)] by auto
  qed
  then show ?thesis by (simp add: ahead_def h)
qed (simp add: Pick_def assms)

lemma Pick_id:
  assumes "pool_inv p" and "p_h p \<noteq> []"
  shows "\<exists>m. fst (Pick p) = Some m \<and> m_ID m = p_h p ! 0"
proof -
  have root: "p_h p ! 0 \<in> set (p_h p)" using assms(2) by (simp add: nth_mem)
  then have "map_of (p_members p) (p_h p ! 0) = Some (member p (p_h p ! 0))"
    using keys_h [OF assms(1)] by (intro member_known) simp
  then have "m_ID (member p (p_h p ! 0)) = p_h p ! 0"
    using inv_member_ok [OF assms(1)] by (fastforce simp: member_ok_def)
  then show ?thesis using Pick_payload(2) [OF assms] Pick_member(2) [OF assms(1) root] by simp
qed

lemma pick_run_spec:
  assumes "pool_inv p" and "p_h p \<noteq> []"
  defines "r \<equiv> \<lambda>n. snd (pick_run n p)"
  shows "pool_inv (r n) \<and> (ahead p \<longrightarrow> ahead (r n)) \<and> set (p_h (r n)) = set (p_h p) \<and> length (fst (pick_run n p)) = n
    \<and> set (fst (pick_run n p)) \<subseteq> set (p_h p)
    \<and> (\<forall>k \<in> set (p_h p). weight (member (r n) k) = weight (member p k)
         \<and> m_virtualPosition (member (r n) k)
           = m_virtualPosition (member p k) + rat_of_nat (count_list (fst (pick_run n p)) k) / weight (member p k))"
proof (induction n)
  case (Suc n)
  let ?q = "r n" and ?ids = "fst (pick_run n p)"
  have q: "pool_inv ?q" "set (p_h ?q) = set (p_h p)" using Suc.IH by auto
  then have ne: "p_h ?q \<noteq> []" using assms(2) by auto
  obtain m where m: "fst (Pick ?q) = Some m" "m_ID m = p_h ?q ! 0" using Pick_id [OF q(1) ne] by auto
  have step: "pick_run (Suc n) p = (?ids @ [p_h ?q ! 0], snd (Pick ?q))"
    using m by (simp add: r_def Let_def split_beta)
  have root: "p_h ?q ! 0 \<in> set (p_h p)" using q(2) ne by (metis length_greater_0_conv nth_mem)
  have h: "set (p_h (snd (Pick ?q))) = set (p_h p)"
    using keys_h [OF Pick_inv [OF q(1)]] keys_h [OF q(1)] Pick_payload(3) [OF q(1) ne] q(2) by simp
  have "weight (member (snd (Pick ?q)) k) = weight (member p k)
      \<and> m_virtualPosition (member (snd (Pick ?q)) k)
        = m_virtualPosition (member p k) + rat_of_nat (count_list (?ids @ [p_h ?q ! 0]) k) / weight (member p k)"
    if "k \<in> set (p_h p)" for k
    using Pick_member [OF q(1), of k] that q(2) Suc.IH by (auto simp: add_divide_distrib)
  then show ?case
    using Suc.IH root h Pick_inv [OF q(1)] Pick_ahead [OF q(1)] unfolding r_def step by (auto simp flip: r_def)
qed (use assms in \<open>simp_all\<close>)


section \<open>Eviction\<close>

definition floor_mark :: "string \<Rightarrow> Pool \<Rightarrow> ns option" where
  "floor_mark i p = (case map_of (p_members p) i of None \<Rightarrow> None | Some m \<Rightarrow> m_floorSince m)"

lemma floor_mark_payload: "payload p = payload q \<Longrightarrow> floor_mark i p = floor_mark i q"
proof -
  have "floor_mark i r = (case map_of (payload r) i of None \<Rightarrow> None | Some m \<Rightarrow> m_floorSince m)" for r
    by (simp add: floor_mark_def map_of_payload split: option.splits)
  then show "payload p = payload q \<Longrightarrow> floor_mark i p = floor_mark i q" by simp
qed

lemma floor_mark_set_member: "floor_mark i (set_member k m p) = (if i = k then m_floorSince m else floor_mark i p)"
  by (simp add: floor_mark_def set_member_def)

lemma floor_mark_remove:
  assumes "pool_inv p" shows "floor_mark i (removeLocked k p) = (if i = k then None else floor_mark i p)"
proof (cases "map_of (p_members p) k")
  case (Some m)
  note pl = removeLocked_spec(2) [OF assms Some]
  have "payload (removeLocked k p) = payload (p\<lparr>p_members := al_del k (p_members p), p_h := p_h p\<rparr>)"
    unfolding pl payload_del ..
  from floor_mark_payload [OF this] show ?thesis by (simp add: floor_mark_def)
qed (auto simp: removeLocked_def floor_mark_def)

lemma floor_mark_step:
  assumes "pool_inv p" and "floor_mark i (pool_step e p) = Some t"
  shows "e = PFailure t i \<or> (e \<noteq> PSuccess i \<and> floor_mark i p = Some t)"
proof (cases e)
  case (PRegister now k a r hb)
  have "floor_mark i (Register now k a r hb p) = (if map_of (p_members p) k = None \<and> i = k then None else floor_mark i p)"
  proof (cases "map_of (p_members p) k")
    case None
    then have "k \<notin> fst ` set (p_members p)" by (simp add: map_of_eq_None_iff)
    from floor_mark_payload [OF heap_Push_inv(2) [OF assms(1) this]] None show ?thesis
      by (simp add: Register_def Let_def member_ok_def floor_mark_set_member)
  qed (auto simp: Register_def floor_mark_set_member, auto simp: floor_mark_def)
  with assms(2) PRegister show ?thesis by (auto split: if_splits)
next
  case PPick
  show ?thesis
  proof (cases "p_h p = []")
    case False
    let ?k = "p_h p ! 0"
    have "floor_mark ?k p = m_floorSince (member p ?k)"
      using member_known [OF Pick_parts(1) [OF assms(1) False]] by (simp add: floor_mark_def)
    with floor_mark_payload [OF Pick_payload(1) [OF assms(1) False], of i] assms(2) PPick show ?thesis
      by (auto simp: floor_mark_set_member split: if_splits)
  qed (use assms(2) PPick in \<open>simp add: Pick_def\<close>)
next
  case (PSuccess k)
  have "floor_mark i (RecordSuccess k p) = (if i = k then None else floor_mark i p)"
    by (cases "map_of (p_members p) k") (auto simp: RecordSuccess_def floor_mark_set_member, simp_all add: floor_mark_def)
  with assms(2) PSuccess show ?thesis by (auto split: if_splits)
next
  case (PFailure now k)
  have "pool_inv (set_member k (m\<lparr>m_reputation := m_reputation m * (1 / 2)\<rparr>) p)" if "map_of (p_members p) k = Some m" for m
    by (rule set_member_inv [OF assms(1) that]) (use inv_member_ok [OF assms(1) that] in \<open>auto simp: member_ok_def\<close>)
  with assms(2) PFailure show ?thesis
    by (auto simp: RecordFailure_def Let_def floor_mark_set_member floor_mark_remove split: option.splits if_splits)
      (auto simp: floor_mark_def)
next
  case (PSweep now limit)
  have "pool_inv q \<Longrightarrow> floor_mark i (fold (\<lambda>(i, m) p. if heartbeat_lost now limit m then removeLocked i p else p) ms q)
      \<in> {None, floor_mark i q}" for ms q
  proof (induction ms arbitrary: q)
    case (Cons x ms)
    obtain k m where x: "x = (k, m)" by (cases x)
    show ?case
      using Cons.IH [OF Cons.prems] Cons.IH [OF removeLocked_inv [OF Cons.prems], of k] floor_mark_remove [OF Cons.prems, of i k]
      by (auto simp: x split: if_splits)
  qed simp
  from this [OF assms(1), of "p_members p"] assms(2) PSweep show ?thesis by (auto simp: sweepHeartbeats_def)
qed

lemma floor_mark_history:
  assumes "floor_mark i (fold pool_step es (newPool d)) = Some t"
  shows "\<exists>es1 es2. es = es1 @ PFailure t i # es2 \<and> PSuccess i \<notin> set es2"
  using assms
proof (induction es rule: rev_induct)
  case Nil
  then show ?case by (simp add: floor_mark_def newPool_def)
next
  case (snoc e es)
  have "pool_inv (fold pool_step es (newPool d))"
    by (rule pool.run_inv) (simp_all add: newPool_inv pool.run_total)
  from floor_mark_step [OF this, of i e t] snoc.prems
  consider "e = PFailure t i" | "e \<noteq> PSuccess i" "floor_mark i (fold pool_step es (newPool d)) = Some t" by auto
  then show ?case
  proof cases
    case 1
    then show ?thesis by (intro exI [of _ es] exI [of _ "[]"]) simp
  next
    case 2
    from snoc.IH [OF 2(2)] obtain es1 es2 where "es = es1 @ PFailure t i # es2" "PSuccess i \<notin> set es2" by blast
    with 2(1) show ?thesis by (intro exI [of _ es1] exI [of _ "es2 @ [e]"]) auto
  qed
qed


section \<open>Properties\<close>

text \<open>(C20) Whatever registrations, picks, outcomes and sweeps a pool receives, the member
  map and the heap hold the same members, every member's recorded slot is where it
  is, the heap is ordered by virtual position and every reputation is in (0, 1].\<close>

theorem pool_consistent:
  "pool_inv (fold pool_step es (newPool i))"
  by (rule pool.run_inv) (simp_all add: newPool_inv pool.run_total)

text \<open>A pick fails exactly on an empty pool, and otherwise returns a member of
  least virtual position, advanced by one over its weight; no other member object
  changes (beyond its heap slot) and the pool stays consistent.\<close>

theorem Pick_least_position:
  assumes "pool_inv p"
  shows "case Pick p of
           (None, q) \<Rightarrow> p_members p = [] \<and> q = p
         | (Some m, q) \<Rightarrow>
             pool_inv q \<and> (\<exists>m0. map_of (p_members p) (m_ID m) = Some m0
               \<and> (\<forall>k m'. map_of (p_members p) k = Some m' \<longrightarrow> m_virtualPosition m0 \<le> m_virtualPosition m')
               \<and> m_virtualPosition m = m_virtualPosition m0 + 1 / weight m0
               \<and> payload q = al_put (m_ID m) (m\<lparr>m_heapIndex := 0\<rparr>) (payload p))"
proof (cases "p_h p = []")
  case True
  then show ?thesis using keys_h [OF assms] by (simp add: Pick_def)
next
  case False
  let ?i = "p_h p ! 0" and ?q = "snd (Pick p)"
  let ?m = "(member p ?i)\<lparr>m_virtualPosition := m_virtualPosition (member p ?i) + 1 / weight (member p ?i)\<rparr>"
  note pick = Pick_payload [OF assms False]
  have i: "?i \<in> set (p_h p)" and mi: "?i \<in> fst ` set (p_members p)"
    using False Pick_parts(1) [OF assms False] by (simp_all add: nth_mem)
  obtain m where m: "fst (Pick p) = Some m" "m_ID m = ?i" "m = member ?q ?i"
    using Pick_id [OF assms False] pick(2) by auto
  have same: "m\<lparr>m_heapIndex := 0\<rparr> = ?m\<lparr>m_heapIndex := 0\<rparr>" using pick(4) [OF mi] m(3) by simp
  have "payload (set_member ?i x r) = al_put ?i (x\<lparr>m_heapIndex := 0\<rparr>) (payload r)" for x r
  proof -
    have "map (\<lambda>(i, m). (i, m\<lparr>m_heapIndex := 0\<rparr>)) (al_put k x xs)
        = al_put k (x\<lparr>m_heapIndex := 0\<rparr>) (map (\<lambda>(i, m). (i, m\<lparr>m_heapIndex := 0\<rparr>)) xs)" for k x xs
      by (induction k x xs rule: al_put.induct) auto
    then show ?thesis by (simp add: payload_def set_member_def)
  qed
  with pick(1) same m(2) have "payload ?q = al_put (m_ID m) (m\<lparr>m_heapIndex := 0\<rparr>) (payload p)" by simp
  moreover have "m_virtualPosition (member p ?i) \<le> m_virtualPosition m'" if "map_of (p_members p) k = Some m'" for k m'
  proof -
    have "k \<in> fst ` set (p_members p)" using that by (metis map_of_SomeD fst_conv image_eqI)
    with root_minimal [OF assms, of k] that show ?thesis by (simp add: member_def)
  qed
  moreover have "m_virtualPosition m = m_virtualPosition (member p ?i) + 1 / weight (member p ?i)"
    using Pick_member(3) [OF assms i] m(3) by simp
  ultimately show ?thesis
    using m(1,2) Pick_inv [OF assms] member_known [OF mi] by (auto simp: split_beta)
qed

definition two_members :: Pool where
  "two_members = Register 0 ''b'' ''y'' 2 0 (Register 0 ''a'' ''x'' 1 0 (newPool ''p''))"

lemma two_members_inv: "pool_inv two_members"
  unfolding two_members_def by (intro Register_inv newPool_inv)

theorem Pick_least_position_witness:
  "case Pick two_members of (None, q) \<Rightarrow> False
   | (Some m, q) \<Rightarrow> pool_inv q \<and> m_ID m = ''a'' \<and> m_virtualPosition m = 1"
proof -
  have "map_option (\<lambda>m. (m_ID m, m_virtualPosition m)) (fst (Pick two_members)) = Some (''a'', 1)" by code_simp
  with Pick_least_position [OF two_members_inv] show ?thesis by (auto simp: split_beta split: option.splits)
qed



text \<open>(C21) A failure evicts a member only when halving brings its reputation to the floor
  or below and an earlier failure of the same member lies at least the eviction
  window before it with no success of that member in between; exactly the evicted
  member is gone afterwards.\<close>

theorem eviction_needs_sustained_failure:
  assumes "RecordFailure now i (fold pool_step es (newPool d)) = (True, q)"
  shows "\<exists>es1 t es2. es = es1 @ PFailure t i # es2 \<and> PSuccess i \<notin> set es2
           \<and> now - t \<ge> defaultFloorEvictionWindow
           \<and> m_reputation (member (fold pool_step es (newPool d)) i) / 2 \<le> defaultReputationFloor
           \<and> payload q = al_del i (payload (fold pool_step es (newPool d)))"
proof -
  let ?p = "fold pool_step es (newPool d)"
  obtain m t where m: "map_of (p_members ?p) i = Some m" "m_floorSince m = Some t"
    "now - t \<ge> defaultFloorEvictionWindow" "m_reputation m / 2 \<le> defaultReputationFloor"
    and q: "q = removeLocked i (set_member i (m\<lparr>m_reputation := m_reputation m * (1 / 2)\<rparr>) ?p)"
    using assms unfolding RecordFailure_def by (auto simp: Let_def split: option.splits if_splits)
  have inv: "pool_inv ?p" by (rule pool.run_inv) (simp_all add: newPool_inv pool.run_total)
  have "floor_mark i ?p = Some t" using m by (simp add: floor_mark_def)
  from floor_mark_history [OF this] obtain es1 es2
    where "es = es1 @ PFailure t i # es2" "PSuccess i \<notin> set es2" by blast
  moreover have "payload q = al_del i (payload ?p)"
  proof -
    let ?r = "set_member i (m\<lparr>m_reputation := m_reputation m * (1 / 2)\<rparr>) ?p"
    have "pool_inv ?r"
      by (rule set_member_inv [OF inv m(1)]) (use inv_member_ok [OF inv m(1)] in \<open>auto simp: member_ok_def\<close>)
    moreover have "al_del i (payload (set_member i x s)) = al_del i (payload s)" for x s
      using payload_del [of "[]" i "set_member i x s"] payload_del [of "[]" i s]
      by (simp add: set_member_def al_del_put payload_def)
    ultimately show ?thesis
      using removeLocked_spec(2) [of ?r i] by (simp add: q) (simp add: set_member_def)
  qed
  moreover have "member ?p i = m" using m(1) by (simp add: member_def)
  ultimately show ?thesis using m(3,4) by blast
qed

definition failing_history :: "pool_event list" where
  "failing_history = PRegister 0 ''a'' ''x'' 1 0 # map (\<lambda>t. PFailure t ''a'') [1, 2, 3, 4, 5]"

theorem eviction_needs_sustained_failure_witness:
  "\<exists>es1 t es2. failing_history = es1 @ PFailure t ''a'' # es2 \<and> 12000000005 - t \<ge> defaultFloorEvictionWindow"
proof -
  have "fst (RecordFailure 12000000005 ''a'' (fold pool_step failing_history (newPool ''p'')))"
    by code_simp
  then obtain q where "RecordFailure 12000000005 ''a'' (fold pool_step failing_history (newPool ''p'')) = (True, q)"
    by (metis prod.collapse)
  from eviction_needs_sustained_failure [OF this] show ?thesis by blast
qed

end
