(* ===== verification/Account_Queue.thy ===== *)
theory Account_Queue
  imports Attempt Target_State Shared_Pace Pool "HOL-Library.While_Combinator"
begin

text \<open>
  \<^verbatim>\<open>internal/dispatch/account_queue.go\<close> (backlog counters, hand-off, the run loop),
  \<^verbatim>\<open>dead_target.go\<close> (failing jobs of a dead target) and
  \<^verbatim>\<open>paged_recovery.go\<close> (jobs still on disk).

  \<open>AccountQueue\<close> holds the struct's fields and the locals of the run loop, plus the
  attempts in flight (the goroutines) and the buffered hand-offs (the channel).
  \<open>target\<close> is what the queues of one target share.  One pass of the loop is
  \<open>loop_pass\<close> (everything above the \<^verbatim>\<open>select\<close>) followed by \<open>select_step\<close> for the case
  that fired; a timer may fire at any moment.  Effects are appended to \<open>qw_log\<close>.
\<close>

section \<open>State\<close>

record spillSource =
  ss_key :: string
  ss_after :: PageCursor
  ss_reserved :: int
  ss_consumed :: int
  ss_cutoff :: ms
  ss_consumedThrough :: PageCursor

record waitingJob =
  wj_job :: Job
  wj_at :: ns
  wj_reason :: string

record AccountQueue =
  aq_key :: string
  aq_upstream :: string
  aq_deadAfter :: ns
  aq_configuredRPS :: f64
  aq_configuredMaxConc :: int
  aq_rps :: f64
  aq_maxConc :: int
  aq_lastRequestAt :: "ns option"
  aq_inFlight :: int
  aq_queue :: "Job list"
  aq_waiting :: "waitingJob list"
  aq_running :: "(Job \<times> string option) list"
  aq_cmds :: "Job list"
  aq_currentRPS :: int
  aq_served :: int
  aq_backlog :: int
  aq_nextDeadline :: ms
  aq_inMemory :: int
  aq_spillPending :: "spillSource list"
  aq_spills :: "spillSource list"
  aq_present :: "string set"
  aq_pagedOwnUntil :: "ns option"
  aq_refillRetryAt :: "ns option"
  aq_lastSpillSweep :: "ns option"
  aq_lastDeadSweep :: "ns option"
  aq_exited :: bool

record target =
  tg_rps :: f64
  tg_shared :: "string sharedPace"
  tg_pool :: "Pool option"
  tg_health :: targetHealth
  tg_activeQueues :: int
  tg_backlog :: int

record qworld =
  qw_q :: AccountQueue
  qw_t :: target
  qw_log :: "effect list"

text \<open>What a pass reads from outside: the attempt context of the jobs it fails, the
  store's page and lookup queries, and the clock at the top of the pass and at each
  iteration of the dispatch loop.\<close>

record pass_env =
  pe_ax :: attempt_ctx
  pe_page :: "string \<Rightarrow> PageCursor \<Rightarrow> ms \<Rightarrow> int \<Rightarrow> Job list option"
  pe_getJob :: "string \<Rightarrow> Job option"
  pe_now :: ns
  pe_clock :: "ns list"
  pe_after :: ns

definition on_q :: "(AccountQueue \<Rightarrow> AccountQueue) \<Rightarrow> qworld \<Rightarrow> qworld" where
  "on_q f w = w\<lparr>qw_q := f (qw_q w)\<rparr>"

definition on_t :: "(target \<Rightarrow> target) \<Rightarrow> qworld \<Rightarrow> qworld" where
  "on_t f w = w\<lparr>qw_t := f (qw_t w)\<rparr>"

definition emit :: "effect list \<Rightarrow> qworld \<Rightarrow> qworld" where
  "emit es w = w\<lparr>qw_log := qw_log w @ es\<rparr>"

section \<open>Backlog counters\<close>

definition Active :: "AccountQueue \<Rightarrow> bool" where
  "Active q \<longleftrightarrow> aq_backlog q > 0"

definition aq_RPS :: "AccountQueue \<Rightarrow> f64" where
  "aq_RPS q = of_int (aq_currentRPS q) / 100"

definition reserveBacklog :: "qworld \<Rightarrow> qworld" where
  "reserveBacklog w =
     (let n = aq_backlog (qw_q w) + 1
      in on_t (\<lambda>t. t\<lparr>tg_activeQueues := tg_activeQueues t + (if n = 1 then 1 else 0), tg_backlog := tg_backlog t + 1\<rparr>)
           (on_q (\<lambda>q. q\<lparr>aq_backlog := n\<rparr>) w))"

definition releaseBacklog :: "qworld \<Rightarrow> qworld" where
  "releaseBacklog w =
     (let n = aq_backlog (qw_q w) - 1
      in on_t (\<lambda>t. t\<lparr>tg_activeQueues := tg_activeQueues t - (if n = 0 then 1 else 0), tg_backlog := tg_backlog t - 1\<rparr>)
           (on_q (\<lambda>q. q\<lparr>aq_backlog := n\<rparr>) w))"

definition clearBacklog :: "qworld \<Rightarrow> qworld" where
  "clearBacklog w =
     (let remaining = aq_backlog (qw_q w);
          w = on_q (\<lambda>q. q\<lparr>aq_backlog := 0\<rparr>) w
      in if remaining \<le> 0 then w
         else on_t (\<lambda>t. t\<lparr>tg_activeQueues := tg_activeQueues t - 1, tg_backlog := tg_backlog t - remaining\<rparr>) w)"

definition markServed :: "qworld \<Rightarrow> qworld" where
  "markServed w =
     on_t (\<lambda>t. t\<lparr>tg_health := (tg_health t)\<lparr>th_served := th_served (tg_health t) + 1\<rparr>\<rparr>)
       (on_q (\<lambda>q. q\<lparr>aq_served := aq_served q + 1\<rparr>) w)"

definition reportDepth :: "qworld \<Rightarrow> qworld" where
  "reportDepth w = on_q (\<lambda>q. q\<lparr>aq_inMemory := int (length (aq_queue q))\<rparr>) w"

definition hold :: "Job \<Rightarrow> qworld \<Rightarrow> qworld" where
  "hold job w = on_q (\<lambda>q. q\<lparr>aq_present := insert (j_ID job) (aq_present q)\<rparr>) w"

definition drop_job :: "Job \<Rightarrow> qworld \<Rightarrow> qworld" where
  "drop_job job w = on_q (\<lambda>q. q\<lparr>aq_present := aq_present q - {j_ID job}\<rparr>) w"

definition StoreQueueKey :: "string \<Rightarrow> string \<Rightarrow> string" where
  "StoreQueueKey upstream queueKey = upstream @ ''|'' @ queueKey"

definition storeKey :: "AccountQueue \<Rightarrow> string" where
  "storeKey q = StoreQueueKey (aq_upstream q) (aq_key q)"

text \<open>\<^verbatim>\<open>handoff\<close> while the queue is not stopped: the job is stored under the queue's key
  and buffered.\<close>

definition handoff :: "Job \<Rightarrow> qworld \<Rightarrow> qworld" where
  "handoff job w =
     on_q (\<lambda>q. q\<lparr>aq_cmds := aq_cmds q @ [job]\<rparr>) (emit [SetQueueKey (j_ID job) (storeKey (qw_q w))] w)"

definition aq_Enqueue :: "Job \<Rightarrow> qworld \<Rightarrow> qworld" where
  "aq_Enqueue job w = handoff job (reserveBacklog w)"

section \<open>Deadlines and expiry\<close>

definition trackDeadline :: "Job \<Rightarrow> qworld \<Rightarrow> qworld" where
  "trackDeadline job w =
     (let d = QueueDeadline job; nd = aq_nextDeadline (qw_q w)
      in if d > 0 \<and> (nd = 0 \<or> d < nd) then on_q (\<lambda>q. q\<lparr>aq_nextDeadline := d\<rparr>) w else w)"

text \<open>A queued job leaves without being sent: counters, bookkeeping and callback.\<close>

definition retire_queued :: "Job \<Rightarrow> effect list \<Rightarrow> qworld \<Rightarrow> qworld" where
  "retire_queued job es w = emit (es @ [JobDone job]) (markServed (drop_job job (releaseBacklog w)))"

fun dropExpired_loop :: "attempt_ctx \<Rightarrow> ms \<Rightarrow> Job list \<Rightarrow> Job list \<Rightarrow> qworld \<Rightarrow> Job list \<times> qworld" where
  "dropExpired_loop ax now [] kept w = (kept, w)"
| "dropExpired_loop ax now (job # jobs) kept w =
     (if \<not> QueueExpired now job then dropExpired_loop ax now jobs (kept @ [job]) (trackDeadline job w)
      else dropExpired_loop ax now jobs kept (retire_queued job (failExpiredJob ax now job '''') w))"

definition dropExpiredJobs :: "attempt_ctx \<Rightarrow> ns \<Rightarrow> qworld \<Rightarrow> qworld" where
  "dropExpiredJobs ax now w =
     (let queue = aq_queue (qw_q w); nd = aq_nextDeadline (qw_q w)
      in if queue = [] then on_q (\<lambda>q. q\<lparr>aq_nextDeadline := 0\<rparr>) w
         else if nd = 0 \<or> unix_ms now < nd then w
         else
           (let (kept, w) = dropExpired_loop ax (unix_ms now) queue [] (on_q (\<lambda>q. q\<lparr>aq_nextDeadline := 0\<rparr>) w);
                w = on_q (\<lambda>q. q\<lparr>aq_queue := kept\<rparr>) w
            in if length kept \<noteq> length queue then reportDepth w else w))"

fun dropWaiting_loop :: "attempt_ctx \<Rightarrow> ms \<Rightarrow> waitingJob list \<Rightarrow> waitingJob list \<Rightarrow> qworld \<Rightarrow> waitingJob list \<times> qworld" where
  "dropWaiting_loop ax now [] kept w = (kept, w)"
| "dropWaiting_loop ax now (x # xs) kept w =
     (if \<not> QueueExpired now (wj_job x) then dropWaiting_loop ax now xs (kept @ [x]) w
      else dropWaiting_loop ax now xs kept (retire_queued (wj_job x) (failExpiredJob ax now (wj_job x) (wj_reason x)) w))"

definition dropExpiredWaiting :: "attempt_ctx \<Rightarrow> ns \<Rightarrow> qworld \<Rightarrow> qworld" where
  "dropExpiredWaiting ax now w =
     (let (kept, w) = dropWaiting_loop ax (unix_ms now) (aq_waiting (qw_q w)) [] w
      in on_q (\<lambda>q. q\<lparr>aq_waiting := kept\<rparr>) w)"

section \<open>Dead targets\<close>

definition waited_out :: "ms \<Rightarrow> Job \<Rightarrow> bool" where
  "waited_out cutoff job \<longleftrightarrow> j_CreatedAt job > 0 \<and> j_CreatedAt job \<le> cutoff"

definition dead_reason :: "ns \<Rightarrow> string" where
  "dead_reason failing = ''target_unavailable: no successful response for '' @ itoa (failing div second) @ ''s''"

definition failDeadTarget :: "attempt_ctx \<Rightarrow> ns \<Rightarrow> qworld \<Rightarrow> qworld" where
  "failDeadTarget ax now w =
     (let q = qw_q w; limit = aq_deadAfter q; failing = failingFor now (tg_health (qw_t w))
      in if limit \<le> 0 \<or> failing < limit
            \<or> (case aq_lastDeadSweep q of None \<Rightarrow> False | Some t \<Rightarrow> now - t < deadTargetSweepEvery)
         then w
         else
           (let cutoff = unix_ms (now - limit);
                fail = (\<lambda>job. retire_queued job (failQueuedJob ax (unix_ms now) job (dead_reason failing)));
                w = on_q (\<lambda>q. q\<lparr>aq_lastDeadSweep := Some now\<rparr>) w;
                w = fold fail (filter (waited_out cutoff) (aq_queue q)) w;
                w = fold fail (filter (waited_out cutoff) (map wj_job (aq_waiting q))) w;
                keptQueue = filter (\<lambda>j. \<not> waited_out cutoff j) (aq_queue q);
                w = on_q (\<lambda>r. r\<lparr>aq_queue := keptQueue,
                               aq_waiting := filter (\<lambda>x. \<not> waited_out cutoff (wj_job x)) (aq_waiting q)\<rparr>) w
            in if length keptQueue \<noteq> length (aq_queue q) then reportDepth w else w))"


section \<open>Jobs on disk\<close>

definition defaultRecoveryPageSize :: int where "defaultRecoveryPageSize = 1000"
definition spillSweepEvery :: ns where "spillSweepEvery = 60 * second"
definition recentPageWindow :: ns where "recentPageWindow = 5 * 60 * second"
definition refillRetryEvery :: ns where "refillRetryEvery = second"

definition RecoveryPageSize :: "environment \<Rightarrow> int" where
  "RecoveryPageSize env =
     (let n = env_Int64 env ''AQUIFER_RECOVERY_PAGE_SIZE'' defaultRecoveryPageSize
      in if n > 0 then n else defaultRecoveryPageSize)"

definition zero_cursor :: PageCursor where
  "zero_cursor = \<lparr> pc_CreatedAt = 0, pc_ID = '''' \<rparr>"

definition counts :: "spillSource \<Rightarrow> Job \<Rightarrow> bool" where
  "counts src job \<longleftrightarrow> j_CreatedAt job < ss_cutoff src \<and> \<not> Covers (ss_consumedThrough src) job
     \<and> ss_consumed src < ss_reserved src"

definition attachSpill :: "string \<Rightarrow> PageCursor \<Rightarrow> nat \<Rightarrow> ms \<Rightarrow> qworld \<Rightarrow> qworld" where
  "attachSpill key after remaining cutoff w =
     on_q (\<lambda>q. q\<lparr>aq_spillPending := aq_spillPending q @
              [\<lparr> ss_key = key, ss_after = after, ss_reserved = int remaining, ss_consumed = 0,
                 ss_cutoff = cutoff, ss_consumedThrough = zero_cursor \<rparr>]\<rparr>)
       ((reserveBacklog ^^ remaining) w)"

definition takeSpills :: "qworld \<Rightarrow> qworld" where
  "takeSpills w = on_q (\<lambda>q. q\<lparr>aq_spills := aq_spills q @ aq_spillPending q, aq_spillPending := []\<rparr>) w"

definition rewind :: "spillSource \<Rightarrow> spillSource" where
  "rewind src =
     (let c = ss_after src
      in src\<lparr>ss_consumedThrough :=
               (if pc_CreatedAt c < pc_CreatedAt (ss_consumedThrough src)
                   \<or> (pc_CreatedAt c = pc_CreatedAt (ss_consumedThrough src) \<and> str_le (pc_ID c) (pc_ID (ss_consumedThrough src)))
                then ss_consumedThrough src else c),
             ss_after := zero_cursor\<rparr>)"

definition reloadAfterPanic :: "ns \<Rightarrow> qworld \<Rightarrow> qworld" where
  "reloadAfterPanic now w =
     (let w = takeSpills w;
          own = storeKey (qw_q w);
          srcs = map rewind (aq_spills (qw_q w));
          srcs = (if list_ex (\<lambda>s. ss_key s = own) srcs then srcs
                  else srcs @ [\<lparr> ss_key = own, ss_after = zero_cursor, ss_reserved = 0, ss_consumed = 0,
                                 ss_cutoff = 0, ss_consumedThrough = zero_cursor \<rparr>])
      in on_q (\<lambda>q. q\<lparr>aq_spills := srcs, aq_present := {}, aq_pagedOwnUntil := Some (now + recentPageWindow)\<rparr>) w)"

definition ownSpill :: "AccountQueue \<Rightarrow> PageCursor option" where
  "ownSpill q = map_option ss_after (find (\<lambda>s. ss_key s = storeKey q) (aq_spills q))"

definition before :: "ns \<Rightarrow> ns option \<Rightarrow> bool" where
  "before now t = (case t of None \<Rightarrow> False | Some u \<Rightarrow> now < u)"

definition acceptHandoff :: "(string \<Rightarrow> Job option) \<Rightarrow> ns \<Rightarrow> Job \<Rightarrow> AccountQueue \<Rightarrow> bool" where
  "acceptHandoff getJob now job q =
     (if j_ID job \<in> aq_present q then False
      else if (case ownSpill q of None \<Rightarrow> False | Some after \<Rightarrow> \<not> Covers after job) then False
      else if before now (aq_pagedOwnUntil q)
              \<and> (case getJob (j_ID job) of None \<Rightarrow> False | Some stored \<Rightarrow> j_Status stored \<noteq> StatusQueued) then False
      else True)"

definition finishSpill :: "nat \<Rightarrow> qworld \<Rightarrow> qworld" where
  "finishSpill i w =
     (let src = aq_spills (qw_q w) ! i
      in on_q (\<lambda>q. q\<lparr>aq_spills := take i (aq_spills q) @ drop (Suc i) (aq_spills q)\<rparr>)
           ((releaseBacklog ^^ nat (ss_reserved src - ss_consumed src)) w))"

fun refill_jobs :: "Job list \<Rightarrow> spillSource \<Rightarrow> int \<Rightarrow> qworld \<Rightarrow> spillSource \<times> int \<times> qworld" where
  "refill_jobs [] src held w = (src, held, w)"
| "refill_jobs (job # page) src held w =
     (let counted = counts src job;
          src = (if counted then src\<lparr>ss_consumed := ss_consumed src + 1\<rparr> else src)
      in if j_ID job \<in> aq_present (qw_q w)
         then refill_jobs page src held (if counted then releaseBacklog w else w)
         else refill_jobs page src (held + 1)
                (trackDeadline job (on_q (\<lambda>q. q\<lparr>aq_queue := aq_queue q @ [job]\<rparr>) (hold job w))))"

text \<open>One page of the first source; the state of the loop is the number of held jobs,
  the world and whether a read failed.\<close>

definition refill_page ::
  "(string \<Rightarrow> PageCursor \<Rightarrow> ms \<Rightarrow> int \<Rightarrow> Job list option) \<Rightarrow> ns \<Rightarrow> int \<Rightarrow> int \<times> qworld \<times> bool \<Rightarrow> int \<times> qworld \<times> bool" where
  "refill_page page now psize st =
     (let (held, w, _) = st; src = hd (aq_spills (qw_q w))
      in case page (ss_key src) (ss_after src) 0 psize of
           None \<Rightarrow> (held, on_q (\<lambda>q. q\<lparr>aq_refillRetryAt := Some (now + refillRetryEvery)\<rparr>) w, True)
         | Some jobs \<Rightarrow>
             (let (src, held, w) = refill_jobs jobs src held w;
                  src = (if jobs \<noteq> [] then src\<lparr>ss_after := CursorAt (last jobs)\<rparr> else src);
                  w = on_q (\<lambda>q. q\<lparr>aq_spills := src # tl (aq_spills q),
                                  aq_pagedOwnUntil := (if ss_key src = storeKey q \<and> jobs \<noteq> []
                                    then Some (now + recentPageWindow) else aq_pagedOwnUntil q)\<rparr>) w;
                  w = (if int (length jobs) < psize then finishSpill 0 w else w)
              in (held, reportDepth w, False)))"

definition refill_more :: "int \<Rightarrow> int \<times> qworld \<times> bool \<Rightarrow> bool" where
  "refill_more low st = (let (held, w, failed) = st in held < low \<and> aq_spills (qw_q w) \<noteq> [] \<and> \<not> failed)"

definition held_count :: "AccountQueue \<Rightarrow> int" where
  "held_count q = int (length (aq_queue q)) + int (length (aq_waiting q)) + aq_inFlight q"

definition refill :: "pass_env \<Rightarrow> qworld \<Rightarrow> qworld option" where
  "refill pe w =
     (if before (pe_now pe) (aq_refillRetryAt (qw_q w)) then Some w
      else
        (let psize = RecoveryPageSize (ax_env (pe_ax pe)); low = max (psize div 4) 1
         in map_option (\<lambda>(held, w, _). w)
              (while_option (refill_more low) (refill_page (pe_page pe) (pe_now pe) psize) (held_count (qw_q w), w, False))))"

fun sweep_jobs :: "attempt_ctx \<Rightarrow> ns \<Rightarrow> Job list \<Rightarrow> spillSource \<Rightarrow> qworld \<Rightarrow> spillSource \<times> qworld" where
  "sweep_jobs ax now [] src w = (src, w)"
| "sweep_jobs ax now (job # page) src w =
     (if j_ID job \<in> aq_present (qw_q w) \<or> \<not> QueueExpired (unix_ms now) job then sweep_jobs ax now page src w
      else sweep_jobs ax now page (if counts src job then src\<lparr>ss_consumed := ss_consumed src + 1\<rparr> else src)
             (emit (failExpiredJob ax (unix_ms now) job '''' @ [JobDone job]) (markServed (releaseBacklog w))))"

text \<open>The sweep of one source: cursor, source, world and whether the source is done.\<close>

definition sweep_source ::
  "pass_env \<Rightarrow> ns \<Rightarrow> ms \<Rightarrow> int \<Rightarrow> PageCursor \<times> spillSource \<times> qworld \<times> bool \<Rightarrow> PageCursor \<times> spillSource \<times> qworld \<times> bool" where
  "sweep_source pe now until psize st =
     (let (cursor, src, w, _) = st
      in case pe_page pe (ss_key src) cursor until psize of
           None \<Rightarrow> (cursor, src, w, True)
         | Some jobs \<Rightarrow>
             (let (src, w) = sweep_jobs (pe_ax pe) now jobs src w
              in if int (length jobs) < psize then (cursor, src, w, True)
                 else (CursorAt (last jobs), src, w, False)))"

fun sweep_sources :: "pass_env \<Rightarrow> ns \<Rightarrow> ms \<Rightarrow> int \<Rightarrow> spillSource list \<Rightarrow> spillSource list \<Rightarrow> qworld \<Rightarrow> (spillSource list \<times> qworld) option" where
  "sweep_sources pe now until psize [] swept w = Some (swept, w)"
| "sweep_sources pe now until psize (src # srcs) swept w =
     (case while_option (\<lambda>(_, _, _, fin). \<not> fin) (sweep_source pe now until psize) (ss_after src, src, w, False) of
        None \<Rightarrow> None
      | Some (_, src, w, _) \<Rightarrow> sweep_sources pe now until psize srcs (swept @ [src]) w)"

definition sweepSpilled :: "pass_env \<Rightarrow> ns \<Rightarrow> qworld \<Rightarrow> qworld option" where
  "sweepSpilled pe now w =
     (if aq_spills (qw_q w) = []
         \<or> (case aq_lastSpillSweep (qw_q w) of None \<Rightarrow> False | Some t \<Rightarrow> now - t < spillSweepEvery)
      then Some w
      else
        (let w = on_q (\<lambda>q. q\<lparr>aq_lastSpillSweep := Some now\<rparr>) w
         in map_option (\<lambda>(srcs, w). on_q (\<lambda>q. q\<lparr>aq_spills := srcs\<rparr>) w)
              (sweep_sources pe now (unix_ms (now - QueuedTTL * millisecond)) (RecoveryPageSize (ax_env (pe_ax pe)))
                 (aq_spills (qw_q w)) [] w)))"


section \<open>Dispatch\<close>

definition budgetCeiling :: "target \<Rightarrow> f64" where
  "budgetCeiling t = (case tg_pool t of Some p \<Rightarrow> TotalCapacity p | None \<Rightarrow> tg_rps t)"

definition resamplePool :: "qworld \<Rightarrow> qworld" where
  "resamplePool w =
     (case tg_pool (qw_t w) of
        None \<Rightarrow> w
      | Some p \<Rightarrow>
          if TotalCapacity p > 0
          then on_q (\<lambda>q. q\<lparr>aq_rps := max (min (TotalCapacity p) (aq_configuredRPS q)) MinRPS\<rparr>) w else w)"

definition too_soon :: "ns \<Rightarrow> AccountQueue \<Rightarrow> bool" where
  "too_soon now q \<longleftrightarrow>
     (case aq_lastRequestAt q of None \<Rightarrow> False | Some t \<Rightarrow> now - t < pace_interval (aq_rps q))"

text \<open>The head of the queue is handed to an attempt.\<close>

definition send_head :: "ns \<Rightarrow> PoolMember option \<Rightarrow> qworld \<Rightarrow> qworld" where
  "send_head now picked w =
     (let job = hd (aq_queue (qw_q w));
          w = reportDepth (on_q (\<lambda>q. q\<lparr>aq_queue := tl (aq_queue q)\<rparr>) w)
      in emit [Dispatched now (j_ID job) (case picked of None \<Rightarrow> j_URL job | Some m \<Rightarrow> m_Address m)]
           (on_q (\<lambda>q. q\<lparr>aq_inFlight := aq_inFlight q + 1, aq_lastRequestAt := Some now,
                        aq_running := aq_running q @ [(job, map_option m_ID picked)]\<rparr>) w))"

text \<open>One iteration of the dispatch loop; \<^const>\<open>False\<close> is its exit.\<close>

definition dispatch_iter :: "attempt_ctx \<Rightarrow> ns \<Rightarrow> qworld \<Rightarrow> bool \<times> qworld" where
  "dispatch_iter ax now w =
     (let q = qw_q w
      in if aq_queue q = [] \<or> \<not> aq_inFlight q < aq_maxConc q then (False, w)
         else if QueueExpired (unix_ms now) (hd (aq_queue q)) then (True, dropExpiredJobs ax now w)
         else if too_soon now q then (False, w)
         else
           (let (wait, shared) = reserve (budgetCeiling (qw_t w)) (aq_key q) now (tg_shared (qw_t w));
                w = on_t (\<lambda>t. t\<lparr>tg_shared := shared\<rparr>) w
            in if wait > 0 then (False, w)
               else (case tg_pool (qw_t w) of
                       None \<Rightarrow> (True, send_head now None w)
                     | Some p \<Rightarrow>
                         (let (member, p) = Pick p;
                              w = on_t (\<lambda>t. t\<lparr>tg_pool := Some p\<rparr>) w
                          in case member of
                               None \<Rightarrow> (False, w)
                             | Some m \<Rightarrow> (True, send_head now (Some m) w)))))"

text \<open>The loop, one clock reading per iteration; \<^const>\<open>None\<close> means that the readings ran out.\<close>

fun dispatch_loop :: "attempt_ctx \<Rightarrow> ns list \<Rightarrow> qworld \<Rightarrow> qworld option" where
  "dispatch_loop ax [] w = None"
| "dispatch_loop ax (now # nows) w =
     (case dispatch_iter ax now w of (again, w') \<Rightarrow> if again then dispatch_loop ax nows w' else Some w')"

definition loop_pass :: "pass_env \<Rightarrow> qworld \<Rightarrow> qworld option" where
  "loop_pass pe w =
     (let ax = pe_ax pe; now = pe_now pe
      in case refill pe (takeSpills (dropExpiredWaiting ax now (dropExpiredJobs ax now w))) of
           None \<Rightarrow> None
         | Some w \<Rightarrow> dispatch_loop ax (pe_clock pe) (resamplePool (failDeadTarget ax now w)))"

section \<open>Completions\<close>

definition ParseAccountQueueValue :: "string \<Rightarrow> bool option" where
  "ParseAccountQueueValue val =
     (let v = to_lower (trim_space val)
      in if v \<in> {''enabled'', ''true'', ''on'', ''yes'', ''1''} then Some True
         else if v \<in> {''disabled'', ''false'', ''off'', ''no'', ''0''} then Some False
         else None)"

definition next_rps :: "f64 \<Rightarrow> f64 \<Rightarrow> jobDoneMsg \<Rightarrow> f64" where
  "next_rps configuredRPS rps msg =
     (if dm_failed msg then
        max (case dm_rps msg of None \<Rightarrow> rps / 2 | Some r \<Rightarrow> min (rps / 2) r) MinRPS
      else (case dm_rps msg of
              Some r \<Rightarrow> max (min r configuredRPS) MinRPS
            | None \<Rightarrow> if rps < configuredRPS then min (rps * (105 / 100)) configuredRPS else rps))"

definition settle_attempt :: "jobDoneMsg \<Rightarrow> qworld \<Rightarrow> qworld" where
  "settle_attempt msg w =
     (let w = on_q (\<lambda>q. q\<lparr>aq_inFlight := aq_inFlight q - 1\<rparr>) w
      in case dm_retry msg of
           Some job \<Rightarrow>
             on_q (\<lambda>q. q\<lparr>aq_waiting := aq_waiting q @
                         [\<lparr> wj_job = job, wj_at = dm_retryAt msg, wj_reason = dm_retryReason msg \<rparr>]\<rparr>) w
         | None \<Rightarrow>
             (case dm_job msg of
                None \<Rightarrow> markServed (releaseBacklog w)
              | Some job \<Rightarrow> emit [JobDone job] (markServed (releaseBacklog (drop_job job w)))))"

definition note_health :: "ms \<Rightarrow> jobDoneMsg \<Rightarrow> qworld \<Rightarrow> qworld" where
  "note_health now msg w =
     on_t (\<lambda>t. t\<lparr>tg_health :=
        (if dm_failed msg \<and> \<not> dm_local msg then failed now (tg_health t)
         else if dm_reached msg then answered (tg_health t) else tg_health t)\<rparr>) w"

definition handle_done :: "ns \<Rightarrow> jobDoneMsg \<Rightarrow> qworld \<Rightarrow> qworld" where
  "handle_done now msg w =
     (let w = (if dm_completed msg then settle_attempt msg w else w);
          w = note_health (unix_ms now) msg w;
          w = on_q (\<lambda>q. q\<lparr>aq_rps := next_rps (aq_configuredRPS q) (aq_rps q) msg,
                aq_maxConc := (case dm_maxConcurrent msg of
                    Some m \<Rightarrow> if m > 0 then min m (aq_configuredMaxConc q) else aq_maxConc q
                  | None \<Rightarrow> aq_maxConc q)\<rparr>) w;
          w = on_q (\<lambda>q. q\<lparr>aq_currentRPS := f64_to_int (aq_rps q * 100)\<rparr>) w
      in emit ((case dm_slowStart msg of None \<Rightarrow> [] | Some b \<Rightarrow> [SignalSlowStart b])
               @ (case dm_maxBacklog msg of None \<Rightarrow> [] | Some n \<Rightarrow> [SignalMaxBacklog n])
               @ (case dm_accountQueue msg of None \<Rightarrow> []
                  | Some v \<Rightarrow> (case ParseAccountQueueValue v of None \<Rightarrow> [] | Some on \<Rightarrow> [SignalAccountQueue on]))) w)"

text \<open>The pool outcomes an attempt recorded.\<close>

definition pool_effect :: "ns \<Rightarrow> effect \<Rightarrow> Pool \<Rightarrow> Pool" where
  "pool_effect now e p =
     (case e of PoolSuccess m \<Rightarrow> RecordSuccess m p | PoolFailure m \<Rightarrow> snd (RecordFailure now m p) | _ \<Rightarrow> p)"

definition finish_attempt :: "attempt_ctx \<Rightarrow> nat \<Rightarrow> attempt_result option \<Rightarrow> qworld \<Rightarrow> qworld" where
  "finish_attempt ax i result w =
     (let (job, member) = aq_running (qw_q w) ! i;
          (es, msg) = run_attempt ax job member result;
          w = on_q (\<lambda>q. q\<lparr>aq_running := take i (aq_running q) @ drop (Suc i) (aq_running q)\<rparr>) w;
          w = emit es (on_t (\<lambda>t. t\<lparr>tg_pool := map_option (fold (pool_effect (ax_now ax)) es) (tg_pool t)\<rparr>) w)
      in handle_done (ax_now ax) msg w)"

definition Throttle_msg :: "f64 \<Rightarrow> jobDoneMsg" where
  "Throttle_msg rps = empty_msg\<lparr>dm_rps := Some rps\<rparr>"

section \<open>The select\<close>

datatype select_event =
    SCmd
  | SDone attempt_ctx nat "attempt_result option"
  | SThrottle f64
  | SDispatchTimer
  | SSpillWake
  | SPosition "string \<Rightarrow> bool"
  | SRetryTimer
  | SIdle
  | SStop

definition take_cmd :: "(string \<Rightarrow> Job option) \<Rightarrow> ns \<Rightarrow> qworld \<Rightarrow> qworld" where
  "take_cmd getJob now w =
     (case aq_cmds (qw_q w) of
        [] \<Rightarrow> w
      | job # rest \<Rightarrow>
          (let accepted = acceptHandoff getJob now job (qw_q w);
               w = on_q (\<lambda>q. q\<lparr>aq_cmds := rest\<rparr>) w
           in if \<not> accepted then w
              else reportDepth (trackDeadline job (on_q (\<lambda>q. q\<lparr>aq_queue := aq_queue q @ [job]\<rparr>) (hold job w)))))"

definition position_events :: "(string \<Rightarrow> bool) \<Rightarrow> Job list \<Rightarrow> effect list" where
  "position_events hasSubscribers queue =
     List.map_filter (\<lambda>(i, j). if hasSubscribers (j_ID j)
        then Some (Publish (j_ID j) ''position'' [(''job_id'', JStr (j_ID j)), (''position'', JInt (int i + 1))]) else None)
       (enumerate 0 queue)"

definition wake_retries :: "ns \<Rightarrow> qworld \<Rightarrow> qworld" where
  "wake_retries now w =
     (let due = map wj_job (filter (\<lambda>x. \<not> wj_at x > now) (aq_waiting (qw_q w)));
          w = on_q (\<lambda>q. q\<lparr>aq_queue := aq_queue q @ due, aq_waiting := filter (\<lambda>x. wj_at x > now) (aq_waiting q)\<rparr>) w
      in reportDepth (fold trackDeadline due w))"

definition select_step :: "pass_env \<Rightarrow> select_event \<Rightarrow> qworld \<Rightarrow> qworld option" where
  "select_step pe ev w =
     (let now = pe_after pe
      in case ev of
           SCmd \<Rightarrow> Some (take_cmd (pe_getJob pe) now w)
         | SDone ax i result \<Rightarrow> Some (if i < length (aq_running (qw_q w)) then finish_attempt ax i result w else w)
         | SThrottle rps \<Rightarrow> Some (handle_done now (Throttle_msg rps) w)
         | SDispatchTimer \<Rightarrow> Some w
         | SSpillWake \<Rightarrow> Some w
         | SPosition subs \<Rightarrow>
             map_option (\<lambda>w. let w = dropExpiredJobs (pe_ax pe) now w in emit (position_events subs (aq_queue (qw_q w))) w)
               (sweepSpilled pe now w)
         | SRetryTimer \<Rightarrow> Some (wake_retries now w)
         | SIdle \<Rightarrow>
             (let q = qw_q w
              in Some (if aq_queue q = [] \<and> aq_inFlight q = 0 \<and> aq_waiting q = [] \<and> aq_spills q = []
                       then on_q (\<lambda>q. q\<lparr>aq_exited := True\<rparr>) w else w))
         | SStop \<Rightarrow> Some (on_q (\<lambda>q. q\<lparr>aq_exited := True\<rparr>) (clearBacklog w)))"

definition start_loop :: "bool \<Rightarrow> qworld \<Rightarrow> qworld" where
  "start_loop slowStart w =
     on_q (\<lambda>q. let rps = (if slowStart then MinRPS else aq_configuredRPS q)
               in q\<lparr>aq_rps := rps, aq_maxConc := aq_configuredMaxConc q, aq_lastRequestAt := None, aq_inFlight := 0,
                    aq_queue := [], aq_waiting := [], aq_currentRPS := f64_to_int (rps * 100), aq_exited := False\<rparr>) w"

definition newAccountQueue :: "environment \<Rightarrow> string \<Rightarrow> string \<Rightarrow> f64 \<Rightarrow> int \<Rightarrow> AccountQueue" where
  "newAccountQueue env key upstream rps maxConc =
     \<lparr> aq_key = key, aq_upstream = upstream, aq_deadAfter = deadTargetFailAfter env,
       aq_configuredRPS = rps, aq_configuredMaxConc = maxConc, aq_rps = rps, aq_maxConc = maxConc,
       aq_lastRequestAt = None, aq_inFlight = 0, aq_queue = [], aq_waiting = [], aq_running = [], aq_cmds = [],
       aq_currentRPS = f64_to_int (rps * 100), aq_served = 0, aq_backlog = 0, aq_nextDeadline = 0, aq_inMemory = 0,
       aq_spillPending = [], aq_spills = [], aq_present = {}, aq_pagedOwnUntil = None, aq_refillRetryAt = None,
       aq_lastSpillSweep = None, aq_lastDeadSweep = None, aq_exited = False \<rparr>"


text \<open>What \<^verbatim>\<open>supervise\<close> does once the loop has returned or panicked: \<^const>\<open>None\<close> ends the
  goroutine, otherwise the loop starts again.\<close>

definition supervise :: "ns \<Rightarrow> bool \<Rightarrow> bool \<Rightarrow> bool \<Rightarrow> qworld \<Rightarrow> qworld option" where
  "supervise now stopped panicked slowStart w =
     (if stopped then None
      else if panicked then Some (start_loop slowStart (reloadAfterPanic now w))
      else if aq_cmds (qw_q w) = [] \<and> \<not> aq_backlog (qw_q w) > 0 then None
      else Some (start_loop slowStart w))"

section \<open>Runs\<close>

text \<open>What happens to a queue: a hand-off of a reserved job, or a pass of the loop and the
  case of its \<^verbatim>\<open>select\<close>.  A pass that does not return leaves the world as it is; the
  lemmas below show that every pass returns.\<close>

datatype queue_event = EEnqueue Job | EPass pass_env select_event

definition pass_result :: "pass_env \<Rightarrow> select_event \<Rightarrow> qworld \<Rightarrow> qworld option" where
  "pass_result pe ev w = (case loop_pass pe w of None \<Rightarrow> None | Some w' \<Rightarrow> select_step pe ev w')"

fun queue_step :: "queue_event \<Rightarrow> qworld \<Rightarrow> qworld" where
  "queue_step (EEnqueue job) w = aq_Enqueue job w"
| "queue_step (EPass pe ev) w = (case pass_result pe ev w of None \<Rightarrow> w | Some w' \<Rightarrow> w')"

definition held :: "AccountQueue \<Rightarrow> Job list" where
  "held q = aq_queue q @ map wj_job (aq_waiting q) @ map fst (aq_running q)"

definition held_ids :: "AccountQueue \<Rightarrow> string list" where
  "held_ids q = map j_ID (held q)"

definition handed_over :: "effect list \<Rightarrow> string list" where
  "handed_over es = List.map_filter (\<lambda>e. case e of SetQueueKey i k \<Rightarrow> Some i | _ \<Rightarrow> None) es"

definition done_ids :: "effect list \<Rightarrow> string list" where
  "done_ids es = List.map_filter (\<lambda>e. case e of JobDone j \<Rightarrow> Some (j_ID j) | _ \<Rightarrow> None) es"

definition dispatch_times :: "effect list \<Rightarrow> ns list" where
  "dispatch_times es = List.map_filter (\<lambda>e. case e of Dispatched t i u \<Rightarrow> Some t | _ \<Rightarrow> None) es"

text \<open>A job is handed over at most once, passes have a clock reading for every iteration
  they may need, and the loop is not stopped or retired.\<close>

definition stops :: "select_event \<Rightarrow> bool" where
  "stops ev = (case ev of SStop \<Rightarrow> True | _ \<Rightarrow> False)"

fun queue_ok :: "queue_event \<Rightarrow> qworld \<Rightarrow> bool" where
  "queue_ok (EEnqueue job) w = (j_ID job \<notin> set (handed_over (qw_log w)))"
| "queue_ok (EPass pe ev) w = (length (pe_clock pe) > length (aq_queue (qw_q w)) \<and> \<not> stops ev)"


section \<open>Invariant\<close>

text \<open>\<open>core hs qs w\<close>: the counters and the log of \<open>w\<close> account for the held jobs \<open>hs\<close>, and
  the tracked deadline covers the queued jobs \<open>qs\<close>.\<close>

definition rps_ok :: "AccountQueue \<Rightarrow> bool" where
  "rps_ok q \<longleftrightarrow> min MinRPS (aq_configuredRPS q) \<le> aq_rps q \<and> aq_rps q \<le> max MinRPS (aq_configuredRPS q)"

definition covered :: "ms \<Rightarrow> Job list \<Rightarrow> bool" where
  "covered nd qs \<longleftrightarrow> (\<forall>j \<in> set qs. QueueDeadline j > 0 \<longrightarrow> nd \<noteq> 0 \<and> nd \<le> QueueDeadline j)"

definition accounts :: "Job list \<Rightarrow> qworld \<Rightarrow> bool" where
  "accounts hs w \<longleftrightarrow>
     (let q = qw_q w
      in mset (handed_over (qw_log w)) = mset (map j_ID hs) + mset (map j_ID (aq_cmds q)) + mset (done_ids (qw_log w))
         \<and> distinct (handed_over (qw_log w))
         \<and> aq_present q = set (map j_ID hs)
         \<and> aq_backlog q = int (length hs + length (aq_cmds q)))"

definition no_disk :: "AccountQueue \<Rightarrow> bool" where
  "no_disk q \<longleftrightarrow> aq_spills q = [] \<and> aq_spillPending q = [] \<and> aq_pagedOwnUntil q = None \<and> aq_refillRetryAt q = None"

definition slots_ok :: "AccountQueue \<Rightarrow> bool" where
  "slots_ok q \<longleftrightarrow> aq_inFlight q = int (length (aq_running q)) \<and> aq_inFlight q \<le> max 0 (aq_configuredMaxConc q)
     \<and> aq_maxConc q \<le> aq_configuredMaxConc q"

definition paced_ok :: "qworld \<Rightarrow> bool" where
  "paced_ok w \<longleftrightarrow>
     (let q = qw_q w
      in spaced (pace_interval (max MinRPS (aq_configuredRPS q))) (dispatch_times (qw_log w))
         \<and> aq_lastRequestAt q = (if dispatch_times (qw_log w) = [] then None else Some (last (dispatch_times (qw_log w)))))"

definition core :: "Job list \<Rightarrow> Job list \<Rightarrow> qworld \<Rightarrow> bool" where
  "core hs qs w \<longleftrightarrow> accounts hs w \<and> covered (aq_nextDeadline (qw_q w)) qs \<and> slots_ok (qw_q w) \<and> rps_ok (qw_q w)
     \<and> no_disk (qw_q w) \<and> paced_ok w \<and> 0 < aq_configuredRPS (qw_q w)"

definition queue_inv :: "qworld \<Rightarrow> bool" where
  "queue_inv w \<longleftrightarrow> core (held (qw_q w)) (aq_queue (qw_q w)) w"

lemmas core_defs = core_def accounts_def slots_ok_def rps_ok_def no_disk_def paced_ok_def Let_def

lemmas world_defs [op_defs] = on_q_def on_t_def emit_def

section \<open>Lemmas on the log\<close>

lemma log_observers [simp]:
  "handed_over [] = []" "done_ids [] = []" "dispatch_times [] = []"
  "handed_over (e # es) = (case e of SetQueueKey i k \<Rightarrow> [i] | _ \<Rightarrow> []) @ handed_over es"
  "done_ids (e # es) = (case e of JobDone j \<Rightarrow> [j_ID j] | _ \<Rightarrow> []) @ done_ids es"
  "dispatch_times (e # es) = (case e of Dispatched t i u \<Rightarrow> [t] | _ \<Rightarrow> []) @ dispatch_times es"
  by (simp_all add: handed_over_def done_ids_def dispatch_times_def List.map_filter_simps split: effect.splits)

lemma log_observers_append [simp]:
  "handed_over (es @ fs) = handed_over es @ handed_over fs"
  "done_ids (es @ fs) = done_ids es @ done_ids fs"
  "dispatch_times (es @ fs) = dispatch_times es @ dispatch_times fs"
  by (simp_all add: handed_over_def done_ids_def dispatch_times_def List.map_filter_def)

definition quiet :: "effect list \<Rightarrow> bool" where
  "quiet es \<longleftrightarrow> handed_over es = [] \<and> done_ids es = [] \<and> dispatch_times es = []"

lemma quiet_simps [simp]: "quiet []" "quiet (es @ fs) \<longleftrightarrow> quiet es \<and> quiet fs"
  by (auto simp: quiet_def)

lemma quiet_Cons [simp]:
  "quiet (UpdateStatus i s # es) = quiet es" "quiet (PutResult i r # es) = quiet es"
  "quiet (RecordResult i r # es) = quiet es" "quiet (RecordRetry i n # es) = quiet es"
  "quiet (Publish i e p # es) = quiet es" "quiet (PublishTerminal i e p # es) = quiet es"
  "quiet (EnqueueWebhook i u w n p # es) = quiet es" "quiet (PoolSuccess m # es) = quiet es"
  "quiet (PoolFailure m # es) = quiet es" "quiet (SignalSlowStart b # es) = quiet es"
  "quiet (SignalMaxBacklog k # es) = quiet es" "quiet (SignalAccountQueue b # es) = quiet es"
  "quiet (webhook_effect job p # es) = quiet es"
  by (simp_all add: quiet_def webhook_effect_def)

lemma quiet_bookkeeping [simp]:
  "quiet (SaveLocalResult ax now job st code ct body)"
  "quiet (snd (recordJobResult ax now job st code ct body))"
  by (simp_all add: SaveLocalResult_def recordJobResult_def split_beta Let_def split: option.splits)

lemma quiet_terminal [simp]:
  "quiet (failJob ax now job reason code body)" "quiet (completeJob ax now job resp)"
  "quiet (failQueuedJob ax now job reason)" "quiet (failExpiredJob ax now job reason)"
  unfolding failJob_def completeJob_def failQueuedJob_def failExpiredJob_def Let_def split_beta by simp_all

lemma quiet_attempt [simp]: "quiet (fst (run_attempt ax job mem result))"
proof -
  have failed: "quiet (fst (attempt_failed ax job mem reason code body local h msg))" for reason code body local h msg
    by (simp add: attempt_failed_def Let_def split: option.splits)
  have "quiet (fst (execute ax job mem r))" for r
    by (cases r) (simp_all add: execute_def Let_def split_beta failed split: option.splits)
  then show ?thesis
    by (cases result) (simp_all add: run_attempt_def panicked_attempt_def split_beta Let_def)
qed


section \<open>Preservation by the building blocks\<close>

lemma accounts_distinct:
  assumes "accounts hs w"
  shows "distinct (map j_ID hs @ map j_ID (aq_cmds (qw_q w)) @ done_ids (qw_log w))"
proof -
  have "mset (map j_ID hs @ map j_ID (aq_cmds (qw_q w)) @ done_ids (qw_log w)) = mset (handed_over (qw_log w))"
    using assms by (simp add: accounts_def Let_def)
  with assms show ?thesis by (metis accounts_def mset_eq_imp_distinct_iff)
qed

lemma core_ids:
  assumes ids: "mset (map j_ID hs) = mset (map j_ID hs')"
  shows "core hs qs w \<longleftrightarrow> core hs' qs w"
proof -
  have ids': "set (map j_ID hs) = set (map j_ID hs')" using mset_eq_setD [OF ids] .
  have len: "length hs = length hs'" using mset_eq_length [OF ids] by simp
  show ?thesis unfolding core_def accounts_def Let_def ids ids' len ..
qed

lemma core_mset: "mset hs = mset hs' \<Longrightarrow> core hs qs w \<longleftrightarrow> core hs' qs w"
  by (rule core_ids) simp

lemma core_covered: "core hs qs w \<Longrightarrow> set qs' \<subseteq> set qs \<Longrightarrow> core hs qs' w"
  by (auto simp: core_def covered_def)

lemma core_retire:
  assumes "core (job # hs) qs w" and "quiet es"
  shows "core hs qs (retire_queued job es w)"
proof -
  have "distinct (map j_ID (job # hs))"
    using accounts_distinct [of "job # hs" w] assms(1) unfolding core_def distinct_append by blast
  with assms show ?thesis
    by (auto simp: core_defs retire_queued_def op_defs markServed_def drop_job_def releaseBacklog_def quiet_def)
qed

lemma retire_fields [simp]:
  "aq_queue (qw_q (retire_queued job es w)) = aq_queue (qw_q w)"
  "aq_waiting (qw_q (retire_queued job es w)) = aq_waiting (qw_q w)"
  "aq_running (qw_q (retire_queued job es w)) = aq_running (qw_q w)"
  "aq_maxConc (qw_q (retire_queued job es w)) = aq_maxConc (qw_q w)"
  by (simp_all add: retire_queued_def op_defs markServed_def drop_job_def releaseBacklog_def Let_def)

lemma core_track: "core hs qs w \<Longrightarrow> core hs (job # qs) (trackDeadline job w)"
  by (auto simp: core_defs covered_def trackDeadline_def op_defs)

lemma track_fields [simp]:
  "aq_queue (qw_q (trackDeadline job w)) = aq_queue (qw_q w)"
  "aq_waiting (qw_q (trackDeadline job w)) = aq_waiting (qw_q w)"
  "aq_running (qw_q (trackDeadline job w)) = aq_running (qw_q w)"
  "aq_maxConc (qw_q (trackDeadline job w)) = aq_maxConc (qw_q w)"
  by (simp_all add: trackDeadline_def op_defs Let_def)

lemma core_lists [simp]:
  "core hs qs (on_q (\<lambda>q. q\<lparr>aq_queue := f q\<rparr>) w) = core hs qs w"
  "core hs qs (on_q (\<lambda>q. q\<lparr>aq_waiting := g q\<rparr>) w) = core hs qs w"
  "core hs qs (on_q (\<lambda>q. q\<lparr>aq_queue := f q, aq_waiting := g q\<rparr>) w) = core hs qs w"
  "core hs qs (on_q (\<lambda>q. q\<lparr>aq_lastDeadSweep := d\<rparr>) w) = core hs qs w"
  "core hs qs (reportDepth w) = core hs qs w"
  by (simp_all add: core_defs op_defs reportDepth_def)

lemma reportDepth_fields [simp]:
  "aq_queue (qw_q (reportDepth w)) = aq_queue (qw_q w)"
  "aq_waiting (qw_q (reportDepth w)) = aq_waiting (qw_q w)"
  "aq_running (qw_q (reportDepth w)) = aq_running (qw_q w)"
  "aq_maxConc (qw_q (reportDepth w)) = aq_maxConc (qw_q w)"
  by (simp_all add: reportDepth_def op_defs)

abbreviation unexpired :: "ms \<Rightarrow> Job list \<Rightarrow> Job list" where
  "unexpired now \<equiv> filter (\<lambda>j. \<not> QueueExpired now j)"

lemma dropExpired_loop_frame [simp]:
  "fst (dropExpired_loop ax now jobs kept w) = kept @ unexpired now jobs"
  "aq_waiting (qw_q (snd (dropExpired_loop ax now jobs kept w))) = aq_waiting (qw_q w)"
  "aq_running (qw_q (snd (dropExpired_loop ax now jobs kept w))) = aq_running (qw_q w)"
  "aq_maxConc (qw_q (snd (dropExpired_loop ax now jobs kept w))) = aq_maxConc (qw_q w)"
  by (induction ax now jobs kept w rule: dropExpired_loop.induct) auto

lemma dropExpired_loop_core:
  "core (jobs @ hs) kept w \<Longrightarrow>
   core (unexpired now jobs @ hs) (kept @ unexpired now jobs) (snd (dropExpired_loop ax now jobs kept w))"
proof (induction ax now jobs kept w arbitrary: hs rule: dropExpired_loop.induct)
  case (2 ax now job jobs kept w)
  show ?case
  proof (cases "QueueExpired now job")
    case True
    with "2.prems" have "core (jobs @ hs) kept (retire_queued job (failExpiredJob ax now job '''') w)"
      by (intro core_retire) simp_all
    with "2.IH"(2) True show ?thesis by simp
  next
    case False
    from "2.prems" have "core (job # jobs @ hs) (job # kept) (trackDeadline job w)" by (simp add: core_track)
    then have "core (jobs @ job # hs) (job # kept) (trackDeadline job w)" by (subst core_mset) simp_all
    then have "core (jobs @ job # hs) (kept @ [job]) (trackDeadline job w)" by (rule core_covered) auto
    from "2.IH"(1) [OF _ this] False
    have "core (unexpired now jobs @ job # hs) (kept @ unexpired now (job # jobs)) (snd (dropExpired_loop ax now (job # jobs) kept w))"
      by simp
    then show ?thesis by (rule core_mset [THEN iffD1, rotated]) (use False in simp)
  qed
qed simp

lemma core_reset: "core hs qs w \<Longrightarrow> core hs [] (on_q (\<lambda>q. q\<lparr>aq_nextDeadline := 0\<rparr>) w)"
  by (auto simp: core_defs op_defs covered_def)

lemma on_q_queue [simp]:
  "aq_queue (qw_q (on_q (\<lambda>q. q\<lparr>aq_queue := f q\<rparr>) w)) = f (qw_q w)"
  "aq_waiting (qw_q (on_q (\<lambda>q. q\<lparr>aq_queue := f q\<rparr>) w)) = aq_waiting (qw_q w)"
  "aq_running (qw_q (on_q (\<lambda>q. q\<lparr>aq_queue := f q\<rparr>) w)) = aq_running (qw_q w)"
  by (simp_all add: on_q_def)

lemma queue_inv_reportDepth [simp]: "queue_inv (reportDepth w) = queue_inv w"
  by (simp add: queue_inv_def held_def)

lemma dropExpiredJobs_queue:
  assumes "covered (aq_nextDeadline (qw_q w)) (aq_queue (qw_q w))"
  shows "aq_queue (qw_q (dropExpiredJobs ax now w)) = unexpired (unix_ms now) (aq_queue (qw_q w))"
proof -
  have "unexpired (unix_ms now) (aq_queue (qw_q w)) = aq_queue (qw_q w)"
    if "aq_nextDeadline (qw_q w) = 0 \<or> unix_ms now < aq_nextDeadline (qw_q w)"
    using assms that by (intro filter_True) (auto simp: covered_def QueueExpired_def)
  then show ?thesis
    by (auto simp: dropExpiredJobs_def Let_def split_beta) (simp_all add: op_defs)
qed

lemma dropExpiredJobs_frame [simp]:
  "aq_waiting (qw_q (dropExpiredJobs ax now w)) = aq_waiting (qw_q w)"
  "aq_running (qw_q (dropExpiredJobs ax now w)) = aq_running (qw_q w)"
  "aq_maxConc (qw_q (dropExpiredJobs ax now w)) = aq_maxConc (qw_q w)"
  by (simp_all add: dropExpiredJobs_def Let_def split_beta) (simp_all add: op_defs)

lemma dropExpiredJobs_inv:
  assumes "queue_inv w" shows "queue_inv (dropExpiredJobs ax now w)"
proof -
  let ?q = "qw_q w" and ?w0 = "on_q (\<lambda>q. q\<lparr>aq_nextDeadline := 0\<rparr>) w"
  have c: "core (aq_queue ?q @ map wj_job (aq_waiting ?q) @ map fst (aq_running ?q)) (aq_queue ?q) w"
    using assms by (simp add: queue_inv_def held_def)
  note c0 = core_reset [OF c]
  show ?thesis
  proof (cases "aq_queue ?q = [] \<or> aq_nextDeadline ?q = 0 \<or> unix_ms now < aq_nextDeadline ?q")
    case True
    have "held (qw_q ?w0) = held ?q" "aq_queue (qw_q ?w0) = aq_queue ?q" by (simp_all add: held_def on_q_def)
    with True c0 assms show ?thesis
      by (auto simp: dropExpiredJobs_def Let_def queue_inv_def held_def)
  next
    case False
    let ?l = "snd (dropExpired_loop ax (unix_ms now) (aq_queue ?q) [] ?w0)"
    let ?k = "unexpired (unix_ms now) (aq_queue ?q)"
    have "core (?k @ map wj_job (aq_waiting ?q) @ map fst (aq_running ?q)) ?k ?l"
      using dropExpired_loop_core [OF c0] by simp
    then have "queue_inv (on_q (\<lambda>q. q\<lparr>aq_queue := ?k\<rparr>) ?l)"
      by (simp add: queue_inv_def held_def) (simp add: on_q_def)
    moreover have "dropExpiredJobs ax now w =
        (if length ?k \<noteq> length (aq_queue ?q) then reportDepth (on_q (\<lambda>q. q\<lparr>aq_queue := ?k\<rparr>) ?l) else on_q (\<lambda>q. q\<lparr>aq_queue := ?k\<rparr>) ?l)"
      using False by (simp add: dropExpiredJobs_def Let_def split_beta)
    ultimately show ?thesis by (metis queue_inv_reportDepth)
  qed
qed


lemma dropWaiting_loop_frame [simp]:
  "fst (dropWaiting_loop ax now xs kept w) = kept @ filter (\<lambda>x. \<not> QueueExpired now (wj_job x)) xs"
  "aq_queue (qw_q (snd (dropWaiting_loop ax now xs kept w))) = aq_queue (qw_q w)"
  "aq_running (qw_q (snd (dropWaiting_loop ax now xs kept w))) = aq_running (qw_q w)"
  by (induction ax now xs kept w rule: dropWaiting_loop.induct) auto

lemma dropWaiting_loop_core:
  "core (map wj_job xs @ hs) qs w \<Longrightarrow>
   core (map wj_job (filter (\<lambda>x. \<not> QueueExpired now (wj_job x)) xs) @ hs) qs (snd (dropWaiting_loop ax now xs kept w))"
proof (induction ax now xs kept w arbitrary: hs rule: dropWaiting_loop.induct)
  case (2 ax now x xs kept w)
  show ?case
  proof (cases "QueueExpired now (wj_job x)")
    case True
    with "2.prems" have "core (map wj_job xs @ hs) qs (retire_queued (wj_job x) (failExpiredJob ax now (wj_job x) (wj_reason x)) w)"
      by (intro core_retire) simp_all
    with "2.IH"(2) True show ?thesis by simp
  next
    case False
    from "2.prems" have "core (map wj_job xs @ wj_job x # hs) qs w" by (rule core_mset [THEN iffD1, rotated]) simp
    from "2.IH"(1) [OF _ this] False
    have "core (map wj_job (filter (\<lambda>x. \<not> QueueExpired now (wj_job x)) xs) @ wj_job x # hs) qs (snd (dropWaiting_loop ax now (x # xs) kept w))"
      by simp
    then show ?thesis by (rule core_mset [THEN iffD1, rotated]) (use False in simp)
  qed
qed simp

lemma queue_invD:
  "queue_inv w \<Longrightarrow> core (aq_queue (qw_q w) @ map wj_job (aq_waiting (qw_q w)) @ map fst (aq_running (qw_q w))) (aq_queue (qw_q w)) w"
  by (simp add: queue_inv_def held_def)

lemma queue_invI:
  "core hs (aq_queue (qw_q w)) w \<Longrightarrow>
   mset hs = mset (aq_queue (qw_q w) @ map wj_job (aq_waiting (qw_q w)) @ map fst (aq_running (qw_q w))) \<Longrightarrow> queue_inv w"
  unfolding queue_inv_def held_def by (rule core_mset [THEN iffD1])

lemma on_q_waiting [simp]:
  "aq_queue (qw_q (on_q (\<lambda>q. q\<lparr>aq_waiting := f q\<rparr>) w)) = aq_queue (qw_q w)"
  "aq_waiting (qw_q (on_q (\<lambda>q. q\<lparr>aq_waiting := f q\<rparr>) w)) = f (qw_q w)"
  "aq_running (qw_q (on_q (\<lambda>q. q\<lparr>aq_waiting := f q\<rparr>) w)) = aq_running (qw_q w)"
  by (simp_all add: on_q_def)

lemma dropExpiredWaiting_inv:
  assumes "queue_inv w" shows "queue_inv (dropExpiredWaiting ax now w)"
proof -
  let ?q = "qw_q w"
  have "core (map wj_job (aq_waiting ?q) @ aq_queue ?q @ map fst (aq_running ?q)) (aq_queue ?q) w"
    using queue_invD [OF assms] by (rule core_mset [THEN iffD1, rotated]) simp
  note c = dropWaiting_loop_core [OF this, of "unix_ms now" ax "[]"]
  show ?thesis
    by (rule queue_invI [of "map wj_job (filter (\<lambda>x. \<not> QueueExpired (unix_ms now) (wj_job x)) (aq_waiting ?q))
          @ aq_queue ?q @ map fst (aq_running ?q)"])
      (use c in \<open>simp_all add: dropExpiredWaiting_def split_beta\<close>)
qed

lemma dropExpiredWaiting_queue [simp]:
  "aq_queue (qw_q (dropExpiredWaiting ax now w)) = aq_queue (qw_q w)"
  by (simp add: dropExpiredWaiting_def split_beta)

lemma takeSpills_id: "queue_inv w \<Longrightarrow> takeSpills w = w"
  by (simp add: takeSpills_def queue_inv_def core_def no_disk_def on_q_def)

lemma refill_id: "queue_inv w \<Longrightarrow> refill pe w = Some w"
  by (simp add: refill_def queue_inv_def core_def no_disk_def before_def refill_more_def while_option_unfold Let_def)

lemma fold_retire_fields [simp]:
  "aq_queue (qw_q (fold (\<lambda>job. retire_queued job (f job)) js w)) = aq_queue (qw_q w)"
  "aq_waiting (qw_q (fold (\<lambda>job. retire_queued job (f job)) js w)) = aq_waiting (qw_q w)"
  "aq_running (qw_q (fold (\<lambda>job. retire_queued job (f job)) js w)) = aq_running (qw_q w)"
  by (induction js arbitrary: w) simp_all

lemma core_retire_all:
  "core (js @ hs) qs w \<Longrightarrow> (\<And>j. quiet (f j)) \<Longrightarrow> core hs qs (fold (\<lambda>job. retire_queued job (f job)) js w)"
  by (induction js arbitrary: w) (auto intro: core_retire)

lemma mset_partition2:
  "mset (filter P xs @ filter P ys @ filter (\<lambda>x. \<not> P x) xs @ filter (\<lambda>x. \<not> P x) ys @ zs) = mset (xs @ ys @ zs)"
proof -
  have part: "mset (filter P xs) + mset (filter (\<lambda>x. \<not> P x) xs) = mset xs" for xs by simp
  have "mset (filter P xs @ filter P ys @ filter (\<lambda>x. \<not> P x) xs @ filter (\<lambda>x. \<not> P x) ys @ zs)
      = (mset (filter P xs) + mset (filter (\<lambda>x. \<not> P x) xs)) + (mset (filter P ys) + mset (filter (\<lambda>x. \<not> P x) ys)) + mset zs"
    by (simp only: mset_append ac_simps)
  also have "\<dots> = mset (xs @ ys @ zs)" by (simp only: part mset_append ac_simps)
  finally show ?thesis .
qed

lemma failDeadTarget_inv:
  assumes "queue_inv w" shows "queue_inv (failDeadTarget ax now w)"
proof -
  let ?q = "qw_q w"
  define P where "P = waited_out (unix_ms (now - aq_deadAfter ?q))"
  let ?f = "\<lambda>job. failQueuedJob ax (unix_ms now) job (dead_reason (failingFor now (tg_health (qw_t w))))"
  let ?R = "\<lambda>js. fold (\<lambda>job. retire_queued job (?f job)) js"
  let ?w0 = "on_q (\<lambda>q. q\<lparr>aq_lastDeadSweep := Some now\<rparr>) w"
  let ?hs = "filter (\<lambda>j. \<not> P j) (aq_queue ?q) @ filter (\<lambda>j. \<not> P j) (map wj_job (aq_waiting ?q)) @ map fst (aq_running ?q)"
  let ?w1 = "?R (filter P (map wj_job (aq_waiting ?q))) (?R (filter P (aq_queue ?q)) ?w0)"
  have "core (filter P (aq_queue ?q) @ filter P (map wj_job (aq_waiting ?q)) @ ?hs) (aq_queue ?q) ?w0"
    unfolding core_lists core_mset [OF mset_partition2] by (rule queue_invD [OF assms])
  then have "core ?hs (aq_queue ?q) ?w1" by (intro core_retire_all) simp_all
  then have c: "core ?hs (filter (\<lambda>j. \<not> P j) (aq_queue ?q)) ?w1" by (rule core_covered) auto
  let ?w2 = "on_q (\<lambda>r. r\<lparr>aq_queue := filter (\<lambda>j. \<not> P j) (aq_queue ?q), aq_waiting := filter (\<lambda>x. \<not> P (wj_job x)) (aq_waiting ?q)\<rparr>) ?w1"
  have run: "aq_running (qw_q ?w2) = aq_running ?q"
    and "aq_queue (qw_q ?w2) = filter (\<lambda>j. \<not> P j) (aq_queue ?q)"
    and "aq_waiting (qw_q ?w2) = filter (\<lambda>x. \<not> P (wj_job x)) (aq_waiting ?q)"
    by (simp_all add: on_q_def [of "\<lambda>r. r\<lparr>aq_queue := _, aq_waiting := _\<rparr>"]) (simp add: on_q_def)
  with c have "queue_inv ?w2" by (intro queue_invI [of ?hs]) (simp_all add: filter_map comp_def)
  then show ?thesis
    using assms by (auto simp: failDeadTarget_def Let_def P_def [symmetric])
qed


section \<open>Preservation by dispatch and completions\<close>

lemma on_t_q [simp]: "qw_q (on_t f w) = qw_q w" "qw_log (on_t f w) = qw_log w"
  by (simp_all add: on_t_def)

lemma core_on_t [simp]: "core hs qs (on_t f w) = core hs qs w"
  by (simp add: core_defs)

lemma queue_inv_on_t [simp]: "queue_inv (on_t f w) = queue_inv w"
  by (simp add: queue_inv_def)

lemma MinRPS_pos: "0 < MinRPS"
  by (simp add: MinRPS_def)

lemma core_rps:
  assumes "core hs qs w" and "min MinRPS (aq_configuredRPS (qw_q w)) \<le> r" and "r \<le> max MinRPS (aq_configuredRPS (qw_q w))"
  shows "core hs qs (on_q (\<lambda>q. q\<lparr>aq_rps := r\<rparr>) w)"
  using assms by (simp add: core_defs op_defs)

lemma resamplePool_inv: "queue_inv w \<Longrightarrow> queue_inv (resamplePool w)"
proof (cases "tg_pool (qw_t w)")
  case (Some p)
  assume inv: "queue_inv w"
  let ?r = "max (min (TotalCapacity p) (aq_configuredRPS (qw_q w))) MinRPS"
  have "core (held (qw_q w)) (aq_queue (qw_q w)) (on_q (\<lambda>q. q\<lparr>aq_rps := ?r\<rparr>) w)"
    by (rule core_rps) (use inv in \<open>auto simp: queue_inv_def\<close>)
  with inv Some show ?thesis
    by (auto simp: resamplePool_def queue_inv_def held_def on_q_def)
qed (simp add: resamplePool_def)

lemma resamplePool_queue [simp]: "aq_queue (qw_q (resamplePool w)) = aq_queue (qw_q w)"
  by (simp add: resamplePool_def on_q_def split: option.splits)

lemma spaced_snoc:
  assumes "spaced d xs" and "0 \<le> d" and "xs \<noteq> [] \<Longrightarrow> last xs + d \<le> t"
  shows "spaced d (xs @ [t])"
proof -
  have "x + d \<le> t" if "x \<in> set xs" for x
  proof -
    have "xs \<noteq> []" using that by auto
    then have l: "last xs + d \<le> t" by (rule assms(3))
    from that obtain i where i: "i < length xs" "x = xs ! i" by (auto simp: in_set_conv_nth)
    show ?thesis
    proof (cases "i = length xs - 1")
      case True
      with i l \<open>xs \<noteq> []\<close> show ?thesis by (simp add: last_conv_nth)
    next
      case False
      with i have "i < length xs - 1" by simp
      with i assms(1) \<open>xs \<noteq> []\<close> have "x + d \<le> last xs"
        by (simp add: spaced_def sorted_wrt_iff_nth_less last_conv_nth)
      with l assms(2) show ?thesis by linarith
    qed
  qed
  with assms(1) show ?thesis by (simp add: spaced_def sorted_wrt_append)
qed

lemma pace_interval_nonneg: "0 < r \<Longrightarrow> 0 \<le> pace_interval r"
  by (simp add: pace_interval_def f64_to_int_nonneg)

lemma rps_pos: "core hs qs w \<Longrightarrow> 0 < aq_rps (qw_q w)"
  using MinRPS_pos by (auto simp: core_def rps_ok_def min_def split: if_splits)

lemma send_head_inv:
  assumes "queue_inv w" and "aq_queue (qw_q w) \<noteq> []" and "aq_inFlight (qw_q w) < aq_maxConc (qw_q w)"
    and "\<not> too_soon now (qw_q w)"
  shows "queue_inv (send_head now picked w)"
proof -
  let ?q = "qw_q w" and ?w' = "send_head now picked w"
  obtain job rest where q: "aq_queue ?q = job # rest" using assms(2) by (cases "aq_queue ?q") auto
  have c: "core (held ?q) (aq_queue ?q) w" using assms(1) by (simp add: queue_inv_def)
  let ?d = "pace_interval (max MinRPS (aq_configuredRPS ?q))"
  let ?ts = "dispatch_times (qw_log w)"
  have pos: "0 < aq_rps ?q" "0 < max MinRPS (aq_configuredRPS ?q)" using rps_pos [OF c] MinRPS_pos by auto
  have "?d \<le> pace_interval (aq_rps ?q)"
    using pos c by (intro pace_interval_antimono) (auto simp: core_def rps_ok_def)
  then have "spaced ?d (?ts @ [now])"
    using assms(4) c by (intro spaced_snoc) (auto simp: core_def paced_ok_def Let_def too_soon_def pos pace_interval_nonneg split: if_splits)
  moreover have "core (held ?q) rest w" by (rule core_covered [OF c]) (simp add: q subset_insertI)
  moreover have "aq_inFlight ?q + 1 \<le> max 0 (aq_configuredMaxConc ?q)"
    using c assms(3) by (auto simp: core_def slots_ok_def)
  ultimately have "core (held ?q) rest ?w'"
    by (simp add: core_defs send_head_def reportDepth_def op_defs)
  moreover have "aq_queue (qw_q ?w') = rest" "aq_waiting (qw_q ?w') = aq_waiting ?q"
    "aq_running (qw_q ?w') = aq_running ?q @ [(job, map_option m_ID picked)]"
    using q by (simp_all add: send_head_def reportDepth_def op_defs Let_def)
  ultimately show ?thesis using q by (intro queue_invI [of "held ?q"]) (simp_all add: held_def)
qed

lemma send_head_queue [simp]: "aq_queue (qw_q (send_head now picked w)) = tl (aq_queue (qw_q w))"
  by (simp add: send_head_def reportDepth_def op_defs Let_def)

lemma queue_inv_covered: "queue_inv w \<Longrightarrow> covered (aq_nextDeadline (qw_q w)) (aq_queue (qw_q w))"
  by (simp add: queue_inv_def core_def)

lemma dispatch_iter_inv:
  assumes "queue_inv w" and "dispatch_iter ax now w = (again, w')"
  shows "queue_inv w' \<and> (again \<longrightarrow> length (aq_queue (qw_q w')) < length (aq_queue (qw_q w)))"
proof (cases "aq_queue (qw_q w) = [] \<or> \<not> aq_inFlight (qw_q w) < aq_maxConc (qw_q w)")
  case True
  with assms show ?thesis by (auto simp: dispatch_iter_def)
next
  case False
  then obtain job rest where q: "aq_queue (qw_q w) = job # rest" by (cases "aq_queue (qw_q w)") auto
  show ?thesis
  proof (cases "QueueExpired (unix_ms now) (hd (aq_queue (qw_q w)))")
    case True
    with False assms(2) have w': "again" "w' = dropExpiredJobs ax now w" by (auto simp: dispatch_iter_def)
    have "length (unexpired (unix_ms now) (aq_queue (qw_q w))) < length (aq_queue (qw_q w))"
      using True q length_filter_le [of _ rest] by (simp add: le_imp_less_Suc)
    with w' dropExpiredJobs_inv [OF assms(1)] dropExpiredJobs_queue [OF queue_inv_covered [OF assms(1)]] show ?thesis by simp
  next
    case live: False
    have send: "queue_inv (send_head now p (on_t f w))" if "\<not> too_soon now (qw_q w)" for f p
      using assms(1) False that by (intro send_head_inv) simp_all
    have send2: "queue_inv (send_head now p (on_t f (on_t g w)))" if "\<not> too_soon now (qw_q w)" for f g p
      using assms(1) False that by (intro send_head_inv) simp_all
    show ?thesis
      using assms(2) False live assms(1) send send2 q
      by (auto simp: dispatch_iter_def Let_def split_beta split: if_splits option.splits)
  qed
qed

lemma dispatch_loop_returns:
  assumes "queue_inv w" and "length (aq_queue (qw_q w)) < length nows"
  shows "\<exists>w'. dispatch_loop ax nows w = Some w' \<and> queue_inv w' \<and> length (aq_queue (qw_q w')) \<le> length (aq_queue (qw_q w))"
  using assms
proof (induction nows arbitrary: w)
  case (Cons now nows)
  obtain again w1 where it: "dispatch_iter ax now w = (again, w1)" by fastforce
  note step = dispatch_iter_inv [OF Cons.prems(1) it]
  show ?case
  proof (cases again)
    case True
    with step Cons.prems Cons.IH [of w1] it show ?thesis by fastforce
  next
    case False
    have "length (aq_queue (qw_q w1)) \<le> length (aq_queue (qw_q w))"
      using it False by (auto simp: dispatch_iter_def Let_def split_beta split: if_splits option.splits)
    with False step it show ?thesis by simp
  qed
qed simp


lemma next_rps_bounds:
  assumes "0 < c" and "min MinRPS c \<le> r" and "r \<le> max MinRPS c"
  shows "min MinRPS c \<le> next_rps c r msg \<and> next_rps c r msg \<le> max MinRPS c"
proof -
  have r: "0 < r" using assms MinRPS_pos by (auto simp: min_def split: if_splits)
  then have "r / 2 \<le> max MinRPS c" "r * (105 / 100) > r" using assms(3) by linarith+
  then show ?thesis
    using assms r by (auto simp: next_rps_def min_le_iff_disj le_max_iff_disj split: option.splits)
qed

lemma core_emit: "core hs qs w \<Longrightarrow> quiet es \<Longrightarrow> core hs qs (emit es w)"
  by (simp add: core_defs quiet_def emit_def)

lemma core_pace:
  assumes "core hs qs w"
  shows "core hs qs (on_q (\<lambda>q. q\<lparr>aq_rps := next_rps (aq_configuredRPS q) (aq_rps q) msg,
           aq_maxConc := (case dm_maxConcurrent msg of
               Some m \<Rightarrow> if m > 0 then min m (aq_configuredMaxConc q) else aq_maxConc q
             | None \<Rightarrow> aq_maxConc q)\<rparr>) w)"
proof -
  let ?q = "qw_q w"
  have "min MinRPS (aq_configuredRPS ?q) \<le> next_rps (aq_configuredRPS ?q) (aq_rps ?q) msg
      \<and> next_rps (aq_configuredRPS ?q) (aq_rps ?q) msg \<le> max MinRPS (aq_configuredRPS ?q)"
    using assms by (intro next_rps_bounds) (simp_all add: core_def rps_ok_def)
  with assms show ?thesis
    by (simp add: core_defs op_defs split: option.splits)
qed

lemma core_currentRPS: "core hs qs (on_q (\<lambda>q. q\<lparr>aq_currentRPS := f q\<rparr>) w) = core hs qs w"
  by (simp add: core_defs op_defs)

text \<open>After a message's bookkeeping, the pace updates and signals touch none of the jobs.\<close>

lemma handle_done_core:
  assumes "core hs qs (if dm_completed msg then settle_attempt msg w else w)"
  shows "core hs qs (handle_done now msg w)"
proof -
  have "quiet ((case dm_slowStart msg of None \<Rightarrow> [] | Some b \<Rightarrow> [SignalSlowStart b])
               @ (case dm_maxBacklog msg of None \<Rightarrow> [] | Some n \<Rightarrow> [SignalMaxBacklog n])
               @ (case dm_accountQueue msg of None \<Rightarrow> []
                  | Some v \<Rightarrow> (case ParseAccountQueueValue v of None \<Rightarrow> [] | Some on \<Rightarrow> [SignalAccountQueue on])))"
    by (simp split: option.splits)
  moreover have "core hs qs (note_health (unix_ms now) msg (if dm_completed msg then settle_attempt msg w else w))"
    using assms by (simp add: note_health_def)
  ultimately show ?thesis
    unfolding handle_done_def Let_def by (intro core_emit) (simp_all add: core_currentRPS core_pace)
qed

lemma handle_done_lists [simp]:
  "aq_queue (qw_q (handle_done now msg w)) = aq_queue (qw_q (if dm_completed msg then settle_attempt msg w else w))"
  "aq_waiting (qw_q (handle_done now msg w)) = aq_waiting (qw_q (if dm_completed msg then settle_attempt msg w else w))"
  "aq_running (qw_q (handle_done now msg w)) = aq_running (qw_q (if dm_completed msg then settle_attempt msg w else w))"
  by (simp_all add: handle_done_def note_health_def op_defs Let_def)

lemma throttle_inv: "queue_inv w \<Longrightarrow> queue_inv (handle_done now (Throttle_msg r) w)"
  by (rule queue_invI [of "held (qw_q w)", OF handle_done_core])
    (simp_all add: Throttle_msg_def empty_msg_def queue_inv_def held_def)

lemma run_attempt_msg:
  assumes "run_attempt ax job mem result = (es, msg)"
  shows "dm_job msg = Some job \<and> dm_completed msg \<and> quiet es
       \<and> (\<forall>job'. dm_retry msg = Some job' \<longrightarrow> j_ID job' = j_ID job \<and> QueueDeadline job' = QueueDeadline job)"
proof -
  have q: "quiet es" using quiet_attempt [of ax job mem result] assms by simp
  have failed: "j_ID job' = j_ID job \<and> QueueDeadline job' = QueueDeadline job"
    if "dm_retry (snd (attempt_failed ax job mem reason code body local h m)) = Some job'" "dm_retry m = None"
    for reason code body local h m job'
    using that by (auto simp: attempt_failed_def Let_def QueueDeadline_def split: if_splits)
  have ex: "\<forall>job'. dm_retry (snd (execute ax job mem r)) = Some job' \<longrightarrow> j_ID job' = j_ID job \<and> QueueDeadline job' = QueueDeadline job" for r
    by (cases r) (auto simp: execute_def Let_def split_beta dest!: failed split: if_splits)
  have msg: "msg = (snd (case result of None \<Rightarrow> panicked_attempt job | Some r \<Rightarrow> execute ax job mem r))\<lparr>dm_job := Some job, dm_completed := True\<rparr>"
    using assms by (auto simp: run_attempt_def split_beta Let_def)
  show ?thesis
    using q ex by (cases result) (simp_all add: msg panicked_attempt_def)
qed

definition end_attempt :: "nat \<Rightarrow> AccountQueue \<Rightarrow> AccountQueue" where
  "end_attempt i q = q\<lparr>aq_running := take i (aq_running q) @ drop (Suc i) (aq_running q), aq_inFlight := aq_inFlight q - 1\<rparr>"

lemma core_end_attempt:
  assumes "core hs qs w" and "i < length (aq_running (qw_q w))" and "quiet es"
  shows "core hs qs (on_q (end_attempt i) (emit es (on_t f w)))"
proof -
  have "int (length (take i (aq_running (qw_q w)) @ drop (Suc i) (aq_running (qw_q w)))) = int (length (aq_running (qw_q w))) - 1"
    using assms(2) by (simp add: min_def)
  with assms(1,3) show ?thesis
    by (simp add: core_defs op_defs end_attempt_def quiet_def)
qed

lemma settle_attempt_unfold:
  "settle_attempt msg (emit es (on_t f (on_q (\<lambda>q. q\<lparr>aq_running := take i (aq_running q) @ drop (Suc i) (aq_running q)\<rparr>) w)))
   = (let w = on_q (end_attempt i) (emit es (on_t f w))
      in case dm_retry msg of
           Some job \<Rightarrow> on_q (\<lambda>q. q\<lparr>aq_waiting := aq_waiting q @
                         [\<lparr> wj_job = job, wj_at = dm_retryAt msg, wj_reason = dm_retryReason msg \<rparr>]\<rparr>) w
         | None \<Rightarrow> (case dm_job msg of None \<Rightarrow> markServed (releaseBacklog w) | Some job \<Rightarrow> retire_queued job [] w))"
  by (simp add: settle_attempt_def op_defs end_attempt_def retire_queued_def markServed_def releaseBacklog_def drop_job_def
      Let_def split: option.splits)


lemma mset_remove_nth:
  assumes "i < length xs"
  shows "mset xs = add_mset (xs ! i) (mset (take i xs @ drop (Suc i) xs))"
  by (subst id_take_nth_drop [OF assms]) simp

lemma end_attempt_lists [simp]:
  "aq_queue (qw_q (on_q (end_attempt i) w)) = aq_queue (qw_q w)"
  "aq_waiting (qw_q (on_q (end_attempt i) w)) = aq_waiting (qw_q w)"
  "aq_running (qw_q (on_q (end_attempt i) w)) = take i (aq_running (qw_q w)) @ drop (Suc i) (aq_running (qw_q w))"
  by (simp_all add: on_q_def end_attempt_def)

lemma emit_q [simp]: "qw_q (emit es w) = qw_q w" "qw_t (emit es w) = qw_t w"
  by (simp_all add: emit_def)

lemma finish_attempt_inv:
  assumes "queue_inv w" and "i < length (aq_running (qw_q w))"
  shows "queue_inv (finish_attempt ax i result w)"
proof -
  let ?q = "qw_q w"
  obtain job mem where run: "aq_running ?q ! i = (job, mem)" by fastforce
  obtain es msg where a: "run_attempt ax job mem result = (es, msg)" by fastforce
  note m = run_attempt_msg [OF a]
  define f :: "target \<Rightarrow> target" where "f = (\<lambda>t. t\<lparr>tg_pool := map_option (fold (pool_effect (ax_now ax)) es) (tg_pool t)\<rparr>)"
  let ?w0 = "on_q (end_attempt i) (emit es (on_t f w))"
  let ?rest = "aq_queue ?q @ map wj_job (aq_waiting ?q) @ map fst (take i (aq_running ?q) @ drop (Suc i) (aq_running ?q))"
  have perm: "mset (held ?q) = mset (job # ?rest)"
    using arg_cong [OF mset_remove_nth [OF assms(2)], of "image_mset fst"] run by (simp add: held_def)
  have c: "core (job # ?rest) (aq_queue ?q) ?w0"
    using assms m unfolding core_mset [OF perm [symmetric]] by (intro core_end_attempt) (simp_all add: queue_inv_def)
  let ?S = "settle_attempt msg (emit es (on_t f (on_q (\<lambda>q. q\<lparr>aq_running := take i (aq_running q) @ drop (Suc i) (aq_running q)\<rparr>) w)))"
  have S: "finish_attempt ax i result w = handle_done (ax_now ax) msg
      (emit es (on_t f (on_q (\<lambda>q. q\<lparr>aq_running := take i (aq_running q) @ drop (Suc i) (aq_running q)\<rparr>) w)))"
    by (simp add: finish_attempt_def run a f_def Let_def)
  show ?thesis
  proof (cases "dm_retry msg")
    case None
    then have s: "?S = retire_queued job [] ?w0" using m by (simp add: settle_attempt_unfold Let_def)
    have "core ?rest (aq_queue ?q) ?S" unfolding s by (rule core_retire [OF c]) simp
    then show ?thesis
      unfolding S by (intro queue_invI [of ?rest, OF handle_done_core]) (use m in \<open>simp_all add: s\<close>)
  next
    case (Some job')
    then have s: "?S = on_q (\<lambda>q. q\<lparr>aq_waiting := aq_waiting q @
        [\<lparr> wj_job = job', wj_at = dm_retryAt msg, wj_reason = dm_retryReason msg \<rparr>]\<rparr>) ?w0"
      by (simp add: settle_attempt_unfold Let_def)
    have "core (job' # ?rest) (aq_queue ?q) ?w0"
      using c m Some by (subst core_ids [of _ "job # ?rest"]) simp_all
    then show ?thesis
      unfolding S by (intro queue_invI [of "job' # ?rest", OF handle_done_core]) (use m in \<open>simp_all add: s\<close>)
  qed
qed

lemma core_hold:
  assumes "core hs qs w" and "aq_cmds (qw_q w) = job # rest"
  shows "core (hs @ [job]) qs (hold job (on_q (\<lambda>q. q\<lparr>aq_cmds := rest\<rparr>) w))"
  using assms by (simp add: core_defs op_defs hold_def)

lemma take_cmd_inv:
  assumes "queue_inv w" shows "queue_inv (take_cmd getJob now w)"
proof (cases "aq_cmds (qw_q w)")
  case (Cons job rest)
  let ?q = "qw_q w"
  have c: "core (held ?q) (aq_queue ?q) w" using assms by (simp add: queue_inv_def)
  have "j_ID job \<notin> aq_present ?q"
    using accounts_distinct [of "held ?q" w] c Cons by (auto simp: core_def accounts_def Let_def)
  then have accept: "acceptHandoff getJob now job ?q"
    using c by (simp add: acceptHandoff_def core_def no_disk_def ownSpill_def before_def)
  let ?w1 = "hold job (on_q (\<lambda>q. q\<lparr>aq_cmds := rest\<rparr>) w)"
  have "core (held ?q @ [job]) (job # aq_queue ?q) (trackDeadline job (on_q (\<lambda>q. q\<lparr>aq_queue := aq_queue q @ [job]\<rparr>) ?w1))"
    using core_hold [OF c Cons] by (intro core_track) simp
  then have "core (held ?q @ [job]) (aq_queue ?q @ [job]) (trackDeadline job (on_q (\<lambda>q. q\<lparr>aq_queue := aq_queue q @ [job]\<rparr>) ?w1))"
    by (rule core_covered) auto
  moreover have "aq_queue (qw_q ?w1) = aq_queue ?q" "aq_waiting (qw_q ?w1) = aq_waiting ?q" "aq_running (qw_q ?w1) = aq_running ?q"
    by (simp_all add: hold_def on_q_def)
  ultimately show ?thesis
    using accept Cons by (intro queue_invI [of "held ?q @ [job]"]) (simp_all add: take_cmd_def held_def Let_def)
qed (simp add: take_cmd_def assms)

lemma track_all:
  "core hs qs w \<Longrightarrow> core hs (qs @ js) (fold trackDeadline js w)
   \<and> aq_queue (qw_q (fold trackDeadline js w)) = aq_queue (qw_q w)
   \<and> aq_waiting (qw_q (fold trackDeadline js w)) = aq_waiting (qw_q w)
   \<and> aq_running (qw_q (fold trackDeadline js w)) = aq_running (qw_q w)"
proof (induction js arbitrary: qs w)
  case (Cons j js)
  from Cons.prems have "core hs (qs @ [j]) (trackDeadline j w)" by (intro core_covered [OF core_track]) auto
  from Cons.IH [OF this] show ?case by simp
qed simp

lemma wake_retries_inv:
  assumes "queue_inv w" shows "queue_inv (wake_retries now w)"
proof -
  let ?q = "qw_q w"
  let ?due = "map wj_job (filter (\<lambda>x. \<not> wj_at x > now) (aq_waiting ?q))"
  let ?w1 = "on_q (\<lambda>q. q\<lparr>aq_queue := aq_queue q @ ?due, aq_waiting := filter (\<lambda>x. wj_at x > now) (aq_waiting q)\<rparr>) w"
  have "core (held ?q) (aq_queue ?q) ?w1" using assms by (simp add: queue_inv_def)
  note t = track_all [OF this, of ?due]
  have "aq_queue (qw_q ?w1) = aq_queue ?q @ ?due" "aq_waiting (qw_q ?w1) = filter (\<lambda>x. wj_at x > now) (aq_waiting ?q)"
    "aq_running (qw_q ?w1) = aq_running ?q" by (simp_all add: on_q_def)
  moreover have "mset (map wj_job (aq_waiting ?q)) = mset ?due + mset (map wj_job (filter (\<lambda>x. wj_at x > now) (aq_waiting ?q)))"
  proof -
    note p = multiset_partition [of "mset (aq_waiting ?q)" "\<lambda>x. \<not> wj_at x > now", unfolded not_not]
    from arg_cong [OF p, of "image_mset wj_job"] show ?thesis unfolding image_mset_union mset_map mset_filter .
  qed
  ultimately show ?thesis
    using t by (intro queue_invI [of "held ?q"]) (simp_all add: wake_retries_def held_def Let_def)
qed


section \<open>Every pass returns\<close>

lemma failDeadTarget_queue:
  "length (aq_queue (qw_q (failDeadTarget ax now w))) \<le> length (aq_queue (qw_q w))"
  by (simp add: failDeadTarget_def Let_def) (simp add: on_q_def [of "\<lambda>r. r\<lparr>aq_queue := _, aq_waiting := _\<rparr>"])

lemma loop_pass_returns:
  assumes "queue_inv w" and "length (aq_queue (qw_q w)) < length (pe_clock pe)"
  shows "\<exists>w'. loop_pass pe w = Some w' \<and> queue_inv w'"
proof -
  let ?ax = "pe_ax pe" and ?now = "pe_now pe"
  let ?w1 = "dropExpiredWaiting ?ax ?now (dropExpiredJobs ?ax ?now w)"
  let ?w2 = "resamplePool (failDeadTarget ?ax ?now ?w1)"
  have i1: "queue_inv ?w1" by (intro dropExpiredWaiting_inv dropExpiredJobs_inv assms(1))
  have l1: "length (aq_queue (qw_q ?w1)) \<le> length (aq_queue (qw_q w))"
    using dropExpiredJobs_queue [OF queue_inv_covered [OF assms(1)]] by simp
  have i2: "queue_inv ?w2" by (intro resamplePool_inv failDeadTarget_inv i1)
  have "length (aq_queue (qw_q ?w2)) < length (pe_clock pe)"
    using failDeadTarget_queue [of ?ax ?now ?w1] l1 assms(2) by (simp only: resamplePool_queue)
  from dispatch_loop_returns [OF i2 this] obtain w' where "dispatch_loop ?ax (pe_clock pe) ?w2 = Some w'" "queue_inv w'"
    by blast
  then show ?thesis
    by (simp add: loop_pass_def Let_def takeSpills_id [OF i1] refill_id [OF i1])
qed

lemma queue_inv_emit: "queue_inv w \<Longrightarrow> quiet es \<Longrightarrow> queue_inv (emit es w)"
  by (simp add: queue_inv_def core_emit)

lemma queue_inv_exited: "queue_inv (on_q (\<lambda>q. q\<lparr>aq_exited := b\<rparr>) w) = queue_inv w"
  by (simp add: queue_inv_def held_def core_defs on_q_def)

lemma quiet_position: "quiet (position_events subs queue)"
proof -
  have "quiet (List.map_filter (\<lambda>(i, j). if P j then Some (Publish (f i j) ''position'' (g i j)) else None) xs)"
    for P f g and xs :: "(nat \<times> Job) list"
    by (induction xs) (auto simp: List.map_filter_simps)
  then show ?thesis unfolding position_events_def .
qed

lemma select_step_returns:
  assumes "queue_inv w" and "\<not> stops ev"
  shows "\<exists>w'. select_step pe ev w = Some w' \<and> queue_inv w'"
proof -
  have sweep: "sweepSpilled pe now w = Some w" for now
    using assms(1) by (simp add: sweepSpilled_def queue_inv_def core_def no_disk_def)
  show ?thesis
    using assms
    by (cases ev)
      (auto simp: select_step_def Let_def sweep queue_inv_exited stops_def
        intro!: take_cmd_inv finish_attempt_inv throttle_inv wake_retries_inv queue_inv_emit dropExpiredJobs_inv quiet_position)
qed

lemma pass_result_returns:
  assumes "queue_inv w" and "queue_ok (EPass pe ev) w"
  shows "\<exists>w'. pass_result pe ev w = Some w' \<and> queue_inv w'"
proof -
  from loop_pass_returns [OF assms(1)] assms(2) obtain w1 where "loop_pass pe w = Some w1" "queue_inv w1" by auto
  with select_step_returns [of w1 ev pe] assms(2) show ?thesis by (simp add: pass_result_def)
qed

lemma Enqueue_inv:
  assumes "queue_inv w" and "j_ID job \<notin> set (handed_over (qw_log w))"
  shows "queue_inv (aq_Enqueue job w)"
proof -
  let ?w = "aq_Enqueue job w"
  have lists: "aq_queue (qw_q ?w) = aq_queue (qw_q w)" "held (qw_q ?w) = held (qw_q w)"
    by (simp_all add: aq_Enqueue_def handoff_def reserveBacklog_def op_defs Let_def held_def)
  have "core (held (qw_q w)) (aq_queue (qw_q w)) ?w"
    using assms by (simp add: queue_inv_def core_defs aq_Enqueue_def handoff_def reserveBacklog_def op_defs)
  with lists show ?thesis by (simp add: queue_inv_def)
qed

interpretation account_queue: state_machine queue_step queue_ok queue_inv
proof unfold_locales
  fix w e assume "queue_inv w" and "queue_ok e w"
  then show "queue_inv (queue_step e w)"
    using pass_result_returns [of w] by (cases e) (fastforce simp: Enqueue_inv)+
qed

definition new_world :: "environment \<Rightarrow> string \<Rightarrow> string \<Rightarrow> f64 \<Rightarrow> int \<Rightarrow> target \<Rightarrow> qworld" where
  "new_world env key upstream rps maxConc t =
     \<lparr> qw_q = newAccountQueue env key upstream rps maxConc, qw_t = t, qw_log = [] \<rparr>"

lemma new_world_inv: "0 < rps \<Longrightarrow> queue_inv (new_world env key upstream rps maxConc t)"
  by (simp add: new_world_def newAccountQueue_def queue_inv_def core_defs held_def covered_def spaced_def)

lemma queue_run_inv:
  "0 < rps \<Longrightarrow> ok_run queue_step queue_ok es (new_world env key upstream rps maxConc t) \<Longrightarrow>
   queue_inv (fold queue_step es (new_world env key upstream rps maxConc t))"
  by (rule account_queue.run_inv) (simp_all add: new_world_inv)


section \<open>The configured limits never change\<close>

definition config :: "qworld \<Rightarrow> f64 \<times> int" where
  "config w = (aq_configuredRPS (qw_q w), aq_configuredMaxConc (qw_q w))"

lemma config_blocks [simp]:
  "config (retire_queued job es w) = config w" "config (trackDeadline job w) = config w"
  "config (reportDepth w) = config w" "config (emit es w) = config w" "config (on_t f w) = config w"
  "config (markServed w) = config w" "config (drop_job job w) = config w" "config (releaseBacklog w) = config w"
  "config (hold job w) = config w" "config (resamplePool w) = config w" "config (takeSpills w) = config w"
  "config (send_head now p w) = config w" "config (aq_Enqueue job w) = config w"
  by (simp_all add: config_def retire_queued_def trackDeadline_def reportDepth_def markServed_def drop_job_def releaseBacklog_def
      hold_def resamplePool_def takeSpills_def send_head_def aq_Enqueue_def handoff_def reserveBacklog_def op_defs Let_def
      split: option.splits)

lemma config_loops [simp]:
  "config (snd (dropExpired_loop ax n jobs kept w)) = config w"
  "config (snd (dropWaiting_loop ax n xs wkept w)) = config w"
  "config (fold (\<lambda>job. retire_queued job (f job)) js w) = config w"
  "config (fold trackDeadline js w) = config w"
proof -
  show "config (snd (dropExpired_loop ax n jobs kept w)) = config w"
    by (induction ax n jobs kept w rule: dropExpired_loop.induct) auto
  show "config (snd (dropWaiting_loop ax n xs wkept w)) = config w"
    by (induction ax n xs wkept w rule: dropWaiting_loop.induct) auto
  show "config (fold (\<lambda>job. retire_queued job (f job)) js w) = config w" by (induction js arbitrary: w) auto
  show "config (fold trackDeadline js w) = config w" by (induction js arbitrary: w) auto
qed

lemma config_on_q:
  "(\<And>q. aq_configuredRPS (f q) = aq_configuredRPS q \<and> aq_configuredMaxConc (f q) = aq_configuredMaxConc q) \<Longrightarrow> config (on_q f w) = config w"
  by (simp add: config_def on_q_def)

lemma config_expiry [simp]:
  "config (dropExpiredJobs ax now w) = config w" "config (dropExpiredWaiting ax now w) = config w"
  "config (failDeadTarget ax now w) = config w"
  by (simp_all add: dropExpiredJobs_def dropExpiredWaiting_def failDeadTarget_def Let_def split_beta config_on_q)

lemma config_done [simp]: "config (handle_done now msg w) = config w"
  by (simp add: handle_done_def settle_attempt_def note_health_def Let_def config_on_q split: option.splits)

lemma config_select:
  "select_step pe ev w = Some w' \<Longrightarrow> sweepSpilled pe (pe_after pe) w = Some w \<Longrightarrow> config w' = config w"
  by (cases ev) (auto simp: select_step_def take_cmd_def finish_attempt_def wake_retries_def clearBacklog_def Let_def config_on_q split_beta
      split: list.splits if_splits)

lemma config_dispatch: "dispatch_loop ax nows w = Some w' \<Longrightarrow> config w' = config w"
proof (induction nows arbitrary: w)
  case (Cons now nows)
  have "config (snd (dispatch_iter ax now w)) = config w"
    by (simp add: dispatch_iter_def Let_def split_beta split: option.splits)
  with Cons show ?case by (auto simp: split_beta split: if_splits)
qed simp

lemma config_step:
  assumes "queue_inv w" and "queue_ok e w"
  shows "config (queue_step e w) = config w"
proof (cases e)
  case (EPass pe ev)
  let ?w1 = "dropExpiredWaiting (pe_ax pe) (pe_now pe) (dropExpiredJobs (pe_ax pe) (pe_now pe) w)"
  have i1: "queue_inv ?w1" by (intro dropExpiredWaiting_inv dropExpiredJobs_inv assms(1))
  from loop_pass_returns [OF assms(1)] assms(2) EPass obtain w1 where w1: "loop_pass pe w = Some w1" "queue_inv w1" by auto
  then have c: "config w1 = config w"
    by (auto simp: loop_pass_def Let_def takeSpills_id [OF i1] refill_id [OF i1] dest: config_dispatch)
  from select_step_returns [OF w1(2)] assms(2) EPass obtain w2 where w2: "select_step pe ev w1 = Some w2" by fastforce
  have "sweepSpilled pe (pe_after pe) w1 = Some w1"
    using w1(2) by (simp add: sweepSpilled_def queue_inv_def core_def no_disk_def)
  with config_select [OF w2] c w1 w2 EPass show ?thesis by (simp add: pass_result_def)
qed simp

interpretation account_queue_config: state_machine queue_step queue_ok "\<lambda>w. queue_inv w \<and> config w = c" for c
  by unfold_locales (simp add: account_queue.step_inv config_step)

lemma queue_run_config:
  assumes "0 < rps" and "ok_run queue_step queue_ok es (new_world env key upstream rps maxConc t)"
  shows "queue_inv (fold queue_step es (new_world env key upstream rps maxConc t))
       \<and> config (fold queue_step es (new_world env key upstream rps maxConc t)) = (rps, maxConc)"
  by (rule account_queue_config.run_inv [OF _ assms(2)])
    (use new_world_inv [OF assms(1)] in \<open>simp add: config_def new_world_def newAccountQueue_def\<close>)


section \<open>Properties\<close>




lemma dispatch_iter_waiting:
  "aq_waiting (qw_q (snd (dispatch_iter ax now w))) = aq_waiting (qw_q w)"
  by (simp add: dispatch_iter_def Let_def split_beta split: option.splits)
    (simp_all add: send_head_def reportDepth_def op_defs Let_def)

lemma dispatch_iter_subset:
  assumes "queue_inv w" and "dispatch_iter ax now w = (again, w')"
  shows "set (aq_queue (qw_q w')) \<subseteq> set (aq_queue (qw_q w))"
  using assms dropExpiredJobs_queue [OF queue_inv_covered [OF assms(1)], of ax now] list.set_sel(2) [of "aq_queue (qw_q w)"]
  by (auto simp: dispatch_iter_def Let_def split_beta split: if_splits option.splits)

lemma dispatch_loop_subset:
  "queue_inv w \<Longrightarrow> dispatch_loop ax nows w = Some w' \<Longrightarrow>
   set (aq_queue (qw_q w')) \<subseteq> set (aq_queue (qw_q w)) \<and> aq_waiting (qw_q w') = aq_waiting (qw_q w)"
proof (induction nows arbitrary: w)
  case (Cons now nows)
  obtain again w1 where it: "dispatch_iter ax now w = (again, w1)" by fastforce
  have "aq_waiting (qw_q w1) = aq_waiting (qw_q w)" using dispatch_iter_waiting [of ax now w] it by simp
  moreover note dispatch_iter_subset [OF Cons.prems(1) it] dispatch_iter_inv [OF Cons.prems(1) it]
  ultimately show ?case using Cons.IH [of w1] Cons.prems(2) it by (auto split: if_splits)
qed simp

lemma failDeadTarget_lists:
  "set (aq_queue (qw_q (failDeadTarget ax now w))) \<subseteq> set (aq_queue (qw_q w))"
  "set (aq_waiting (qw_q (failDeadTarget ax now w))) \<subseteq> set (aq_waiting (qw_q w))"
  by (auto simp: failDeadTarget_def Let_def) (auto simp: on_q_def [of "\<lambda>r. r\<lparr>aq_queue := _, aq_waiting := _\<rparr>"])

text \<open>An expired job does not linger: in a queue that has no jobs on disk, after a pass
  no queued and no retry-waiting job is past its queue deadline at the pass's time.\<close>

theorem pass_drops_expired:
  assumes "queue_inv w" and "loop_pass pe w = Some w'"
    and "job \<in> set (aq_queue (qw_q w')) \<union> set (map wj_job (aq_waiting (qw_q w')))"
  shows "\<not> QueueExpired (unix_ms (pe_now pe)) job"
proof -
  let ?ax = "pe_ax pe" and ?now = "pe_now pe"
  let ?w0 = "dropExpiredJobs ?ax ?now w"
  let ?w1 = "dropExpiredWaiting ?ax ?now ?w0"
  let ?w2 = "failDeadTarget ?ax ?now ?w1"
  have i1: "queue_inv ?w1" by (intro dropExpiredWaiting_inv dropExpiredJobs_inv assms(1))
  have i2: "queue_inv (resamplePool ?w2)" by (intro resamplePool_inv failDeadTarget_inv i1)
  have "dispatch_loop ?ax (pe_clock pe) (resamplePool ?w2) = Some w'"
    using assms(2) by (simp add: loop_pass_def Let_def takeSpills_id [OF i1] refill_id [OF i1])
  note d = dispatch_loop_subset [OF i2 this]
  have "aq_waiting (qw_q (resamplePool ?w2)) = aq_waiting (qw_q ?w2)"
    by (simp add: resamplePool_def on_q_def split: option.splits)
  with d failDeadTarget_lists [of ?ax ?now ?w1] assms(3)
  have "job \<in> set (aq_queue (qw_q ?w1)) \<union> set (map wj_job (aq_waiting (qw_q ?w1)))" by auto
  moreover have "aq_waiting (qw_q ?w1) = filter (\<lambda>x. \<not> QueueExpired (unix_ms ?now) (wj_job x)) (aq_waiting (qw_q ?w0))"
    by (simp add: dropExpiredWaiting_def split_beta)
  moreover have "aq_queue (qw_q ?w1) = unexpired (unix_ms ?now) (aq_queue (qw_q w))"
    using dropExpiredJobs_queue [OF queue_inv_covered [OF assms(1)]] by simp
  ultimately show ?thesis by auto
qed

lemma log_retire_all:
  "(\<And>j. quiet (f j)) \<Longrightarrow> done_ids (qw_log (fold (\<lambda>job. retire_queued job (f job)) js w)) = done_ids (qw_log w) @ map j_ID js"
  by (induction js arbitrary: w) (auto simp: retire_queued_def markServed_def drop_job_def releaseBacklog_def op_defs Let_def quiet_def)

text \<open>Giving up on a dead target: with the setting off, or while the target has not
  failed for that long, nothing happens.  Once it has, a due sweep fails exactly the
  queued and retry-waiting jobs that are themselves that old, each reported done
  once; newer jobs stay, in order, and attempts in flight are left alone.\<close>

theorem dead_target_sweep:
  fixes now :: ns and ax :: attempt_ctx
  assumes "queue_inv w"
  defines "q \<equiv> qw_q w"
  defines "q' \<equiv> qw_q (failDeadTarget ax now w)"
  defines "cutoff \<equiv> unix_ms (now - aq_deadAfter q)"
  defines "due \<equiv> 0 < aq_deadAfter q \<and> aq_deadAfter q \<le> failingFor now (tg_health (qw_t w))
      \<and> (case aq_lastDeadSweep q of None \<Rightarrow> True | Some t \<Rightarrow> deadTargetSweepEvery \<le> now - t)"
  shows "if due then
           aq_queue q' = filter (\<lambda>j. \<not> waited_out cutoff j) (aq_queue q)
         \<and> aq_waiting q' = filter (\<lambda>x. \<not> waited_out cutoff (wj_job x)) (aq_waiting q)
         \<and> done_ids (qw_log (failDeadTarget ax now w)) = done_ids (qw_log w)
             @ map j_ID (filter (waited_out cutoff) (aq_queue q @ map wj_job (aq_waiting q)))
         \<and> aq_running q' = aq_running q \<and> queue_inv (failDeadTarget ax now w)
         else failDeadTarget ax now w = w"
proof (cases due)
  case True
  then have go: "\<not> (aq_deadAfter q \<le> 0 \<or> failingFor now (tg_health (qw_t w)) < aq_deadAfter q
      \<or> (case aq_lastDeadSweep q of None \<Rightarrow> False | Some t \<Rightarrow> now - t < deadTargetSweepEvery))"
    by (auto simp: due_def split: option.splits)
  have log: "qw_log (reportDepth x) = qw_log x" "qw_log (on_q f x) = qw_log x" for x f
    by (simp_all add: reportDepth_def on_q_def)
  have q1: "qw_q (on_q f x) = f (qw_q x)" for f x by (simp add: on_q_def)
  show ?thesis
    using True go failDeadTarget_inv [OF assms(1), of ax now]
    unfolding q'_def failDeadTarget_def Let_def q_def [symmetric] cutoff_def [symmetric]
    by (simp add: log log_retire_all q1, simp add: q_def)
next
  case False
  then show ?thesis
    by (auto simp: due_def failDeadTarget_def q_def [symmetric] Let_def split: option.splits)
qed

definition sample_target :: target where
  "sample_target = \<lparr> tg_rps = 2, tg_shared = newSharedPace, tg_pool = None,
     tg_health = \<lparr> th_failingSince = 0, th_served = 0 \<rparr>, tg_activeQueues = 0, tg_backlog = 0 \<rparr>"

definition sample_pass :: "ns \<Rightarrow> pass_env" where
  "sample_pass now = \<lparr> pe_ax = sample_ctx, pe_page = (\<lambda>_ _ _ _. None), pe_getJob = (\<lambda>_. None),
     pe_now = now, pe_clock = [now, now, now], pe_after = now \<rparr>"

definition sample_events :: "queue_event list" where
  "sample_events = [EEnqueue sample_job, EPass (sample_pass (2 * second)) SCmd,
     EEnqueue (sample_job\<lparr>j_ID := ''j2''\<rparr>), EPass (sample_pass (3 * second)) SCmd]"

definition sample_world :: qworld where
  "sample_world = new_world (\<lambda>_. '''') ''k'' ''http://api.test'' 2 1 sample_target"

lemma sample_run_ok: "ok_run queue_step queue_ok sample_events sample_world"
  by code_simp





lemma sample_inv: "queue_inv (fold queue_step sample_events sample_world)"
  using queue_run_inv [of 2, OF _ sample_run_ok [unfolded sample_world_def], folded sample_world_def] by simp

theorem pass_drops_expired_witness:
  "\<exists>w'. loop_pass (sample_pass (4 * second)) (fold queue_step sample_events sample_world) = Some w'
        \<and> (\<forall>job \<in> set (aq_queue (qw_q w')). \<not> QueueExpired 4000 job)"
proof -
  have "length (aq_queue (qw_q (fold queue_step sample_events sample_world))) < length (pe_clock (sample_pass (4 * second)))"
    by code_simp
  from loop_pass_returns [OF sample_inv this] obtain w'
    where w': "loop_pass (sample_pass (4 * second)) (fold queue_step sample_events sample_world) = Some w'" by blast
  with pass_drops_expired [OF sample_inv w'] show ?thesis
    by (auto simp: sample_pass_def unix_ms_def)
qed

definition failing_world :: qworld where
  "failing_world = new_world (\<lambda>k. if k = ''AQUIFER_DEAD_TARGET_FAIL_AFTER_SECONDS'' then ''1'' else '''')
     ''k'' ''http://api.test'' 2 1 (sample_target\<lparr>tg_health := \<lparr> th_failingSince = 500, th_served = 0 \<rparr>\<rparr>)"

definition one_queued :: "queue_event list" where
  "one_queued = [EEnqueue sample_job, EPass (sample_pass (1100 * millisecond)) SCmd]"

theorem dead_target_sweep_witness:
  "done_ids (qw_log (failDeadTarget sample_ctx (5 * second) (fold queue_step one_queued failing_world))) = [''j1'']"
proof -
  let ?w = "fold queue_step one_queued failing_world"
  have ok: "ok_run queue_step queue_ok one_queued failing_world" by code_simp
  have inv: "queue_inv ?w"
    using queue_run_inv [of 2, OF _ ok [unfolded failing_world_def], folded failing_world_def] by simp
  have "0 < aq_deadAfter (qw_q ?w) \<and> aq_deadAfter (qw_q ?w) \<le> failingFor (5 * second) (tg_health (qw_t ?w))
      \<and> (case aq_lastDeadSweep (qw_q ?w) of None \<Rightarrow> True | Some t \<Rightarrow> deadTargetSweepEvery \<le> 5 * second - t)"
    by code_simp
  moreover have "done_ids (qw_log ?w) @ map j_ID (filter (waited_out (unix_ms (5 * second - aq_deadAfter (qw_q ?w))))
      (aq_queue (qw_q ?w) @ map wj_job (aq_waiting (qw_q ?w)))) = [''j1'']" by code_simp
  ultimately show ?thesis using dead_target_sweep [OF inv, of "5 * second" sample_ctx] by simp
qed

end
