(* ===== verification/Ordered_KV.thy ===== *)
theory Ordered_KV
  imports Jobs "HOL-Library.Code_Target_Nat"
begin

text \<open>
  The embedded key-value database of \<^verbatim>\<open>internal/storage/pebble.go\<close>.  The database
  itself is a third-party library, so its handle is the parameter \<open>kv\<close> of every
  definition that uses it: point reads, atomic batches and ordered iteration over
  a half-open range of keys.  The locale \<open>ordered_kv\<close> states what its documentation
  promises in terms of an abstraction \<open>\<alpha>\<close> of a database to a map from keys to
  values; \<open>mem_kv\<close> is a reference implementation on which the locale is
  interpreted.  The theory also holds the fixed-width number formats of
  the keys and the lemmas that relate their byte order to the numeric order.
\<close>

section \<open>Byte order of strings\<close>

definition str_less :: "string \<Rightarrow> string \<Rightarrow> bool" where
  "str_less s t \<longleftrightarrow> str_le s t \<and> s \<noteq> t"

lemma str_le_append_same [simp]: "str_le (p @ s) (p @ t) \<longleftrightarrow> str_le s t"
  by (induction p) auto

lemma str_less_append_same [simp]: "str_less (p @ s) (p @ t) \<longleftrightarrow> str_less s t"
  by (simp add: str_less_def)

lemma str_less_Cons [simp]:
  "str_less (a # s) (b # t) \<longleftrightarrow> (of_char a :: nat) < of_char b \<or> a = b \<and> str_less s t"
  by (auto simp: str_less_def)

lemma str_less_Nil [simp]: "\<not> str_less s []" "str_less [] (a # s)"
  by (cases s) (auto simp: str_less_def)

lemma str_less_irrefl [simp]: "\<not> str_less s s"
  by (simp add: str_less_def)

lemma str_less_trans: "str_less s t \<Longrightarrow> str_less t u \<Longrightarrow> str_less s u"
  unfolding str_less_def using str_le_antisym str_le_trans by blast

lemma str_less_linear: "str_less s t \<or> s = t \<or> str_less t s"
  unfolding str_less_def using str_le_total by blast

lemma str_less_iff_not_le: "str_less s t \<longleftrightarrow> \<not> str_le t s"
  unfolding str_less_def using str_le_antisym str_le_total by blast

text \<open>
  The range of a prefix: the upper bound is the prefix with its last byte plus one.
\<close>

lemma prefix_range:
  assumes "(of_char d :: nat) = Suc (of_char c)"
  shows "str_le (p @ [c]) k \<and> str_less k (p @ [d]) \<longleftrightarrow> (\<exists>r. k = p @ c # r)"
proof (induction p arbitrary: k)
  case Nil
  show ?case
  proof (cases k)
    case (Cons a r)
    with assms show ?thesis by (auto simp: less_Suc_eq)
  qed simp
next
  case (Cons x p k)
  show ?case
  proof (cases k)
    case (Cons a r)
    have "str_le ((x # p) @ [c]) k \<and> str_less k ((x # p) @ [d])
        \<longleftrightarrow> a = x \<and> str_le (p @ [c]) r \<and> str_less r (p @ [d])"
      by (auto simp: Cons)
    then show ?thesis using Cons.IH [of r] by (auto simp: Cons)
  qed simp
qed

section \<open>Fixed-width numbers\<close>

fun fixed_digits :: "nat \<Rightarrow> (nat \<Rightarrow> char) \<Rightarrow> nat \<Rightarrow> nat \<Rightarrow> string" where
  "fixed_digits b dg 0 n = []"
| "fixed_digits b dg (Suc w) n = fixed_digits b dg w (n div b) @ [dg (n mod b)]"

definition hex_char :: "nat \<Rightarrow> char" where
  "hex_char d = (if d < 10 then char_of (48 + d) else char_of (87 + d))"

text \<open>\<^verbatim>\<open>fmt.Sprintf("%016x", n)\<close> of a 64-bit integer, and the conversion \<^verbatim>\<open>uint64(n)\<close>.\<close>

definition hex16 :: "int \<Rightarrow> string" where
  "hex16 n =
     (if n < 0
      then CHR ''-'' # fixed_digits 16 hex_char (if - n < 16 ^ 15 then 15 else 16) (nat (- n))
      else fixed_digits 16 hex_char 16 (nat n))"

definition to_uint64 :: "int \<Rightarrow> int" where
  "to_uint64 n = n mod 2 ^ 64"

lemma length_fixed_digits [simp]: "length (fixed_digits b dg w n) = w"
  by (induction w arbitrary: n) auto

lemma fixed_digits_order:
  assumes "1 < b" and "\<And>i j. i < b \<Longrightarrow> j < b \<Longrightarrow> (of_char (dg i) :: nat) < of_char (dg j) \<longleftrightarrow> i < j"
    and "m < b ^ w" and "n < b ^ w"
  shows "str_le (fixed_digits b dg w m @ s) (fixed_digits b dg w n @ t)
           \<longleftrightarrow> m < n \<or> m = n \<and> str_le s t"
  using assms(3,4)
proof (induction w arbitrary: m n s t)
  case (Suc w)
  have mods: "m mod b < b" "n mod b < b" using assms(1) by simp_all
  have eq: "dg (m mod b) = dg (n mod b) \<longleftrightarrow> m mod b = n mod b"
    using assms(2) [OF mods] assms(2) [OF mods(2,1)] by (metis linorder_neq_iff)
  have parts: "m < n \<longleftrightarrow> m div b < n div b \<or> m div b = n div b \<and> m mod b < n mod b"
    by (metis div_le_mono div_mult_mod_eq leD linorder_neqE_nat nat_add_left_cancel_less order_le_less)
  have same: "m = n \<longleftrightarrow> m div b = n div b \<and> m mod b = n mod b"
    by (metis div_mult_mod_eq)
  have "m div b < b ^ w" "n div b < b ^ w"
    using Suc.prems by (simp_all add: less_mult_imp_div_less mult.commute)
  from Suc.IH [OF this] show ?case
    using assms(2) [OF mods] eq by (auto simp: parts same)
qed simp

lemma hex_char_order: "i < 16 \<Longrightarrow> j < 16 \<Longrightarrow> (of_char (hex_char i) :: nat) < of_char (hex_char j) \<longleftrightarrow> i < j"
  by (auto simp: hex_char_def)

lemma digit_char_order: "i < 10 \<Longrightarrow> j < 10 \<Longrightarrow> (of_char (digit_char i) :: nat) < of_char (digit_char j) \<longleftrightarrow> i < j"
  by (simp add: of_char_digit_char)

lemma hex16_order:
  assumes "0 \<le> m" "m < 2 ^ 64" "0 \<le> n" "n < 2 ^ 64"
  shows "str_le (hex16 m @ s) (hex16 n @ t) \<longleftrightarrow> m < n \<or> m = n \<and> str_le s t"
proof -
  have "nat m < 16 ^ 16" "nat n < 16 ^ 16" using assms by (simp_all add: nat_less_iff)
  from fixed_digits_order [OF _ hex_char_order this, of s t] assms show ?thesis
    by (auto simp: hex16_def)
qed

lemma hex16_inject:
  assumes "0 \<le> m" "m < 2 ^ 64" "0 \<le> n" "n < 2 ^ 64"
  shows "hex16 m @ s = hex16 n @ t \<longleftrightarrow> m = n \<and> s = t"
  using hex16_order [OF assms, of s t] hex16_order [OF assms(3,4,1,2), of t s]
  by (metis order_less_asym' str_le_antisym str_le_refl)

lemma length_hex16: "0 \<le> m \<Longrightarrow> length (hex16 m) = 16"
  by (simp add: hex16_def)

lemma nat_digits_fixed:
  "10 ^ w \<le> n \<Longrightarrow> n < 10 ^ Suc w \<Longrightarrow> nat_digits n = fixed_digits 10 digit_char (Suc w) n"
proof (induction w arbitrary: n)
  case 0
  then show ?case by (subst nat_digits.simps) simp
next
  case (Suc w)
  have "10 ^ w \<le> n div 10" "n div 10 < 10 ^ Suc w"
    using Suc.prems by (auto simp: less_mult_imp_div_less)
  moreover have "\<not> n < 10" using Suc.prems(1) by (auto simp: not_less intro: order_trans [rotated])
  ultimately show ?case using Suc.IH by (subst nat_digits.simps) simp
qed

section \<open>The database interface\<close>

datatype 'v lookup = Found 'v | NotFound | ReadError

datatype 'v batch_op = BSet string 'v | BDelete string | BDeleteRange string string

record ('d, 'v) kv =
  kv_get :: "'d \<Rightarrow> string \<Rightarrow> 'v lookup"
  kv_commit :: "'d \<Rightarrow> 'v batch_op list \<Rightarrow> 'd option"
  kv_iter :: "'d \<Rightarrow> string \<Rightarrow> string \<Rightarrow> (string \<times> 'v) list option"

fun batch_apply1 :: "'v batch_op \<Rightarrow> (string \<Rightarrow> 'v option) \<Rightarrow> (string \<Rightarrow> 'v option)" where
  "batch_apply1 (BSet k v) m = m(k \<mapsto> v)"
| "batch_apply1 (BDelete k) m = m(k := None)"
| "batch_apply1 (BDeleteRange lo hi) m = (\<lambda>k. if str_le lo k \<and> str_less k hi then None else m k)"

definition batch_apply :: "'v batch_op list \<Rightarrow> (string \<Rightarrow> 'v option) \<Rightarrow> (string \<Rightarrow> 'v option)" where
  "batch_apply ops = fold batch_apply1 ops"

lemma batch_apply_simps [simp]:
  "batch_apply [] m = m"
  "batch_apply (x # ops) m = batch_apply ops (batch_apply1 x m)"
  "batch_apply (ops @ ops') m = batch_apply ops' (batch_apply ops m)"
  by (simp_all add: batch_apply_def)

locale ordered_kv =
  fixes kv :: "('d, 'v) kv" and \<alpha> :: "'d \<Rightarrow> string \<Rightarrow> 'v option"
  assumes get_law: "kv_get kv db k = (case \<alpha> db k of None \<Rightarrow> NotFound | Some v \<Rightarrow> Found v)"
    and commit_law: "\<exists>db'. kv_commit kv db ops = Some db' \<and> \<alpha> db' = batch_apply ops (\<alpha> db)"
    and iter_law: "\<exists>xs. kv_iter kv db lo hi = Some xs \<and> sorted_wrt str_less (map fst xs)
      \<and> (\<forall>k v. (k, v) \<in> set xs \<longleftrightarrow> \<alpha> db k = Some v \<and> str_le lo k \<and> str_less k hi)"
    and finite_law: "finite (dom (\<alpha> db))"
begin

lemma commitE:
  obtains db' where "kv_commit kv db ops = Some db'" and "\<alpha> db' = batch_apply ops (\<alpha> db)"
  using commit_law by blast

lemma iterE:
  obtains xs where "kv_iter kv db lo hi = Some xs" and "sorted_wrt str_less (map fst xs)"
    and "\<And>k v. (k, v) \<in> set xs \<longleftrightarrow> \<alpha> db k = Some v \<and> str_le lo k \<and> str_less k hi"
  using iter_law by blast

lemma get_Found_iff: "kv_get kv db k = Found v \<longleftrightarrow> \<alpha> db k = Some v"
  by (simp add: get_law split: option.splits)

end

section \<open>The reference implementation\<close>

text \<open>
  A database is a log of entries, the newest first; iteration sorts it and keeps
  the newest entry of every key.
\<close>

fun ins_sorted :: "string \<times> 'v \<Rightarrow> (string \<times> 'v) list \<Rightarrow> (string \<times> 'v) list" where
  "ins_sorted e [] = [e]"
| "ins_sorted e (x # xs) =
     (if str_less (fst e) (fst x) then e # x # xs
      else if fst e = fst x then e # xs
      else x # ins_sorted e xs)"

definition mem_sorted :: "(string \<times> 'v) list \<Rightarrow> (string \<times> 'v) list" where
  "mem_sorted xs = foldr ins_sorted xs []"

fun mem_op :: "'v batch_op \<Rightarrow> (string \<times> 'v) list \<Rightarrow> (string \<times> 'v) list" where
  "mem_op (BSet k v) xs = (k, v) # xs"
| "mem_op (BDelete k) xs = filter (\<lambda>(k', _). k' \<noteq> k) xs"
| "mem_op (BDeleteRange lo hi) xs = filter (\<lambda>(k, _). \<not> (str_le lo k \<and> str_less k hi)) xs"

definition mem_kv :: "((string \<times> 'v) list, 'v) kv" where
  "mem_kv =
     \<lparr> kv_get = (\<lambda>xs k. case map_of xs k of None \<Rightarrow> NotFound | Some v \<Rightarrow> Found v),
       kv_commit = (\<lambda>xs ops. Some (fold mem_op ops xs)),
       kv_iter = (\<lambda>xs lo hi. Some (filter (\<lambda>(k, _). str_le lo k \<and> str_less k hi) (mem_sorted xs))) \<rparr>"

lemma fst_ins_sorted: "set (map fst (ins_sorted e xs)) = insert (fst e) (set (map fst xs))"
  by (induction e xs rule: ins_sorted.induct) auto

lemma sorted_ins_sorted:
  "sorted_wrt str_less (map fst xs) \<Longrightarrow> sorted_wrt str_less (map fst (ins_sorted e xs))"
proof (induction e xs rule: ins_sorted.induct)
  case (2 e x xs)
  consider "str_less (fst e) (fst x)" | "fst e = fst x" | "str_less (fst x) (fst e)"
    using str_less_linear by blast
  then show ?case
  proof cases
    case 1
    with 2 show ?thesis by (auto intro: str_less_trans)
  next
    case 3
    then have "\<not> str_less (fst e) (fst x)" "fst e \<noteq> fst x"
      using str_less_trans str_less_irrefl by fastforce+
    with 2 3 show ?thesis
      using fst_ins_sorted [of e xs] by auto
  qed (use 2 in auto)
qed simp

lemma map_of_ins_sorted: "sorted_wrt str_less (map fst xs) \<Longrightarrow> map_of (ins_sorted e xs) = (map_of xs)(fst e \<mapsto> snd e)"
  by (induction e xs rule: ins_sorted.induct) (auto split: prod.splits)

lemma mem_sorted_props:
  "sorted_wrt str_less (map fst (mem_sorted xs)) \<and> map_of (mem_sorted xs) = map_of xs"
  unfolding mem_sorted_def by (induction xs) (auto simp: sorted_ins_sorted map_of_ins_sorted)

lemma sorted_distinct_keys: "sorted_wrt str_less ks \<Longrightarrow> distinct ks"
  by (induction ks) auto

lemma map_of_filter_key: "map_of (filter (\<lambda>(k, _). P k) xs) = (\<lambda>k. if P k then map_of xs k else None)"
  by (induction xs) auto

lemma map_of_mem_ops: "map_of (fold mem_op ops xs) = batch_apply ops (map_of xs)"
proof (induction ops arbitrary: xs)
  case (Cons x ops)
  have "map_of (mem_op x xs) = batch_apply1 x (map_of xs)"
    by (cases x) (auto simp: map_of_filter_key)
  with Cons show ?case by simp
qed simp

interpretation mem: ordered_kv mem_kv map_of
proof
  fix xs :: "(string \<times> 'v) list" and lo hi
  let ?ys = "filter (\<lambda>(k, _). str_le lo k \<and> str_less k hi) (mem_sorted xs)"
  have "sorted_wrt str_less (map fst (mem_sorted xs))" and eq: "map_of (mem_sorted xs) = map_of xs"
    by (simp_all add: mem_sorted_props)
  then have "sorted_wrt str_less (map fst ?ys)" and dist: "distinct (map fst (mem_sorted xs))"
    using sorted_distinct_keys by (auto simp: sorted_wrt_map intro: sorted_wrt_filter)
  moreover have "(k, v) \<in> set ?ys \<longleftrightarrow> map_of xs k = Some v \<and> str_le lo k \<and> str_less k hi" for k v
    using map_of_eq_Some_iff [OF dist, of k v] by (auto simp: eq)
  ultimately show "\<exists>ys. kv_iter mem_kv xs lo hi = Some ys \<and> sorted_wrt str_less (map fst ys)
      \<and> (\<forall>k v. (k, v) \<in> set ys \<longleftrightarrow> map_of xs k = Some v \<and> str_le lo k \<and> str_less k hi)"
    by (simp add: mem_kv_def)
qed (auto simp: mem_kv_def map_of_mem_ops finite_dom_map_of)

end
