(* ===== verification/Pebble_Store.thy ===== *)
theory Pebble_Store
  imports Ordered_KV
begin

text \<open>
  \<^verbatim>\<open>internal/storage/pebble.go\<close>: the default job store.  Job records, the
  idempotency index, the expiry index, the queue index and the drain events live
  under prefixed keys of one ordered database (theory \<open>Ordered_KV\<close>); two
  counters are kept beside it.  An operation is one transition of the store: the
  locks of the code make each atomic with respect to the operations on the same
  job or idempotency key.  \<open>H\<close> is the hash function of \<^verbatim>\<open>jobs.HashKey\<close>.  JSON keeps
  every field of a record but the one tagged to be left out.  Log lines and the
  timers of the background loops are left out.
\<close>

section \<open>Records and keys\<close>

record pebbleRecord =
  pr_Job :: Job
  pr_QueueKey :: string
  pr_ExpiresAt :: ms
  pr_Result :: "Result option"

datatype stored = SRecord pebbleRecord | SText string | SEvent DrainEvent | SEmpty

definition marshal_record :: "pebbleRecord \<Rightarrow> stored" where
  "marshal_record r = SRecord (r\<lparr>pr_Job := (pr_Job r)\<lparr>j_DedupHash := ''''\<rparr>\<rparr>)"

fun unmarshal_record :: "stored \<Rightarrow> pebbleRecord option" where
  "unmarshal_record (SRecord r) = Some r"
| "unmarshal_record _ = None"

fun unmarshal_event :: "stored \<Rightarrow> DrainEvent option" where
  "unmarshal_event (SEvent e) = Some e"
| "unmarshal_event _ = None"

fun bytes_of :: "stored \<Rightarrow> string" where
  "bytes_of (SText s) = s"
| "bytes_of _ = ''''"

record 'd Pebble =
  p_db :: 'd
  p_flushInterval :: ns
  p_lastSyncStart :: ns
  p_lastSyncTook :: ns
  p_skipDrainEvents :: bool
  p_queued :: int
  p_inFlight :: int

record Counts =
  c_TotalJobs :: int
  c_QueueDepth :: int

definition jobKey :: "string \<Rightarrow> string" where
  "jobKey jid = ''job:'' @ jid"

definition idemKey :: "string \<Rightarrow> string" where
  "idemKey hash = ''idem:'' @ hash"

definition expKey :: "ms \<Rightarrow> string \<Rightarrow> string" where
  "expKey expiresAt jid = ''exp:'' @ hex16 expiresAt @ '':'' @ jid"

definition expKeyBound :: "ms \<Rightarrow> string" where
  "expKeyBound expiresAt = ''exp:'' @ hex16 expiresAt"

definition queueIndexKey :: "string \<Rightarrow> ms \<Rightarrow> string \<Rightarrow> string" where
  "queueIndexKey queueKey createdAt jid =
     ''qk:'' @ queueKey @ [nul] @ hex16 (to_uint64 createdAt) @ '':'' @ jid"

definition queueIndexBound :: "string \<Rightarrow> ms \<Rightarrow> string" where
  "queueIndexBound queueKey createdAt = ''qk:'' @ queueKey @ [nul] @ hex16 (to_uint64 createdAt)"

definition queueIndexMarker :: string where "queueIndexMarker = ''meta:queue-index-v1''"
definition expIndexMarker :: string where "expIndexMarker = ''meta:exp-index-v1''"

definition pendingStatus :: "Status \<Rightarrow> bool" where
  "pendingStatus st \<longleftrightarrow> st = StatusQueued \<or> st = StatusInFlight"

definition drainSeqKey :: "int \<Rightarrow> string" where
  "drainSeqKey sequence = ''drain:seq:'' @ itoa (wrap64 (sequence + 1000000000000000000))"

definition drainJobKey :: "string \<Rightarrow> string" where
  "drainJobKey jobID = ''drain:job:'' @ jobID"

definition drainSequenceMetaKey :: string where "drainSequenceMetaKey = ''meta:drain_sequence''"

lemmas key_defs = jobKey_def idemKey_def expKey_def expKeyBound_def queueIndexKey_def queueIndexBound_def
  queueIndexMarker_def expIndexMarker_def drainSeqKey_def drainJobKey_def drainSequenceMetaKey_def

definition ttlQueued :: ms where "ttlQueued = QueuedTTL"
definition ttlCompleted :: ms where "ttlCompleted = 30 * 60 * 1000"
definition ttlFailed :: ms where "ttlFailed = 2 * 60 * 60 * 1000"

definition ttlForStatus :: "Status \<Rightarrow> ms" where
  "ttlForStatus st =
     (case st of StatusCompleted \<Rightarrow> ttlCompleted | StatusFailed \<Rightarrow> ttlFailed | _ \<Rightarrow> ttlQueued)"

definition expiresAtFor :: "Job \<Rightarrow> Status \<Rightarrow> ms \<Rightarrow> ms" where
  "expiresAtFor job st now =
     (if st = StatusCompleted \<or> st = StatusFailed then now + ttlForStatus st
      else PendingExpiresAt now job)"

section \<open>Operations\<close>

definition countStatus :: "Status \<Rightarrow> int \<Rightarrow> 'd Pebble \<Rightarrow> 'd Pebble" where
  "countStatus st delta s =
     (case st of
        StatusQueued \<Rightarrow> s\<lparr>p_queued := p_queued s + delta\<rparr>
      | StatusInFlight \<Rightarrow> s\<lparr>p_inFlight := p_inFlight s + delta\<rparr>
      | _ \<Rightarrow> s)"

definition moveStatus :: "Status \<Rightarrow> Status \<Rightarrow> 'd Pebble \<Rightarrow> 'd Pebble" where
  "moveStatus from to s = (if from = to then s else countStatus to 1 (countStatus from (- 1) s))"

text \<open>A write whose error is only logged.\<close>

definition commit_logged :: "('d, stored) kv \<Rightarrow> stored batch_op list \<Rightarrow> 'd Pebble \<Rightarrow> 'd Pebble" where
  "commit_logged kv ops s =
     (case kv_commit kv (p_db s) ops of None \<Rightarrow> s | Some db \<Rightarrow> s\<lparr>p_db := db\<rparr>)"

definition syncWAL :: "bool \<Rightarrow> ns \<Rightarrow> ns \<Rightarrow> 'd Pebble \<Rightarrow> 'd Pebble" where
  "syncWAL synced start took s =
     (if \<not> synced then s else s\<lparr>p_lastSyncStart := start, p_lastSyncTook := took\<rparr>)"

definition SyncLag :: "ns \<Rightarrow> 'd Pebble \<Rightarrow> ns" where
  "SyncLag now s = (if p_flushInterval s \<le> 0 then 0 else now - p_lastSyncStart s)"

definition CheckOrInsert ::
  "('d, stored) kv \<Rightarrow> (string \<Rightarrow> string) \<Rightarrow> ms \<Rightarrow> Job \<Rightarrow> 'd Pebble \<Rightarrow> (string \<times> bool) \<times> 'd Pebble" where
  "CheckOrInsert kv H now job s =
     (let hashed = IdempotencyHash H job; ik = idemKey hashed
      in case kv_get kv (p_db s) ik of
           Found val \<Rightarrow> ((bytes_of val, True), s)
         | _ \<Rightarrow>
             (let rec = \<lparr> pr_Job = job, pr_QueueKey = '''', pr_ExpiresAt = PendingExpiresAt now job,
                          pr_Result = None \<rparr>
              in case kv_commit kv (p_db s)
                        [BSet (jobKey (j_ID job)) (marshal_record rec), BSet ik (SText (j_ID job)),
                         BSet (expKey (pr_ExpiresAt rec) (j_ID job)) SEmpty] of
                   None \<Rightarrow> (('''', False), s)
                 | Some db \<Rightarrow> (('''', False), countStatus StatusQueued 1 (s\<lparr>p_db := db\<rparr>))))"

definition getRecord :: "('d, stored) kv \<Rightarrow> string \<Rightarrow> 'd Pebble \<Rightarrow> pebbleRecord option" where
  "getRecord kv jobID s =
     (case kv_get kv (p_db s) (jobKey jobID) of Found val \<Rightarrow> unmarshal_record val | _ \<Rightarrow> None)"

definition putRecord :: "('d, stored) kv \<Rightarrow> string \<Rightarrow> pebbleRecord \<Rightarrow> 'd Pebble \<Rightarrow> 'd Pebble" where
  "putRecord kv jobID rec s = commit_logged kv [BSet (jobKey jobID) (marshal_record rec)] s"

definition putRecordWithExpiry ::
  "('d, stored) kv \<Rightarrow> string \<Rightarrow> pebbleRecord \<Rightarrow> ms \<Rightarrow> 'd Pebble \<Rightarrow> 'd Pebble" where
  "putRecordWithExpiry kv jobID rec previousExpiresAt s =
     commit_logged kv
       ([BSet (jobKey jobID) (marshal_record rec)]
        @ (if pr_QueueKey rec \<noteq> '''' \<and> \<not> pendingStatus (j_Status (pr_Job rec))
           then [BDelete (queueIndexKey (pr_QueueKey rec) (j_CreatedAt (pr_Job rec)) jobID)] else [])
        @ (if previousExpiresAt \<noteq> pr_ExpiresAt rec then [BDelete (expKey previousExpiresAt jobID)] else [])
        @ [BSet (expKey (pr_ExpiresAt rec) jobID) SEmpty]) s"

definition SetQueueKey :: "('d, stored) kv \<Rightarrow> string \<Rightarrow> string \<Rightarrow> 'd Pebble \<Rightarrow> 'd Pebble" where
  "SetQueueKey kv jobID queueKey s =
     (case getRecord kv jobID s of
        None \<Rightarrow> s
      | Some rec \<Rightarrow>
          (let previous = pr_QueueKey rec; created = j_CreatedAt (pr_Job rec)
           in commit_logged kv
                ([BSet (jobKey jobID) (marshal_record (rec\<lparr>pr_QueueKey := queueKey\<rparr>))]
                 @ (if previous \<noteq> '''' \<and> previous \<noteq> queueKey
                    then [BDelete (queueIndexKey previous created jobID)] else [])
                 @ (if pendingStatus (j_Status (pr_Job rec))
                    then [BSet (queueIndexKey queueKey created jobID) SEmpty] else [])) s))"

definition forEachJobIncludingExpired :: "('d, stored) kv \<Rightarrow> 'd Pebble \<Rightarrow> pebbleRecord list" where
  "forEachJobIncludingExpired kv s =
     (case kv_iter kv (p_db s) ''job:'' ''job;'' of
        None \<Rightarrow> []
      | Some xs \<Rightarrow> List.map_filter (\<lambda>(_, val). unmarshal_record val) xs)"

definition forEachJob :: "('d, stored) kv \<Rightarrow> ms \<Rightarrow> 'd Pebble \<Rightarrow> pebbleRecord list" where
  "forEachJob kv now s = filter (\<lambda>rec. \<not> pr_ExpiresAt rec \<le> now) (forEachJobIncludingExpired kv s)"

definition seedCounts :: "('d, stored) kv \<Rightarrow> ms \<Rightarrow> 'd Pebble \<Rightarrow> 'd Pebble" where
  "seedCounts kv now s =
     fold (\<lambda>rec. countStatus (j_Status (pr_Job rec)) 1) (forEachJob kv now s)
       (s\<lparr>p_queued := 0, p_inFlight := 0\<rparr>)"

definition backfillExpiryIndex :: "('d, stored) kv \<Rightarrow> 'd Pebble \<Rightarrow> 'd Pebble" where
  "backfillExpiryIndex kv s =
     (case kv_get kv (p_db s) expIndexMarker of
        Found _ \<Rightarrow> s
      | _ \<Rightarrow> commit_logged kv
               (map (\<lambda>rec. BSet (expKey (pr_ExpiresAt rec) (j_ID (pr_Job rec))) SEmpty)
                  (forEachJobIncludingExpired kv s)
                @ [BSet expIndexMarker SEmpty]) s)"

definition defaultFlushIntervalMS :: int where "defaultFlushIntervalMS = 100"

definition NewPebble :: "('d, stored) kv \<Rightarrow> environment \<Rightarrow> ms \<Rightarrow> 'd \<Rightarrow> 'd Pebble" where
  "NewPebble kv env now db =
     (let flushMS = (case parse_int64 (env ''AQUIFER_PEBBLE_FLUSH_INTERVAL_MS'') of
                       Some n \<Rightarrow> if n \<ge> 0 then n else defaultFlushIntervalMS
                     | None \<Rightarrow> defaultFlushIntervalMS);
          s = \<lparr> p_db = db, p_flushInterval = (if flushMS > 0 then wrap64 (flushMS * millisecond) else 0),
                p_lastSyncStart = 0, p_lastSyncTook = 0, p_skipDrainEvents = False,
                p_queued = 0, p_inFlight = 0 \<rparr>;
          s' = seedCounts kv now (backfillExpiryIndex kv s)
      in if p_flushInterval s' > 0 then s'\<lparr>p_lastSyncStart := now * millisecond\<rparr> else s')"

text \<open>
  \<^verbatim>\<open>PendingQueueKeys\<close> walks the records once; the index entries it adds on the
  first run are written in batches.
\<close>

fun pending_walk ::
  "('d, stored) kv \<Rightarrow> bool \<Rightarrow> pebbleRecord list \<Rightarrow> (string \<times> int) list \<Rightarrow> stored batch_op list \<Rightarrow> 'd Pebble
     \<Rightarrow> (string \<times> int) list \<times> stored batch_op list \<times> 'd Pebble" where
  "pending_walk kv backfill [] counts batch s = (counts, batch, s)"
| "pending_walk kv backfill (rec # recs) counts batch s =
     (if \<not> pendingStatus (j_Status (pr_Job rec)) then pending_walk kv backfill recs counts batch s
      else
        (let n = (case map_of counts (pr_QueueKey rec) of None \<Rightarrow> 0 | Some n \<Rightarrow> n);
             counts' = al_put (pr_QueueKey rec) (n + 1) counts
         in if \<not> (backfill \<and> pr_QueueKey rec \<noteq> '''') then pending_walk kv backfill recs counts' batch s
            else
              (let batch' = batch @ [BSet (queueIndexKey (pr_QueueKey rec) (j_CreatedAt (pr_Job rec))
                                             (j_ID (pr_Job rec))) SEmpty]
               in if length batch' \<ge> 10000
                  then pending_walk kv backfill recs counts' [] (commit_logged kv batch' s)
                  else pending_walk kv backfill recs counts' batch' s)))"

definition PendingQueueKeys ::
  "('d, stored) kv \<Rightarrow> ms \<Rightarrow> 'd Pebble \<Rightarrow> (string \<times> int) list option \<times> 'd Pebble" where
  "PendingQueueKeys kv now s =
     (let backfill = (case kv_get kv (p_db s) queueIndexMarker of Found _ \<Rightarrow> False | _ \<Rightarrow> True)
      in case pending_walk kv backfill (forEachJob kv now s) [] [] s of
           (counts, batch, s') \<Rightarrow>
             if \<not> backfill then (Some counts, s')
             else (case kv_commit kv (p_db s') (batch @ [BSet queueIndexMarker SEmpty]) of
                     None \<Rightarrow> (None, s')
                   | Some db \<Rightarrow> (Some counts, s'\<lparr>p_db := db\<rparr>)))"

definition page_flush :: "('d, stored) kv \<Rightarrow> stored batch_op list \<Rightarrow> 'd Pebble \<Rightarrow> 'd Pebble" where
  "page_flush kv stale s = (if stale \<noteq> [] then commit_logged kv stale s else s)"

fun page_loop ::
  "('d, stored) kv \<Rightarrow> string \<Rightarrow> ms \<Rightarrow> int \<Rightarrow> (string \<times> stored) list \<Rightarrow> Job list \<Rightarrow> stored batch_op list \<Rightarrow> 'd Pebble
     \<Rightarrow> Job list option \<times> 'd Pebble" where
  "page_loop kv queueKey now limit [] found stale s = (Some found, page_flush kv stale s)"
| "page_loop kv queueKey now limit ((key, _) # xs) found stale s =
     (let prefix = length ''qk:'' + length queueKey + 1 + 16 + 1;
          continue = (\<lambda>found stale.
            if length stale \<ge> 1000 then page_loop kv queueKey now limit xs found [] (page_flush kv stale s)
            else page_loop kv queueKey now limit xs found stale s)
      in if \<not> int (length found) < limit then (Some found, page_flush kv stale s)
         else if length key \<le> prefix then page_loop kv queueKey now limit xs found stale s
         else (case kv_get kv (p_db s) (jobKey (drop prefix key)) of
                 NotFound \<Rightarrow> continue found (stale @ [BDelete key])
               | ReadError \<Rightarrow> (None, s)
               | Found val \<Rightarrow>
                   (case unmarshal_record val of
                      None \<Rightarrow> (None, s)
                    | Some rec \<Rightarrow>
                        if pr_ExpiresAt rec \<le> now \<or> pr_QueueKey rec \<noteq> queueKey
                           \<or> \<not> pendingStatus (j_Status (pr_Job rec))
                        then continue found (stale @ [BDelete key])
                        else continue (found @ [(pr_Job rec)\<lparr>j_Status := StatusQueued\<rparr>]) stale)))"

definition zero_cursor :: PageCursor where
  "zero_cursor = \<lparr> pc_CreatedAt = 0, pc_ID = '''' \<rparr>"

definition page_lower :: "string \<Rightarrow> PageCursor \<Rightarrow> string" where
  "page_lower queueKey after =
     (if after \<noteq> zero_cursor then queueIndexKey queueKey (pc_CreatedAt after) (pc_ID after) @ [nul]
      else ''qk:'' @ queueKey @ [nul])"

definition page_upper :: "string \<Rightarrow> ms \<Rightarrow> string" where
  "page_upper queueKey createdBefore =
     (if createdBefore > 0 then queueIndexBound queueKey createdBefore
      else ''qk:'' @ queueKey @ [CHR 0x01])"

definition QueuedPage ::
  "('d, stored) kv \<Rightarrow> ms \<Rightarrow> string \<Rightarrow> PageCursor \<Rightarrow> ms \<Rightarrow> int \<Rightarrow> 'd Pebble
     \<Rightarrow> Job list option \<times> 'd Pebble" where
  "QueuedPage kv now queueKey after createdBefore limit s =
     (case kv_iter kv (p_db s) (page_lower queueKey after) (page_upper queueKey createdBefore) of
        None \<Rightarrow> (None, s)
      | Some xs \<Rightarrow> page_loop kv queueKey now limit xs [] [] s)"

definition delete_ops :: "(string \<Rightarrow> string) \<Rightarrow> string \<Rightarrow> pebbleRecord \<Rightarrow> stored batch_op list" where
  "delete_ops H jobID rec =
     [BDelete (jobKey jobID), BDelete (idemKey (IdempotencyHash H (pr_Job rec)))]
     @ (if pr_QueueKey rec \<noteq> ''''
        then [BDelete (queueIndexKey (pr_QueueKey rec) (j_CreatedAt (pr_Job rec)) jobID)] else [])"

definition DeleteJob :: "('d, stored) kv \<Rightarrow> (string \<Rightarrow> string) \<Rightarrow> string \<Rightarrow> 'd Pebble \<Rightarrow> 'd Pebble" where
  "DeleteJob kv H jobID s =
     (case getRecord kv jobID s of
        None \<Rightarrow> commit_logged kv [BDelete (jobKey jobID)] s
      | Some rec \<Rightarrow>
          (case kv_commit kv (p_db s) (delete_ops H jobID rec) of
             None \<Rightarrow> s
           | Some db \<Rightarrow> countStatus (j_Status (pr_Job rec)) (- 1) (s\<lparr>p_db := db\<rparr>)))"

definition PutResult :: "('d, stored) kv \<Rightarrow> string \<Rightarrow> Result \<Rightarrow> 'd Pebble \<Rightarrow> 'd Pebble" where
  "PutResult kv jobID result s =
     (case getRecord kv jobID s of
        None \<Rightarrow> s
      | Some rec \<Rightarrow> putRecord kv jobID (rec\<lparr>pr_Result := Some result\<rparr>) s)"

definition GetResult :: "('d, stored) kv \<Rightarrow> ms \<Rightarrow> string \<Rightarrow> 'd Pebble \<Rightarrow> Result option" where
  "GetResult kv now jobID s =
     (case getRecord kv jobID s of
        None \<Rightarrow> None
      | Some rec \<Rightarrow> if pr_ExpiresAt rec \<le> now then None else pr_Result rec)"

definition RecordRetry :: "('d, stored) kv \<Rightarrow> string \<Rightarrow> int \<Rightarrow> 'd Pebble \<Rightarrow> 'd Pebble" where
  "RecordRetry kv jobID attempts s =
     (case getRecord kv jobID s of
        None \<Rightarrow> s
      | Some rec \<Rightarrow>
          putRecord kv jobID (rec\<lparr>pr_Job := (pr_Job rec)\<lparr>j_Attempts := attempts, j_Status := StatusQueued\<rparr>\<rparr>) s)"

definition recordDrainEvent ::
  "('d, stored) kv \<Rightarrow> (string \<Rightarrow> string) \<Rightarrow> ms \<Rightarrow> pebbleRecord \<Rightarrow> Status \<Rightarrow> 'd Pebble \<Rightarrow> 'd Pebble" where
  "recordDrainEvent kv H now rec st s =
     (if IsWebhookDelivery (pr_Job rec) then s
      else case kv_get kv (p_db s) (drainJobKey (j_ID (pr_Job rec))) of
             Found _ \<Rightarrow> s
           | _ \<Rightarrow>
               (let before = (case kv_get kv (p_db s) drainSequenceMetaKey of
                                Found val \<Rightarrow> (case parse_int64 (bytes_of val) of Some n \<Rightarrow> n | None \<Rightarrow> 0)
                              | _ \<Rightarrow> 0);
                    sequence = wrap64 (before + 1);
                    event = \<lparr> de_Sequence = sequence, de_HashKey = IdempotencyHash H (pr_Job rec),
                              de_JobID = j_ID (pr_Job rec), de_Status = st, de_RecordedAt = now \<rparr>
                in commit_logged kv
                     [BSet (drainSeqKey sequence) (SEvent event),
                      BSet (drainJobKey (j_ID (pr_Job rec))) (SText (itoa sequence)),
                      BSet drainSequenceMetaKey (SText (itoa sequence))] s))"

definition UpdateStatus ::
  "('d, stored) kv \<Rightarrow> (string \<Rightarrow> string) \<Rightarrow> ms \<Rightarrow> string \<Rightarrow> Status \<Rightarrow> 'd Pebble \<Rightarrow> 'd Pebble" where
  "UpdateStatus kv H now jobID st s =
     (case getRecord kv jobID s of
        None \<Rightarrow> s
      | Some rec \<Rightarrow>
          (let s1 = moveStatus (j_Status (pr_Job rec)) st s;
               rec' = rec\<lparr>pr_Job := (pr_Job rec)\<lparr>j_Status := st\<rparr>,
                          pr_ExpiresAt := expiresAtFor (pr_Job rec) st now\<rparr>;
               s2 = putRecordWithExpiry kv jobID rec' (pr_ExpiresAt rec) s1
           in if (st = StatusCompleted \<or> st = StatusFailed) \<and> \<not> p_skipDrainEvents s2
              then recordDrainEvent kv H now rec' st s2 else s2))"

definition SetDrainEventsEnabled :: "bool \<Rightarrow> 'd Pebble \<Rightarrow> 'd Pebble" where
  "SetDrainEventsEnabled enabled s = s\<lparr>p_skipDrainEvents := \<not> enabled\<rparr>"

definition as_queued :: "pebbleRecord \<Rightarrow> Job" where
  "as_queued rec = (pr_Job rec)\<lparr>j_Status := StatusQueued\<rparr>"

definition RecoverQueued :: "('d, stored) kv \<Rightarrow> ms \<Rightarrow> string \<Rightarrow> 'd Pebble \<Rightarrow> Job list" where
  "RecoverQueued kv now queueKey s =
     map as_queued (filter (\<lambda>rec. pr_QueueKey rec = queueKey
        \<and> (j_Status (pr_Job rec) = StatusQueued \<or> j_Status (pr_Job rec) = StatusInFlight)) (forEachJob kv now s))"

definition store_Counts :: "'d Pebble \<Rightarrow> Counts" where
  "store_Counts s =
     (let queued = max (p_queued s) 0; inFlight = max (p_inFlight s) 0
      in \<lparr> c_TotalJobs = queued + inFlight, c_QueueDepth = queued \<rparr>)"

definition GetJob :: "('d, stored) kv \<Rightarrow> ms \<Rightarrow> string \<Rightarrow> 'd Pebble \<Rightarrow> Job option" where
  "GetJob kv now jobID s =
     (case getRecord kv jobID s of
        None \<Rightarrow> None
      | Some rec \<Rightarrow> if pr_ExpiresAt rec \<le> now then None else Some (pr_Job rec))"

definition GetQueuedJobs :: "('d, stored) kv \<Rightarrow> ms \<Rightarrow> 'd Pebble \<Rightarrow> Job list" where
  "GetQueuedJobs kv now s =
     map as_queued (filter (\<lambda>rec. j_Status (pr_Job rec) = StatusQueued \<or> j_Status (pr_Job rec) = StatusInFlight)
       (forEachJob kv now s))"

definition ListIdempotentKeys ::
  "('d, stored) kv \<Rightarrow> (string \<Rightarrow> string) \<Rightarrow> ms \<Rightarrow> 'd Pebble \<Rightarrow> LedgerEntry list" where
  "ListIdempotentKeys kv H now s =
     map (\<lambda>rec. \<lparr> le_HashKey = IdempotencyHash H (pr_Job rec), le_JobID = j_ID (pr_Job rec),
                  le_Status = j_Status (pr_Job rec) \<rparr>)
       (filter (\<lambda>rec. \<not> IsWebhookDelivery (pr_Job rec)) (forEachJob kv now s))"

definition deletePrefix :: "('d, stored) kv \<Rightarrow> string \<Rightarrow> string \<Rightarrow> 'd Pebble \<Rightarrow> 'd Pebble" where
  "deletePrefix kv lower upper s =
     (case kv_iter kv (p_db s) lower upper of
        None \<Rightarrow> s
      | Some xs \<Rightarrow> fold (\<lambda>(k, _). commit_logged kv [BDelete k]) xs s)"

definition ClearIdempotentKeys :: "('d, stored) kv \<Rightarrow> 'd Pebble \<Rightarrow> 'd Pebble" where
  "ClearIdempotentKeys kv s =
     (let s1 = deletePrefix kv ''job:'' ''job;'' s;
          s2 = deletePrefix kv ''idem:'' ''idem;'' s1;
          s3 = deletePrefix kv ''exp:'' ''exp;'' s2;
          s4 = deletePrefix kv ''drain:seq:'' ''drain:seq;'' s3;
          s5 = deletePrefix kv ''drain:job:'' ''drain:job;'' s4;
          s6 = commit_logged kv [BDelete drainSequenceMetaKey] s5
      in s6\<lparr>p_queued := 0, p_inFlight := 0\<rparr>)"

definition drain_events :: "('d, stored) kv \<Rightarrow> 'd Pebble \<Rightarrow> DrainEvent list option" where
  "drain_events kv s =
     map_option (List.map_filter (\<lambda>(_, val). unmarshal_event val))
       (kv_iter kv (p_db s) ''drain:seq:'' ''drain:seq;'')"

definition ListDrainEvents :: "('d, stored) kv \<Rightarrow> int \<Rightarrow> 'd Pebble \<Rightarrow> DrainEvent list" where
  "ListDrainEvents kv limit s =
     (let limit' = (if limit \<le> 0 then 1000 else limit)
      in case drain_events kv s of None \<Rightarrow> [] | Some events \<Rightarrow> take (nat limit') events)"

definition AcknowledgeDrainEventsThrough :: "('d, stored) kv \<Rightarrow> int \<Rightarrow> 'd Pebble \<Rightarrow> 'd Pebble" where
  "AcknowledgeDrainEventsThrough kv sequence s =
     (if sequence \<le> 0 then s
      else case drain_events kv s of
             None \<Rightarrow> s
           | Some events \<Rightarrow>
               commit_logged kv
                 (concat (map (\<lambda>e. [BDelete (drainSeqKey (de_Sequence e)), BDelete (drainJobKey (de_JobID e))])
                    (takeWhile (\<lambda>e. \<not> de_Sequence e > sequence) events))) s)"

definition expireBatchSize :: nat where "expireBatchSize = 512"

definition expire_commit ::
  "('d, stored) kv \<Rightarrow> stored batch_op list \<Rightarrow> Status list \<Rightarrow> 'd Pebble \<Rightarrow> bool \<times> 'd Pebble" where
  "expire_commit kv batch statuses s =
     (case kv_commit kv (p_db s) batch of
        None \<Rightarrow> (False, s)
      | Some db \<Rightarrow> (True, fold (\<lambda>st. countStatus st (- 1)) statuses (s\<lparr>p_db := db\<rparr>)))"

fun expire_loop ::
  "('d, stored) kv \<Rightarrow> (string \<Rightarrow> string) \<Rightarrow> ms \<Rightarrow> string list \<Rightarrow> stored batch_op list \<Rightarrow> Status list \<Rightarrow> 'd Pebble
     \<Rightarrow> 'd Pebble" where
  "expire_loop kv H now [] batch statuses s =
     snd (expire_commit kv (batch @ [BDeleteRange ''exp:'' (expKeyBound now)]) statuses s)"
| "expire_loop kv H now (k # ks) batch statuses s =
     (if length k \<le> 21 then expire_loop kv H now ks batch statuses s
      else (let jid = drop 21 k
            in case getRecord kv jid s of
                 None \<Rightarrow> expire_loop kv H now ks batch statuses s
               | Some rec \<Rightarrow>
                   if pr_ExpiresAt rec \<ge> now then expire_loop kv H now ks batch statuses s
                   else (let batch' = batch @ delete_ops H jid rec;
                             statuses' = statuses @ [j_Status (pr_Job rec)]
                         in if length statuses' = expireBatchSize
                            then (case expire_commit kv batch' statuses' s of
                                    (done, s') \<Rightarrow> if done then expire_loop kv H now ks [] [] s' else s')
                            else expire_loop kv H now ks batch' statuses' s)))"

definition deleteExpired :: "('d, stored) kv \<Rightarrow> (string \<Rightarrow> string) \<Rightarrow> ms \<Rightarrow> 'd Pebble \<Rightarrow> 'd Pebble" where
  "deleteExpired kv H now s =
     (case kv_iter kv (p_db s) ''exp:'' (expKeyBound now) of
        None \<Rightarrow> s
      | Some xs \<Rightarrow> if xs = [] then s else expire_loop kv H now (map fst xs) [] [] s)"

lemmas store_op_defs = commit_logged_def CheckOrInsert_def getRecord_def putRecord_def putRecordWithExpiry_def
  SetQueueKey_def DeleteJob_def PutResult_def RecordRetry_def UpdateStatus_def

end
