(* ===== verification/Pebble_Laws.thy ===== *)
theory Pebble_Laws
  imports Pebble_Store
begin

text \<open>
  What the Pebble store promises.  The database is read through typed views (the
  records, the indexes, the drain events); every operation is an update of these
  views, and the invariant \<open>store_ok\<close> relates the records to the indexes and to the
  counters.
\<close>

section \<open>Keys\<close>

lemma keys_apart [simp]:
  "jobKey i \<noteq> idemKey h" "jobKey i \<noteq> expKey e j" "jobKey i \<noteq> queueIndexKey q c j2"
  "jobKey i \<noteq> drainSeqKey n" "jobKey i \<noteq> drainJobKey d" "jobKey i \<noteq> drainSequenceMetaKey"
  "jobKey i \<noteq> queueIndexMarker" "jobKey i \<noteq> expIndexMarker" "idemKey h \<noteq> jobKey i"
  "idemKey h \<noteq> expKey e j" "idemKey h \<noteq> queueIndexKey q c j2" "idemKey h \<noteq> drainSeqKey n"
  "idemKey h \<noteq> drainJobKey d" "idemKey h \<noteq> drainSequenceMetaKey" "idemKey h \<noteq> queueIndexMarker"
  "idemKey h \<noteq> expIndexMarker" "expKey e j \<noteq> jobKey i" "expKey e j \<noteq> idemKey h"
  "expKey e j \<noteq> queueIndexKey q c j2" "expKey e j \<noteq> drainSeqKey n" "expKey e j \<noteq> drainJobKey d"
  "expKey e j \<noteq> drainSequenceMetaKey" "expKey e j \<noteq> queueIndexMarker" "expKey e j \<noteq> expIndexMarker"
  "queueIndexKey q c j2 \<noteq> jobKey i" "queueIndexKey q c j2 \<noteq> idemKey h" "queueIndexKey q c j2 \<noteq> expKey e j"
  "queueIndexKey q c j2 \<noteq> drainSeqKey n" "queueIndexKey q c j2 \<noteq> drainJobKey d" "queueIndexKey q c j2 \<noteq> drainSequenceMetaKey"
  "queueIndexKey q c j2 \<noteq> queueIndexMarker" "queueIndexKey q c j2 \<noteq> expIndexMarker" "drainSeqKey n \<noteq> jobKey i"
  "drainSeqKey n \<noteq> idemKey h" "drainSeqKey n \<noteq> expKey e j" "drainSeqKey n \<noteq> queueIndexKey q c j2"
  "drainSeqKey n \<noteq> drainJobKey d" "drainSeqKey n \<noteq> drainSequenceMetaKey" "drainSeqKey n \<noteq> queueIndexMarker"
  "drainSeqKey n \<noteq> expIndexMarker" "drainJobKey d \<noteq> jobKey i" "drainJobKey d \<noteq> idemKey h"
  "drainJobKey d \<noteq> expKey e j" "drainJobKey d \<noteq> queueIndexKey q c j2" "drainJobKey d \<noteq> drainSeqKey n"
  "drainJobKey d \<noteq> drainSequenceMetaKey" "drainJobKey d \<noteq> queueIndexMarker" "drainJobKey d \<noteq> expIndexMarker"
  "drainSequenceMetaKey \<noteq> jobKey i" "drainSequenceMetaKey \<noteq> idemKey h" "drainSequenceMetaKey \<noteq> expKey e j"
  "drainSequenceMetaKey \<noteq> queueIndexKey q c j2" "drainSequenceMetaKey \<noteq> drainSeqKey n" "drainSequenceMetaKey \<noteq> drainJobKey d"
  "drainSequenceMetaKey \<noteq> queueIndexMarker" "drainSequenceMetaKey \<noteq> expIndexMarker" "queueIndexMarker \<noteq> jobKey i"
  "queueIndexMarker \<noteq> idemKey h" "queueIndexMarker \<noteq> expKey e j" "queueIndexMarker \<noteq> queueIndexKey q c j2"
  "queueIndexMarker \<noteq> drainSeqKey n" "queueIndexMarker \<noteq> drainJobKey d" "queueIndexMarker \<noteq> drainSequenceMetaKey"
  "queueIndexMarker \<noteq> expIndexMarker" "expIndexMarker \<noteq> jobKey i" "expIndexMarker \<noteq> idemKey h"
  "expIndexMarker \<noteq> expKey e j" "expIndexMarker \<noteq> queueIndexKey q c j2" "expIndexMarker \<noteq> drainSeqKey n"
  "expIndexMarker \<noteq> drainJobKey d" "expIndexMarker \<noteq> drainSequenceMetaKey" "expIndexMarker \<noteq> queueIndexMarker"
  by (simp_all add: key_defs)

lemma keys_inject [simp]:
  "jobKey i = jobKey i' \<longleftrightarrow> i = i'" "idemKey h = idemKey h' \<longleftrightarrow> h = h'"
  "drainJobKey i = drainJobKey i' \<longleftrightarrow> i = i'"
  by (simp_all add: key_defs)

text \<open>The instants of the model: non-negative and below the largest 64-bit integer.\<close>

definition in63 :: "int \<Rightarrow> bool" where
  "in63 n \<longleftrightarrow> 0 \<le> n \<and> n < 2 ^ 63 - 1"

lemma in63_64: "in63 n \<Longrightarrow> 0 \<le> n \<and> n < 2 ^ 64"
  by (simp add: in63_def)

lemma to_uint64_in63: "in63 n \<Longrightarrow> to_uint64 n = n"
  by (simp add: in63_def to_uint64_def)

lemma expKey_inject: "in63 e \<Longrightarrow> in63 e' \<Longrightarrow> expKey e i = expKey e' i' \<longleftrightarrow> e = e' \<and> i = i'"
  using hex16_inject [of e e' "'':'' @ i" "'':'' @ i'"] by (simp add: expKey_def in63_def)

lemma nul_split: "nul \<notin> set q \<Longrightarrow> nul \<notin> set q' \<Longrightarrow> q @ nul # r = q' @ nul # r' \<longleftrightarrow> q = q' \<and> r = r'"
proof (induction q arbitrary: q')
  case Nil
  then show ?case by (cases q') auto
next
  case (Cons a q)
  then show ?case by (cases q') auto
qed

lemma queueIndexKey_inject:
  assumes "nul \<notin> set q" "nul \<notin> set q'" "in63 c" "in63 c'"
  shows "queueIndexKey q c i = queueIndexKey q' c' i' \<longleftrightarrow> q = q' \<and> c = c' \<and> i = i'"
  using assms hex16_inject [of c c' "'':'' @ i" "'':'' @ i'"] in63_64
  by (simp add: queueIndexKey_def nul_split to_uint64_in63)

text \<open>Sequence numbers stay far below the range of the formatted key.\<close>

definition seq_ok :: "int \<Rightarrow> bool" where
  "seq_ok n \<longleftrightarrow> 0 < n \<and> n < 2 ^ 62"

lemma drainSeqKey_fixed:
  assumes "seq_ok n"
  shows "drainSeqKey n = ''drain:seq:'' @ fixed_digits 10 digit_char 19 (nat (n + 1000000000000000000))"
proof -
  have "wrap64 (n + 1000000000000000000) = n + 1000000000000000000"
    using assms by (intro wrap64_id) (auto simp: seq_ok_def int64_min_def int64_max_def)
  moreover have "(10::nat) ^ 18 \<le> nat (n + 1000000000000000000)"
    "nat (n + 1000000000000000000) < (10::nat) ^ Suc 18"
    using assms by (auto simp: seq_ok_def nat_less_iff le_nat_iff)
  then have "nat_digits (nat (n + 1000000000000000000)) = fixed_digits 10 digit_char (Suc 18) (nat (n + 1000000000000000000))"
    by (rule nat_digits_fixed)
  ultimately show ?thesis using assms by (simp add: drainSeqKey_def itoa_def seq_ok_def)
qed

lemma drainSeqKey_order:
  assumes "seq_ok n" "seq_ok n'"
  shows "str_less (drainSeqKey n) (drainSeqKey n') \<longleftrightarrow> n < n'"
proof -
  let ?f = "\<lambda>n. nat (n + 1000000000000000000)"
  have "?f n < 10 ^ 19" "?f n' < 10 ^ 19"
    using assms by (auto simp: seq_ok_def nat_less_iff)
  from fixed_digits_order [OF _ digit_char_order this(2,1), of "[]" "[]"] assms
  have "str_le (fixed_digits 10 digit_char 19 (?f n')) (fixed_digits 10 digit_char 19 (?f n)) \<longleftrightarrow> n' \<le> n"
    by (auto simp: seq_ok_def)
  then show ?thesis using assms
    by (simp add: drainSeqKey_fixed str_less_iff_not_le not_le)
qed

lemma drainSeqKey_inject: "seq_ok n \<Longrightarrow> seq_ok n' \<Longrightarrow> drainSeqKey n = drainSeqKey n' \<longleftrightarrow> n = n'"
  using drainSeqKey_order [of n n'] drainSeqKey_order [of n' n] by (metis linorder_neqE str_less_irrefl)

section \<open>Views of the database\<close>

type_synonym table = "string \<Rightarrow> stored option"

definition recs_of :: "table \<Rightarrow> string \<Rightarrow> pebbleRecord option" where
  "recs_of m i = Option.bind (m (jobKey i)) unmarshal_record"

definition idem_of :: "table \<Rightarrow> string \<Rightarrow> string option" where
  "idem_of m h = map_option bytes_of (m (idemKey h))"

definition exps_of :: "table \<Rightarrow> (ms \<times> string) set" where
  "exps_of m = {(e, i). in63 e \<and> m (expKey e i) \<noteq> None}"

definition qidx_of :: "table \<Rightarrow> (string \<times> ms \<times> string) set" where
  "qidx_of m = {(q, c, i). nul \<notin> set q \<and> in63 c \<and> m (queueIndexKey q c i) \<noteq> None}"

definition events_of :: "table \<Rightarrow> int \<Rightarrow> DrainEvent option" where
  "events_of m n = (if seq_ok n then Option.bind (m (drainSeqKey n)) unmarshal_event else None)"

definition djobs_of :: "table \<Rightarrow> string set" where
  "djobs_of m = {i. m (drainJobKey i) \<noteq> None}"

definition seq_of :: "table \<Rightarrow> int" where
  "seq_of m = (case m drainSequenceMetaKey of
     None \<Rightarrow> 0 | Some v \<Rightarrow> (case parse_int64 (bytes_of v) of Some n \<Rightarrow> n | None \<Rightarrow> 0))"

lemmas view_defs = recs_of_def idem_of_def exps_of_def qidx_of_def events_of_def djobs_of_def seq_of_def

lemma view_job [simp]:
  "recs_of (m(jobKey i := v)) = (recs_of m)(i := Option.bind v unmarshal_record)"
  "idem_of (m(jobKey i := v)) = idem_of m" "exps_of (m(jobKey i := v)) = exps_of m"
  "qidx_of (m(jobKey i := v)) = qidx_of m" "events_of (m(jobKey i := v)) = events_of m"
  "djobs_of (m(jobKey i := v)) = djobs_of m" "seq_of (m(jobKey i := v)) = seq_of m"
  by (auto simp: view_defs fun_eq_iff)

lemma view_idem [simp]:
  "recs_of (m(idemKey h := v)) = recs_of m"
  "idem_of (m(idemKey h := v)) = (idem_of m)(h := map_option bytes_of v)"
  "exps_of (m(idemKey h := v)) = exps_of m"
  "qidx_of (m(idemKey h := v)) = qidx_of m" "events_of (m(idemKey h := v)) = events_of m"
  "djobs_of (m(idemKey h := v)) = djobs_of m" "seq_of (m(idemKey h := v)) = seq_of m"
  by (auto simp: view_defs fun_eq_iff)

lemma view_exp [simp]:
  "recs_of (m(expKey e i := v)) = recs_of m" "idem_of (m(expKey e i := v)) = idem_of m"
  "in63 e \<Longrightarrow> exps_of (m(expKey e i := v)) = (if v = None then exps_of m - {(e, i)} else insert (e, i) (exps_of m))"
  "qidx_of (m(expKey e i := v)) = qidx_of m" "events_of (m(expKey e i := v)) = events_of m"
  "djobs_of (m(expKey e i := v)) = djobs_of m" "seq_of (m(expKey e i := v)) = seq_of m"
  by (auto simp: view_defs fun_eq_iff expKey_inject)

lemma view_qidx [simp]:
  "recs_of (m(queueIndexKey q c i := v)) = recs_of m" "idem_of (m(queueIndexKey q c i := v)) = idem_of m"
  "exps_of (m(queueIndexKey q c i := v)) = exps_of m"
  "nul \<notin> set q \<Longrightarrow> in63 c \<Longrightarrow> qidx_of (m(queueIndexKey q c i := v)) =
     (if v = None then qidx_of m - {(q, c, i)} else insert (q, c, i) (qidx_of m))"
  "events_of (m(queueIndexKey q c i := v)) = events_of m"
  "djobs_of (m(queueIndexKey q c i := v)) = djobs_of m" "seq_of (m(queueIndexKey q c i := v)) = seq_of m"
  by (auto simp: view_defs fun_eq_iff queueIndexKey_inject)

lemma view_seq [simp]:
  "recs_of (m(drainSeqKey n := v)) = recs_of m" "idem_of (m(drainSeqKey n := v)) = idem_of m"
  "exps_of (m(drainSeqKey n := v)) = exps_of m" "qidx_of (m(drainSeqKey n := v)) = qidx_of m"
  "seq_ok n \<Longrightarrow> events_of (m(drainSeqKey n := v)) = (events_of m)(n := Option.bind v unmarshal_event)"
  "djobs_of (m(drainSeqKey n := v)) = djobs_of m" "seq_of (m(drainSeqKey n := v)) = seq_of m"
  by (auto simp: view_defs fun_eq_iff drainSeqKey_inject)

lemma view_djob [simp]:
  "recs_of (m(drainJobKey i := v)) = recs_of m" "idem_of (m(drainJobKey i := v)) = idem_of m"
  "exps_of (m(drainJobKey i := v)) = exps_of m" "qidx_of (m(drainJobKey i := v)) = qidx_of m"
  "events_of (m(drainJobKey i := v)) = events_of m"
  "djobs_of (m(drainJobKey i := v)) = (if v = None then djobs_of m - {i} else insert i (djobs_of m))"
  "seq_of (m(drainJobKey i := v)) = seq_of m"
  by (auto simp: view_defs fun_eq_iff)

lemma view_meta [simp]:
  "k \<in> {drainSequenceMetaKey, queueIndexMarker, expIndexMarker} \<Longrightarrow> recs_of (m(k := v)) = recs_of m"
  "k \<in> {drainSequenceMetaKey, queueIndexMarker, expIndexMarker} \<Longrightarrow> idem_of (m(k := v)) = idem_of m"
  "k \<in> {drainSequenceMetaKey, queueIndexMarker, expIndexMarker} \<Longrightarrow> exps_of (m(k := v)) = exps_of m"
  "k \<in> {drainSequenceMetaKey, queueIndexMarker, expIndexMarker} \<Longrightarrow> qidx_of (m(k := v)) = qidx_of m"
  "k \<in> {drainSequenceMetaKey, queueIndexMarker, expIndexMarker} \<Longrightarrow> events_of (m(k := v)) = events_of m"
  "k \<in> {drainSequenceMetaKey, queueIndexMarker, expIndexMarker} \<Longrightarrow> djobs_of (m(k := v)) = djobs_of m"
  "k \<in> {queueIndexMarker, expIndexMarker} \<Longrightarrow> seq_of (m(k := v)) = seq_of m"
  by (auto simp: view_defs fun_eq_iff)

section \<open>The invariant\<close>

definition rec_ok :: "string \<Rightarrow> pebbleRecord \<Rightarrow> bool" where
  "rec_ok i r \<longleftrightarrow> j_ID (pr_Job r) = i \<and> i \<noteq> '''' \<and> in63 (j_CreatedAt (pr_Job r)) \<and> in63 (pr_ExpiresAt r)
     \<and> nul \<notin> set (pr_QueueKey r) \<and> j_DedupHash (pr_Job r) = ''''"

definition entry_ok :: "string \<Rightarrow> stored \<Rightarrow> bool" where
  "entry_ok k v \<longleftrightarrow>
     (\<forall>i. k = jobKey i \<longrightarrow> (\<exists>r. v = SRecord r \<and> rec_ok i r))
   \<and> (\<forall>h. k = idemKey h \<longrightarrow> (\<exists>i. v = SText i))
   \<and> (\<forall>x. k = ''exp:'' @ x \<longrightarrow> (\<exists>e i. in63 e \<and> i \<noteq> '''' \<and> k = expKey e i))
   \<and> (\<forall>x. k = ''qk:'' @ x \<longrightarrow> (\<exists>q c i. nul \<notin> set q \<and> in63 c \<and> i \<noteq> '''' \<and> k = queueIndexKey q c i))
   \<and> (\<forall>x. k = ''drain:seq:'' @ x \<longrightarrow> (\<exists>n e. seq_ok n \<and> v = SEvent e \<and> de_Sequence e = n \<and> k = drainSeqKey n))"

definition shape_ok :: "table \<Rightarrow> bool" where
  "shape_ok m \<longleftrightarrow> finite (dom m) \<and> (\<forall>k v. m k = Some v \<longrightarrow> entry_ok k v)"

definition pending_rec :: "pebbleRecord \<Rightarrow> bool" where
  "pending_rec r \<longleftrightarrow> pendingStatus (j_Status (pr_Job r))"

definition index_ok :: "(string \<Rightarrow> string) \<Rightarrow> ms \<Rightarrow> table \<Rightarrow> bool" where
  "index_ok H T m \<longleftrightarrow>
     (\<forall>h i. idem_of m h = Some i \<longleftrightarrow> (\<exists>r. recs_of m i = Some r \<and> IdempotencyHash H (pr_Job r) = h))
   \<and> (\<forall>i r e. recs_of m i = Some r \<longrightarrow> ((e, i) \<in> exps_of m \<longleftrightarrow> e = pr_ExpiresAt r))
   \<and> (\<forall>i r. recs_of m i = Some r \<and> pending_rec r \<and> pr_QueueKey r \<noteq> '''' \<and> T < pr_ExpiresAt r
        \<longrightarrow> (pr_QueueKey r, j_CreatedAt (pr_Job r), i) \<in> qidx_of m)
   \<and> (\<forall>q c i r. (q, c, i) \<in> qidx_of m \<and> recs_of m i = Some r \<longrightarrow> c = j_CreatedAt (pr_Job r))"

definition with_status :: "table \<Rightarrow> Status \<Rightarrow> string set" where
  "with_status m st = {i. \<exists>r. recs_of m i = Some r \<and> j_Status (pr_Job r) = st}"

definition count_ok :: "table \<Rightarrow> int \<Rightarrow> int \<Rightarrow> bool" where
  "count_ok m queued inFlight \<longleftrightarrow>
     queued = int (card (with_status m StatusQueued)) \<and> inFlight = int (card (with_status m StatusInFlight))"

definition drain_ok :: "table \<Rightarrow> bool" where
  "drain_ok m \<longleftrightarrow> 0 \<le> seq_of m
   \<and> (\<forall>n e. events_of m n = Some e \<longrightarrow> n \<le> seq_of m \<and> de_Sequence e = n \<and> de_JobID e \<in> djobs_of m)
   \<and> (\<forall>n n' e e'. events_of m n = Some e \<and> events_of m n' = Some e' \<and> de_JobID e = de_JobID e' \<longrightarrow> n = n')
   \<and> (\<forall>i\<in>djobs_of m. \<exists>n e. events_of m n = Some e \<and> de_JobID e = i)"

definition store_ok :: "(string \<Rightarrow> string) \<Rightarrow> ms \<Rightarrow> table \<Rightarrow> int \<Rightarrow> int \<Rightarrow> bool" where
  "store_ok H T m queued inFlight \<longleftrightarrow>
     shape_ok m \<and> index_ok H T m \<and> count_ok m queued inFlight \<and> drain_ok m"

lemma shape_upd:
  "shape_ok m \<Longrightarrow> (\<And>v. x = Some v \<Longrightarrow> entry_ok k v) \<Longrightarrow> shape_ok (m(k := x))"
  unfolding shape_ok_def by (auto simp: dom_fun_upd split: if_splits)

lemma shape_sub: "shape_ok m \<Longrightarrow> m' \<subseteq>\<^sub>m m \<Longrightarrow> shape_ok m'"
  unfolding shape_ok_def map_le_def by (metis domI finite_subset map_le_def map_le_implies_dom_le)

lemma entry_ok_keys [simp]:
  "entry_ok (jobKey i) v \<longleftrightarrow> (\<exists>r. v = SRecord r \<and> rec_ok i r)"
  "entry_ok (idemKey h) v \<longleftrightarrow> (\<exists>i. v = SText i)"
  "in63 e \<Longrightarrow> i \<noteq> '''' \<Longrightarrow> entry_ok (expKey e i) v"
  "nul \<notin> set q \<Longrightarrow> in63 c \<Longrightarrow> i \<noteq> '''' \<Longrightarrow> entry_ok (queueIndexKey q c i) v"
  "entry_ok (drainJobKey i) v" "entry_ok drainSequenceMetaKey v" "entry_ok queueIndexMarker v" "entry_ok expIndexMarker v"
  "seq_ok (de_Sequence ev) \<Longrightarrow> entry_ok (drainSeqKey (de_Sequence ev)) (SEvent ev)"
  unfolding entry_ok_def by (auto simp: key_defs)

lemma recs_shape:
  assumes "shape_ok m" and "recs_of m i = Some r"
  shows "rec_ok i r" and "m (jobKey i) = Some (SRecord r)"
proof -
  obtain v where v: "m (jobKey i) = Some v" "unmarshal_record v = Some r"
    using assms(2) by (auto simp: recs_of_def bind_eq_Some_conv)
  with assms(1) have "entry_ok (jobKey i) v" unfolding shape_ok_def by blast
  with v show "rec_ok i r" and "m (jobKey i) = Some (SRecord r)" by auto
qed

lemma finite_with_status: "shape_ok m \<Longrightarrow> finite (with_status m st)"
proof -
  assume "shape_ok m"
  then have "finite (jobKey -` dom m)" by (intro finite_vimageI) (auto simp: shape_ok_def inj_on_def)
  moreover have "with_status m st \<subseteq> jobKey -` dom m"
    by (auto simp: with_status_def recs_of_def bind_eq_Some_conv)
  ultimately show ?thesis by (rule finite_subset [rotated])
qed

definition count1 :: "Status \<Rightarrow> Status \<Rightarrow> int" where
  "count1 st st' = (if st = st' then 1 else 0)"

definition rec_status :: "table \<Rightarrow> string \<Rightarrow> Status \<Rightarrow> int" where
  "rec_status m i st = (case recs_of m i of None \<Rightarrow> 0 | Some r \<Rightarrow> count1 (j_Status (pr_Job r)) st)"

lemma card_with_status_upd:
  assumes "shape_ok m" and "\<And>k. k \<noteq> i \<Longrightarrow> recs_of m' k = recs_of m k"
  shows "int (card (with_status m' st)) = int (card (with_status m st)) - rec_status m i st + rec_status m' i st"
proof -
  let ?A = "with_status m st - {i}"
  have fin: "finite ?A" using finite_with_status [OF assms(1)] by simp
  have other: "x \<noteq> i \<Longrightarrow> x \<in> with_status m' st \<longleftrightarrow> x \<in> with_status m st" for x
    using assms(2) by (simp add: with_status_def)
  have self: "i \<in> with_status n st \<longleftrightarrow> rec_status n i st = 1" for n
    by (auto simp: with_status_def rec_status_def count1_def split: option.splits)
  have "with_status m st = (if rec_status m i st = 1 then insert i ?A else ?A)"
    using self [of m] by auto
  moreover have "with_status m' st = (if rec_status m' i st = 1 then insert i ?A else ?A)"
  proof (rule set_eqI)
    fix x
    show "x \<in> with_status m' st \<longleftrightarrow> x \<in> (if rec_status m' i st = 1 then insert i ?A else ?A)"
      using self [of m'] other [of x] by (cases "x = i") auto
  qed
  moreover have "rec_status m i st \<in> {0, 1}" "rec_status m' i st \<in> {0, 1}"
    by (auto simp: rec_status_def count1_def split: option.splits)
  ultimately show ?thesis
    using fin card_insert_disjoint [OF fin, of i] by (auto split: if_splits)
qed

lemma count_ok_upd:
  assumes "count_ok m a b" and "shape_ok m" and "\<And>k. k \<noteq> i \<Longrightarrow> recs_of m' k = recs_of m k"
    and "a' = a - rec_status m i StatusQueued + rec_status m' i StatusQueued"
    and "b' = b - rec_status m i StatusInFlight + rec_status m' i StatusInFlight"
  shows "count_ok m' a' b'"
  using assms(1,4,5) card_with_status_upd [OF assms(2,3)] by (simp add: count_ok_def)

lemma store_okD:
  assumes "store_ok H T m a b"
  shows "shape_ok m" and "index_ok H T m" and "count_ok m a b" and "drain_ok m"
  using assms by (simp_all add: store_ok_def)

lemma index_okD:
  assumes "index_ok H T m"
  shows "idem_of m h = Some i \<longleftrightarrow> (\<exists>r. recs_of m i = Some r \<and> IdempotencyHash H (pr_Job r) = h)"
    and "recs_of m i = Some r \<Longrightarrow> (e, i) \<in> exps_of m \<longleftrightarrow> e = pr_ExpiresAt r"
    and "recs_of m i = Some r \<Longrightarrow> pending_rec r \<Longrightarrow> pr_QueueKey r \<noteq> '''' \<Longrightarrow> T < pr_ExpiresAt r
      \<Longrightarrow> (pr_QueueKey r, j_CreatedAt (pr_Job r), i) \<in> qidx_of m"
    and "(q, c, i) \<in> qidx_of m \<Longrightarrow> recs_of m i = Some r \<Longrightarrow> c = j_CreatedAt (pr_Job r)"
  using assms by (auto simp: index_ok_def)

lemma hash_unique:
  assumes "index_ok H T m" "recs_of m i = Some r" "recs_of m i' = Some r'"
    and "IdempotencyHash H (pr_Job r) = IdempotencyHash H (pr_Job r')"
  shows "i = i'"
  using assms index_okD(1) [OF assms(1)] by (metis option.inject)

lemma drain_ok_cong:
  "drain_ok m \<Longrightarrow> events_of m' = events_of m \<Longrightarrow> djobs_of m' = djobs_of m \<Longrightarrow> seq_of m' = seq_of m \<Longrightarrow> drain_ok m'"
  by (simp add: drain_ok_def)

text \<open>One record changes, arrives or goes; the views of the others stay.\<close>

lemma store_ok_change:
  assumes ok: "store_ok H T m a b" and r: "recs_of m i = Some r"
    and shape: "shape_ok m'" and drain: "drain_ok m'" and le: "T \<le> T'"
    and recs: "recs_of m' = (recs_of m)(i \<mapsto> r')" and idem: "idem_of m' = idem_of m"
    and exps: "exps_of m' = insert (pr_ExpiresAt r', i) (exps_of m - {(pr_ExpiresAt r, i)})"
    and qidx: "\<And>q c j. j \<noteq> i \<Longrightarrow> (q, c, j) \<in> qidx_of m' \<longleftrightarrow> (q, c, j) \<in> qidx_of m"
    and own: "\<And>q c. (q, c, i) \<in> qidx_of m' \<Longrightarrow> c = j_CreatedAt (pr_Job r')"
    and kept: "pending_rec r' \<Longrightarrow> pr_QueueKey r' \<noteq> '''' \<Longrightarrow> T' < pr_ExpiresAt r'
      \<Longrightarrow> (pr_QueueKey r', j_CreatedAt (pr_Job r'), i) \<in> qidx_of m'"
    and hash: "IdempotencyHash H (pr_Job r') = IdempotencyHash H (pr_Job r)"
    and counts: "a' = a - count1 (j_Status (pr_Job r)) StatusQueued + count1 (j_Status (pr_Job r')) StatusQueued"
      "b' = b - count1 (j_Status (pr_Job r)) StatusInFlight + count1 (j_Status (pr_Job r')) StatusInFlight"
  shows "store_ok H T' m' a' b'"
proof -
  note index = store_okD(2) [OF ok]
  have "idem_of m' h = Some j \<longleftrightarrow> (\<exists>r. recs_of m' j = Some r \<and> IdempotencyHash H (pr_Job r) = h)" for h j
    using index_okD(1) [OF index, of h j] r hash by (auto simp: recs idem)
  moreover have "recs_of m' j = Some s \<Longrightarrow> (e, j) \<in> exps_of m' \<longleftrightarrow> e = pr_ExpiresAt s" for j s e
    using index_okD(2) [OF index, of j] r by (auto simp: recs exps split: if_splits)
  moreover have "(pr_QueueKey s, j_CreatedAt (pr_Job s), j) \<in> qidx_of m'"
    if "recs_of m' j = Some s" "pending_rec s" "pr_QueueKey s \<noteq> ''''" "T' < pr_ExpiresAt s" for j s
  proof (cases "j = i")
    case False
    with that le index_okD(3) [OF index, of j s] show ?thesis by (simp add: recs qidx)
  qed (use that kept recs in auto)
  moreover have "c = j_CreatedAt (pr_Job s)" if "(q, c, j) \<in> qidx_of m'" "recs_of m' j = Some s" for q c j s
    using that own [of q c] qidx [of j q c] index_okD(4) [OF index, of q c j s] by (cases "j = i") (auto simp: recs)
  ultimately have "index_ok H T' m'" unfolding index_ok_def by blast
  moreover have "count_ok m' a' b'"
    using store_okD(3) [OF ok] store_okD(1) [OF ok]
    by (rule count_ok_upd [where i = i]) (simp_all add: recs rec_status_def r counts)
  ultimately show ?thesis using shape drain by (simp add: store_ok_def)
qed

lemma store_ok_remove:
  assumes ok: "store_ok H T m a b" and r: "recs_of m i = Some r"
    and shape: "shape_ok m'" and drain: "drain_ok m'" and le: "T \<le> T'"
    and recs: "recs_of m' = (recs_of m)(i := None)"
    and idem: "idem_of m' = (idem_of m)(IdempotencyHash H (pr_Job r) := None)"
    and exps: "\<And>e j. j \<noteq> i \<Longrightarrow> (e, j) \<in> exps_of m' \<longleftrightarrow> (e, j) \<in> exps_of m"
    and qidx: "\<And>q c j. j \<noteq> i \<Longrightarrow> (q, c, j) \<in> qidx_of m' \<longleftrightarrow> (q, c, j) \<in> qidx_of m"
    and counts: "a' = a - count1 (j_Status (pr_Job r)) StatusQueued"
      "b' = b - count1 (j_Status (pr_Job r)) StatusInFlight"
  shows "store_ok H T' m' a' b'"
proof -
  note index = store_okD(2) [OF ok]
  have "idem_of m' h = Some j \<longleftrightarrow> (\<exists>r. recs_of m' j = Some r \<and> IdempotencyHash H (pr_Job r) = h)" for h j
  proof (cases "h = IdempotencyHash H (pr_Job r)")
    case True
    have "recs_of m j = Some s \<Longrightarrow> IdempotencyHash H (pr_Job s) = h \<Longrightarrow> j = i" for s
      using hash_unique [OF index r, of j s] True by simp
    then show ?thesis using True by (auto simp: recs idem)
  next
    case False
    then show ?thesis using index_okD(1) [OF index, of h j] r by (auto simp: recs idem)
  qed
  moreover have "recs_of m' j = Some s \<Longrightarrow> (e, j) \<in> exps_of m' \<longleftrightarrow> e = pr_ExpiresAt s" for j s e
    using index_okD(2) [OF index, of j] exps [of j e] by (auto simp: recs split: if_splits)
  moreover have "(pr_QueueKey s, j_CreatedAt (pr_Job s), j) \<in> qidx_of m'"
    if "recs_of m' j = Some s" "pending_rec s" "pr_QueueKey s \<noteq> ''''" "T' < pr_ExpiresAt s" for j s
    using that le index_okD(3) [OF index, of j s] qidx [of j] by (auto simp: recs split: if_splits)
  moreover have "c = j_CreatedAt (pr_Job s)" if "(q, c, j) \<in> qidx_of m'" "recs_of m' j = Some s" for q c j s
    using that qidx [of j q c] index_okD(4) [OF index, of q c j s] by (auto simp: recs split: if_splits)
  ultimately have "index_ok H T' m'" unfolding index_ok_def by blast
  moreover have "count_ok m' a' b'"
    using store_okD(3) [OF ok] store_okD(1) [OF ok]
    by (rule count_ok_upd [where i = i]) (simp_all add: recs rec_status_def r counts)
  ultimately show ?thesis using shape drain by (simp add: store_ok_def)
qed

definition unused_id :: "table \<Rightarrow> string \<Rightarrow> bool" where
  "unused_id m i \<longleftrightarrow> recs_of m i = None \<and> (\<forall>e. (e, i) \<notin> exps_of m) \<and> (\<forall>q c. (q, c, i) \<notin> qidx_of m)"

lemma store_ok_add:
  assumes ok: "store_ok H T m a b" and unused: "unused_id m i"
    and shape: "shape_ok m'" and drain: "drain_ok m'" and le: "T \<le> T'"
    and recs: "recs_of m' = (recs_of m)(i \<mapsto> r)" and fresh: "idem_of m h = None"
    and idem: "idem_of m' = (idem_of m)(h \<mapsto> i)" and h: "h = IdempotencyHash H (pr_Job r)"
    and exps: "exps_of m' = insert (pr_ExpiresAt r, i) (exps_of m)"
    and qidx: "qidx_of m' = qidx_of m" and noq: "pr_QueueKey r = ''''"
    and counts: "a' = a + count1 (j_Status (pr_Job r)) StatusQueued"
      "b' = b + count1 (j_Status (pr_Job r)) StatusInFlight"
  shows "store_ok H T' m' a' b'"
proof -
  note index = store_okD(2) [OF ok]
  have no_rec: "recs_of m i = None" using unused by (simp add: unused_id_def)
  have "idem_of m' h' = Some j \<longleftrightarrow> (\<exists>r. recs_of m' j = Some r \<and> IdempotencyHash H (pr_Job r) = h')" for h' j
    using index_okD(1) [OF index, of h' j] no_rec fresh by (auto simp: recs idem h)
  moreover have "recs_of m' j = Some s \<Longrightarrow> (e, j) \<in> exps_of m' \<longleftrightarrow> e = pr_ExpiresAt s" for j s e
    using index_okD(2) [OF index, of j] unused by (auto simp: recs exps unused_id_def split: if_splits)
  moreover have "(pr_QueueKey s, j_CreatedAt (pr_Job s), j) \<in> qidx_of m'"
    if "recs_of m' j = Some s" "pending_rec s" "pr_QueueKey s \<noteq> ''''" "T' < pr_ExpiresAt s" for j s
    using that le noq index_okD(3) [OF index, of j s] by (auto simp: recs qidx split: if_splits)
  moreover have "c = j_CreatedAt (pr_Job s)" if "(q, c, j) \<in> qidx_of m'" "recs_of m' j = Some s" for q c j s
    using that unused index_okD(4) [OF index, of q c j s] by (auto simp: recs qidx unused_id_def split: if_splits)
  ultimately have "index_ok H T' m'" unfolding index_ok_def by blast
  moreover have "count_ok m' a' b'"
    using store_okD(3) [OF ok] store_okD(1) [OF ok]
    by (rule count_ok_upd [where i = i]) (simp_all add: recs rec_status_def no_rec counts)
  ultimately show ?thesis using shape drain by (simp add: store_ok_def)
qed

section \<open>The operations on the views\<close>

definition committed :: "('d, stored) kv \<Rightarrow> 'd \<Rightarrow> stored batch_op list \<Rightarrow> 'd" where
  "committed kv db ops = the (kv_commit kv db ops)"

lemma countStatus_simps [simp]:
  "p_db (countStatus st d s) = p_db s"
  "p_skipDrainEvents (countStatus st d s) = p_skipDrainEvents s"
  "p_queued (countStatus st d s) = p_queued s + d * count1 st StatusQueued"
  "p_inFlight (countStatus st d s) = p_inFlight s + d * count1 st StatusInFlight"
  by (cases st; simp add: countStatus_def count1_def)+

lemma moveStatus_simps [simp]:
  "p_db (moveStatus a b s) = p_db s"
  "p_skipDrainEvents (moveStatus a b s) = p_skipDrainEvents s"
  "p_queued (moveStatus a b s) = p_queued s - count1 a StatusQueued + count1 b StatusQueued"
  "p_inFlight (moveStatus a b s) = p_inFlight s - count1 a StatusInFlight + count1 b StatusInFlight"
  by (simp_all add: moveStatus_def)

definition norm_job :: "Job \<Rightarrow> Job" where
  "norm_job j = j\<lparr>j_DedupHash := ''''\<rparr>"

lemma norm_job_simps [simp]:
  "j_ID (norm_job j) = j_ID j" "j_Status (norm_job j) = j_Status j" "j_CreatedAt (norm_job j) = j_CreatedAt j"
  "j_DedupHash (norm_job j) = ''''"
  by (simp_all add: norm_job_def)

lemma unmarshal_marshal [simp]:
  "unmarshal_record (marshal_record r) = Some (r\<lparr>pr_Job := norm_job (pr_Job r)\<rparr>)"
  by (simp add: marshal_record_def norm_job_def)

lemma marshal_plain: "j_DedupHash (pr_Job r) = '''' \<Longrightarrow> marshal_record r = SRecord r"
  by (simp add: marshal_record_def)

text \<open>A submitted job carries the hash of its own identity, or none yet.\<close>

definition dedup_consistent :: "(string \<Rightarrow> string) \<Rightarrow> Job \<Rightarrow> bool" where
  "dedup_consistent H j \<longleftrightarrow> j_DedupHash j = ''''
     \<or> j_DedupHash j = DedupHash H (j_UserID j) (j_IdempotentKey j) (j_IdempotencyScope j)"

lemma hash_norm_job: "dedup_consistent H j \<Longrightarrow> IdempotencyHash H (norm_job j) = IdempotencyHash H j"
  by (auto simp: dedup_consistent_def IdempotencyHash_def norm_job_def)

lemma hash_update [simp]:
  "IdempotencyHash H (j\<lparr>j_Status := st\<rparr>) = IdempotencyHash H j"
  "IdempotencyHash H (j\<lparr>j_Attempts := n\<rparr>) = IdempotencyHash H j"
  "IdempotencyHash H (j\<lparr>j_Attempts := n, j_Status := st\<rparr>) = IdempotencyHash H j"
  by (simp_all add: IdempotencyHash_def)

definition drop_range :: "string \<Rightarrow> string \<Rightarrow> table \<Rightarrow> table" where
  "drop_range lo hi m = (\<lambda>k. if str_le lo k \<and> str_less k hi then None else m k)"

lemma drop_range_le: "drop_range lo hi m \<subseteq>\<^sub>m m"
  by (auto simp: drop_range_def map_le_def dom_def)

lemma range_job: "str_le ''job:'' k \<and> str_less k ''job;'' \<longleftrightarrow> (\<exists>r. k = jobKey r)"
  using prefix_range [of "CHR '';''" "CHR '':''" "''job''" k] by (simp add: key_defs)

lemma range_idem: "str_le ''idem:'' k \<and> str_less k ''idem;'' \<longleftrightarrow> (\<exists>r. k = idemKey r)"
  using prefix_range [of "CHR '';''" "CHR '':''" "''idem''" k] by (simp add: key_defs)

lemma range_exp: "str_le ''exp:'' k \<and> str_less k ''exp;'' \<longleftrightarrow> (\<exists>r. k = ''exp:'' @ r)"
  using prefix_range [of "CHR '';''" "CHR '':''" "''exp''" k] by simp

lemma range_seq: "str_le ''drain:seq:'' k \<and> str_less k ''drain:seq;'' \<longleftrightarrow> (\<exists>r. k = ''drain:seq:'' @ r)"
  using prefix_range [of "CHR '';''" "CHR '':''" "''drain:seq''" k] by simp

lemma range_djob: "str_le ''drain:job:'' k \<and> str_less k ''drain:job;'' \<longleftrightarrow> (\<exists>r. k = drainJobKey r)"
  using prefix_range [of "CHR '';''" "CHR '':''" "''drain:job''" k] by (simp add: key_defs)

lemmas prefix_ranges = range_job range_idem range_exp range_seq range_djob

text \<open>The table that is left when a clear has dropped its five prefixes and the sequence.\<close>

definition cleared :: "table \<Rightarrow> table" where
  "cleared m = (drop_range ''drain:job:'' ''drain:job;'' (drop_range ''drain:seq:'' ''drain:seq;''
     (drop_range ''exp:'' ''exp;'' (drop_range ''idem:'' ''idem;'' (drop_range ''job:'' ''job;'' m)))))
     (drainSequenceMetaKey := None)"

lemma cleared_views:
  "recs_of (cleared m) = (\<lambda>_. None)" "idem_of (cleared m) = (\<lambda>_. None)" "exps_of (cleared m) = {}"
  "qidx_of (cleared m) = qidx_of m" "events_of (cleared m) = (\<lambda>_. None)" "djobs_of (cleared m) = {}"
  "seq_of (cleared m) = 0"
proof -
  have drop: "cleared m k = (if k = drainSequenceMetaKey \<or> (\<exists>r. k = jobKey r) \<or> (\<exists>r. k = idemKey r)
      \<or> (\<exists>r. k = ''exp:'' @ r) \<or> (\<exists>r. k = ''drain:seq:'' @ r) \<or> (\<exists>r. k = drainJobKey r) then None else m k)" for k
    by (simp add: cleared_def drop_range_def prefix_ranges)
  have gone: "cleared m (jobKey i) = None" "cleared m (idemKey i) = None" "cleared m (expKey e i) = None"
    "cleared m (drainSeqKey n) = None" "cleared m (drainJobKey i) = None" "cleared m drainSequenceMetaKey = None" for i e n
    unfolding drop by (auto simp: expKey_def drainSeqKey_def)
  have kept: "cleared m (queueIndexKey q c i) = m (queueIndexKey q c i)" for q c i
    unfolding drop by (auto simp: key_defs)
  show "recs_of (cleared m) = (\<lambda>_. None)" "idem_of (cleared m) = (\<lambda>_. None)" "exps_of (cleared m) = {}"
    "qidx_of (cleared m) = qidx_of m" "events_of (cleared m) = (\<lambda>_. None)" "djobs_of (cleared m) = {}"
    "seq_of (cleared m) = 0"
    by (simp_all add: view_defs gone kept fun_eq_iff)
qed

lemma store_ok_cleared: "store_ok H T m a b \<Longrightarrow> store_ok H T (cleared m) 0 0"
proof -
  assume ok: "store_ok H T m a b"
  have "cleared m \<subseteq>\<^sub>m m"
    by (auto simp: cleared_def drop_range_def map_le_def dom_def)
  then have "shape_ok (cleared m)" by (rule shape_sub [OF store_okD(1) [OF ok]])
  then show ?thesis
    by (simp add: store_ok_def index_ok_def count_ok_def drain_ok_def with_status_def cleared_views)
qed

text \<open>The batch that removes one job with its index entries.\<close>

lemma delete_ops_ok:
  fixes r
  assumes ok: "store_ok H T m a b" and r: "recs_of m i = Some r"
  defines "m' \<equiv> batch_apply (delete_ops H i r) m"
  shows "store_ok H T m' (a - count1 (j_Status (pr_Job r)) StatusQueued) (b - count1 (j_Status (pr_Job r)) StatusInFlight)"
    and "recs_of m' = (recs_of m)(i := None)" and "exps_of m' = exps_of m"
    and "events_of m' = events_of m" and "djobs_of m' = djobs_of m" and "seq_of m' = seq_of m"
proof -
  let ?q = "pr_QueueKey r" and ?c = "j_CreatedAt (pr_Job r)"
  have ro: "in63 ?c" "nul \<notin> set ?q" using recs_shape(1) [OF store_okD(1) [OF ok] r] by (auto simp: rec_ok_def)
  let ?m1 = "m(jobKey i := None, idemKey (IdempotencyHash H (pr_Job r)) := None)"
  have m': "m' = (if ?q \<noteq> '''' then ?m1(queueIndexKey ?q ?c i := None) else ?m1)"
    by (simp add: m'_def delete_ops_def)
  have shape: "shape_ok m'"
    using store_okD(1) [OF ok] by (auto intro!: shape_upd simp: m')
  have views: "recs_of m' = (recs_of m)(i := None)"
    "idem_of m' = (idem_of m)(IdempotencyHash H (pr_Job r) := None)" "exps_of m' = exps_of m"
    "events_of m' = events_of m" "djobs_of m' = djobs_of m" "seq_of m' = seq_of m"
    by (auto simp: m')
  have drain: "drain_ok m'" by (rule drain_ok_cong [OF store_okD(4) [OF ok] views(4-6)])
  have qidx: "qidx_of m' = qidx_of m - (if ?q \<noteq> '''' then {(?q, ?c, i)} else {})"
    using ro by (simp add: m')
  show "store_ok H T m' (a - count1 (j_Status (pr_Job r)) StatusQueued) (b - count1 (j_Status (pr_Job r)) StatusInFlight)"
    by (rule store_ok_remove [OF ok r shape drain order_refl views(1,2)]) (auto simp: views qidx)
qed (auto simp: m'_def delete_ops_def)

text \<open>What the callers guarantee of a job they hand in.\<close>

definition job_ok :: "(string \<Rightarrow> string) \<Rightarrow> ms \<Rightarrow> Job \<Rightarrow> bool" where
  "job_ok H now job \<longleftrightarrow> j_ID job \<noteq> '''' \<and> in63 (j_CreatedAt job) \<and> in63 (PendingExpiresAt now job)
     \<and> j_Status job = StatusQueued \<and> dedup_consistent H job"

definition store_inv :: "('d \<Rightarrow> table) \<Rightarrow> (string \<Rightarrow> string) \<Rightarrow> ms \<Rightarrow> 'd Pebble \<Rightarrow> bool" where
  "store_inv \<alpha> H T s = store_ok H T (\<alpha> (p_db s)) (p_queued s) (p_inFlight s)"

locale pebble_db = ordered_kv kv \<alpha>
  for kv :: "('d, stored) kv" and \<alpha> :: "'d \<Rightarrow> table"
begin

lemma commit_simps [simp]:
  "kv_commit kv db ops = Some (committed kv db ops)"
  "\<alpha> (committed kv db ops) = batch_apply ops (\<alpha> db)"
  using commit_law [of db ops] by (auto simp: committed_def)

lemma commit_logged_simps [simp]:
  "\<alpha> (p_db (commit_logged kv ops s)) = batch_apply ops (\<alpha> (p_db s))"
  "p_queued (commit_logged kv ops s) = p_queued s" "p_inFlight (commit_logged kv ops s) = p_inFlight s"
  "p_skipDrainEvents (commit_logged kv ops s) = p_skipDrainEvents s"
  by (simp_all add: commit_logged_def)

lemma getRecord_view: "getRecord kv i s = recs_of (\<alpha> (p_db s)) i"
  by (simp add: getRecord_def recs_of_def get_law split: option.splits)

lemma CheckOrInsert_duplicate:
  assumes "store_inv \<alpha> H T s" and "getRecord kv i s = Some r"
    and "IdempotencyHash H (pr_Job r) = IdempotencyHash H job"
  shows "CheckOrInsert kv H now job s = ((i, True), s)"
proof -
  have "idem_of (\<alpha> (p_db s)) (IdempotencyHash H job) = Some i"
    using assms index_okD(1) [OF store_okD(2)] by (auto simp: store_inv_def getRecord_view)
  then show ?thesis by (auto simp: CheckOrInsert_def get_law idem_of_def Let_def)
qed

lemma CheckOrInsert_fresh:
  assumes inv: "store_inv \<alpha> H T s" and job: "job_ok H now job" and le: "T \<le> now"
    and unused: "unused_id (\<alpha> (p_db s)) (j_ID job)"
    and fresh: "\<And>i r. getRecord kv i s = Some r \<Longrightarrow> IdempotencyHash H (pr_Job r) \<noteq> IdempotencyHash H job"
  shows "fst (CheckOrInsert kv H now job s) = ('''', False)"
    and "store_inv \<alpha> H now (snd (CheckOrInsert kv H now job s))"
    and "getRecord kv (j_ID job) (snd (CheckOrInsert kv H now job s))
      = Some \<lparr> pr_Job = norm_job job, pr_QueueKey = '''', pr_ExpiresAt = PendingExpiresAt now job, pr_Result = None \<rparr>"
proof -
  let ?h = "IdempotencyHash H job" and ?m = "\<alpha> (p_db s)"
  note ok = inv [unfolded store_inv_def]
  have none: "idem_of ?m ?h = None"
  proof (cases "idem_of ?m ?h")
    case (Some i)
    then obtain r where "recs_of ?m i = Some r" "IdempotencyHash H (pr_Job r) = ?h"
      using index_okD(1) [OF store_okD(2) [OF ok], of ?h i] by auto
    with fresh [of i r] show ?thesis by (simp add: getRecord_view)
  qed
  then have get: "kv_get kv (p_db s) (idemKey ?h) = NotFound" by (simp add: get_law idem_of_def)
  let ?e = "PendingExpiresAt now job" and ?i = "j_ID job"
  let ?r = "\<lparr> pr_Job = norm_job job, pr_QueueKey = '''', pr_ExpiresAt = ?e, pr_Result = None \<rparr>"
  let ?m' = "?m(jobKey ?i \<mapsto> SRecord ?r, idemKey ?h \<mapsto> SText ?i, expKey ?e ?i \<mapsto> SEmpty)"
  have view: "\<alpha> (p_db (snd (CheckOrInsert kv H now job s))) = ?m'"
    "p_queued (snd (CheckOrInsert kv H now job s)) = p_queued s + 1"
    "p_inFlight (snd (CheckOrInsert kv H now job s)) = p_inFlight s"
    "fst (CheckOrInsert kv H now job s) = ('''', False)"
    by (simp_all add: CheckOrInsert_def get Let_def count1_def marshal_record_def norm_job_def)
  show "fst (CheckOrInsert kv H now job s) = ('''', False)" by (rule view)
  have jo: "in63 (j_CreatedAt job)" "in63 ?e" "?i \<noteq> ''''" "j_Status job = StatusQueued" "dedup_consistent H job"
    using job by (auto simp: job_ok_def)
  have shape: "shape_ok ?m'"
    using jo by (intro shape_upd) (auto simp: store_okD(1) [OF ok] rec_ok_def)
  have "store_ok H now ?m' (p_queued s + 1) (p_inFlight s)"
    using jo by (intro store_ok_add [OF ok unused shape _ le _ none])
      (auto simp: hash_norm_job count1_def intro: drain_ok_cong [OF store_okD(4) [OF ok]])
  then show "store_inv \<alpha> H now (snd (CheckOrInsert kv H now job s))"
    by (simp add: store_inv_def view)
  show "getRecord kv ?i (snd (CheckOrInsert kv H now job s)) = Some ?r"
    by (simp add: getRecord_view view)
qed

lemma SetQueueKey_inv:
  assumes inv: "store_inv \<alpha> H T s" and nul: "nul \<notin> set q"
  shows "store_inv \<alpha> H T (SetQueueKey kv i q s)"
proof (cases "getRecord kv i s")
  case (Some r)
  note ok = inv [unfolded store_inv_def]
  let ?m = "\<alpha> (p_db s)" and ?c = "j_CreatedAt (pr_Job r)"
  have r: "recs_of ?m i = Some r" using Some by (simp add: getRecord_view)
  have ro: "j_DedupHash (pr_Job r) = ''''" "rec_ok i r" "in63 ?c" "in63 (pr_ExpiresAt r)" "i \<noteq> ''''"
    "nul \<notin> set (pr_QueueKey r)" "rec_ok i (r\<lparr>pr_QueueKey := q\<rparr>)"
    using recs_shape(1) [OF store_okD(1) [OF ok] r] nul by (auto simp: rec_ok_def)
  let ?m1 = "?m(jobKey i \<mapsto> SRecord (r\<lparr>pr_QueueKey := q\<rparr>))"
  let ?m2 = "if pr_QueueKey r \<noteq> '''' \<and> pr_QueueKey r \<noteq> q then ?m1(queueIndexKey (pr_QueueKey r) ?c i := None) else ?m1"
  define m3 where "m3 = (if pending_rec r then ?m2(queueIndexKey q ?c i \<mapsto> SEmpty) else ?m2)"
  have view: "\<alpha> (p_db (SetQueueKey kv i q s)) = m3"
    "p_queued (SetQueueKey kv i q s) = p_queued s" "p_inFlight (SetQueueKey kv i q s) = p_inFlight s"
    using ro by (simp_all add: SetQueueKey_def Some Let_def marshal_plain pending_rec_def m3_def)
  have shape: "shape_ok m3"
    using ro nul by (auto intro!: shape_upd simp: store_okD(1) [OF ok] m3_def)
  have views: "recs_of m3 = (recs_of ?m)(i \<mapsto> r\<lparr>pr_QueueKey := q\<rparr>)" "idem_of m3 = idem_of ?m"
    "exps_of m3 = exps_of ?m" "drain_ok m3"
    by (auto simp: m3_def intro: drain_ok_cong [OF store_okD(4) [OF ok]])
  have qidx: "qidx_of m3 = (if pending_rec r then {(q, ?c, i)} else {})
      \<union> (qidx_of ?m - (if pr_QueueKey r \<noteq> '''' \<and> pr_QueueKey r \<noteq> q then {(pr_QueueKey r, ?c, i)} else {}))"
    using ro nul by (simp add: m3_def)
  have exp_in: "(pr_ExpiresAt r, i) \<in> exps_of ?m"
    using index_okD(2) [OF store_okD(2) [OF ok] r, of "pr_ExpiresAt r"] by auto
  have own: "(q', c, i) \<in> qidx_of m3 \<Longrightarrow> c = j_CreatedAt (pr_Job (r\<lparr>pr_QueueKey := q\<rparr>))" for q' c
    using index_okD(4) [OF store_okD(2) [OF ok] _ r, of q' c] by (auto simp: qidx split: if_splits)
  have others: "j \<noteq> i \<Longrightarrow> (q', c, j) \<in> qidx_of m3 \<longleftrightarrow> (q', c, j) \<in> qidx_of ?m" for q' c j
    by (auto simp: qidx)
  have kept: "pending_rec (r\<lparr>pr_QueueKey := q\<rparr>) \<Longrightarrow> (q, ?c, i) \<in> qidx_of m3"
    by (simp add: qidx pending_rec_def)
  have "store_ok H T m3 (p_queued s) (p_inFlight s)"
    by (rule store_ok_change [OF ok r shape views(4) _ views(1,2) _ others own, of T])
      (use kept in \<open>simp_all add: views(3) insert_absorb [OF exp_in]\<close>)
  then show ?thesis by (simp add: store_inv_def view)
qed (use inv in \<open>simp add: SetQueueKey_def\<close>)

lemma putRecord_inv:
  assumes inv: "store_inv \<alpha> H T s" and r: "getRecord kv i s = Some r" and r': "rec_ok i r'"
    and same: "pr_QueueKey r' = pr_QueueKey r" "pr_ExpiresAt r' = pr_ExpiresAt r"
      "j_CreatedAt (pr_Job r') = j_CreatedAt (pr_Job r)" "j_Status (pr_Job r') = j_Status (pr_Job r)"
      "IdempotencyHash H (pr_Job r') = IdempotencyHash H (pr_Job r)"
  shows "store_inv \<alpha> H T (putRecord kv i r' s)"
proof -
  note ok = inv [unfolded store_inv_def]
  let ?m = "\<alpha> (p_db s)"
  have r: "recs_of ?m i = Some r" using r by (simp add: getRecord_view)
  have view: "\<alpha> (p_db (putRecord kv i r' s)) = ?m(jobKey i \<mapsto> SRecord r')"
    "p_queued (putRecord kv i r' s) = p_queued s" "p_inFlight (putRecord kv i r' s) = p_inFlight s"
    using r' by (simp_all add: putRecord_def marshal_plain rec_ok_def)
  have shape: "shape_ok (?m(jobKey i \<mapsto> SRecord r'))"
    using r' by (auto intro!: shape_upd simp: store_okD(1) [OF ok])
  have exp_in: "(pr_ExpiresAt r, i) \<in> exps_of ?m"
    using index_okD(2) [OF store_okD(2) [OF ok] r, of "pr_ExpiresAt r"] by auto
  have drain: "drain_ok (?m(jobKey i \<mapsto> SRecord r'))"
    by (rule drain_ok_cong [OF store_okD(4) [OF ok]]) simp_all
  have own: "(q, c, i) \<in> qidx_of (?m(jobKey i \<mapsto> SRecord r')) \<Longrightarrow> c = j_CreatedAt (pr_Job r')" for q c
    using index_okD(4) [OF store_okD(2) [OF ok] _ r, of q c] same by simp
  have kept: "pending_rec r' \<Longrightarrow> pr_QueueKey r' \<noteq> '''' \<Longrightarrow> T < pr_ExpiresAt r'
      \<Longrightarrow> (pr_QueueKey r', j_CreatedAt (pr_Job r'), i) \<in> qidx_of (?m(jobKey i \<mapsto> SRecord r'))"
    using index_okD(3) [OF store_okD(2) [OF ok] r] same by (simp add: pending_rec_def)
  have "store_ok H T (?m(jobKey i \<mapsto> SRecord r')) (p_queued s) (p_inFlight s)"
    by (rule store_ok_change [OF ok r shape drain order_refl _ _ _ _ own kept])
      (simp_all add: same insert_absorb [OF exp_in])
  then show ?thesis by (simp add: store_inv_def view)
qed

lemma PutResult_inv: "store_inv \<alpha> H T s \<Longrightarrow> store_inv \<alpha> H T (PutResult kv i res s)"
proof (cases "getRecord kv i s")
  case (Some r)
  assume inv: "store_inv \<alpha> H T s"
  from Some have "rec_ok i r"
    using recs_shape(1) [OF store_okD(1) [OF inv [unfolded store_inv_def]]] by (simp add: getRecord_view)
  then show ?thesis
    using putRecord_inv [OF inv Some, of "r\<lparr>pr_Result := Some res\<rparr>"] by (simp add: PutResult_def Some rec_ok_def)
qed (simp add: PutResult_def)

lemma RecordRetry_inv:
  assumes inv: "store_inv \<alpha> H T s" and "\<And>r. getRecord kv i s = Some r \<Longrightarrow> j_Status (pr_Job r) = StatusQueued"
  shows "store_inv \<alpha> H T (RecordRetry kv i n s)"
proof (cases "getRecord kv i s")
  case (Some r)
  from Some have "rec_ok i r"
    using recs_shape(1) [OF store_okD(1) [OF inv [unfolded store_inv_def]]] by (simp add: getRecord_view)
  then show ?thesis
    using putRecord_inv [OF inv Some, of "r\<lparr>pr_Job := (pr_Job r)\<lparr>j_Attempts := n, j_Status := StatusQueued\<rparr>\<rparr>"]
      assms(2) [OF Some]
    by (simp add: RecordRetry_def Some rec_ok_def)
qed (use inv in \<open>simp add: RecordRetry_def\<close>)

lemma putRecordWithExpiry_inv:
  assumes inv: "store_inv \<alpha> H T s" and r: "getRecord kv i s = Some r" and r': "rec_ok i r'" and le: "T \<le> now"
    and same: "pr_QueueKey r' = pr_QueueKey r" "j_CreatedAt (pr_Job r') = j_CreatedAt (pr_Job r)"
      "IdempotencyHash H (pr_Job r') = IdempotencyHash H (pr_Job r)"
    and pend: "pending_rec r' \<Longrightarrow> pending_rec r \<and> T < pr_ExpiresAt r"
  shows "store_inv \<alpha> H now
    (putRecordWithExpiry kv i r' (pr_ExpiresAt r) (moveStatus (j_Status (pr_Job r)) (j_Status (pr_Job r')) s))"
proof -
  note ok = inv [unfolded store_inv_def]
  let ?m = "\<alpha> (p_db s)" and ?s1 = "moveStatus (j_Status (pr_Job r)) (j_Status (pr_Job r')) s"
  let ?q = "pr_QueueKey r" and ?c = "j_CreatedAt (pr_Job r)"
  have r: "recs_of ?m i = Some r" using r by (simp add: getRecord_view)
  have ro: "j_DedupHash (pr_Job r') = ''''" "in63 ?c" "in63 (pr_ExpiresAt r)" "in63 (pr_ExpiresAt r')" "i \<noteq> ''''"
    "nul \<notin> set ?q"
    using recs_shape(1) [OF store_okD(1) [OF ok] r] r' by (auto simp: rec_ok_def)
  let ?m1 = "?m(jobKey i \<mapsto> SRecord r')"
  let ?m2 = "if ?q \<noteq> '''' \<and> \<not> pending_rec r' then ?m1(queueIndexKey ?q ?c i := None) else ?m1"
  let ?m3 = "if pr_ExpiresAt r \<noteq> pr_ExpiresAt r' then ?m2(expKey (pr_ExpiresAt r) i := None) else ?m2"
  define m' where "m' = ?m3(expKey (pr_ExpiresAt r') i \<mapsto> SEmpty)"
  have view: "\<alpha> (p_db (putRecordWithExpiry kv i r' (pr_ExpiresAt r) ?s1)) = m'"
    "p_queued (putRecordWithExpiry kv i r' (pr_ExpiresAt r) ?s1) = p_queued ?s1"
    "p_inFlight (putRecordWithExpiry kv i r' (pr_ExpiresAt r) ?s1) = p_inFlight ?s1"
    using ro by (simp_all add: putRecordWithExpiry_def marshal_plain pending_rec_def m'_def same)
  have shape: "shape_ok m'"
    using ro r' by (auto intro!: shape_upd simp: store_okD(1) [OF ok] m'_def)
  have views: "recs_of m' = (recs_of ?m)(i \<mapsto> r')" "idem_of m' = idem_of ?m" "drain_ok m'"
    "exps_of m' = insert (pr_ExpiresAt r', i) (exps_of ?m - {(pr_ExpiresAt r, i)})"
    using ro by (auto simp: m'_def intro: drain_ok_cong [OF store_okD(4) [OF ok]])
  have qidx: "qidx_of m' = qidx_of ?m - (if ?q \<noteq> '''' \<and> \<not> pending_rec r' then {(?q, ?c, i)} else {})"
    using ro by (simp add: m'_def)
  have others: "j \<noteq> i \<Longrightarrow> (q', c, j) \<in> qidx_of m' \<longleftrightarrow> (q', c, j) \<in> qidx_of ?m" for q' c j
    by (auto simp: qidx)
  have own: "(q', c, i) \<in> qidx_of m' \<Longrightarrow> c = j_CreatedAt (pr_Job r')" for q' c
    using index_okD(4) [OF store_okD(2) [OF ok] _ r, of q' c] by (auto simp: qidx same)
  have kept: "pending_rec r' \<Longrightarrow> pr_QueueKey r' \<noteq> '''' \<Longrightarrow> now < pr_ExpiresAt r'
      \<Longrightarrow> (pr_QueueKey r', j_CreatedAt (pr_Job r'), i) \<in> qidx_of m'"
    using index_okD(3) [OF store_okD(2) [OF ok] r] pend by (simp add: qidx same)
  have "store_ok H now m' (p_queued ?s1) (p_inFlight ?s1)"
    by (rule store_ok_change [OF ok r shape views(3) le views(1,2,4) others own kept same(3)]) simp_all
  then show ?thesis by (simp add: store_inv_def view)
qed

lemma recordDrainEvent_views:
  fixes now st
  assumes inv: "store_inv \<alpha> H T s" and room: "seq_ok (seq_of (\<alpha> (p_db s)) + 1)" and j: "j_ID (pr_Job r) = i"
  defines "s' \<equiv> recordDrainEvent kv H now r st s" and "m \<equiv> \<alpha> (p_db s)"
  defines "n \<equiv> seq_of m + 1"
  shows "store_inv \<alpha> H T s'"
    and "recs_of (\<alpha> (p_db s')) = recs_of m" "p_skipDrainEvents s' = p_skipDrainEvents s"
    and "events_of (\<alpha> (p_db s')) =
      (if IsWebhookDelivery (pr_Job r) \<or> i \<in> djobs_of m then events_of m
       else (events_of m)(n \<mapsto> \<lparr> de_Sequence = n, de_HashKey = IdempotencyHash H (pr_Job r),
                            de_JobID = i, de_Status = st, de_RecordedAt = now \<rparr>))"
    and "seq_of (\<alpha> (p_db s')) = (if IsWebhookDelivery (pr_Job r) \<or> i \<in> djobs_of m then seq_of m else n)"
    and "djobs_of (\<alpha> (p_db s')) = (if IsWebhookDelivery (pr_Job r) then djobs_of m else insert i (djobs_of m))"
proof -
  note ok = inv [unfolded store_inv_def, folded m_def]
  let ?ev = "\<lparr> de_Sequence = n, de_HashKey = IdempotencyHash H (pr_Job r), de_JobID = i, de_Status = st, de_RecordedAt = now \<rparr>"
  let ?go = "\<not> IsWebhookDelivery (pr_Job r) \<and> i \<notin> djobs_of m"
  have n: "seq_ok n" using room by (simp add: n_def m_def)
  have before: "(case kv_get kv (p_db s) drainSequenceMetaKey of
      Found val \<Rightarrow> (case parse_int64 (bytes_of val) of Some n \<Rightarrow> n | None \<Rightarrow> 0) | _ \<Rightarrow> 0) = seq_of m"
    by (simp add: get_law seq_of_def m_def split: option.splits)
  have wrap: "wrap64 (seq_of m + 1) = n"
    using n by (simp add: n_def seq_ok_def wrap64_id int64_min_def int64_max_def)
  define m' where "m' = (if ?go then m(drainSeqKey n \<mapsto> SEvent ?ev, drainJobKey i \<mapsto> SText (itoa n),
    drainSequenceMetaKey \<mapsto> SText (itoa n)) else m)"
  have view: "\<alpha> (p_db s') = m'" "p_queued s' = p_queued s" "p_inFlight s' = p_inFlight s"
    "p_skipDrainEvents s' = p_skipDrainEvents s"
    using before wrap j unfolding s'_def recordDrainEvent_def m'_def
    by (auto simp: Let_def get_law m_def djobs_of_def split: option.splits)
  have parse: "parse_int64 (itoa n) = Some n"
    using n by (intro parse_int64_itoa) (auto simp: seq_ok_def int64_min_def int64_max_def)
  have views: "recs_of m' = recs_of m" "idem_of m' = idem_of m" "exps_of m' = exps_of m" "qidx_of m' = qidx_of m"
    "events_of m' = (if ?go then (events_of m)(n \<mapsto> ?ev) else events_of m)"
    "seq_of m' = (if ?go then n else seq_of m)" "djobs_of m' = (if ?go then insert i (djobs_of m) else djobs_of m)"
    using n parse by (simp_all add: m'_def) (simp add: seq_of_def parse)
  have shape: "shape_ok m'"
    using n store_okD(1) [OF ok] entry_ok_keys(9) [of ?ev] by (auto simp: m'_def intro!: shape_upd)
  have "drain_ok m'"
  proof (cases ?go)
    case True
    have "k \<noteq> n" if "events_of m k = Some e" for k e
      using that store_okD(4) [OF ok] by (force simp: drain_ok_def n_def)
    with True store_okD(4) [OF ok] show ?thesis
      unfolding drain_ok_def views by (auto simp: n_def) force+
  next
    case False
    then have "m' = m" by (auto simp: m'_def)
    with store_okD(4) [OF ok] show ?thesis by simp
  qed
  moreover have "index_ok H T m'" using store_okD(2) [OF ok] by (simp add: index_ok_def views)
  moreover have "count_ok m' (p_queued s) (p_inFlight s)"
    using store_okD(3) [OF ok] by (simp add: count_ok_def with_status_def views)
  ultimately show "store_inv \<alpha> H T s'" using shape by (simp add: store_inv_def store_ok_def view)
  show "recs_of (\<alpha> (p_db s')) = recs_of m" "p_skipDrainEvents s' = p_skipDrainEvents s" by (simp_all add: view views)
  show "events_of (\<alpha> (p_db s')) = (if IsWebhookDelivery (pr_Job r) \<or> i \<in> djobs_of m then events_of m
       else (events_of m)(n \<mapsto> ?ev))"
    "seq_of (\<alpha> (p_db s')) = (if IsWebhookDelivery (pr_Job r) \<or> i \<in> djobs_of m then seq_of m else n)"
    "djobs_of (\<alpha> (p_db s')) = (if IsWebhookDelivery (pr_Job r) then djobs_of m else insert i (djobs_of m))"
    by (auto simp: view views)
qed

lemma UpdateStatus_inv:
  assumes inv: "store_inv \<alpha> H T s" and le: "T \<le> now" and room: "seq_ok (seq_of (\<alpha> (p_db s)) + 1)"
    and fits: "\<And>r. getRecord kv i s = Some r \<Longrightarrow> in63 (expiresAtFor (pr_Job r) st now)"
    and pend: "\<And>r. getRecord kv i s = Some r \<Longrightarrow> pendingStatus st \<Longrightarrow> pending_rec r \<and> T < pr_ExpiresAt r"
  shows "store_inv \<alpha> H now (UpdateStatus kv H now i st s)"
proof (cases "getRecord kv i s")
  case None
  then show ?thesis
    using inv le by (auto simp: UpdateStatus_def store_inv_def store_ok_def index_ok_def)
next
  case (Some r)
  let ?m = "\<alpha> (p_db s)"
  let ?r' = "r\<lparr>pr_Job := (pr_Job r)\<lparr>j_Status := st\<rparr>, pr_ExpiresAt := expiresAtFor (pr_Job r) st now\<rparr>"
  let ?s2 = "putRecordWithExpiry kv i ?r' (pr_ExpiresAt r) (moveStatus (j_Status (pr_Job r)) st s)"
  have "rec_ok i r"
    using recs_shape(1) [OF store_okD(1) [OF inv [unfolded store_inv_def]]] Some by (simp add: getRecord_view)
  then have rok: "rec_ok i ?r'" using fits [OF Some] by (simp add: rec_ok_def)
  have "pending_rec ?r' \<Longrightarrow> pending_rec r \<and> T < pr_ExpiresAt r"
    using pend [OF Some] by (simp add: pending_rec_def)
  with putRecordWithExpiry_inv [OF inv Some rok le]
  have inv2: "store_inv \<alpha> H now ?s2" by simp
  have "seq_of (\<alpha> (p_db ?s2)) = seq_of ?m"
    by (simp add: putRecordWithExpiry_def)
  then have "store_inv \<alpha> H now (recordDrainEvent kv H now ?r' st ?s2)"
    using recordDrainEvent_views(1) [OF inv2 _ refl, where r = ?r'] room by simp
  with inv2 show ?thesis by (simp add: UpdateStatus_def Some Let_def)
qed

lemma DeleteJob_inv:
  assumes inv: "store_inv \<alpha> H T s"
  shows "store_inv \<alpha> H T (DeleteJob kv H i s)"
proof (cases "getRecord kv i s")
  case None
  let ?m = "\<alpha> (p_db s)"
  note ok = inv [unfolded store_inv_def]
  have "?m (jobKey i) = None"
  proof (cases "?m (jobKey i)")
    case (Some v)
    with store_okD(1) [OF ok] have "entry_ok (jobKey i) v" unfolding shape_ok_def by blast
    with Some None show ?thesis by (auto simp: getRecord_view recs_of_def)
  qed
  then have "?m(jobKey i := None) = ?m" by auto
  then show ?thesis using inv by (simp add: DeleteJob_def None store_inv_def)
next
  case (Some r)
  then have "recs_of (\<alpha> (p_db s)) i = Some r" by (simp add: getRecord_view)
  from delete_ops_ok(1) [OF inv [unfolded store_inv_def] this] show ?thesis
    by (simp add: DeleteJob_def Some store_inv_def)
qed

lemma forEach_view:
  assumes "shape_ok (\<alpha> (p_db s))"
  shows "set (forEachJobIncludingExpired kv s) = {r. \<exists>i. recs_of (\<alpha> (p_db s)) i = Some r}"
    and "sorted_wrt (\<lambda>r r'. str_less (j_ID (pr_Job r)) (j_ID (pr_Job r'))) (forEachJobIncludingExpired kv s)"
proof -
  let ?m = "\<alpha> (p_db s)"
  obtain xs where xs: "kv_iter kv (p_db s) ''job:'' ''job;'' = Some xs" "sorted_wrt str_less (map fst xs)"
    "\<And>k v. (k, v) \<in> set xs \<longleftrightarrow> ?m k = Some v \<and> (\<exists>i. k = jobKey i)"
    using iterE [of "p_db s" "''job:''" "''job;''"] by (metis range_job)
  have each: "\<exists>i r. k = jobKey i \<and> v = SRecord r \<and> recs_of ?m i = Some r \<and> j_ID (pr_Job r) = i"
    if "(k, v) \<in> set xs" for k v
  proof -
    from that xs(3) obtain i where i: "k = jobKey i" "?m (jobKey i) = Some v" by auto
    with assms have "entry_ok (jobKey i) v" unfolding shape_ok_def by blast
    with i show ?thesis by (auto simp: recs_of_def rec_ok_def)
  qed
  have list: "forEachJobIncludingExpired kv s = map (\<lambda>(k, v). the (unmarshal_record v)) xs"
    using each unfolding forEachJobIncludingExpired_def xs(1)
    by (induction xs) (fastforce simp: map_filter_simps)+
  show "set (forEachJobIncludingExpired kv s) = {r. \<exists>i. recs_of ?m i = Some r}" (is "?L = ?R")
  proof (intro set_eqI iffI)
    fix r assume "r \<in> ?L"
    then obtain k v where "(k, v) \<in> set xs" "r = the (unmarshal_record v)" by (auto simp: list)
    with each [of k v] show "r \<in> ?R" by auto
  next
    fix r assume "r \<in> ?R"
    then obtain i where "recs_of ?m i = Some r" by blast
    then have "(jobKey i, SRecord r) \<in> set xs" using recs_shape(2) [OF assms] xs(3) by auto
    then show "r \<in> ?L" by (force simp: list)
  qed
  have "sorted_wrt (\<lambda>x y. str_less (fst x) (fst y)) xs" using xs(2) by (simp add: sorted_wrt_map)
  then show "sorted_wrt (\<lambda>r r'. str_less (j_ID (pr_Job r)) (j_ID (pr_Job r'))) (forEachJobIncludingExpired kv s)"
    unfolding list sorted_wrt_map
  proof (rule sorted_wrt_mono_rel [rotated])
    fix x y assume "x \<in> set xs" "y \<in> set xs" "str_less (fst x) (fst y)"
    with each [of "fst x" "snd x"] each [of "fst y" "snd y"]
    show "str_less (j_ID (pr_Job (case x of (k, v) \<Rightarrow> the (unmarshal_record v))))
        (j_ID (pr_Job (case y of (k, v) \<Rightarrow> the (unmarshal_record v))))"
      by (auto simp: jobKey_def split: prod.splits)
  qed
qed

lemma fold_delete_view:
  "\<alpha> (p_db (fold (\<lambda>(k, _). commit_logged kv [BDelete k]) xs s)) = (\<lambda>k. if k \<in> fst ` set xs then None else \<alpha> (p_db s) k)"
  "p_queued (fold (\<lambda>(k, _). commit_logged kv [BDelete k]) xs s) = p_queued s"
  "p_inFlight (fold (\<lambda>(k, _). commit_logged kv [BDelete k]) xs s) = p_inFlight s"
  by (induction xs arbitrary: s) (auto simp: fun_eq_iff)

lemma deletePrefix_view [simp]:
  "\<alpha> (p_db (deletePrefix kv lo hi s)) = drop_range lo hi (\<alpha> (p_db s))"
proof -
  obtain xs where xs: "kv_iter kv (p_db s) lo hi = Some xs"
    "\<And>k v. (k, v) \<in> set xs \<longleftrightarrow> \<alpha> (p_db s) k = Some v \<and> str_le lo k \<and> str_less k hi"
    using iterE [of "p_db s" lo hi] by metis
  have "k \<in> fst ` set xs \<longleftrightarrow> (\<exists>v. \<alpha> (p_db s) k = Some v \<and> str_le lo k \<and> str_less k hi)" for k
    using xs(2) by force
  then show ?thesis
    by (auto simp: deletePrefix_def xs(1) fold_delete_view drop_range_def fun_eq_iff)
qed

lemma ClearIdempotentKeys_view:
  "\<alpha> (p_db (ClearIdempotentKeys kv s)) = cleared (\<alpha> (p_db s))"
  "p_queued (ClearIdempotentKeys kv s) = 0" "p_inFlight (ClearIdempotentKeys kv s) = 0"
  by (simp_all add: ClearIdempotentKeys_def Let_def cleared_def)

lemma ClearIdempotentKeys_inv: "store_inv \<alpha> H T s \<Longrightarrow> store_inv \<alpha> H T (ClearIdempotentKeys kv s)"
  using store_ok_cleared by (simp add: store_inv_def ClearIdempotentKeys_view)

lemma drain_events_view:
  assumes "shape_ok (\<alpha> (p_db s))"
  obtains es where "drain_events kv s = Some es" "sorted_wrt (\<lambda>e e'. de_Sequence e < de_Sequence e') es"
    and "\<And>e. e \<in> set es \<longleftrightarrow> (\<exists>n. events_of (\<alpha> (p_db s)) n = Some e)"
    and "\<And>n e. events_of (\<alpha> (p_db s)) n = Some e \<Longrightarrow> de_Sequence e = n \<and> seq_ok n"
proof -
  let ?m = "\<alpha> (p_db s)"
  obtain xs where xs: "kv_iter kv (p_db s) ''drain:seq:'' ''drain:seq;'' = Some xs" "sorted_wrt str_less (map fst xs)"
    "\<And>k v. (k, v) \<in> set xs \<longleftrightarrow> ?m k = Some v \<and> (\<exists>r. k = ''drain:seq:'' @ r)"
    using iterE [of "p_db s" "''drain:seq:''" "''drain:seq;''"] by (metis range_seq)
  have entry: "\<exists>n e. seq_ok n \<and> v = SEvent e \<and> de_Sequence e = n \<and> k = drainSeqKey n \<and> events_of ?m n = Some e"
    if "?m k = Some v" "k = ''drain:seq:'' @ r" for k v r
  proof -
    from that assms have "entry_ok k v" unfolding shape_ok_def by blast
    with that(2) obtain n e where "seq_ok n" "v = SEvent e" "de_Sequence e = n" "k = drainSeqKey n"
      unfolding entry_ok_def by blast
    with that(1) show ?thesis by (auto simp: events_of_def)
  qed
  have each: "\<exists>n e. seq_ok n \<and> v = SEvent e \<and> de_Sequence e = n \<and> k = drainSeqKey n \<and> events_of ?m n = Some e"
    if "(k, v) \<in> set xs" for k v
    using that xs(3) [of k v] entry by blast
  have of_event: "\<exists>v. (drainSeqKey n, v) \<in> set xs \<and> v = SEvent e \<and> de_Sequence e = n \<and> seq_ok n"
    if "events_of ?m n = Some e" for n e
  proof -
    from that obtain v where v: "seq_ok n" "?m (drainSeqKey n) = Some v" "unmarshal_event v = Some e"
      by (auto simp: events_of_def bind_eq_Some_conv split: if_splits)
    from entry [OF v(2)] obtain n' e' where "seq_ok n'" "v = SEvent e'" "de_Sequence e' = n'" "drainSeqKey n = drainSeqKey n'"
      by (auto simp: drainSeqKey_def)
    with v drainSeqKey_inject show ?thesis using xs(3) by (auto simp: drainSeqKey_def)
  qed
  let ?es = "map (\<lambda>(k, v). the (unmarshal_event v)) xs"
  have list: "drain_events kv s = Some ?es"
    using each unfolding drain_events_def xs(1)
    by (simp, induction xs) (fastforce simp: map_filter_simps)+
  moreover have "sorted_wrt (\<lambda>e e'. de_Sequence e < de_Sequence e') ?es"
    unfolding sorted_wrt_map
  proof (rule sorted_wrt_mono_rel [rotated])
    show "sorted_wrt (\<lambda>x y. str_less (fst x) (fst y)) xs" using xs(2) by (simp add: sorted_wrt_map)
    fix x y assume "x \<in> set xs" "y \<in> set xs" "str_less (fst x) (fst y)"
    with each [of "fst x" "snd x"] each [of "fst y" "snd y"]
    show "de_Sequence (case x of (k, v) \<Rightarrow> the (unmarshal_event v)) < de_Sequence (case y of (k, v) \<Rightarrow> the (unmarshal_event v))"
      by (auto simp: drainSeqKey_order split: prod.splits)
  qed
  moreover have "e \<in> set ?es \<longleftrightarrow> (\<exists>n. events_of ?m n = Some e)" for e
  proof
    assume "e \<in> set ?es"
    then obtain k v where "(k, v) \<in> set xs" "e = the (unmarshal_event v)" by auto
    with each [of k v] show "\<exists>n. events_of ?m n = Some e" by auto
  next
    assume "\<exists>n. events_of ?m n = Some e"
    then obtain n where "(drainSeqKey n, SEvent e) \<in> set xs" using of_event by blast
    then show "e \<in> set ?es" by force
  qed
  moreover have "de_Sequence e = n \<and> seq_ok n" if "events_of ?m n = Some e" for n e
    using of_event [OF that] by blast
  ultimately show ?thesis by (rule that)
qed

lemma delete_events_view:
  fixes es m
  defines "m' \<equiv> batch_apply (concat (map (\<lambda>e. [BDelete (drainSeqKey (de_Sequence e)), BDelete (drainJobKey (de_JobID e))]) es)) m"
  assumes "\<forall>e\<in>set es. seq_ok (de_Sequence e)"
  shows "recs_of m' = recs_of m" "idem_of m' = idem_of m" "exps_of m' = exps_of m" "qidx_of m' = qidx_of m" "seq_of m' = seq_of m"
    and "events_of m' = (\<lambda>n. if n \<in> de_Sequence ` set es then None else events_of m n)"
    and "djobs_of m' = djobs_of m - de_JobID ` set es" and "m' \<subseteq>\<^sub>m m"
proof -
  have "recs_of m' = recs_of m \<and> idem_of m' = idem_of m \<and> exps_of m' = exps_of m \<and> qidx_of m' = qidx_of m \<and> seq_of m' = seq_of m
      \<and> events_of m' = (\<lambda>n. if n \<in> de_Sequence ` set es then None else events_of m n)
      \<and> djobs_of m' = djobs_of m - de_JobID ` set es \<and> m' \<subseteq>\<^sub>m m"
    using assms(2) unfolding m'_def
  proof (induction es arbitrary: m)
    case (Cons e es)
    define m1 where "m1 = m(drainSeqKey (de_Sequence e) := None, drainJobKey (de_JobID e) := None)"
    have le: "m1 \<subseteq>\<^sub>m m" by (auto simp: map_le_def dom_def m1_def)
    have v1: "recs_of m1 = recs_of m" "idem_of m1 = idem_of m" "exps_of m1 = exps_of m" "qidx_of m1 = qidx_of m"
      "seq_of m1 = seq_of m" "events_of m1 = (events_of m)(de_Sequence e := None)" "djobs_of m1 = djobs_of m - {de_JobID e}"
      using Cons.prems by (simp_all add: m1_def)
    have "batch_apply (concat (map (\<lambda>e. [BDelete (drainSeqKey (de_Sequence e)), BDelete (drainJobKey (de_JobID e))]) (e # es))) m
        = batch_apply (concat (map (\<lambda>e. [BDelete (drainSeqKey (de_Sequence e)), BDelete (drainJobKey (de_JobID e))]) es)) m1"
      by (simp add: m1_def)
    with Cons.IH [of m1] Cons.prems v1 map_le_trans [OF _ le] show ?case by auto
  qed simp
  then show "recs_of m' = recs_of m" "idem_of m' = idem_of m" "exps_of m' = exps_of m" "qidx_of m' = qidx_of m" "seq_of m' = seq_of m"
    "events_of m' = (\<lambda>n. if n \<in> de_Sequence ` set es then None else events_of m n)"
    "djobs_of m' = djobs_of m - de_JobID ` set es" "m' \<subseteq>\<^sub>m m"
    by simp_all
qed

lemma ack_views:
  fixes seq
  assumes inv: "store_inv \<alpha> H T s"
  defines "s' \<equiv> AcknowledgeDrainEventsThrough kv seq s" and "m \<equiv> \<alpha> (p_db s)"
  shows "store_inv \<alpha> H T s'" and "recs_of (\<alpha> (p_db s')) = recs_of m" and "seq_of (\<alpha> (p_db s')) = seq_of m"
    and "events_of (\<alpha> (p_db s')) = (\<lambda>n. if n \<le> seq then None else events_of m n)"
proof -
  note ok = inv [unfolded store_inv_def, folded m_def]
  obtain es where es: "drain_events kv s = Some es" "sorted_wrt (\<lambda>e e'. de_Sequence e < de_Sequence e') es"
    "\<And>e. e \<in> set es \<longleftrightarrow> (\<exists>n. events_of m n = Some e)"
    "\<And>n e. events_of m n = Some e \<Longrightarrow> de_Sequence e = n \<and> seq_ok n"
    using drain_events_view [of s] store_okD(1) [OF ok] unfolding m_def by metis
  let ?acked = "filter (\<lambda>e. de_Sequence e \<le> seq) es"
  have tw: "takeWhile (\<lambda>e. \<not> de_Sequence e > seq) es = ?acked"
    using es(2) by (induction es) (auto simp: empty_filter_conv)
  define ops where "ops = concat (map (\<lambda>e. [BDelete (drainSeqKey (de_Sequence e)), BDelete (drainJobKey (de_JobID e)) :: stored batch_op]) ?acked)"
  define m' where "m' = (if seq \<le> 0 then m else batch_apply ops m)"
  have view: "\<alpha> (p_db s') = m'" "p_queued s' = p_queued s" "p_inFlight s' = p_inFlight s"
    unfolding s'_def AcknowledgeDrainEventsThrough_def m'_def
    by (simp_all add: es(1) tw m_def ops_def)
  have bound: "\<forall>e\<in>set ?acked. seq_ok (de_Sequence e)" using es(3,4) by auto
  note dv = delete_events_view [OF bound, of m, folded ops_def]
  have views: "recs_of m' = recs_of m" "idem_of m' = idem_of m" "exps_of m' = exps_of m" "qidx_of m' = qidx_of m"
    "seq_of m' = seq_of m" "m' \<subseteq>\<^sub>m m"
    by (simp_all add: m'_def dv)
  have acked: "n \<in> de_Sequence ` {e \<in> set es. de_Sequence e \<le> seq} \<longleftrightarrow> (\<exists>e. events_of m n = Some e) \<and> n \<le> seq" for n
    using es(3,4) by force
  have events: "events_of m' = (\<lambda>n. if n \<le> seq then None else events_of m n)"
  proof (cases "seq \<le> 0")
    case True
    have "events_of m n = None" if "n \<le> seq" for n
      using that True by (simp add: events_of_def seq_ok_def)
    with True show ?thesis by (auto simp: m'_def fun_eq_iff)
  next
    case False
    then show ?thesis by (auto simp: m'_def dv(6) acked fun_eq_iff)
  qed
  have "drain_ok m'"
  proof (cases "seq \<le> 0")
    case False
    note d = store_okD(4) [OF ok, unfolded drain_ok_def]
    have djobs: "djobs_of m' = djobs_of m - de_JobID ` set ?acked" using False by (simp add: m'_def dv)
    have inj: "n = n'" if "events_of m n = Some e" "events_of m n' = Some e'" "de_JobID e = de_JobID e'" for n n' e e'
      using d that by blast
    have "de_JobID e \<in> djobs_of m'" if "events_of m' n = Some e" for n e
    proof -
      from that have e: "events_of m n = Some e" "seq < n" by (auto simp: events split: if_splits)
      have "de_JobID e \<notin> de_JobID ` set ?acked"
      proof
        assume "de_JobID e \<in> de_JobID ` set ?acked"
        then obtain e' where "e' \<in> set ?acked" "de_JobID e' = de_JobID e" by auto
        then obtain n' where "events_of m n' = Some e'" "n' \<le> seq" using es(3,4) by auto
        with inj [OF e(1), of n' e'] \<open>de_JobID e' = de_JobID e\<close> e(2) show False by simp
      qed
      moreover have "de_JobID e \<in> djobs_of m" using d e(1) by blast
      ultimately show ?thesis by (simp add: djobs)
    qed
    moreover have "\<exists>n e. events_of m' n = Some e \<and> de_JobID e = i" if "i \<in> djobs_of m'" for i
    proof -
      from that have "i \<in> djobs_of m" "i \<notin> de_JobID ` set ?acked" by (auto simp: djobs)
      then obtain n e where ne: "events_of m n = Some e" "de_JobID e = i" using d by blast
      then have "\<not> n \<le> seq" using \<open>i \<notin> _\<close> es(3,4) by force
      with ne show ?thesis by (auto simp: events)
    qed
    ultimately show ?thesis using d unfolding drain_ok_def views by (auto simp: events split: if_splits)
  qed (use store_okD(4) [OF ok] in \<open>simp add: m'_def\<close>)
  moreover have "index_ok H T m'" using store_okD(2) [OF ok] by (simp add: index_ok_def views)
  moreover have "count_ok m' (p_queued s) (p_inFlight s)"
    using store_okD(3) [OF ok] by (simp add: count_ok_def with_status_def views)
  ultimately show "store_inv \<alpha> H T s'"
    using shape_sub [OF store_okD(1) [OF ok] views(6)] by (simp add: store_inv_def store_ok_def view)
  show "recs_of (\<alpha> (p_db s')) = recs_of m" "seq_of (\<alpha> (p_db s')) = seq_of m"
    "events_of (\<alpha> (p_db s')) = (\<lambda>n. if n \<le> seq then None else events_of m n)"
    by (simp_all add: view views events)
qed

end

interpretation mem_db: pebble_db mem_kv map_of
  by unfold_locales

end
