(* ===== verification/Pebble_Pages.thy ===== *)
theory Pebble_Pages
  imports Pebble_Laws
begin

text \<open>
  The scans of the Pebble store: the expiry pass that deletes what is due, and
  the pages of a queue that restart recovery reads.  Both rest on the order of the
  encoded keys, and both keep the invariant of the store.
\<close>

section \<open>The expiry pass\<close>

lemma range_expBound:
  assumes "in63 now"
  shows "str_le ''exp:'' k \<and> str_less k (expKeyBound now) \<Longrightarrow> \<exists>r. k = ''exp:'' @ r"
    and "in63 e \<Longrightarrow> str_le ''exp:'' (expKey e i) \<and> str_less (expKey e i) (expKeyBound now) \<longleftrightarrow> e < now"
proof -
  have "str_less (expKeyBound now) ''exp;''" by (simp add: expKeyBound_def)
  then show "str_le ''exp:'' k \<and> str_less k (expKeyBound now) \<Longrightarrow> \<exists>r. k = ''exp:'' @ r"
    using str_less_trans range_exp by blast
  show "str_le ''exp:'' (expKey e i) \<and> str_less (expKey e i) (expKeyBound now) \<longleftrightarrow> e < now" if "in63 e"
    using hex16_order [of now e "[]" "'':'' @ i"] that assms
    by (auto simp: expKey_def expKeyBound_def str_less_iff_not_le in63_def)
qed

lemma exp_range_views:
  fixes m
  assumes "in63 now"
  defines "m' \<equiv> drop_range ''exp:'' (expKeyBound now) m"
  shows "recs_of m' = recs_of m" "idem_of m' = idem_of m" "qidx_of m' = qidx_of m" "events_of m' = events_of m"
    "djobs_of m' = djobs_of m" "seq_of m' = seq_of m" "exps_of m' = {(e, i) \<in> exps_of m. \<not> e < now}"
proof -
  have keep: "m' k = m k" if "\<And>r. k \<noteq> ''exp:'' @ r" for k
    using range_expBound(1) [OF assms(1), of k] that by (auto simp: m'_def drop_range_def)
  have "m' (jobKey i) = m (jobKey i)" "m' (idemKey i) = m (idemKey i)" "m' (queueIndexKey q c i) = m (queueIndexKey q c i)"
    "m' (drainSeqKey n) = m (drainSeqKey n)" "m' (drainJobKey i) = m (drainJobKey i)"
    "m' drainSequenceMetaKey = m drainSequenceMetaKey" for i q c n
    by (rule keep, simp add: key_defs)+
  then show "recs_of m' = recs_of m" "idem_of m' = idem_of m" "qidx_of m' = qidx_of m" "events_of m' = events_of m"
    "djobs_of m' = djobs_of m" "seq_of m' = seq_of m"
    by (simp_all add: view_defs fun_eq_iff)
  show "exps_of m' = {(e, i) \<in> exps_of m. \<not> e < now}"
    using range_expBound(2) [OF assms(1)] by (auto simp: exps_of_def m'_def drop_range_def)
qed

lemma fold_count_simps:
  "p_db (fold (\<lambda>st. countStatus st (- 1)) sts s) = p_db s"
  "p_queued (fold (\<lambda>st. countStatus st (- 1)) sts s) = p_queued s - (\<Sum>st\<leftarrow>sts. count1 st StatusQueued)"
  "p_inFlight (fold (\<lambda>st. countStatus st (- 1)) sts s) = p_inFlight s - (\<Sum>st\<leftarrow>sts. count1 st StatusInFlight)"
  by (induction sts arbitrary: s) (simp_all add: algebra_simps)

definition expired_by :: "ms \<Rightarrow> table \<Rightarrow> string \<Rightarrow> bool" where
  "expired_by now m i \<longleftrightarrow> (\<exists>r. recs_of m i = Some r \<and> pr_ExpiresAt r < now)"

text \<open>The keys still to visit: due entries of the index, each read from the database as it was.\<close>

definition due_keys :: "table \<Rightarrow> table \<Rightarrow> string list \<Rightarrow> bool" where
  "due_keys m v ks \<longleftrightarrow> distinct ks \<and> (\<forall>k\<in>set ks. \<exists>e i. in63 e \<and> i \<noteq> '''' \<and> k = expKey e i
     \<and> (e, i) \<in> exps_of v \<and> recs_of m i = recs_of v i)"

lemma entry_expD: "entry_ok k v \<Longrightarrow> k = ''exp:'' @ r \<Longrightarrow> \<exists>e i. in63 e \<and> i \<noteq> '''' \<and> k = expKey e i"
  by (simp add: entry_ok_def)

lemma due_keysD: "due_keys m v ks \<Longrightarrow> k \<in> set ks \<Longrightarrow>
    \<exists>e i. in63 e \<and> i \<noteq> '''' \<and> k = expKey e i \<and> (e, i) \<in> exps_of v \<and> recs_of m i = recs_of v i"
  by (simp add: due_keys_def)

lemma due_keys_at:
  assumes "due_keys m v ks" "in63 e" "expKey e i \<in> set ks"
  shows "i \<noteq> ''''" "(e, i) \<in> exps_of v" "recs_of m i = recs_of v i"
proof -
  from due_keysD [OF assms(1,3)] obtain e' i' where "in63 e'" "i' \<noteq> ''''" "expKey e i = expKey e' i'"
    "(e', i') \<in> exps_of v" "recs_of m i' = recs_of v i'" by blast
  moreover from this have "e = e'" "i = i'" using expKey_inject [OF assms(2)] by simp_all
  ultimately show "i \<noteq> ''''" "(e, i) \<in> exps_of v" "recs_of m i = recs_of v i" by simp_all
qed

lemma expKey_parts: "in63 e \<Longrightarrow> length (expKey e i) = 21 + length i" "in63 e \<Longrightarrow> drop 21 (expKey e i) = i"
  by (simp_all add: expKey_def length_hex16 in63_def)

context pebble_db
begin

lemma expire_commit_views:
  "fst (expire_commit kv batch sts s)"
  "\<alpha> (p_db (snd (expire_commit kv batch sts s))) = batch_apply batch (\<alpha> (p_db s))"
  "p_queued (snd (expire_commit kv batch sts s)) = p_queued s - (\<Sum>st\<leftarrow>sts. count1 st StatusQueued)"
  "p_inFlight (snd (expire_commit kv batch sts s)) = p_inFlight s - (\<Sum>st\<leftarrow>sts. count1 st StatusInFlight)"
  by (simp_all add: expire_commit_def fold_count_simps)

lemma expire_loop_ok:
  assumes "store_ok H T (batch_apply batch (\<alpha> (p_db s)))
      (p_queued s - (\<Sum>st\<leftarrow>sts. count1 st StatusQueued)) (p_inFlight s - (\<Sum>st\<leftarrow>sts. count1 st StatusInFlight))"
    and "due_keys (\<alpha> (p_db s)) (batch_apply batch (\<alpha> (p_db s))) ks"
  shows "\<exists>v. store_ok H T v (p_queued (expire_loop kv H now ks batch sts s)) (p_inFlight (expire_loop kv H now ks batch sts s))
    \<and> \<alpha> (p_db (expire_loop kv H now ks batch sts s)) = drop_range ''exp:'' (expKeyBound now) v
    \<and> recs_of v = (\<lambda>i. if (\<exists>e. in63 e \<and> expKey e i \<in> set ks) \<and> expired_by now (batch_apply batch (\<alpha> (p_db s))) i
                       then None else recs_of (batch_apply batch (\<alpha> (p_db s))) i)
    \<and> exps_of v = exps_of (batch_apply batch (\<alpha> (p_db s)))
    \<and> events_of v = events_of (batch_apply batch (\<alpha> (p_db s)))"
  using assms
proof (induction ks arbitrary: batch sts s)
  case Nil
  then show ?case
    by (auto simp: expire_commit_views drop_range_def expired_by_def)
next
  case (Cons k ks)
  define v where "v = batch_apply batch (\<alpha> (p_db s))"
  note ok = Cons.prems(1) [folded v_def] and due = Cons.prems(2) [folded v_def]
  from due obtain e i where k: "in63 e" "i \<noteq> ''''" "k = expKey e i" "(e, i) \<in> exps_of v"
    "recs_of (\<alpha> (p_db s)) i = recs_of v i"
    by (auto simp: due_keys_def)
  have due': "due_keys (\<alpha> (p_db s)) v ks" using due by (simp add: due_keys_def)
  have read: "getRecord kv (drop 21 k) s = recs_of v i" "\<not> length k \<le> 21"
    using k by (simp_all add: getRecord_view expKey_parts)
  have here: "(\<exists>e. in63 e \<and> expKey e j \<in> set (k # ks)) \<longleftrightarrow> j = i \<or> (\<exists>e. in63 e \<and> expKey e j \<in> set ks)" for j
    using k expKey_inject by auto
  show ?case
  proof (cases "expired_by now v i")
    case False
    then have step: "expire_loop kv H now (k # ks) batch sts s = expire_loop kv H now ks batch sts s"
      using read by (cases "recs_of v i") (auto simp: expired_by_def)
    have same: "(\<lambda>j. if (\<exists>e. in63 e \<and> expKey e j \<in> set (k # ks)) \<and> expired_by now v j then None else recs_of v j)
        = (\<lambda>j. if (\<exists>e. in63 e \<and> expKey e j \<in> set ks) \<and> expired_by now v j then None else recs_of v j)"
      using False here by (auto simp: fun_eq_iff)
    from Cons.IH [OF Cons.prems(1), folded v_def, OF due'] show ?thesis
      unfolding step v_def [symmetric] same .
  next
    case True
    then obtain r where r: "recs_of v i = Some r" "pr_ExpiresAt r < now" by (auto simp: expired_by_def)
    define v' where "v' = batch_apply (delete_ops H i r) v"
    let ?batch = "batch @ delete_ops H i r" and ?sts = "sts @ [j_Status (pr_Job r)]"
    have v': "v' = batch_apply ?batch (\<alpha> (p_db s))" by (simp add: v'_def v_def)
    note del = delete_ops_ok [OF ok r(1), folded v'_def]
    have ok': "store_ok H T v' (p_queued s - (\<Sum>st\<leftarrow>?sts. count1 st StatusQueued))
        (p_inFlight s - (\<Sum>st\<leftarrow>?sts. count1 st StatusInFlight))"
      using del(1) by (simp add: algebra_simps)
    have uniq: "j \<noteq> i" if e': "in63 e'" and mem: "expKey e' j \<in> set ks" for e' j
    proof
      assume "j = i"
      then have "(e', i) \<in> exps_of v" using due_keys_at [OF due' e' mem] by simp
      then have "e' = e" using index_okD(2) [OF store_okD(2) [OF ok] r(1)] k(4) by simp
      then show False using mem due k \<open>j = i\<close> by (simp add: due_keys_def)
    qed
    have rest: "(\<lambda>j. if (\<exists>e. in63 e \<and> expKey e j \<in> set (k # ks)) \<and> expired_by now v j then None else recs_of v j)
        = (\<lambda>j. if (\<exists>e. in63 e \<and> expKey e j \<in> set ks) \<and> expired_by now v' j then None else recs_of v' j)"
      using True unfolding here by (auto simp: fun_eq_iff del(2) expired_by_def)
    have due_v': "due_keys m' v' ks"
      if agree: "\<And>e j. in63 e \<Longrightarrow> expKey e j \<in> set ks \<Longrightarrow> recs_of m' j = recs_of v' j" for m'
      unfolding due_keys_def
    proof (intro conjI ballI)
      show "distinct ks" using due' by (simp add: due_keys_def)
      fix x assume x: "x \<in> set ks"
      then obtain e2 i2 where e2: "in63 e2" "i2 \<noteq> ''''" "x = expKey e2 i2" "(e2, i2) \<in> exps_of v"
        using due' by (auto simp: due_keys_def)
      then show "\<exists>e i. in63 e \<and> i \<noteq> '''' \<and> x = expKey e i \<and> (e, i) \<in> exps_of v' \<and> recs_of m' i = recs_of v' i"
        using agree [of e2 i2] x by (intro exI [of _ e2] exI [of _ i2]) (simp add: del)
    qed
    show ?thesis
    proof (cases "length ?sts = expireBatchSize")
      case False
      then have step: "expire_loop kv H now (k # ks) batch sts s = expire_loop kv H now ks ?batch ?sts s"
        using read r k by (simp add: Let_def expKey_parts)
      have "due_keys (\<alpha> (p_db s)) v' ks"
      proof (rule due_v')
        fix e2 j assume j: "in63 e2" "expKey e2 j \<in> set ks"
        then show "recs_of (\<alpha> (p_db s)) j = recs_of v' j"
          using uniq [OF j] due_keys_at [OF due' j] by (simp add: del)
      qed
      from Cons.IH [of ?batch s ?sts, folded v', OF ok' this] show ?thesis
        unfolding step v_def [symmetric] rest del .
    next
      case True
      let ?s' = "snd (expire_commit kv ?batch ?sts s)"
      have step: "expire_loop kv H now (k # ks) batch sts s = expire_loop kv H now ks [] [] ?s'"
        using read r k True expire_commit_views(1) [of ?batch ?sts s]
        by (auto simp: Let_def expKey_parts split: prod.splits)
      have a: "batch_apply [] (\<alpha> (p_db ?s')) = v'" by (simp add: expire_commit_views v')
      have "store_ok H T v' (p_queued ?s' - (\<Sum>st\<leftarrow>[]. count1 st StatusQueued)) (p_inFlight ?s' - (\<Sum>st\<leftarrow>[]. count1 st StatusInFlight))"
        using ok' by (simp add: expire_commit_views)
      moreover have "due_keys (\<alpha> (p_db ?s')) v' ks"
        using due_v' [of v'] a by (simp add: del)
      ultimately show ?thesis
        using Cons.IH [of "[]" ?s' "[]", unfolded a] unfolding step v_def [symmetric] rest del by blast
    qed
  qed
qed

lemma deleteExpired_views:
  assumes inv: "store_inv \<alpha> H T s" and le: "T \<le> now" and now: "in63 now"
  defines "s' \<equiv> deleteExpired kv H now s" and "m \<equiv> \<alpha> (p_db s)"
  shows "store_inv \<alpha> H now s'"
    and "recs_of (\<alpha> (p_db s')) = (\<lambda>i. if expired_by now m i then None else recs_of m i)"
    and "events_of (\<alpha> (p_db s')) = events_of m"
proof -
  note ok = inv [unfolded store_inv_def, folded m_def]
  obtain xs where xs: "kv_iter kv (p_db s) ''exp:'' (expKeyBound now) = Some xs" "sorted_wrt str_less (map fst xs)"
    "\<And>k v. (k, v) \<in> set xs \<longleftrightarrow> m k = Some v \<and> str_le ''exp:'' k \<and> str_less k (expKeyBound now)"
    using iterE [of "p_db s" "''exp:''" "expKeyBound now"] unfolding m_def by metis
  have key: "\<exists>e i. in63 e \<and> i \<noteq> '''' \<and> k = expKey e i \<and> (e, i) \<in> exps_of m \<and> e < now" if "k \<in> set (map fst xs)" for k
  proof -
    from that obtain v where v: "m k = Some v" "str_le ''exp:'' k \<and> str_less k (expKeyBound now)" using xs(3) by auto
    then have "entry_ok k v" using store_okD(1) [OF ok] unfolding shape_ok_def by blast
    then obtain e i where "in63 e" "i \<noteq> ''''" "k = expKey e i"
      using range_expBound(1) [OF now v(2)] entry_expD by blast
    with v range_expBound(2) [OF now] show ?thesis by (auto simp: exps_of_def)
  qed
  have listed: "expired_by now m i \<Longrightarrow> \<exists>e. in63 e \<and> expKey e i \<in> set (map fst xs)" for i
  proof -
    assume "expired_by now m i"
    then obtain r where r: "recs_of m i = Some r" "pr_ExpiresAt r < now" by (auto simp: expired_by_def)
    then have "(pr_ExpiresAt r, i) \<in> exps_of m" using index_okD(2) [OF store_okD(2) [OF ok]] by blast
    then obtain v where "in63 (pr_ExpiresAt r)" "m (expKey (pr_ExpiresAt r) i) = Some v" by (auto simp: exps_of_def)
    with r(2) xs(3) range_expBound(2) [OF now] show ?thesis by force
  qed
  have "\<exists>v. store_ok H T v (p_queued s') (p_inFlight s')
    \<and> \<alpha> (p_db s') = drop_range ''exp:'' (expKeyBound now) v
    \<and> recs_of v = (\<lambda>i. if expired_by now m i then None else recs_of m i) \<and> exps_of v = exps_of m \<and> events_of v = events_of m"
  proof (cases "xs = []")
    case True
    have "drop_range ''exp:'' (expKeyBound now) m = m"
      using xs(3) True by (auto simp: drop_range_def fun_eq_iff) (metis not_None_eq)
    moreover have "\<not> expired_by now m i" for i using listed [of i] True by auto
    ultimately show ?thesis using ok xs(1) True by (auto simp: s'_def deleteExpired_def m_def)
  next
    case False
    have "due_keys m m (map fst xs)"
      unfolding due_keys_def using key sorted_distinct_keys [OF xs(2)] by blast
    moreover have eq: "batch_apply [] m = m" by simp
    moreover have s': "expire_loop kv H now (map fst xs) [] [] s = s'"
      using xs(1) False by (simp add: s'_def deleteExpired_def)
    ultimately
    obtain v where v: "store_ok H T v (p_queued s') (p_inFlight s')"
      "\<alpha> (p_db s') = drop_range ''exp:'' (expKeyBound now) v"
      "recs_of v = (\<lambda>i. if (\<exists>e. in63 e \<and> expKey e i \<in> set (map fst xs)) \<and> expired_by now m i then None else recs_of m i)"
      "exps_of v = exps_of m" "events_of v = events_of m"
      using expire_loop_ok [of H T "[]" s "[]" "map fst xs" now, folded m_def, unfolded eq s'] ok by auto
    with listed show ?thesis by (intro exI [of _ v]) (auto simp: fun_eq_iff)
  qed
  then obtain v where v: "store_ok H T v (p_queued s') (p_inFlight s')"
    "\<alpha> (p_db s') = drop_range ''exp:'' (expKeyBound now) v"
    "recs_of v = (\<lambda>i. if expired_by now m i then None else recs_of m i)" "events_of v = events_of m"
    by blast
  note views = exp_range_views [OF now, of v, folded v(2)]
  show "recs_of (\<alpha> (p_db s')) = (\<lambda>i. if expired_by now m i then None else recs_of m i)"
    "events_of (\<alpha> (p_db s')) = events_of m"
    by (simp_all only: views v(3,4))
  have alive: "now \<le> pr_ExpiresAt r" if "recs_of v i = Some r" for i r
    using that by (auto simp: v(3) expired_by_def split: if_splits)
  have "shape_ok (\<alpha> (p_db s'))"
    unfolding v(2) by (rule shape_sub [OF store_okD(1) [OF v(1)] drop_range_le])
  moreover have "drain_ok (\<alpha> (p_db s'))" by (rule drain_ok_cong [OF store_okD(4) [OF v(1)]]) (simp_all add: views)
  moreover have "count_ok (\<alpha> (p_db s')) (p_queued s') (p_inFlight s')"
    using store_okD(3) [OF v(1)] by (simp add: count_ok_def with_status_def views)
  moreover have "index_ok H now (\<alpha> (p_db s'))"
    using store_okD(2) [OF v(1)] alive le unfolding index_ok_def views by fastforce
  ultimately show "store_inv \<alpha> H now s'" by (simp add: store_inv_def store_ok_def)
qed

end

section \<open>Pages of a queue\<close>

definition drop_keys :: "string set \<Rightarrow> table \<Rightarrow> table" where
  "drop_keys S m = (\<lambda>k. if k \<in> S then None else m k)"

lemma batch_deletes: "batch_apply (map BDelete ks) m = drop_keys (set ks) m"
  by (induction ks arbitrary: m) (auto simp: drop_keys_def fun_eq_iff)

definition index_keys :: "string \<Rightarrow> string set" where
  "index_keys q = {queueIndexKey q c i | c i. in63 c \<and> i \<noteq> ''''}"

lemma drop_index_views:
  assumes "S \<subseteq> index_keys q"
  shows "recs_of (drop_keys S m) = recs_of m" "idem_of (drop_keys S m) = idem_of m" "exps_of (drop_keys S m) = exps_of m"
    "events_of (drop_keys S m) = events_of m" "djobs_of (drop_keys S m) = djobs_of m" "seq_of (drop_keys S m) = seq_of m"
    "drop_keys S m (jobKey i) = m (jobKey i)" "drop_keys S m \<subseteq>\<^sub>m m"
proof -
  have out: "jobKey i \<notin> S" "idemKey i \<notin> S" "expKey e i \<notin> S" "drainSeqKey n \<notin> S" "drainJobKey i \<notin> S"
    "drainSequenceMetaKey \<notin> S" for i e n
    using assms by (auto simp: index_keys_def)
  show "recs_of (drop_keys S m) = recs_of m" "idem_of (drop_keys S m) = idem_of m" "exps_of (drop_keys S m) = exps_of m"
    "events_of (drop_keys S m) = events_of m" "djobs_of (drop_keys S m) = djobs_of m" "seq_of (drop_keys S m) = seq_of m"
    "drop_keys S m (jobKey i) = m (jobKey i)"
    by (simp_all add: view_defs drop_keys_def out fun_eq_iff)
  show "drop_keys S m \<subseteq>\<^sub>m m" by (auto simp: drop_keys_def map_le_def dom_def)
qed

text \<open>The job a key of the index stands for, if a page must list it.\<close>

definition listed :: "string \<Rightarrow> ms \<Rightarrow> pebbleRecord \<Rightarrow> bool" where
  "listed q now r \<longleftrightarrow> now < pr_ExpiresAt r \<and> pr_QueueKey r = q \<and> pending_rec r"

definition page_pick :: "string \<Rightarrow> ms \<Rightarrow> (string \<Rightarrow> pebbleRecord option) \<Rightarrow> string \<Rightarrow> Job option" where
  "page_pick q now R k =
     (case R (drop (length ''qk:'' + length q + 1 + 16 + 1) k) of
        None \<Rightarrow> None | Some r \<Rightarrow> if listed q now r then Some (as_queued r) else None)"

lemma index_key_parts:
  "in63 c \<Longrightarrow> length (queueIndexKey q c i) = 21 + length q + length i"
  "in63 c \<Longrightarrow> drop (21 + length q) (queueIndexKey q c i) = i"
proof -
  assume c: "in63 c"
  define p where "p = ''qk:'' @ q @ [nul] @ hex16 c @ '':''"
  have "queueIndexKey q c i = p @ i" "length p = 21 + length q"
    using c length_hex16 [of c] by (simp_all add: p_def queueIndexKey_def to_uint64_in63) (simp add: in63_def)
  then show "length (queueIndexKey q c i) = 21 + length q + length i" "drop (21 + length q) (queueIndexKey q c i) = i"
    by simp_all
qed

lemma page_pick_key:
  "in63 c \<Longrightarrow> page_pick q now R (queueIndexKey q c i) =
     (case R i of None \<Rightarrow> None | Some r \<Rightarrow> if listed q now r then Some (as_queued r) else None)"
  using index_key_parts(2) [of c q i] by (simp add: page_pick_def add.commute)

context pebble_db
begin

lemma page_flush_view:
  "\<alpha> (p_db (page_flush kv (map BDelete ks) s)) = drop_keys (set ks) (\<alpha> (p_db s))"
  "p_queued (page_flush kv (map BDelete ks) s) = p_queued s" "p_inFlight (page_flush kv (map BDelete ks) s) = p_inFlight s"
  by (auto simp: page_flush_def batch_deletes drop_keys_def)

lemma page_loop_ok:
  assumes "fst ` set xs \<subseteq> index_keys q" "set ks \<subseteq> {k \<in> index_keys q. page_pick q now R k = None}"
    and "shape_ok (\<alpha> (p_db s))" "recs_of (\<alpha> (p_db s)) = R" "int (length found) \<le> max limit 0"
  shows "\<exists>S. S \<subseteq> {k \<in> index_keys q. page_pick q now R k = None}
    \<and> fst (page_loop kv q now limit xs found (map BDelete ks) s)
        = Some (take (nat limit) (found @ List.map_filter (page_pick q now R) (map fst xs)))
    \<and> \<alpha> (p_db (snd (page_loop kv q now limit xs found (map BDelete ks) s))) = drop_keys S (\<alpha> (p_db s))
    \<and> p_queued (snd (page_loop kv q now limit xs found (map BDelete ks) s)) = p_queued s
    \<and> p_inFlight (snd (page_loop kv q now limit xs found (map BDelete ks) s)) = p_inFlight s"
  using assms
proof (induction xs arbitrary: found ks s)
  case Nil
  then show ?case
    by (intro exI [of _ "set ks"]) (auto simp: page_flush_view map_filter_simps)
next
  case (Cons x xs)
  obtain k v where x: "x = (k, v)" by (cases x)
  from Cons.prems(1) x obtain c i where k: "in63 c" "i \<noteq> ''''" "k = queueIndexKey q c i" by (auto simp: index_keys_def)
  let ?stale = "{k \<in> index_keys q. page_pick q now R k = None}"
  show ?case
  proof (cases "int (length found) < limit")
    case False
    with Cons.prems show ?thesis
      by (intro exI [of _ "set ks"]) (auto simp: x page_flush_view Let_def)
  next
    case True
    have len: "\<not> length k \<le> length ''qk:'' + length q + 1 + 16 + 1" using k index_key_parts(1) [of c q i] by simp
    have key: "drop (length ''qk:'' + length q + 1 + 16 + 1) k = i"
      using index_key_parts(2) [of c q i] k by (simp add: add.commute)
    have get: "kv_get kv (p_db s) (jobKey i) = (case R i of None \<Rightarrow> NotFound | Some r \<Rightarrow> Found (SRecord r))"
    proof (cases "\<alpha> (p_db s) (jobKey i)")
      case (Some w)
      then have "entry_ok (jobKey i) w" using Cons.prems(3) unfolding shape_ok_def by blast
      with Some Cons.prems(4) show ?thesis by (auto simp: get_law recs_of_def)
    qed (use Cons.prems(4) in \<open>auto simp: get_law recs_of_def\<close>)
    have go: "\<exists>S. S \<subseteq> ?stale \<and>
        (let r = (if length (map BDelete ks' :: stored batch_op list) \<ge> 1000
                  then page_loop kv q now limit xs found' [] (page_flush kv (map BDelete ks') s)
                  else page_loop kv q now limit xs found' (map BDelete ks') s)
         in fst r = Some (take (nat limit) (found' @ List.map_filter (page_pick q now R) (map fst xs)))
            \<and> \<alpha> (p_db (snd r)) = drop_keys S (\<alpha> (p_db s)) \<and> p_queued (snd r) = p_queued s \<and> p_inFlight (snd r) = p_inFlight s)"
      if ks': "set ks' \<subseteq> ?stale" and found': "int (length found') \<le> max limit 0" for ks' found'
    proof (cases "length ks' \<ge> 1000")
      case False
      from Cons.IH [OF _ ks' Cons.prems(3,4) found'] Cons.prems(1) False show ?thesis by (auto simp: Let_def)
    next
      case True
      let ?s = "page_flush kv (map BDelete ks') s"
      have "set ks' \<subseteq> index_keys q" using ks' by blast
      note dv = drop_index_views [OF this, of "\<alpha> (p_db s)"]
      have sh: "shape_ok (\<alpha> (p_db ?s))" "recs_of (\<alpha> (p_db ?s)) = R"
        using shape_sub [OF Cons.prems(3) dv(8)] Cons.prems(4) by (simp_all add: page_flush_view dv)
      from Cons.IH [of "[]" ?s found', OF _ _ sh found'] Cons.prems(1)
      obtain S where S: "S \<subseteq> ?stale"
        "fst (page_loop kv q now limit xs found' [] ?s)
           = Some (take (nat limit) (found' @ List.map_filter (page_pick q now R) (map fst xs)))"
        "\<alpha> (p_db (snd (page_loop kv q now limit xs found' [] ?s))) = drop_keys S (\<alpha> (p_db ?s))"
        "p_queued (snd (page_loop kv q now limit xs found' [] ?s)) = p_queued ?s"
        "p_inFlight (snd (page_loop kv q now limit xs found' [] ?s)) = p_inFlight ?s"
        by auto
      have "drop_keys S (drop_keys (set ks') (\<alpha> (p_db s))) = drop_keys (S \<union> set ks') (\<alpha> (p_db s))"
        by (auto simp: drop_keys_def)
      with S ks' True show ?thesis
        by (intro exI [of _ "S \<union> set ks'"]) (simp add: Let_def page_flush_view)
    qed
    have kin: "k \<in> index_keys q" using k by (auto simp: index_keys_def)
    show ?thesis
    proof (cases "page_pick q now R k")
      case None
      then have "set (ks @ [k]) \<subseteq> ?stale" using Cons.prems(2) kin by auto
      have "\<not> (\<exists>r. R i = Some r \<and> listed q now r)"
        using None k by (auto simp: page_pick_key)
      then have step: "page_loop kv q now limit (x # xs) found (map BDelete ks) s =
          (if length (map BDelete (ks @ [k]) :: stored batch_op list) \<ge> 1000
           then page_loop kv q now limit xs found [] (page_flush kv (map BDelete (ks @ [k])) s)
           else page_loop kv q now limit xs found (map BDelete (ks @ [k])) s)"
        using True len key get unfolding x page_loop.simps Let_def
        by (cases "R i"; simp add: listed_def pending_rec_def not_le) blast
      have "List.map_filter (page_pick q now R) (map fst (x # xs)) = List.map_filter (page_pick q now R) (map fst xs)"
        by (simp add: x None map_filter_simps)
      with go [of "ks @ [k]" found] Cons.prems(5) \<open>set (ks @ [k]) \<subseteq> _\<close> show ?thesis
        unfolding step Let_def by simp
    next
      case (Some j)
      then obtain r where r: "R i = Some r" "listed q now r" "j = as_queued r"
        using k by (auto simp: page_pick_key split: option.splits if_splits)
      then have "\<not> (pr_ExpiresAt r \<le> now \<or> pr_QueueKey r \<noteq> q \<or> \<not> pendingStatus (j_Status (pr_Job r)))"
        by (auto simp: listed_def pending_rec_def)
      then have step: "page_loop kv q now limit (x # xs) found (map BDelete ks) s =
          (if length (map BDelete ks :: stored batch_op list) \<ge> 1000
           then page_loop kv q now limit xs (found @ [j]) [] (page_flush kv (map BDelete ks) s)
           else page_loop kv q now limit xs (found @ [j]) (map BDelete ks) s)"
        using True len key get r unfolding x page_loop.simps Let_def by (simp add: as_queued_def)
      have "List.map_filter (page_pick q now R) (map fst (x # xs)) = j # List.map_filter (page_pick q now R) (map fst xs)"
        by (simp add: x Some map_filter_simps)
      moreover have "int (length (found @ [j])) \<le> max limit 0" using True by simp
      ultimately show ?thesis
        using go [of ks "found @ [j]"] Cons.prems(2) unfolding step Let_def by simp
    qed
  qed
qed

end

text \<open>The bounds of a page, read back as conditions on the job a key stands for.\<close>

definition after_cursor :: "PageCursor \<Rightarrow> ms \<Rightarrow> string \<Rightarrow> bool" where
  "after_cursor after c i \<longleftrightarrow> pc_CreatedAt after < c \<or> pc_CreatedAt after = c \<and> str_less (pc_ID after) i"

lemma after_cursor_Covers: "after_cursor after (j_CreatedAt j) (j_ID j) \<longleftrightarrow> \<not> Covers after j"
  by (auto simp: after_cursor_def Covers_def str_less_iff_not_le)

lemma str_le_nul: "str_le (s @ [nul]) t \<longleftrightarrow> str_less s t"
proof (induction s arbitrary: t)
  case Nil
  have pos: "(of_char a :: nat) > 0" if "a \<noteq> CHR 0x00" for a
  proof (rule ccontr)
    assume "\<not> (of_char a :: nat) > 0"
    then have "(of_char a :: nat) = of_char (CHR 0x00)" by simp
    with that show False by (simp only: of_char_eq_iff)
  qed
  show ?case
  proof (cases t)
    case (Cons b u)
    then show ?thesis using pos [of b] by (cases "b = CHR 0x00") (simp_all add: nul_def)
  qed simp
next
  case (Cons a s)
  then show ?case by (cases t) auto
qed

lemma page_lower_iff:
  assumes "in63 c" "in63 (pc_CreatedAt after)" "i \<noteq> ''''"
  shows "str_le (page_lower q after) (queueIndexKey q c i) \<longleftrightarrow> after_cursor after c i"
proof (cases "after = zero_cursor")
  case True
  have "str_less '''' i" using assms(3) by (cases i) auto
  then show ?thesis using True assms(1)
    by (auto simp: page_lower_def zero_cursor_def queueIndexKey_def after_cursor_def in63_def)
next
  case False
  let ?c = "pc_CreatedAt after" and ?i = "pc_ID after"
  have "str_le (page_lower q after) (queueIndexKey q c i)
      \<longleftrightarrow> str_le (hex16 ?c @ '':'' @ ?i @ [nul]) (hex16 c @ '':'' @ i)"
    using False assms by (simp add: page_lower_def queueIndexKey_def to_uint64_in63)
  also have "\<dots> \<longleftrightarrow> ?c < c \<or> ?c = c \<and> str_less ?i i"
    using hex16_order [of ?c c "'':'' @ ?i @ [nul]" "'':'' @ i"] assms in63_64 by (simp add: str_le_nul)
  finally show ?thesis by (simp add: after_cursor_def)
qed

lemma page_upper_iff:
  assumes "in63 c" "before \<le> 0 \<or> in63 before"
  shows "str_less (queueIndexKey q c i) (page_upper q before) \<longleftrightarrow> (0 < before \<longrightarrow> c < before)"
proof (cases "0 < before")
  case True
  then have "in63 before" using assms(2) by simp
  then show ?thesis
    using True assms(1) hex16_order [of before c "[]" "'':'' @ i"] in63_64
    by (auto simp: page_upper_def queueIndexKey_def queueIndexBound_def to_uint64_in63 str_less_iff_not_le)
qed (simp add: page_upper_def queueIndexKey_def nul_def)

lemma str_less_le_trans: "str_less s t \<Longrightarrow> str_le t u \<Longrightarrow> str_less s u"
  using str_less_trans [of s t u] by (cases "t = u") (auto simp: str_less_def)

lemma page_range_prefix:
  assumes "str_le (page_lower q after) k" "str_less k (page_upper q before)"
  shows "\<exists>r. k = ''qk:'' @ q @ nul # r"
proof -
  have "str_le (''qk:'' @ q @ [nul]) (page_lower q after)"
    by (simp add: page_lower_def queueIndexKey_def)
  moreover have "str_le (page_upper q before) (''qk:'' @ q @ [CHR 0x01])"
    by (simp add: page_upper_def queueIndexBound_def nul_def)
  ultimately have "str_le (''qk:'' @ q @ [nul]) k" "str_less k (''qk:'' @ q @ [CHR 0x01])"
    using str_le_trans [OF _ assms(1)] str_less_le_trans [OF assms(2)] by simp_all
  then show ?thesis
    using prefix_range [of "CHR 0x01" nul "''qk:'' @ q" k] by (simp add: nul_def)
qed

lemma entry_qkD:
  assumes "entry_ok k v" "k = ''qk:'' @ q @ nul # r" "nul \<notin> set q"
  shows "k \<in> index_keys q"
proof -
  from assms(1,2) obtain q' c i where k: "nul \<notin> set q'" "in63 c" "i \<noteq> ''''" "k = queueIndexKey q' c i"
    by (auto simp: entry_ok_def)
  then have "q' = q"
    using assms(2,3) nul_split [of q q' r "hex16 (to_uint64 c) @ CHR '':'' # i"] by (simp add: queueIndexKey_def)
  with k show ?thesis by (auto simp: index_keys_def)
qed

definition page_before :: "Job \<Rightarrow> Job \<Rightarrow> bool" where
  "page_before j j' \<longleftrightarrow> j_CreatedAt j < j_CreatedAt j' \<or> j_CreatedAt j = j_CreatedAt j' \<and> str_less (j_ID j) (j_ID j')"

lemma queueIndexKey_order:
  assumes "in63 c" "in63 c'"
  shows "str_less (queueIndexKey q c i) (queueIndexKey q c' i') \<longleftrightarrow> c < c' \<or> c = c' \<and> str_less i i'"
  using hex16_order [of c' c "'':'' @ i'" "'':'' @ i"] assms in63_64
  by (auto simp: queueIndexKey_def to_uint64_in63 str_less_iff_not_le)

definition page_wanted :: "(string \<Rightarrow> pebbleRecord option) \<Rightarrow> string \<Rightarrow> ms \<Rightarrow> PageCursor \<Rightarrow> ms \<Rightarrow> Job set" where
  "page_wanted R q now after before =
     {as_queued r | i r. R i = Some r \<and> listed q now r \<and> \<not> Covers after (pr_Job r)
        \<and> (0 < before \<longrightarrow> j_CreatedAt (pr_Job r) < before)}"

lemma as_queued_simps [simp]:
  "j_CreatedAt (as_queued r) = j_CreatedAt (pr_Job r)" "j_ID (as_queued r) = j_ID (pr_Job r)"
  by (simp_all add: as_queued_def)

lemma in_map_filter: "y \<in> set (List.map_filter f xs) \<longleftrightarrow> (\<exists>x\<in>set xs. f x = Some y)"
  by (induction xs) (auto simp: map_filter_simps split: option.splits)

lemma sorted_map_filter:
  assumes "sorted_wrt P ks" and "\<And>k k' x y. k \<in> set ks \<Longrightarrow> k' \<in> set ks \<Longrightarrow> P k k' \<Longrightarrow> f k = Some x \<Longrightarrow> f k' = Some y \<Longrightarrow> Q x y"
  shows "sorted_wrt Q (List.map_filter f ks)"
  using assms
proof (induction ks)
  case (Cons k ks)
  have "Q x y" if "f k = Some x" "y \<in> set (List.map_filter f ks)" for x y
  proof -
    from that(2) obtain k' where "k' \<in> set ks" "f k' = Some y" by (auto simp: in_map_filter)
    with Cons.prems(1) Cons.prems(2) [of k k' x y] that(1) show ?thesis by auto
  qed
  with Cons show ?case by (auto simp: map_filter_simps split: option.splits)
qed (simp add: map_filter_simps)

lemma index_ok_drop:
  assumes ix: "index_ok H T m" and le: "T \<le> now" and q: "nul \<notin> set q" and shape: "shape_ok m"
    and S: "S \<subseteq> {k \<in> index_keys q. page_pick q now (recs_of m) k = None}"
  shows "index_ok H now (drop_keys S m)"
proof -
  have "S \<subseteq> index_keys q" using S by blast
  note dv = drop_index_views [OF this, of m]
  have sub: "qidx_of (drop_keys S m) \<subseteq> qidx_of m" by (auto simp: qidx_of_def drop_keys_def)
  have keep: "(pr_QueueKey r, j_CreatedAt (pr_Job r), i) \<in> qidx_of (drop_keys S m)"
    if r: "recs_of m i = Some r" "pending_rec r" "pr_QueueKey r \<noteq> ''''" "now < pr_ExpiresAt r" for i r
  proof -
    let ?c = "j_CreatedAt (pr_Job r)" and ?k = "queueIndexKey (pr_QueueKey r) (j_CreatedAt (pr_Job r)) i"
    have in_m: "(pr_QueueKey r, ?c, i) \<in> qidx_of m" using index_okD(3) [OF ix r(1-3)] r(4) le by simp
    have ro: "in63 ?c" "nul \<notin> set (pr_QueueKey r)" using recs_shape(1) [OF shape r(1)] by (auto simp: rec_ok_def)
    have "?k \<notin> S"
    proof
      assume "?k \<in> S"
      then have pick: "page_pick q now (recs_of m) ?k = None" and "?k \<in> index_keys q" using S by auto
      then obtain c' i' where "?k = queueIndexKey q c' i'" "in63 c'" by (auto simp: index_keys_def)
      then have "pr_QueueKey r = q" using queueIndexKey_inject [OF ro(2) q ro(1)] by blast
      with pick show False using r page_pick_key [OF ro(1), of q now "recs_of m" i] by (simp add: listed_def)
    qed
    with in_m show ?thesis by (simp add: qidx_of_def drop_keys_def)
  qed
  show ?thesis
    using ix sub keep unfolding index_ok_def dv by blast
qed

context pebble_db
begin

lemma QueuedPage_views:
  assumes inv: "store_inv \<alpha> H T s" and le: "T \<le> now" and q: "nul \<notin> set q" "q \<noteq> ''''"
    and bounds: "in63 (pc_CreatedAt after)" "before \<le> 0 \<or> in63 before"
  shows "\<exists>ws. fst (QueuedPage kv now q after before limit s) = Some (take (nat limit) ws)
      \<and> sorted_wrt page_before ws \<and> set ws = page_wanted (recs_of (\<alpha> (p_db s))) q now after before"
    and "store_inv \<alpha> H now (snd (QueuedPage kv now q after before limit s))"
    and "recs_of (\<alpha> (p_db (snd (QueuedPage kv now q after before limit s)))) = recs_of (\<alpha> (p_db s))"
    and "events_of (\<alpha> (p_db (snd (QueuedPage kv now q after before limit s)))) = events_of (\<alpha> (p_db s))"
proof -
  let ?m = "\<alpha> (p_db s)" and ?s' = "snd (QueuedPage kv now q after before limit s)"
  note ok = inv [unfolded store_inv_def]
  obtain xs where xs: "kv_iter kv (p_db s) (page_lower q after) (page_upper q before) = Some xs"
    "sorted_wrt str_less (map fst xs)"
    "\<And>k v. (k, v) \<in> set xs \<longleftrightarrow> ?m k = Some v \<and> str_le (page_lower q after) k \<and> str_less k (page_upper q before)"
    using iterE [of "p_db s" "page_lower q after" "page_upper q before"] by metis
  have keys: "fst ` set xs \<subseteq> index_keys q"
  proof
    fix k assume "k \<in> fst ` set xs"
    then obtain v where v: "?m k = Some v" "str_le (page_lower q after) k" "str_less k (page_upper q before)"
      using xs(3) by auto
    then have "entry_ok k v" using store_okD(1) [OF ok] unfolding shape_ok_def by blast
    moreover obtain r where "k = ''qk:'' @ q @ nul # r" using page_range_prefix [OF v(2,3)] by blast
    ultimately show "k \<in> index_keys q" using entry_qkD q(1) by blast
  qed
  let ?pick = "page_pick q now (recs_of ?m)"
  have "\<exists>S. S \<subseteq> {k \<in> index_keys q. ?pick k = None}
      \<and> fst (QueuedPage kv now q after before limit s) = Some (take (nat limit) (List.map_filter ?pick (map fst xs)))
      \<and> \<alpha> (p_db ?s') = drop_keys S ?m \<and> p_queued ?s' = p_queued s \<and> p_inFlight ?s' = p_inFlight s"
    using page_loop_ok [OF keys, of "[]" now "recs_of ?m" s "[]" limit] store_okD(1) [OF ok]
    by (simp add: QueuedPage_def xs(1))
  then obtain S where S: "S \<subseteq> {k \<in> index_keys q. ?pick k = None}"
    "fst (QueuedPage kv now q after before limit s) = Some (take (nat limit) (List.map_filter ?pick (map fst xs)))"
    "\<alpha> (p_db ?s') = drop_keys S ?m" "p_queued ?s' = p_queued s" "p_inFlight ?s' = p_inFlight s"
    by blast
  have "S \<subseteq> index_keys q" using S(1) by blast
  note dv = drop_index_views [OF this, of ?m]
  show "recs_of (\<alpha> (p_db ?s')) = recs_of ?m" "events_of (\<alpha> (p_db ?s')) = events_of ?m"
    by (simp_all only: S(3) dv)
  show "store_inv \<alpha> H now ?s'"
    unfolding store_inv_def store_ok_def S(3-5)
    using shape_sub [OF store_okD(1) [OF ok] dv(8)] drain_ok_cong [OF store_okD(4) [OF ok] dv(4-6)] store_okD(3) [OF ok]
      index_ok_drop [OF store_okD(2) [OF ok] le q(1) store_okD(1) [OF ok] S(1)]
    by (simp add: count_ok_def with_status_def dv)
  have key: "\<exists>c i r. k = queueIndexKey q c i \<and> in63 c \<and> i \<noteq> '''' \<and> recs_of ?m i = Some r \<and> listed q now r
      \<and> j = as_queued r \<and> c = j_CreatedAt (pr_Job r) \<and> i = j_ID (pr_Job r) \<and> after_cursor after c i \<and> (0 < before \<longrightarrow> c < before)"
    if k: "k \<in> set (map fst xs)" and pick: "?pick k = Some j" for k j
  proof -
    from k keys obtain c i where c: "k = queueIndexKey q c i" "in63 c" "i \<noteq> ''''" by (auto simp: index_keys_def)
    from k xs(3) obtain v where v: "?m k = Some v" "str_le (page_lower q after) k" "str_less k (page_upper q before)" by auto
    from pick c obtain r where r: "recs_of ?m i = Some r" "listed q now r" "j = as_queued r"
      by (auto simp: page_pick_key split: option.splits if_splits)
    have "(q, c, i) \<in> qidx_of ?m" using c v(1) q(1) by (simp add: qidx_of_def)
    then have "c = j_CreatedAt (pr_Job r)" by (rule index_okD(4) [OF store_okD(2) [OF ok] _ r(1)])
    moreover have "i = j_ID (pr_Job r)" using recs_shape(1) [OF store_okD(1) [OF ok] r(1)] by (simp add: rec_ok_def)
    ultimately show ?thesis
      using c r v(2,3) page_lower_iff [OF c(2) bounds(1) c(3)] page_upper_iff [OF c(2) bounds(2)] by blast
  qed
  let ?ws = "List.map_filter ?pick (map fst xs)"
  have "sorted_wrt page_before ?ws"
  proof (rule sorted_map_filter [OF xs(2)])
    fix k k' x y
    assume k: "k \<in> set (map fst xs)" "k' \<in> set (map fst xs)" "str_less k k'" "?pick k = Some x" "?pick k' = Some y"
    from key [OF k(1,4)] key [OF k(2,5)] k(3) show "page_before x y"
      by (auto simp: queueIndexKey_order page_before_def)
  qed
  moreover have "set ?ws = page_wanted (recs_of ?m) q now after before"
  proof (intro set_eqI iffI)
    fix j assume "j \<in> set ?ws"
    then obtain k where k: "k \<in> set (map fst xs)" "?pick k = Some j" unfolding in_map_filter by blast
    from key [OF k] obtain r where r: "recs_of ?m (j_ID (pr_Job r)) = Some r" "listed q now r" "j = as_queued r"
      "after_cursor after (j_CreatedAt (pr_Job r)) (j_ID (pr_Job r))" "0 < before \<longrightarrow> j_CreatedAt (pr_Job r) < before"
      by blast
    then show "j \<in> page_wanted (recs_of ?m) q now after before"
      unfolding page_wanted_def after_cursor_Covers by blast
  next
    fix j assume "j \<in> page_wanted (recs_of ?m) q now after before"
    then obtain i r where r: "recs_of ?m i = Some r" "listed q now r" "j = as_queued r"
      "\<not> Covers after (pr_Job r)" "0 < before \<longrightarrow> j_CreatedAt (pr_Job r) < before"
      by (auto simp: page_wanted_def)
    let ?c = "j_CreatedAt (pr_Job r)"
    have ro: "in63 ?c" "i \<noteq> ''''" "j_ID (pr_Job r) = i" using recs_shape(1) [OF store_okD(1) [OF ok] r(1)] by (auto simp: rec_ok_def)
    have "(q, ?c, i) \<in> qidx_of ?m"
      using index_okD(3) [OF store_okD(2) [OF ok] r(1)] r(2) q(2) le by (auto simp: listed_def)
    then obtain v where "?m (queueIndexKey q ?c i) = Some v" by (auto simp: qidx_of_def)
    moreover have "after_cursor after ?c i" using r(4) ro(3) after_cursor_Covers [of after "pr_Job r"] by simp
    ultimately have "(queueIndexKey q ?c i, v) \<in> set xs"
      using xs(3) page_lower_iff [OF ro(1) bounds(1) ro(2)] page_upper_iff [OF ro(1) bounds(2)] r(5) by blast
    then have "queueIndexKey q ?c i \<in> set (map fst xs)" by force
    moreover have "?pick (queueIndexKey q ?c i) = Some j" using r ro by (simp add: page_pick_key)
    ultimately show "j \<in> set ?ws" unfolding in_map_filter by blast
  qed
  ultimately show "\<exists>ws. fst (QueuedPage kv now q after before limit s) = Some (take (nat limit) ws)
      \<and> sorted_wrt page_before ws \<and> set ws = page_wanted (recs_of ?m) q now after before"
    using S(2) by blast
qed

end

end
