(* ===== verification/Store_Contract.thy ===== *)
theory Store_Contract
  imports Pebble_Pages
begin

text \<open>
  The contract of the job store (\<^verbatim>\<open>storage.Store\<close>) on the Pebble backend: runs of
  operations as a state machine, and the properties its callers rely on.  A state
  is the latest clock reading of the run with the store; the guards are what the
  callers keep to (fresh ids, a clock that does not run back, retries only of queued
  jobs).
\<close>

datatype store_event =
    SInsert ms Job
  | SSetQueueKey string string
  | SDelete string
  | SPutResult string Result
  | SRetry string int
  | SUpdate ms string Status
  | SDrainEnabled bool
  | SAck int
  | SExpire ms
  | SPage ms string PageCursor ms int
  | SClear

fun store_step :: "('d, stored) kv \<Rightarrow> (string \<Rightarrow> string) \<Rightarrow> store_event \<Rightarrow> ms \<times> 'd Pebble \<Rightarrow> ms \<times> 'd Pebble" where
  "store_step kv H (SInsert now job) (T, s) = (now, snd (CheckOrInsert kv H now job s))"
| "store_step kv H (SSetQueueKey i q) (T, s) = (T, SetQueueKey kv i q s)"
| "store_step kv H (SDelete i) (T, s) = (T, DeleteJob kv H i s)"
| "store_step kv H (SPutResult i res) (T, s) = (T, PutResult kv i res s)"
| "store_step kv H (SRetry i n) (T, s) = (T, RecordRetry kv i n s)"
| "store_step kv H (SUpdate now i st) (T, s) = (now, UpdateStatus kv H now i st s)"
| "store_step kv H (SDrainEnabled b) (T, s) = (T, SetDrainEventsEnabled b s)"
| "store_step kv H (SAck n) (T, s) = (T, AcknowledgeDrainEventsThrough kv n s)"
| "store_step kv H (SExpire now) (T, s) = (now, deleteExpired kv H now s)"
| "store_step kv H (SPage now q after before limit) (T, s) = (now, snd (QueuedPage kv now q after before limit s))"
| "store_step kv H SClear (T, s) = (T, ClearIdempotentKeys kv s)"

definition next_sequence :: "('d, stored) kv \<Rightarrow> 'd Pebble \<Rightarrow> int" where
  "next_sequence kv s =
     (case kv_get kv (p_db s) drainSequenceMetaKey of
        Found v \<Rightarrow> (case parse_int64 (bytes_of v) of Some n \<Rightarrow> n | None \<Rightarrow> 0) | _ \<Rightarrow> 0) + 1"

text \<open>No key of the database ends in this id.\<close>

definition id_unused :: "('d, stored) kv \<Rightarrow> string \<Rightarrow> 'd Pebble \<Rightarrow> bool" where
  "id_unused kv i s \<longleftrightarrow>
     (case kv_iter kv (p_db s) '''' ''~'' of
        None \<Rightarrow> False | Some xs \<Rightarrow> list_all (\<lambda>(k, _). \<not> has_suffix k ('':'' @ i)) xs)"

fun store_allowed ::
  "('d, stored) kv \<Rightarrow> (string \<Rightarrow> string) \<Rightarrow> store_event \<Rightarrow> ms \<times> 'd Pebble \<Rightarrow> bool" where
  "store_allowed kv H (SInsert now job) (T, s) \<longleftrightarrow> T \<le> now \<and> job_ok H now job \<and> id_unused kv (j_ID job) s"
| "store_allowed kv H (SSetQueueKey i q) (T, s) \<longleftrightarrow> nul \<notin> set q"
| "store_allowed kv H (SRetry i n) (T, s) \<longleftrightarrow>
     (case getRecord kv i s of None \<Rightarrow> True | Some r \<Rightarrow> j_Status (pr_Job r) = StatusQueued)"
| "store_allowed kv H (SUpdate now i st) (T, s) \<longleftrightarrow> T \<le> now \<and> seq_ok (next_sequence kv s)
     \<and> (case getRecord kv i s of None \<Rightarrow> True
        | Some r \<Rightarrow> in63 (expiresAtFor (pr_Job r) st now) \<and> (pendingStatus st \<longrightarrow> pending_rec r \<and> T < pr_ExpiresAt r))"
| "store_allowed kv H (SExpire now) (T, s) \<longleftrightarrow> T \<le> now \<and> in63 now"
| "store_allowed kv H (SPage now q after before limit) (T, s) \<longleftrightarrow> T \<le> now \<and> nul \<notin> set q \<and> q \<noteq> ''''
     \<and> in63 (pc_CreatedAt after) \<and> (before \<le> 0 \<or> in63 before)"
| "store_allowed kv H _ _ \<longleftrightarrow> True"

definition run_inv :: "('d \<Rightarrow> table) \<Rightarrow> (string \<Rightarrow> string) \<Rightarrow> ms \<times> 'd Pebble \<Rightarrow> bool" where
  "run_inv \<alpha> H = (\<lambda>(T, s). store_inv \<alpha> H T s)"

lemma store_ok_later: "store_ok H T m a b \<Longrightarrow> T \<le> T' \<Longrightarrow> store_ok H T' m a b"
  by (auto simp: store_ok_def index_ok_def)

context pebble_db
begin

lemma next_sequence_view: "next_sequence kv s = seq_of (\<alpha> (p_db s)) + 1"
  by (simp add: next_sequence_def seq_of_def get_law split: option.splits)

lemma id_unused_view:
  assumes "id_unused kv i s"
  shows "unused_id (\<alpha> (p_db s)) i"
proof -
  obtain xs where xs: "kv_iter kv (p_db s) '''' ''~'' = Some xs"
    "\<And>k v. (k, v) \<in> set xs \<longleftrightarrow> \<alpha> (p_db s) k = Some v \<and> str_le '''' k \<and> str_less k ''~''"
    using iterE [of "p_db s" "''''" "''~''"] by metis
  have none: "\<alpha> (p_db s) k = None" if "str_less k ''~''" "has_suffix k ('':'' @ i)" for k
    using assms that xs by (cases "\<alpha> (p_db s) k") (auto simp: id_unused_def list_all_iff)
  have suffix: "has_suffix (p @ s) s" for p s :: string by (auto simp: has_suffix_iff)
  have "has_suffix (jobKey i) ('':'' @ i)" "has_suffix (expKey e i) ('':'' @ i)" "has_suffix (queueIndexKey q c i) ('':'' @ i)" for e q c
    using suffix [of "''job''" "'':'' @ i"] suffix [of "''exp:'' @ hex16 e" "'':'' @ i"]
      suffix [of "''qk:'' @ q @ [nul] @ hex16 (to_uint64 c)" "'':'' @ i"]
    by (simp_all add: key_defs)
  moreover have "str_less (jobKey i) ''~''" "str_less (expKey e i) ''~''" "str_less (queueIndexKey q c i) ''~''" for e q c
    by (simp_all add: key_defs)
  ultimately have "\<alpha> (p_db s) (jobKey i) = None" "\<alpha> (p_db s) (expKey e i) = None" "\<alpha> (p_db s) (queueIndexKey q c i) = None" for e q c
    by (simp_all add: none)
  then show ?thesis by (simp add: unused_id_def view_defs)
qed

lemma CheckOrInsert_inv:
  assumes "store_inv \<alpha> H T s" "T \<le> now" "job_ok H now job" "id_unused kv (j_ID job) s"
  shows "store_inv \<alpha> H now (snd (CheckOrInsert kv H now job s))"
proof (cases "\<exists>i r. getRecord kv i s = Some r \<and> IdempotencyHash H (pr_Job r) = IdempotencyHash H job")
  case True
  then obtain i r where "getRecord kv i s = Some r" "IdempotencyHash H (pr_Job r) = IdempotencyHash H job" by blast
  from CheckOrInsert_duplicate [OF assms(1) this] assms(1,2) show ?thesis
    by (auto simp: store_inv_def intro: store_ok_later)
next
  case False
  then show ?thesis using CheckOrInsert_fresh(2) [OF assms(1,3,2) id_unused_view [OF assms(4)]] by blast
qed

sublocale runs: state_machine "store_step kv H" "store_allowed kv H" "run_inv \<alpha> H" for H
proof
  fix st :: "ms \<times> 'd Pebble" and e
  obtain T s where st: "st = (T, s)" by (cases st)
  assume "run_inv \<alpha> H st" and allowed: "store_allowed kv H e st"
  then have inv: "store_inv \<alpha> H T s" by (simp add: run_inv_def st)
  show "run_inv \<alpha> H (store_step kv H e st)"
  proof (cases e)
    case (SUpdate now i status)
    with allowed st have "store_inv \<alpha> H now (UpdateStatus kv H now i status s)"
      by (intro UpdateStatus_inv [OF inv]) (auto simp: next_sequence_view)
    with SUpdate st show ?thesis by (simp add: run_inv_def)
  next
    case (SRetry i n)
    with allowed st have "store_inv \<alpha> H T (RecordRetry kv i n s)"
      by (intro RecordRetry_inv [OF inv]) auto
    with SRetry st show ?thesis by (simp add: run_inv_def)
  qed (use allowed st inv in \<open>auto simp: run_inv_def CheckOrInsert_inv SetQueueKey_inv DeleteJob_inv PutResult_inv
      SetDrainEventsEnabled_def store_inv_def [of \<alpha> H T "s\<lparr>p_skipDrainEvents := _\<rparr>"] store_inv_def [symmetric]
      ack_views(1) deleteExpired_views(1) QueuedPage_views(2) ClearIdempotentKeys_inv\<close>)
qed

end

lemma sorted_wrt_unique:
  assumes "\<And>x y. P x y \<Longrightarrow> \<not> P y x" and "sorted_wrt P xs" "sorted_wrt P ys" "set xs = set ys"
  shows "xs = ys"
  using assms(2-)
proof (induction xs arbitrary: ys)
  case (Cons x xs)
  then obtain y ys' where ys: "ys = y # ys'" by (cases ys) auto
  have "x = y"
  proof (rule ccontr)
    assume "x \<noteq> y"
    with Cons.prems ys have "P x y" "P y x" by auto
    then show False using assms(1) by blast
  qed
  moreover have "\<not> P z z" for z using assms(1) by blast
  then have "x \<notin> set xs" "y \<notin> set ys'" using Cons.prems ys by auto
  ultimately have "set xs = set ys'" using Cons.prems(3) ys by auto
  with Cons ys \<open>x = y\<close> show ?case by simp
qed simp

lemma sorted_take_filter:
  fixes f :: "'a \<Rightarrow> int"
  assumes "sorted_wrt (\<lambda>x y. f x < f y) xs" "take n xs \<noteq> []"
  shows "filter (\<lambda>x. f (last (take n xs)) < f x) xs = drop n xs"
proof -
  have split: "sorted_wrt (\<lambda>x y. f x < f y) (take n xs @ drop n xs)" using assms(1) by simp
  have "filter (\<lambda>x. f (last (take n xs)) < f x) (take n xs) = []"
  proof (rule filter_False, rule ballI)
    fix x assume x: "x \<in> set (take n xs)"
    obtain ys y where ys: "take n xs = ys @ [y]" using assms(2) by (metis append_butlast_last_id)
    have "sorted_wrt (\<lambda>x y. f x < f y) (ys @ [y])" using split ys sorted_wrt_append by metis
    with x ys show "\<not> f (last (take n xs)) < f x" by (auto simp: sorted_wrt_append)
  qed
  moreover have "filter (\<lambda>x. f (last (take n xs)) < f x) (drop n xs) = drop n xs"
    using split [unfolded sorted_wrt_append] last_in_set [OF assms(2)] by (intro filter_True) blast
  ultimately show ?thesis by (metis append_take_drop_id filter_append append_Nil)
qed

section \<open>Properties\<close>

definition empty_store :: "'d \<Rightarrow> 'd Pebble" where
  "empty_store db = \<lparr> p_db = db, p_flushInterval = 0, p_lastSyncStart = 0, p_lastSyncTook = 0,
     p_skipDrainEvents = False, p_queued = 0, p_inFlight = 0 \<rparr>"

lemma empty_views:
  "recs_of Map.empty = Map.empty" "idem_of Map.empty = Map.empty" "exps_of Map.empty = {}" "qidx_of Map.empty = {}"
  "events_of Map.empty = Map.empty" "djobs_of Map.empty = {}" "seq_of Map.empty = 0"
  by (simp_all add: view_defs fun_eq_iff)

lemma empty_store_inv: "\<alpha> db = Map.empty \<Longrightarrow> run_inv \<alpha> H (0, empty_store db)"
  by (simp add: run_inv_def store_inv_def empty_store_def store_ok_def shape_ok_def index_ok_def count_ok_def
      drain_ok_def with_status_def empty_views)

text \<open>The state after a run of the store that began empty.\<close>

definition store_after :: "('d, stored) kv \<Rightarrow> (string \<Rightarrow> string) \<Rightarrow> store_event list \<Rightarrow> 'd \<Rightarrow> 'd Pebble" where
  "store_after kv H es db = snd (fold (store_step kv H) es (0, empty_store db))"

definition store_time :: "('d, stored) kv \<Rightarrow> (string \<Rightarrow> string) \<Rightarrow> store_event list \<Rightarrow> 'd \<Rightarrow> ms" where
  "store_time kv H es db = fst (fold (store_step kv H) es (0, empty_store db))"

definition store_run :: "('d, stored) kv \<Rightarrow> ('d \<Rightarrow> table) \<Rightarrow> (string \<Rightarrow> string) \<Rightarrow> store_event list \<Rightarrow> 'd \<Rightarrow> bool" where
  "store_run kv \<alpha> H es db \<longleftrightarrow> \<alpha> db = Map.empty
     \<and> ok_run (store_step kv H) (store_allowed kv H) es (0, empty_store db)"

context pebble_db
begin

lemma after_inv: "store_run kv \<alpha> H es db \<Longrightarrow> store_inv \<alpha> H (store_time kv H es db) (store_after kv H es db)"
  using runs.run_inv [of H "(0, empty_store db)" es] empty_store_inv [of \<alpha> db H]
  by (simp add: store_run_def store_after_def store_time_def run_inv_def case_prod_beta)

lemma CheckOrInsert_others:
  "i \<noteq> j_ID job \<Longrightarrow> getRecord kv i (snd (CheckOrInsert kv H now job s)) = getRecord kv i s"
  by (auto simp: CheckOrInsert_def Let_def getRecord_view split: lookup.splits)

lemma idem_get:
  assumes "shape_ok (\<alpha> (p_db s))"
  shows "kv_get kv (p_db s) (idemKey h) = Found (SText i) \<longleftrightarrow> idem_of (\<alpha> (p_db s)) h = Some i"
proof (cases "\<alpha> (p_db s) (idemKey h)")
  case (Some v)
  then have "entry_ok (idemKey h) v" using assms unfolding shape_ok_def by blast
  with Some show ?thesis by (auto simp: get_law idem_of_def)
qed (simp add: get_law idem_of_def)

lemma present_iff: "kv_get kv (p_db s) k \<noteq> NotFound \<longleftrightarrow> \<alpha> (p_db s) k \<noteq> None"
  by (simp add: get_law split: option.splits)

end


definition sample_hash :: "string \<Rightarrow> string" where
  "sample_hash x = CHR ''h'' # x"

definition stored_job :: "string \<Rightarrow> ms \<Rightarrow> Job" where
  "stored_job i now = (new_job sample_hash i now (sample_request\<lparr>r_IdempotentKey := i\<rparr>))"

definition sample_ops :: "store_event list" where
  "sample_ops = [SDrainEnabled False, SInsert 1000 (stored_job ''a'' 1000), SInsert 2000 (stored_job ''b'' 2000),
     SSetQueueKey ''b'' ''q1'', SUpdate 3000 ''a'' StatusCompleted]"

lemma sample_store_run: "store_run mem_kv map_of sample_hash sample_ops []"
  by (simp add: store_run_def fun_eq_iff) code_simp

lemma sample_facts:
  "(let s = store_after mem_kv sample_hash sample_ops []
    in c_QueueDepth (store_Counts s) = 1 \<and> id_unused mem_kv (j_ID (stored_job ''c'' 5000)) s
       \<and> fst (CheckOrInsert mem_kv sample_hash 5000 (stored_job ''c'' 5000) s) = ('''', False)
       \<and> map_option pr_ExpiresAt (getRecord mem_kv ''a'' s) = Some 1803000
       \<and> map_option pr_ExpiresAt (getRecord mem_kv ''b'' s) = Some 87302000)"
  by code_simp

lemma sample_time: "store_time mem_kv sample_hash sample_ops [] = 3000"
  by (simp add: store_time_def sample_ops_def)


text \<open>(C5) \<^verbatim>\<open>CheckOrInsert\<close> is idempotent: while a job with the same idempotency hash is
  retained, a submission returns that job's id and changes nothing; otherwise the
  job is accepted, stored as queued beside the other records, and answers the next
  submission with its hash.
\<close>

theorem store_idempotent:
  assumes kv: "ordered_kv kv \<alpha>" and run: "store_run kv \<alpha> H es db"
    and now: "store_time kv H es db \<le> now" and job: "job_ok H now job" "id_unused kv (j_ID job) (store_after kv H es db)"
    and "IdempotencyHash H job' = IdempotencyHash H job"
  defines "s \<equiv> store_after kv H es db"
  defines "s' \<equiv> snd (CheckOrInsert kv H now job s)"
  shows "if \<exists>i r. getRecord kv i s = Some r \<and> IdempotencyHash H (pr_Job r) = IdempotencyHash H job
     then \<exists>i r. getRecord kv i s = Some r \<and> IdempotencyHash H (pr_Job r) = IdempotencyHash H job
            \<and> CheckOrInsert kv H now job s = ((i, True), s)
     else fst (CheckOrInsert kv H now job s) = ('''', False)
        \<and> getRecord kv (j_ID job) s' = Some \<lparr> pr_Job = job\<lparr>j_DedupHash := ''''\<rparr>, pr_QueueKey = '''',
             pr_ExpiresAt = PendingExpiresAt now job, pr_Result = None \<rparr>
        \<and> (\<forall>i. i \<noteq> j_ID job \<longrightarrow> getRecord kv i s' = getRecord kv i s)
        \<and> (\<forall>later. CheckOrInsert kv H later job' s' = ((j_ID job, True), s'))"
proof -
  have db: "pebble_db kv \<alpha>" using kv by (rule pebble_db.intro)
  have inv: "store_inv \<alpha> H (store_time kv H es db) s" unfolding s_def by (rule pebble_db.after_inv [OF db run])
  show ?thesis
  proof (cases "\<exists>i r. getRecord kv i s = Some r \<and> IdempotencyHash H (pr_Job r) = IdempotencyHash H job")
    case True
    then show ?thesis using pebble_db.CheckOrInsert_duplicate [OF db inv] by auto
  next
    case False
    have unused: "unused_id (\<alpha> (p_db s)) (j_ID job)"
      using job(2) unfolding s_def by (rule pebble_db.id_unused_view [OF db])
    note fresh = pebble_db.CheckOrInsert_fresh [OF db inv job(1) now unused, folded s'_def]
    have rec: "getRecord kv (j_ID job) s' = Some \<lparr> pr_Job = norm_job job, pr_QueueKey = '''',
        pr_ExpiresAt = PendingExpiresAt now job, pr_Result = None \<rparr>"
      using fresh(3) False by blast
    have "getRecord kv i s' = getRecord kv i s" if "i \<noteq> j_ID job" for i
      using pebble_db.CheckOrInsert_others [OF db that] by (simp add: s'_def)
    moreover have "CheckOrInsert kv H later job' s' = ((j_ID job, True), s')" for later
      using fresh(2) False rec job(1) assms(6)
      by (intro pebble_db.CheckOrInsert_duplicate [OF db _ rec]) (auto simp: hash_norm_job job_ok_def)
    ultimately show ?thesis using fresh(1) False rec by (auto simp: norm_job_def)
  qed
qed

theorem store_idempotent_witness:
  "fst (CheckOrInsert mem_kv sample_hash 5000 (stored_job ''c'' 5000) (store_after mem_kv sample_hash sample_ops [])) = ('''', False)
   \<and> CheckOrInsert mem_kv sample_hash 6000 (stored_job ''c'' 6000)
       (snd (CheckOrInsert mem_kv sample_hash 5000 (stored_job ''c'' 5000) (store_after mem_kv sample_hash sample_ops [])))
     = ((''c'', True), snd (CheckOrInsert mem_kv sample_hash 5000 (stored_job ''c'' 5000) (store_after mem_kv sample_hash sample_ops [])))"
proof -
  let ?s = "store_after mem_kv sample_hash sample_ops []"
  note facts = sample_facts [unfolded Let_def]
  have "store_time mem_kv sample_hash sample_ops [] \<le> 5000" by (simp add: sample_time)
  moreover have "job_ok sample_hash 5000 (stored_job ''c'' 5000)" by code_simp
  moreover have "IdempotencyHash sample_hash (stored_job ''c'' 6000) = IdempotencyHash sample_hash (stored_job ''c'' 5000)"
    by code_simp
  moreover have "j_ID (stored_job ''c'' 5000) = ''c''" by code_simp
  ultimately show ?thesis
    using facts store_idempotent [OF mem.ordered_kv_axioms sample_store_run, of 5000 "stored_job ''c'' 5000" "stored_job ''c'' 6000"]
    by (auto split: if_splits)
qed

text \<open>(C25) A page of a queue is exact: \<^verbatim>\<open>QueuedPage\<close> returns the first \<^verbatim>\<open>limit\<close> unfinished, unexpired jobs of the
  queue after the cursor and before the bound, in order of creation time and id,
  and reading it loses no record.
\<close>

theorem queue_page_exact:
  assumes kv: "ordered_kv kv \<alpha>" and run: "store_run kv \<alpha> H es db"
    and now: "store_time kv H es db \<le> now" and q: "nul \<notin> set q" "q \<noteq> ''''"
    and bounds: "in63 (pc_CreatedAt after)" "before \<le> 0 \<or> in63 before"
  defines "s \<equiv> store_after kv H es db"
  shows "\<exists>ws. fst (QueuedPage kv now q after before limit s) = Some (take (nat limit) ws)
      \<and> sorted_wrt (\<lambda>j j'. j_CreatedAt j < j_CreatedAt j' \<or> j_CreatedAt j = j_CreatedAt j' \<and> str_less (j_ID j) (j_ID j')) ws
      \<and> set ws = {as_queued r | i r. getRecord kv i s = Some r \<and> pendingStatus (j_Status (pr_Job r))
           \<and> pr_QueueKey r = q \<and> now < pr_ExpiresAt r \<and> \<not> Covers after (pr_Job r)
           \<and> (0 < before \<longrightarrow> j_CreatedAt (pr_Job r) < before)}
      \<and> (\<forall>i. getRecord kv i (snd (QueuedPage kv now q after before limit s)) = getRecord kv i s)"
proof -
  have db: "pebble_db kv \<alpha>" using kv by (rule pebble_db.intro)
  have inv: "store_inv \<alpha> H (store_time kv H es db) s" unfolding s_def by (rule pebble_db.after_inv [OF db run])
  note page = pebble_db.QueuedPage_views [OF db inv now q bounds, of limit]
  have "page_wanted (recs_of (\<alpha> (p_db s))) q now after before =
      {as_queued r | i r. getRecord kv i s = Some r \<and> pendingStatus (j_Status (pr_Job r))
           \<and> pr_QueueKey r = q \<and> now < pr_ExpiresAt r \<and> \<not> Covers after (pr_Job r)
           \<and> (0 < before \<longrightarrow> j_CreatedAt (pr_Job r) < before)}"
    unfolding page_wanted_def pebble_db.getRecord_view [OF db] by (auto simp: listed_def pending_rec_def)
  with page(1,3) show ?thesis
    by (simp add: pebble_db.getRecord_view [OF db] page_before_def [abs_def])
qed

theorem queue_page_exact_witness:
  "\<exists>ws. fst (QueuedPage mem_kv 5000 ''q1'' zero_cursor 0 10 (store_after mem_kv sample_hash sample_ops [])) = Some (take 10 ws)
     \<and> set ws = {as_queued r | i r. getRecord mem_kv i (store_after mem_kv sample_hash sample_ops []) = Some r
           \<and> pendingStatus (j_Status (pr_Job r)) \<and> pr_QueueKey r = ''q1'' \<and> 5000 < pr_ExpiresAt r
           \<and> \<not> Covers zero_cursor (pr_Job r)}"
proof -
  have "store_time mem_kv sample_hash sample_ops [] \<le> 5000" by (simp add: sample_time)
  moreover have "nul \<notin> set ''q1''" "in63 (pc_CreatedAt zero_cursor)" by (simp_all add: nul_def zero_cursor_def in63_def)
  ultimately show ?thesis
    using queue_page_exact [OF mem.ordered_kv_axioms sample_store_run, of 5000 "''q1''" zero_cursor 0 10] by auto
qed

text \<open>(C14) The expiry pass deletes exactly what is due: after \<^verbatim>\<open>deleteExpired(now)\<close> the
  retained records are those that expire at \<open>now\<close> or later, unchanged, and the
  idempotency key of every deleted job is free again.
\<close>

theorem expiry_pass_exact:
  assumes kv: "ordered_kv kv \<alpha>" and run: "store_run kv \<alpha> H es db"
    and now: "store_time kv H es db \<le> now" "in63 now"
  defines "s \<equiv> store_after kv H es db"
  shows "getRecord kv i (deleteExpired kv H now s) =
      (case getRecord kv i s of Some r \<Rightarrow> if pr_ExpiresAt r < now then None else Some r | None \<Rightarrow> None)
    \<and> (\<forall>r. getRecord kv i s = Some r \<and> pr_ExpiresAt r < now
         \<longrightarrow> kv_get kv (p_db (deleteExpired kv H now s)) (idemKey (IdempotencyHash H (pr_Job r))) = NotFound)"
proof -
  have db: "pebble_db kv \<alpha>" using kv by (rule pebble_db.intro)
  have inv: "store_inv \<alpha> H (store_time kv H es db) s" unfolding s_def by (rule pebble_db.after_inv [OF db run])
  let ?s' = "deleteExpired kv H now s" and ?m = "\<alpha> (p_db s)"
  note views = pebble_db.deleteExpired_views [OF db inv now] and view = pebble_db.getRecord_view [OF db]
  have rec: "getRecord kv i ?s' = (case getRecord kv i s of Some r \<Rightarrow> if pr_ExpiresAt r < now then None else Some r | None \<Rightarrow> None)" for i
    by (simp add: view views(2) expired_by_def split: option.splits)
  have ix: "index_ok H now (\<alpha> (p_db ?s'))" using views(1) by (simp add: store_inv_def store_ok_def)
  have "kv_get kv (p_db ?s') (idemKey (IdempotencyHash H (pr_Job r))) = NotFound"
    if r: "getRecord kv i s = Some r" "pr_ExpiresAt r < now" for r
  proof (rule ccontr)
    assume "\<not> ?thesis"
    then obtain i' where "idem_of (\<alpha> (p_db ?s')) (IdempotencyHash H (pr_Job r)) = Some i'"
      using pebble_db.present_iff [OF db, of ?s' "idemKey (IdempotencyHash H (pr_Job r))"] by (auto simp: idem_of_def)
    then obtain r' where r': "recs_of (\<alpha> (p_db ?s')) i' = Some r'" "IdempotencyHash H (pr_Job r') = IdempotencyHash H (pr_Job r)"
      using index_okD(1) [OF ix] by auto
    then have "recs_of ?m i' = Some r'" by (auto simp: views(2) split: if_splits)
    then have "i' = i"
      using hash_unique [OF store_okD(2) [OF inv [unfolded store_inv_def]], of i' r' i r] r' r(1) by (simp add: view)
    with r' r rec [of i] show False by (simp add: view)
  qed
  with rec show ?thesis by blast
qed

theorem expiry_pass_exact_witness:
  "getRecord mem_kv ''a'' (store_after mem_kv sample_hash sample_ops []) \<noteq> None
   \<and> getRecord mem_kv ''a'' (deleteExpired mem_kv sample_hash 1803001 (store_after mem_kv sample_hash sample_ops [])) = None
   \<and> getRecord mem_kv ''b'' (deleteExpired mem_kv sample_hash 1803001 (store_after mem_kv sample_hash sample_ops []))
       = getRecord mem_kv ''b'' (store_after mem_kv sample_hash sample_ops [])"
proof -
  let ?s = "store_after mem_kv sample_hash sample_ops []"
  have hyps: "store_time mem_kv sample_hash sample_ops [] \<le> 1803001" "in63 1803001"
    by (simp_all add: sample_time in63_def)
  note pass = expiry_pass_exact [OF mem.ordered_kv_axioms sample_store_run hyps]
  show ?thesis using pass [of "''a''"] pass [of "''b''"] sample_facts [unfolded Let_def] by auto
qed

text \<open>(C26) Drain events are kept once per job and delivered in order: the stored events have increasing
  sequence numbers and distinct jobs, and acknowledging through the last event of a
  listed batch leaves exactly the events after that batch.
\<close>

theorem drain_events_once:
  fixes limit :: int
  assumes kv: "ordered_kv kv \<alpha>" and run: "store_run kv \<alpha> H es db"
  defines "s \<equiv> store_after kv H es db"
  defines "batch \<equiv> ListDrainEvents kv limit s"
  shows "\<exists>all. drain_events kv s = Some all
    \<and> sorted_wrt (\<lambda>e e'. de_Sequence e < de_Sequence e') all \<and> distinct (map de_JobID all)
    \<and> batch = take (nat (if limit \<le> 0 then 1000 else limit)) all
    \<and> (batch \<noteq> [] \<longrightarrow> drain_events kv (AcknowledgeDrainEventsThrough kv (de_Sequence (last batch)) s)
                      = Some (drop (length batch) all))"
proof -
  have db: "pebble_db kv \<alpha>" using kv by (rule pebble_db.intro)
  have inv: "store_inv \<alpha> H (store_time kv H es db) s" unfolding s_def by (rule pebble_db.after_inv [OF db run])
  let ?m = "\<alpha> (p_db s)"
  note ok = inv [unfolded store_inv_def]
  obtain all where all: "drain_events kv s = Some all" "sorted_wrt (\<lambda>e e'. de_Sequence e < de_Sequence e') all"
    "\<And>e. e \<in> set all \<longleftrightarrow> (\<exists>n. events_of ?m n = Some e)" "\<And>n e. events_of ?m n = Some e \<Longrightarrow> de_Sequence e = n \<and> seq_ok n"
    using pebble_db.drain_events_view [OF db store_okD(1) [OF ok]] by metis
  have once: "e = e'" if "e \<in> set all" "e' \<in> set all" "de_JobID e = de_JobID e'" for e e'
    using that all(3,4) store_okD(4) [OF ok] by (metis drain_ok_def option.inject)
  have "distinct all" using all(2) by (induction all) auto
  then have "distinct (map de_JobID all)" by (simp add: distinct_map inj_on_def once)
  moreover have batch: "batch = take (nat (if limit \<le> 0 then 1000 else limit)) all"
    by (simp add: batch_def ListDrainEvents_def all(1) Let_def)
  moreover have "drain_events kv (AcknowledgeDrainEventsThrough kv (de_Sequence (last batch)) s) = Some (drop (length batch) all)"
    if ne: "batch \<noteq> []"
  proof -
    let ?n = "de_Sequence (last batch)" and ?s' = "AcknowledgeDrainEventsThrough kv (de_Sequence (last batch)) s"
    note ack = pebble_db.ack_views [OF db inv, of ?n]
    obtain rest where rest: "drain_events kv ?s' = Some rest" "sorted_wrt (\<lambda>e e'. de_Sequence e < de_Sequence e') rest"
      "\<And>e. e \<in> set rest \<longleftrightarrow> (\<exists>n. events_of (\<alpha> (p_db ?s')) n = Some e)"
      using pebble_db.drain_events_view [OF db store_okD(1) [OF ack(1) [unfolded store_inv_def]]] by metis
    have mem: "e \<in> set rest \<longleftrightarrow> e \<in> set all \<and> ?n < de_Sequence e" for e
      using all(3,4) unfolding rest(3) ack(4) by (metis (full_types) not_le option.distinct(1))
    have "rest = filter (\<lambda>e. ?n < de_Sequence e) all"
      by (rule sorted_wrt_unique [OF _ rest(2) sorted_wrt_filter [OF all(2)]]) (auto simp: mem)
    also have "\<dots> = drop (length batch) all"
    proof -
      define k where "k = nat (if limit \<le> 0 then 1000 else limit)"
      have "drop (length (take k all)) all = drop k all" by (simp add: min_def)
      with sorted_take_filter [OF all(2), of k] ne show ?thesis unfolding batch k_def [symmetric] by simp
    qed
    finally show ?thesis using rest(1) by simp
  qed
  ultimately show ?thesis using all(1,2) by blast
qed

definition drained_ops :: "store_event list" where
  "drained_ops = [SInsert 1000 (stored_job ''a'' 1000), SInsert 2000 (stored_job ''b'' 2000),
     SUpdate 3000 ''b'' StatusCompleted, SUpdate 3000 ''a'' StatusFailed]"

lemma drained_run: "store_run mem_kv map_of sample_hash drained_ops []"
  by (simp add: store_run_def fun_eq_iff) code_simp

theorem drain_events_once_witness:
  "map de_JobID (ListDrainEvents mem_kv 1 (store_after mem_kv sample_hash drained_ops [])) = [''b'']
   \<and> map_option (map de_JobID) (drain_events mem_kv (AcknowledgeDrainEventsThrough mem_kv
       (de_Sequence (last (ListDrainEvents mem_kv 1 (store_after mem_kv sample_hash drained_ops []))))
       (store_after mem_kv sample_hash drained_ops []))) = Some [''a'']"
proof -
  let ?s = "store_after mem_kv sample_hash drained_ops []"
  obtain all where all: "drain_events mem_kv ?s = Some all" "ListDrainEvents mem_kv 1 ?s = take 1 all"
    "ListDrainEvents mem_kv 1 ?s \<noteq> [] \<Longrightarrow>
       drain_events mem_kv (AcknowledgeDrainEventsThrough mem_kv (de_Sequence (last (ListDrainEvents mem_kv 1 ?s))) ?s)
       = Some (drop (length (ListDrainEvents mem_kv 1 ?s)) all)"
    using drain_events_once [OF mem.ordered_kv_axioms drained_run, of 1] by auto
  have "map_option (map de_JobID) (drain_events mem_kv ?s) = Some [''b'', ''a'']" by code_simp
  with all(1) have "map de_JobID all = [''b'', ''a'']" by simp
  with all(2,3) show ?thesis by (auto simp: take_Suc)
qed


definition full_disk :: "((string \<times> stored) list, stored) kv" where
  "full_disk = mem_kv\<lparr>kv_commit := (\<lambda>_ _. None)\<rparr>"


end
