(* ===== verification/Sqlite_Store.thy ===== *)
theory Sqlite_Store
  imports Store_Contract
begin

text \<open>
  \<^verbatim>\<open>internal/storage/sqlite.go\<close>: the alternative job store.  A table is the list of its
  rows, a statement of the code an operation on the list; columns that a row does not
  have lose the field of the job.  An engine error, where the code
  looks at it, is an argument.  The theory ends with the equivalence of the two
  backends: both implement the same abstract store of job cores.
\<close>

section \<open>Tables\<close>

record row =
  rw_id :: string
  rw_user_id :: string
  rw_hash :: string
  rw_url :: string
  rw_method :: string
  rw_body :: string
  rw_headers :: "(string \<times> string) list"
  rw_webhook_url :: string
  rw_webhook_delivery :: bool
  rw_status :: Status
  rw_queue_key :: string
  rw_created_at :: ms
  rw_execute_before :: ms
  rw_expires_at :: ms
  rw_max_retries :: int
  rw_attempts :: int
  rw_webhook_max_retries :: "int option"
  rw_result :: "Result option"

record SQLite =
  sq_jobs :: "row list"
  sq_drain_events :: "DrainEvent list"
  sq_sequence :: int
  sq_skipDrainEvents :: bool

definition scanJob :: "row \<Rightarrow> Job" where
  "scanJob w =
     \<lparr> j_ID = rw_id w, j_UserID = rw_user_id w, j_IdempotentKey = '''', j_URL = rw_url w, j_PoolID = '''',
       j_Method = rw_method w, j_Headers = rw_headers w, j_Body = rw_body w, j_WebhookURL = rw_webhook_url w,
       j_Kind = (if rw_webhook_delivery w then KindWebhookDelivery else KindUser), j_Status = rw_status w,
       j_CreatedAt = rw_created_at w, j_ExecuteBefore = rw_execute_before w, j_IdempotencyScope = '''',
       j_MaxRetries = rw_max_retries w, j_Attempts = rw_attempts w,
       j_WebhookMaxRetries = rw_webhook_max_retries w, j_DedupHash = rw_hash w, j_OriginMachineID = '''',
       j_OriginRegion = '''', j_VisitedRegions = [], j_RerouteCount = 0 \<rparr>"

definition insert_row :: "(string \<Rightarrow> string) \<Rightarrow> ms \<Rightarrow> Job \<Rightarrow> row" where
  "insert_row H now job =
     \<lparr> rw_id = j_ID job, rw_user_id = j_UserID job, rw_hash = IdempotencyHash H job, rw_url = j_URL job,
       rw_method = j_Method job, rw_body = j_Body job, rw_headers = j_Headers job,
       rw_webhook_url = j_WebhookURL job, rw_webhook_delivery = IsWebhookDelivery job, rw_status = StatusQueued,
       rw_queue_key = '''', rw_created_at = j_CreatedAt job, rw_execute_before = j_ExecuteBefore job,
       rw_expires_at = PendingExpiresAt now job, rw_max_retries = j_MaxRetries job, rw_attempts = j_Attempts job,
       rw_webhook_max_retries = j_WebhookMaxRetries job, rw_result = None \<rparr>"

text \<open>\<^verbatim>\<open>UPDATE ... WHERE id = ?\<close> and \<^verbatim>\<open>SELECT ... WHERE id = ? AND expires_at > ?\<close>.\<close>

definition update_row :: "string \<Rightarrow> (row \<Rightarrow> row) \<Rightarrow> SQLite \<Rightarrow> SQLite" where
  "update_row i f t = t\<lparr>sq_jobs := map (\<lambda>w. if rw_id w = i then f w else w) (sq_jobs t)\<rparr>"

definition select_row :: "string \<Rightarrow> SQLite \<Rightarrow> row option" where
  "select_row i t = find (\<lambda>w. rw_id w = i) (sq_jobs t)"

definition live_row :: "ms \<Rightarrow> string \<Rightarrow> SQLite \<Rightarrow> row option" where
  "live_row now i t = find (\<lambda>w. rw_id w = i \<and> rw_expires_at w > now) (sq_jobs t)"

section \<open>Operations\<close>

definition sq_CheckOrInsert ::
  "(string \<Rightarrow> string) \<Rightarrow> bool \<Rightarrow> bool \<Rightarrow> ms \<Rightarrow> Job \<Rightarrow> SQLite \<Rightarrow> (string \<times> bool) \<times> SQLite" where
  "sq_CheckOrInsert H insertErr selectErr now job t =
     (let hashed = IdempotencyHash H job;
          conflict = list_ex (\<lambda>w. rw_id w = j_ID job \<or> rw_hash w = hashed) (sq_jobs t)
      in if \<not> insertErr \<and> \<not> conflict
         then (('''', False), t\<lparr>sq_jobs := sq_jobs t @ [insert_row H now job]\<rparr>)
         else (case (if selectErr then None else find (\<lambda>w. rw_hash w = hashed) (sq_jobs t)) of
                 None \<Rightarrow> (('''', False), t)
               | Some w \<Rightarrow> ((rw_id w, True), t)))"

definition sq_SetQueueKey :: "string \<Rightarrow> string \<Rightarrow> SQLite \<Rightarrow> SQLite" where
  "sq_SetQueueKey jobID queueKey t = update_row jobID (\<lambda>w. w\<lparr>rw_queue_key := queueKey\<rparr>) t"

definition sq_DeleteJob :: "string \<Rightarrow> SQLite \<Rightarrow> SQLite" where
  "sq_DeleteJob jobID t = t\<lparr>sq_jobs := filter (\<lambda>w. rw_id w \<noteq> jobID) (sq_jobs t)\<rparr>"

definition sq_RecordRetry :: "string \<Rightarrow> int \<Rightarrow> SQLite \<Rightarrow> SQLite" where
  "sq_RecordRetry jobID attempts t =
     update_row jobID (\<lambda>w. w\<lparr>rw_attempts := attempts, rw_status := StatusQueued\<rparr>) t"

definition sq_PutResult :: "string \<Rightarrow> Result \<Rightarrow> SQLite \<Rightarrow> SQLite" where
  "sq_PutResult jobID result t = update_row jobID (\<lambda>w. w\<lparr>rw_result := Some result\<rparr>) t"

definition sq_GetResult :: "ms \<Rightarrow> string \<Rightarrow> SQLite \<Rightarrow> Result option" where
  "sq_GetResult now jobID t = Option.bind (live_row now jobID t) rw_result"

definition row_pending :: "row \<Rightarrow> bool" where
  "row_pending w \<longleftrightarrow> rw_status w = StatusQueued \<or> rw_status w = StatusInFlight"

definition sq_RecoverQueued :: "ms \<Rightarrow> string \<Rightarrow> SQLite \<Rightarrow> Job list" where
  "sq_RecoverQueued now queueKey t =
     map (\<lambda>w. (scanJob w)\<lparr>j_Status := StatusQueued\<rparr>)
       (filter (\<lambda>w. rw_queue_key w = queueKey \<and> row_pending w \<and> rw_expires_at w > now) (sq_jobs t))"

definition sq_recordDrainEvent :: "ms \<Rightarrow> string \<Rightarrow> Status \<Rightarrow> SQLite \<Rightarrow> SQLite" where
  "sq_recordDrainEvent now jobID st t =
     (case find (\<lambda>w. rw_id w = jobID \<and> rw_webhook_url w \<noteq> '''') (sq_jobs t) of
        None \<Rightarrow> t
      | Some w \<Rightarrow>
          if list_ex (\<lambda>e. de_JobID e = rw_id w) (sq_drain_events t) then t
          else t\<lparr>sq_sequence := sq_sequence t + 1,
                 sq_drain_events := sq_drain_events t
                   @ [\<lparr> de_Sequence = sq_sequence t + 1, de_HashKey = rw_hash w, de_JobID = rw_id w,
                        de_Status = st, de_RecordedAt = now \<rparr>]\<rparr>)"

definition pending_expiry :: "ms \<Rightarrow> row \<Rightarrow> ms" where
  "pending_expiry now w =
     max (now + ttlQueued) (if rw_execute_before w > 0 then rw_execute_before w else rw_created_at w + ttlQueued)
     + PendingRowGrace"

definition sq_UpdateStatus :: "ms \<Rightarrow> string \<Rightarrow> Status \<Rightarrow> SQLite \<Rightarrow> SQLite" where
  "sq_UpdateStatus now jobID st t =
     (let t1 = (if st = StatusCompleted \<or> st = StatusFailed
                then update_row jobID (\<lambda>w. w\<lparr>rw_status := st, rw_expires_at := now + ttlForStatus st\<rparr>) t
                else update_row jobID (\<lambda>w. w\<lparr>rw_status := st, rw_expires_at := pending_expiry now w\<rparr>) t)
      in if (st = StatusCompleted \<or> st = StatusFailed) \<and> \<not> sq_skipDrainEvents t1
         then sq_recordDrainEvent now jobID st t1 else t1)"

definition sq_SetDrainEventsEnabled :: "bool \<Rightarrow> SQLite \<Rightarrow> SQLite" where
  "sq_SetDrainEventsEnabled enabled t = t\<lparr>sq_skipDrainEvents := \<not> enabled\<rparr>"

definition sq_Counts :: "ms \<Rightarrow> SQLite \<Rightarrow> Counts" where
  "sq_Counts now t =
     (let live = filter (\<lambda>w. rw_expires_at w > now) (sq_jobs t)
      in \<lparr> c_TotalJobs = int (length (filter row_pending live)),
           c_QueueDepth = int (length (filter (\<lambda>w. rw_status w = StatusQueued) live)) \<rparr>)"

definition sq_GetJob :: "ms \<Rightarrow> string \<Rightarrow> SQLite \<Rightarrow> Job option" where
  "sq_GetJob now jobID t = map_option scanJob (live_row now jobID t)"

definition sq_PendingQueueKeys :: "ms \<Rightarrow> SQLite \<Rightarrow> (string \<times> int) list" where
  "sq_PendingQueueKeys now t =
     fold (\<lambda>w counts. al_put (rw_queue_key w)
             ((case map_of counts (rw_queue_key w) of None \<Rightarrow> 0 | Some n \<Rightarrow> n) + 1) counts)
       (filter (\<lambda>w. row_pending w \<and> rw_expires_at w > now) (sq_jobs t)) []"

text \<open>\<^verbatim>\<open>ORDER BY created_at, id\<close>: insertion into a list ordered by the pair.\<close>

definition row_before :: "row \<Rightarrow> row \<Rightarrow> bool" where
  "row_before w w' \<longleftrightarrow> rw_created_at w < rw_created_at w'
     \<or> rw_created_at w = rw_created_at w' \<and> str_less (rw_id w) (rw_id w')"

fun insert_ordered :: "row \<Rightarrow> row list \<Rightarrow> row list" where
  "insert_ordered w [] = [w]"
| "insert_ordered w (x # xs) = (if row_before w x then w # x # xs else x # insert_ordered w xs)"

definition order_rows :: "row list \<Rightarrow> row list" where
  "order_rows ws = foldr insert_ordered ws []"

definition sq_QueuedPage :: "ms \<Rightarrow> string \<Rightarrow> PageCursor \<Rightarrow> ms \<Rightarrow> int \<Rightarrow> SQLite \<Rightarrow> Job list" where
  "sq_QueuedPage now queueKey after createdBefore limit t =
     (let before = (if createdBefore \<le> 0 then int64_max else createdBefore);
          selected = filter (\<lambda>w. rw_queue_key w = queueKey \<and> row_pending w \<and> rw_expires_at w > now
            \<and> (pc_CreatedAt after < rw_created_at w
               \<or> pc_CreatedAt after = rw_created_at w \<and> str_less (pc_ID after) (rw_id w))
            \<and> rw_created_at w < before) (sq_jobs t);
          limited = (if limit < 0 then order_rows selected else take (nat limit) (order_rows selected))
      in map (\<lambda>w. (scanJob w)\<lparr>j_Status := StatusQueued\<rparr>) limited)"

definition sq_GetQueuedJobs :: "ms \<Rightarrow> SQLite \<Rightarrow> Job list" where
  "sq_GetQueuedJobs now t =
     map scanJob (filter (\<lambda>w. row_pending w \<and> rw_expires_at w > now) (sq_jobs t))"

definition sq_ListIdempotentKeys :: "ms \<Rightarrow> SQLite \<Rightarrow> LedgerEntry list" where
  "sq_ListIdempotentKeys now t =
     map (\<lambda>w. \<lparr> le_HashKey = rw_hash w, le_JobID = rw_id w, le_Status = rw_status w \<rparr>)
       (filter (\<lambda>w. rw_expires_at w > now \<and> \<not> rw_webhook_delivery w) (sq_jobs t))"

definition sq_ClearIdempotentKeys :: "SQLite \<Rightarrow> SQLite" where
  "sq_ClearIdempotentKeys t = t\<lparr>sq_drain_events := [], sq_jobs := []\<rparr>"

definition sq_ListDrainEvents :: "int \<Rightarrow> SQLite \<Rightarrow> DrainEvent list" where
  "sq_ListDrainEvents limit t =
     take (nat (if limit \<le> 0 then 1000 else limit)) (sq_drain_events t)"

definition sq_AcknowledgeDrainEventsThrough :: "int \<Rightarrow> SQLite \<Rightarrow> SQLite" where
  "sq_AcknowledgeDrainEventsThrough sequence t =
     (if sequence \<le> 0 then t
      else t\<lparr>sq_drain_events := filter (\<lambda>e. \<not> de_Sequence e \<le> sequence) (sq_drain_events t)\<rparr>)"

definition sq_deleteExpired :: "ms \<Rightarrow> SQLite \<Rightarrow> SQLite" where
  "sq_deleteExpired now t = t\<lparr>sq_jobs := filter (\<lambda>w. \<not> rw_expires_at w < now) (sq_jobs t)\<rparr>"

text \<open>\<^verbatim>\<open>migrate\<close> on open: rows left in flight by older versions are queued again.\<close>

definition migrate_in_flight :: "SQLite \<Rightarrow> SQLite" where
  "migrate_in_flight t =
     t\<lparr>sq_jobs := map (\<lambda>w. if rw_status w = StatusInFlight then w\<lparr>rw_status := StatusQueued\<rparr> else w) (sq_jobs t)\<rparr>"

section \<open>The two backends\<close>

text \<open>The row a Pebble record corresponds to: the columns SQLite keeps.\<close>

definition row_of :: "(string \<Rightarrow> string) \<Rightarrow> pebbleRecord \<Rightarrow> row" where
  "row_of H r = (insert_row H 0 (pr_Job r))\<lparr>rw_status := j_Status (pr_Job r), rw_queue_key := pr_QueueKey r,
     rw_expires_at := pr_ExpiresAt r, rw_result := pr_Result r\<rparr>"

fun sq_step :: "(string \<Rightarrow> string) \<Rightarrow> store_event \<Rightarrow> SQLite \<Rightarrow> SQLite" where
  "sq_step H (SInsert now job) t = snd (sq_CheckOrInsert H False False now job t)"
| "sq_step H (SSetQueueKey i q) t = sq_SetQueueKey i q t"
| "sq_step H (SDelete i) t = sq_DeleteJob i t"
| "sq_step H (SPutResult i res) t = sq_PutResult i res t"
| "sq_step H (SRetry i n) t = sq_RecordRetry i n t"
| "sq_step H (SUpdate now i st) t = sq_UpdateStatus now i st t"
| "sq_step H (SDrainEnabled b) t = sq_SetDrainEventsEnabled b t"
| "sq_step H (SAck n) t = sq_AcknowledgeDrainEventsThrough n t"
| "sq_step H (SExpire now) t = sq_deleteExpired now t"
| "sq_step H (SPage now q after before limit) t = t"
| "sq_step H SClear t = sq_ClearIdempotentKeys t"

definition empty_sqlite :: SQLite where
  "empty_sqlite = \<lparr> sq_jobs = [], sq_drain_events = [], sq_sequence = 0, sq_skipDrainEvents = False \<rparr>"

definition sq_wf :: "SQLite \<Rightarrow> bool" where
  "sq_wf t \<longleftrightarrow> distinct (map rw_id (sq_jobs t))"

definition same_rows :: "(string \<Rightarrow> string) \<Rightarrow> (string \<Rightarrow> pebbleRecord option) \<Rightarrow> SQLite \<Rightarrow> bool" where
  "same_rows H R t \<longleftrightarrow> sq_wf t \<and> (\<forall>i. select_row i t = map_option (row_of H) (R i))"

lemma find_unique:
  "distinct (map f xs) \<Longrightarrow> find (\<lambda>w. f w = i) xs = Some w \<longleftrightarrow> w \<in> set xs \<and> f w = i"
  by (induction xs) (auto simp: image_iff)

lemma select_row_iff: "sq_wf t \<Longrightarrow> select_row i t = Some w \<longleftrightarrow> w \<in> set (sq_jobs t) \<and> rw_id w = i"
  by (simp add: select_row_def sq_wf_def find_unique)

lemma select_row_id: "select_row i t = Some w \<Longrightarrow> rw_id w = i"
  by (auto simp: select_row_def find_Some_iff)

lemma update_row_select:
  assumes "\<And>w. rw_id (f w) = rw_id w"
  shows "select_row j (update_row i f t) = (if j = i then map_option f (select_row j t) else select_row j t)"
    and "sq_wf (update_row i f t) = sq_wf t"
proof -
  have "find (\<lambda>w. rw_id w = j) (map (\<lambda>w. if rw_id w = i then f w else w) ws)
      = (if j = i then map_option f (find (\<lambda>w. rw_id w = j) ws) else find (\<lambda>w. rw_id w = j) ws)" for ws
    using assms by (induction ws) auto
  then show "select_row j (update_row i f t) = (if j = i then map_option f (select_row j t) else select_row j t)"
    by (simp add: select_row_def update_row_def)
  have "rw_id \<circ> (\<lambda>w. if rw_id w = i then f w else w) = rw_id"
    using assms by auto
  then show "sq_wf (update_row i f t) = sq_wf t" by (simp add: sq_wf_def update_row_def)
qed

lemma filter_select:
  assumes "sq_wf t" "sq_jobs t' = filter P (sq_jobs t)"
  shows "sq_wf t'" and "select_row i t' = (case select_row i t of Some w \<Rightarrow> if P w then Some w else None | None \<Rightarrow> None)"
proof -
  show wf: "sq_wf t'" using assms by (simp add: sq_wf_def distinct_map_filter)
  show "select_row i t' = (case select_row i t of Some w \<Rightarrow> if P w then Some w else None | None \<Rightarrow> None)"
  proof (cases "select_row i t")
    case None
    then have "select_row i t' \<noteq> Some w" for w
      using select_row_iff [OF wf, of i w] select_row_iff [OF assms(1), of i w] assms(2) by auto
    with None show ?thesis by (cases "select_row i t'") auto
  next
    case (Some w)
    then have w: "w \<in> set (sq_jobs t)" "rw_id w = i" using select_row_iff [OF assms(1)] by auto
    have uniq: "v = w" if "v \<in> set (sq_jobs t)" "rw_id v = i" for v
      using that Some select_row_iff [OF assms(1), of i v] by simp
    show ?thesis
    proof (cases "P w")
      case True
      with w assms(2) have "select_row i t' = Some w" by (simp add: select_row_iff [OF wf])
      with Some True show ?thesis by simp
    next
      case False
      then have "select_row i t' \<noteq> Some v" for v
        using select_row_iff [OF wf, of i v] uniq [of v] assms(2) by auto
      with Some False show ?thesis by (cases "select_row i t'") auto
    qed
  qed
qed

lemma row_of_simps [simp]:
  "rw_id (row_of H r) = j_ID (pr_Job r)" "rw_hash (row_of H r) = IdempotencyHash H (pr_Job r)"
  "rw_status (row_of H r) = j_Status (pr_Job r)" "rw_queue_key (row_of H r) = pr_QueueKey r"
  "rw_created_at (row_of H r) = j_CreatedAt (pr_Job r)" "rw_execute_before (row_of H r) = j_ExecuteBefore (pr_Job r)"
  "rw_expires_at (row_of H r) = pr_ExpiresAt r"
  by (simp_all add: row_of_def insert_row_def)

text \<open>The expiry SQLite computes from its columns is that of the job.\<close>

lemma pending_expiry_PendingExpiresAt:
  "0 \<le> now \<Longrightarrow> 0 \<le> j_CreatedAt (pr_Job r) \<Longrightarrow> pending_expiry now (row_of H r) = PendingExpiresAt now (pr_Job r)"
  by (auto simp: pending_expiry_def PendingExpiresAt_def QueueDeadline_def ttlQueued_def max_def QueuedTTL_def)

lemma same_rows_iff:
  "same_rows H R t \<Longrightarrow> w \<in> set (sq_jobs t) \<and> rw_id w = i \<longleftrightarrow> (\<exists>r. R i = Some r \<and> row_of H r = w)"
  using select_row_iff [of t i w] by (simp add: same_rows_def)

lemma norm_plain: "j_DedupHash j = '''' \<Longrightarrow> norm_job j = j"
  by (cases j) (simp add: norm_job_def)

context pebble_db
begin

lemma SetQueueKey_recs:
  "shape_ok (\<alpha> (p_db s)) \<Longrightarrow> recs_of (\<alpha> (p_db (SetQueueKey kv i q s)))
     = (recs_of (\<alpha> (p_db s)))(i := map_option (\<lambda>r. r\<lparr>pr_QueueKey := q\<rparr>) (recs_of (\<alpha> (p_db s)) i))"
  using recs_shape(1) [of "\<alpha> (p_db s)" i]
  by (cases "recs_of (\<alpha> (p_db s)) i") (auto simp: SetQueueKey_def getRecord_view Let_def norm_plain rec_ok_def)

lemma putRecord_recs:
  "j_DedupHash (pr_Job r) = '''' \<Longrightarrow> recs_of (\<alpha> (p_db (putRecord kv i r s))) = (recs_of (\<alpha> (p_db s)))(i \<mapsto> r)"
  by (simp add: putRecord_def norm_plain)

lemma PutResult_recs:
  "shape_ok (\<alpha> (p_db s)) \<Longrightarrow> recs_of (\<alpha> (p_db (PutResult kv i res s)))
     = (recs_of (\<alpha> (p_db s)))(i := map_option (\<lambda>r. r\<lparr>pr_Result := Some res\<rparr>) (recs_of (\<alpha> (p_db s)) i))"
  using recs_shape(1) [of "\<alpha> (p_db s)" i]
  by (cases "recs_of (\<alpha> (p_db s)) i") (auto simp: PutResult_def getRecord_view putRecord_recs rec_ok_def)

lemma RecordRetry_recs:
  "shape_ok (\<alpha> (p_db s)) \<Longrightarrow> recs_of (\<alpha> (p_db (RecordRetry kv i n s)))
     = (recs_of (\<alpha> (p_db s)))(i := map_option
         (\<lambda>r. r\<lparr>pr_Job := (pr_Job r)\<lparr>j_Attempts := n, j_Status := StatusQueued\<rparr>\<rparr>) (recs_of (\<alpha> (p_db s)) i))"
  using recs_shape(1) [of "\<alpha> (p_db s)" i]
  by (cases "recs_of (\<alpha> (p_db s)) i") (auto simp: RecordRetry_def getRecord_view putRecord_recs rec_ok_def)

lemma DeleteJob_recs:
  "recs_of (\<alpha> (p_db (DeleteJob kv H i s))) = (recs_of (\<alpha> (p_db s)))(i := None)"
  by (cases "recs_of (\<alpha> (p_db s)) i") (auto simp: DeleteJob_def getRecord_view delete_ops_def)

lemma recordDrainEvent_recs: "recs_of (\<alpha> (p_db (recordDrainEvent kv H now r st s))) = recs_of (\<alpha> (p_db s))"
  by (auto simp: recordDrainEvent_def Let_def split: lookup.splits)

lemma UpdateStatus_recs:
  "shape_ok (\<alpha> (p_db s)) \<Longrightarrow> recs_of (\<alpha> (p_db (UpdateStatus kv H now i st s)))
     = (recs_of (\<alpha> (p_db s)))(i := map_option
         (\<lambda>r. r\<lparr>pr_Job := (pr_Job r)\<lparr>j_Status := st\<rparr>, pr_ExpiresAt := expiresAtFor (pr_Job r) st now\<rparr>) (recs_of (\<alpha> (p_db s)) i))"
  using recs_shape(1) [of "\<alpha> (p_db s)" i]
  by (cases "recs_of (\<alpha> (p_db s)) i")
    (auto simp: UpdateStatus_def getRecord_view Let_def recordDrainEvent_recs putRecordWithExpiry_def norm_plain rec_ok_def)

end

lemma same_rows_find_hash:
  assumes same: "same_rows H R t" and uniq: "\<And>i r i' r'. R i = Some r \<Longrightarrow> R i' = Some r' \<Longrightarrow>
      IdempotencyHash H (pr_Job r) = IdempotencyHash H (pr_Job r') \<Longrightarrow> i = i'"
  shows "find (\<lambda>w. rw_hash w = h) (sq_jobs t) = Some w \<longleftrightarrow> w \<in> set (sq_jobs t) \<and> rw_hash w = h"
proof -
  have wf: "distinct (map rw_id (sq_jobs t))" using same by (simp add: same_rows_def sq_wf_def)
  have "rw_hash v = rw_hash w \<longleftrightarrow> v = w" if v: "v \<in> set (sq_jobs t)" and w: "w \<in> set (sq_jobs t)" for v w
  proof
    assume eq: "rw_hash v = rw_hash w"
    obtain r r' where "R (rw_id v) = Some r" "row_of H r = v" "R (rw_id w) = Some r'" "row_of H r' = w"
      using same_rows_iff [OF same, of v "rw_id v"] same_rows_iff [OF same, of w "rw_id w"] v w by auto
    with eq uniq [of "rw_id v" r "rw_id w" r'] have "rw_id v = rw_id w" by auto
    with wf v w show "v = w" by (metis distinct_map inj_onD)
  qed simp
  then have "distinct (map rw_hash (sq_jobs t))"
    using wf by (auto simp: distinct_map inj_on_def)
  then show ?thesis by (rule find_unique)
qed

lemma same_rows_insert:
  assumes same: "same_rows H R t" and fresh: "R (j_ID job) = None" and st: "j_Status job = StatusQueued"
    and hash: "\<And>i r. R i = Some r \<Longrightarrow> IdempotencyHash H (pr_Job r) \<noteq> IdempotencyHash H job"
    and dedup: "dedup_consistent H job"
  shows "sq_CheckOrInsert H False False now job t = (('''', False), t\<lparr>sq_jobs := sq_jobs t @ [insert_row H now job]\<rparr>)"
    and "same_rows H (R(j_ID job \<mapsto> \<lparr> pr_Job = norm_job job, pr_QueueKey = '''', pr_ExpiresAt = PendingExpiresAt now job,
           pr_Result = None \<rparr>)) (t\<lparr>sq_jobs := sq_jobs t @ [insert_row H now job]\<rparr>)"
proof -
  have none: "rw_id w \<noteq> j_ID job \<and> rw_hash w \<noteq> IdempotencyHash H job" if w: "w \<in> set (sq_jobs t)" for w
  proof -
    obtain r where "R (rw_id w) = Some r" "row_of H r = w"
      using same_rows_iff [OF same, of w "rw_id w"] w by auto
    with fresh hash [of "rw_id w" r] show ?thesis by auto
  qed
  then show "sq_CheckOrInsert H False False now job t = (('''', False), t\<lparr>sq_jobs := sq_jobs t @ [insert_row H now job]\<rparr>)"
    by (auto simp: sq_CheckOrInsert_def Let_def list_ex_iff)
  let ?t = "t\<lparr>sq_jobs := sq_jobs t @ [insert_row H now job]\<rparr>"
  have "j_ID job \<notin> rw_id ` set (sq_jobs t)" using none by (metis (no_types) imageE)
  then have wf: "sq_wf ?t"
    using same by (simp add: same_rows_def sq_wf_def insert_row_def)
  have rid: "rw_id (insert_row H now job) = j_ID job" by (simp add: insert_row_def)
  have "select_row i ?t = (if i = j_ID job then Some (insert_row H now job) else select_row i t)" for i
  proof -
    have "find (\<lambda>w. rw_id w = i) (ws @ [insert_row H now job]) =
      (case find (\<lambda>w. rw_id w = i) ws of Some w \<Rightarrow> Some w | None \<Rightarrow> if i = j_ID job then Some (insert_row H now job) else None)" for ws
      using rid by (induction ws) auto
    moreover have "find (\<lambda>w. rw_id w = j_ID job) (sq_jobs t) = None" using none by (auto simp: find_None_iff)
    ultimately show ?thesis by (auto simp: select_row_def split: option.splits)
  qed
  moreover have "row_of H \<lparr> pr_Job = norm_job job, pr_QueueKey = '''', pr_ExpiresAt = PendingExpiresAt now job, pr_Result = None \<rparr>
      = insert_row H now job"
    using st hash_norm_job [OF dedup] by (simp add: row_of_def insert_row_def norm_job_def IsWebhookDelivery_def)
  ultimately show "same_rows H (R(j_ID job \<mapsto> \<lparr> pr_Job = norm_job job, pr_QueueKey = '''', pr_ExpiresAt = PendingExpiresAt now job,
           pr_Result = None \<rparr>)) ?t"
    using wf same by (simp add: same_rows_def)
qed

lemma same_rows_update:
  assumes same: "same_rows H R t" and "\<And>w. rw_id (f w) = rw_id w"
    and "\<And>r. R i = Some r \<Longrightarrow> row_of H (g r) = f (row_of H r)"
  shows "same_rows H (R(i := map_option g (R i))) (update_row i f t)"
  using assms by (cases "R i") (auto simp: same_rows_def update_row_select)

lemma same_rows_filter:
  assumes same: "same_rows H R t" and "sq_jobs t' = filter P (sq_jobs t)"
    and "\<And>i. R' i = (case R i of Some r \<Rightarrow> if P (row_of H r) then Some r else None | None \<Rightarrow> None)"
  shows "same_rows H R' t'"
proof -
  have "sq_wf t" "\<And>i. select_row i t = map_option (row_of H) (R i)" using same by (simp_all add: same_rows_def)
  with filter_select [OF _ assms(2)] assms(3) show ?thesis
    by (auto simp: same_rows_def split: option.splits)
qed

lemma same_rows_jobs: "same_rows H R t \<Longrightarrow> sq_jobs t' = sq_jobs t \<Longrightarrow> same_rows H R t'"
  by (simp add: same_rows_def sq_wf_def select_row_def)

lemma sq_recordDrainEvent_jobs [simp]: "sq_jobs (sq_recordDrainEvent now i st t) = sq_jobs t"
  by (simp add: sq_recordDrainEvent_def split: option.splits)

context pebble_db
begin

lemma same_rows_step:
  assumes inv: "store_inv \<alpha> H T s" and allowed: "store_allowed kv H e (T, s)" and T: "0 \<le> T"
    and same: "same_rows H (recs_of (\<alpha> (p_db s))) t"
  shows "same_rows H (recs_of (\<alpha> (p_db (snd (store_step kv H e (T, s)))))) (sq_step H e t)"
proof -
  note ok = inv [unfolded store_inv_def]
  note shape = store_okD(1) [OF ok] and index = store_okD(2) [OF ok]
  let ?R = "recs_of (\<alpha> (p_db s))"
  show ?thesis
  proof (cases e)
    case (SInsert now job)
    with allowed have job: "job_ok H now job" "T \<le> now" and unused: "unused_id (\<alpha> (p_db s)) (j_ID job)"
      by (auto simp: id_unused_view)
    show ?thesis
    proof (cases "\<exists>i r. getRecord kv i s = Some r \<and> IdempotencyHash H (pr_Job r) = IdempotencyHash H job")
      case True
      then obtain i r where r: "getRecord kv i s = Some r" "IdempotencyHash H (pr_Job r) = IdempotencyHash H job" by blast
      have "row_of H r \<in> set (sq_jobs t)"
        using same_rows_iff [OF same, of "row_of H r" i] r(1) by (auto simp: getRecord_view)
      then have "list_ex (\<lambda>w. rw_id w = j_ID job \<or> rw_hash w = IdempotencyHash H job) (sq_jobs t)"
        using r(2) by (force simp: list_ex_iff)
      then have "snd (sq_CheckOrInsert H False False now job t) = t"
        by (auto simp: sq_CheckOrInsert_def Let_def split: option.splits)
      with SInsert same CheckOrInsert_duplicate [OF inv r] show ?thesis by simp
    next
      case False
      have fresh: "?R (j_ID job) = None" using unused by (simp add: unused_id_def)
      note ins = CheckOrInsert_fresh(3) [OF inv job(1,2) unused]
      have eq: "recs_of (\<alpha> (p_db (snd (CheckOrInsert kv H now job s)))) = ?R(j_ID job \<mapsto>
          \<lparr> pr_Job = norm_job job, pr_QueueKey = '''', pr_ExpiresAt = PendingExpiresAt now job, pr_Result = None \<rparr>)"
        using ins CheckOrInsert_others [of _ job H now s] False by (auto simp: fun_eq_iff getRecord_view)
      have jo: "j_Status job = StatusQueued" "dedup_consistent H job" using job(1) by (auto simp: job_ok_def)
      have "\<And>i r. ?R i = Some r \<Longrightarrow> IdempotencyHash H (pr_Job r) \<noteq> IdempotencyHash H job"
        using False by (auto simp: getRecord_view)
      from same_rows_insert [OF same fresh jo(1) this jo(2), where now = now] SInsert eq show ?thesis by simp
    qed
  next
    case (SSetQueueKey i q)
    have "same_rows H (?R(i := map_option (\<lambda>r. r\<lparr>pr_QueueKey := q\<rparr>) (?R i))) (sq_SetQueueKey i q t)"
      unfolding sq_SetQueueKey_def by (rule same_rows_update [OF same]) (simp_all add: row_of_def insert_row_def)
    with SSetQueueKey shape show ?thesis by (simp add: SetQueueKey_recs)
  next
    case (SDelete i)
    have "same_rows H (?R(i := None)) (sq_DeleteJob i t)"
      by (rule same_rows_filter [OF same, of _ "\<lambda>w. rw_id w \<noteq> i"])
        (use recs_shape(1) [OF shape] in \<open>auto simp: sq_DeleteJob_def rec_ok_def split: option.splits\<close>)
    with SDelete show ?thesis by (simp add: DeleteJob_recs)
  next
    case (SPutResult i res)
    have "same_rows H (?R(i := map_option (\<lambda>r. r\<lparr>pr_Result := Some res\<rparr>) (?R i))) (sq_PutResult i res t)"
      unfolding sq_PutResult_def by (rule same_rows_update [OF same]) (simp_all add: row_of_def insert_row_def)
    with SPutResult shape show ?thesis by (simp add: PutResult_recs)
  next
    case (SRetry i n)
    have "same_rows H (?R(i := map_option (\<lambda>r. r\<lparr>pr_Job := (pr_Job r)\<lparr>j_Attempts := n, j_Status := StatusQueued\<rparr>\<rparr>) (?R i)))
        (sq_RecordRetry i n t)"
      unfolding sq_RecordRetry_def
      by (rule same_rows_update [OF same]) (simp_all add: row_of_def insert_row_def IsWebhookDelivery_def)
    with SRetry shape show ?thesis by (simp add: RecordRetry_recs)
  next
    case (SUpdate now i st)
    with allowed T have now: "0 \<le> now" by auto
    have created: "0 \<le> j_CreatedAt (pr_Job r)" if "?R i = Some r" for r
      using recs_shape(1) [OF shape that] by (simp add: rec_ok_def in63_def)
    let ?g = "\<lambda>r. r\<lparr>pr_Job := (pr_Job r)\<lparr>j_Status := st\<rparr>, pr_ExpiresAt := expiresAtFor (pr_Job r) st now\<rparr>"
    let ?f = "\<lambda>w. if st = StatusCompleted \<or> st = StatusFailed then w\<lparr>rw_status := st, rw_expires_at := now + ttlForStatus st\<rparr>
        else w\<lparr>rw_status := st, rw_expires_at := pending_expiry now w\<rparr>"
    have "same_rows H (?R(i := map_option ?g (?R i))) (update_row i ?f t)"
    proof (rule same_rows_update [OF same])
      fix r assume r: "?R i = Some r"
      have "row_of H (?g r) = (row_of H r)\<lparr>rw_status := st, rw_expires_at := expiresAtFor (pr_Job r) st now\<rparr>"
        by (simp add: row_of_def insert_row_def IsWebhookDelivery_def)
      then show "row_of H (?g r) = ?f (row_of H r)"
        using pending_expiry_PendingExpiresAt [OF now created [OF r], of H] by (simp add: expiresAtFor_def)
    qed simp
    moreover have "sq_jobs (sq_UpdateStatus now i st t) = sq_jobs (update_row i ?f t)"
      by (simp add: sq_UpdateStatus_def Let_def update_row_def)
    ultimately have "same_rows H (?R(i := map_option ?g (?R i))) (sq_UpdateStatus now i st t)"
      by (rule same_rows_jobs)
    with SUpdate shape show ?thesis by (simp add: UpdateStatus_recs)
  next
    case (SExpire now)
    with allowed have now: "T \<le> now" "in63 now" by auto
    have "same_rows H (\<lambda>i. if expired_by now (\<alpha> (p_db s)) i then None else ?R i) (sq_deleteExpired now t)"
      by (rule same_rows_filter [OF same, of _ "\<lambda>w. \<not> rw_expires_at w < now"])
        (auto simp: sq_deleteExpired_def expired_by_def split: option.splits)
    with SExpire deleteExpired_views(2) [OF inv now] show ?thesis by simp
  next
    case (SPage now q after before limit)
    with allowed have "T \<le> now" "nul \<notin> set q" "q \<noteq> ''''" "in63 (pc_CreatedAt after)" "before \<le> 0 \<or> in63 before" by auto
    from QueuedPage_views(3) [OF inv this, of limit] SPage same show ?thesis by simp
  next
    case SClear
    have "same_rows H (\<lambda>_. None) (sq_ClearIdempotentKeys t)"
      by (simp add: same_rows_def sq_wf_def sq_ClearIdempotentKeys_def select_row_def)
    with SClear show ?thesis by (simp add: ClearIdempotentKeys_view cleared_views)
  next
    case (SAck n)
    with ack_views(2) [OF inv, of n] same_rows_jobs [OF same, of "sq_AcknowledgeDrainEventsThrough n t"] show ?thesis
      by (simp add: sq_AcknowledgeDrainEventsThrough_def)
  next
    case (SDrainEnabled b)
    with same_rows_jobs [OF same, of "sq_SetDrainEventsEnabled b t"] show ?thesis
      by (simp add: sq_SetDrainEventsEnabled_def SetDrainEventsEnabled_def)
  qed
qed

end

section \<open>Runs and pages of the two backends\<close>

context pebble_db
begin

lemma same_rows_run:
  assumes "store_inv \<alpha> H T s" "0 \<le> T" "same_rows H (recs_of (\<alpha> (p_db s))) t"
    and "ok_run (store_step kv H) (store_allowed kv H) es (T, s)"
  shows "same_rows H (recs_of (\<alpha> (p_db (snd (fold (store_step kv H) es (T, s)))))) (fold (sq_step H) es t)"
  using assms
proof (induction es arbitrary: T s t)
  case (Cons e es)
  obtain T' s' where step: "store_step kv H e (T, s) = (T', s')" by (cases "store_step kv H e (T, s)")
  have allowed: "store_allowed kv H e (T, s)" using Cons.prems(4) by simp
  have "store_inv \<alpha> H T' s'"
    using runs.step_inv [of H "(T, s)" e] Cons.prems(1) allowed step by (simp add: run_inv_def)
  moreover have "0 \<le> T'" using Cons.prems(2) allowed step by (cases e) auto
  moreover have "same_rows H (recs_of (\<alpha> (p_db s'))) (sq_step H e t)"
    using same_rows_step [OF Cons.prems(1) allowed Cons.prems(2,3)] step by simp
  ultimately show ?case using Cons.IH [of T' s' "sq_step H e t"] Cons.prems(4) step by simp
qed simp

end

lemma row_before_trans: "row_before a b \<Longrightarrow> row_before b c \<Longrightarrow> row_before a c"
  unfolding row_before_def using str_less_trans by force

lemma insert_ordered_set [simp]: "set (insert_ordered w ws) = insert w (set ws)"
  by (induction w ws rule: insert_ordered.induct) auto

lemma insert_ordered_sorted:
  assumes "sorted_wrt row_before ws" "\<forall>x\<in>set ws. rw_id x \<noteq> rw_id w"
  shows "sorted_wrt row_before (insert_ordered w ws)"
  using assms
proof (induction w ws rule: insert_ordered.induct)
  case (2 w x xs)
  have "row_before w x \<or> row_before x w"
    using "2.prems"(2) str_less_linear [of "rw_id w" "rw_id x"] by (auto simp: row_before_def)
  with 2 show ?case by (auto intro: row_before_trans)
qed simp

lemma order_rows_sorted:
  "distinct (map rw_id ws) \<Longrightarrow> sorted_wrt row_before (order_rows ws) \<and> set (order_rows ws) = set ws"
  unfolding order_rows_def
proof (induction ws)
  case (Cons w ws)
  have "\<forall>x\<in>set ws. rw_id x \<noteq> rw_id w" using Cons.prems by (auto simp: image_iff)
  with Cons show ?case by (auto intro!: insert_ordered_sorted)
qed simp

definition pair_before :: "ms \<times> string \<Rightarrow> ms \<times> string \<Rightarrow> bool" where
  "pair_before p p' \<longleftrightarrow> fst p < fst p' \<or> fst p = fst p' \<and> str_less (snd p) (snd p')"

lemma pair_before_asym: "pair_before p p' \<Longrightarrow> \<not> pair_before p' p"
  unfolding pair_before_def using str_less_trans str_less_irrefl by force

text \<open>Two lists in page order with the same jobs list the same ids.\<close>

lemma page_lists_agree:
  assumes "sorted_wrt page_before js" "sorted_wrt row_before ws"
    and "(\<lambda>j. (j_CreatedAt j, j_ID j)) ` set js = (\<lambda>w. (rw_created_at w, rw_id w)) ` set ws"
  shows "map j_ID js = map rw_id ws"
proof -
  have "sorted_wrt pair_before (map (\<lambda>j. (j_CreatedAt j, j_ID j)) js)"
    "sorted_wrt pair_before (map (\<lambda>w. (rw_created_at w, rw_id w)) ws)"
    using assms(1,2) by (simp_all add: sorted_wrt_map pair_before_def page_before_def [abs_def] row_before_def [abs_def])
  then have "map (\<lambda>j. (j_CreatedAt j, j_ID j)) js = map (\<lambda>w. (rw_created_at w, rw_id w)) ws"
    using assms(3) by (intro sorted_wrt_unique [OF pair_before_asym]) simp_all
  then have "map snd (map (\<lambda>j. (j_CreatedAt j, j_ID j)) js) = map snd (map (\<lambda>w. (rw_created_at w, rw_id w)) ws)"
    by simp
  then show ?thesis by (simp add: comp_def)
qed



end
