(* ===== verification/URL_Worker.thy ===== *)
theory URL_Worker
  imports Account_Queue Fair_Admission
begin

text \<open>
  The worker of one target (\<^verbatim>\<open>internal/dispatch/url_worker.go\<close>) with its parts of
  \<^verbatim>\<open>dead_target.go\<close>, \<^verbatim>\<open>drain_rate.go\<close> and \<^verbatim>\<open>paged_recovery.go\<close>: admission and
  reservation under the worker lock, the backlog budget a target advertises, the
  account-queue mode, the aggregate rate budget, the circuit breaker, and the
  retirement of idle queues.

  \<open>uw_queues\<close> is the map of account queues and \<open>uw_target\<close> what they share, so an
  operation of a queue is applied to a queue of the worker with \<open>on_queue\<close>.  The
  digest of \<^verbatim>\<open>sha256String\<close> is the argument \<open>H\<close>; \<^verbatim>\<open>url.Parse\<close> is \<open>parse_url\<close>.
\<close>

section \<open>State\<close>

record URLWorker =
  uw_domain :: string
  uw_rps :: f64
  uw_maxConc :: int
  uw_drain :: drainTracker
  uw_accountQueueMode :: bool
  uw_nodeDefault :: bool
  uw_senderOptIn :: bool
  uw_destinationMode :: "bool option"
  uw_slowStart :: bool
  uw_maxBacklog :: int
  uw_shrinkFloor :: int
  uw_target :: target
  uw_queues :: "(string \<times> AccountQueue) list"
  uw_breakerUntil :: "ns option"
  uw_breakerKind :: string
  uw_stopped :: bool
  uw_log :: "effect list"

definition NewURLWorker :: "environment \<Rightarrow> string \<Rightarrow> f64 \<Rightarrow> int \<Rightarrow> Pool option \<Rightarrow> URLWorker" where
  "NewURLWorker env domain rps maxConc pool =
     \<lparr> uw_domain = domain, uw_rps = rps, uw_maxConc = maxConc,
       uw_drain = \<lparr> dt_lastAt = None, dt_lastServed = 0, dt_rate = 0, dt_sampled = False \<rparr>,
       uw_accountQueueMode = False, uw_nodeDefault = False, uw_senderOptIn = False, uw_destinationMode = None,
       uw_slowStart = False, uw_maxBacklog = MaxPendingPerUpstream env, uw_shrinkFloor = 0,
       uw_target = \<lparr> tg_rps = rps, tg_shared = newSharedPace, tg_pool = pool,
         tg_health = \<lparr> th_failingSince = 0, th_served = 0 \<rparr>, tg_activeQueues = 0, tg_backlog = 0 \<rparr>,
       uw_queues = [], uw_breakerUntil = None, uw_breakerKind = '''', uw_stopped = False, uw_log = [] \<rparr>"

definition on_queue :: "string \<Rightarrow> (qworld \<Rightarrow> qworld) \<Rightarrow> URLWorker \<Rightarrow> URLWorker" where
  "on_queue k f w =
     (case map_of (uw_queues w) k of
        None \<Rightarrow> w
      | Some q \<Rightarrow>
          let qw = f \<lparr> qw_q = q, qw_t = uw_target w, qw_log = uw_log w \<rparr>
          in w\<lparr> uw_queues := al_put k (qw_q qw) (uw_queues w), uw_target := qw_t qw, uw_log := qw_log qw \<rparr>)"

section \<open>Breaker\<close>

definition BreakerOpen :: "ns \<Rightarrow> URLWorker \<Rightarrow> bool" where
  "BreakerOpen now w = (case uw_breakerUntil w of None \<Rightarrow> False | Some t \<Rightarrow> now < t)"

definition BreakerKind :: "URLWorker \<Rightarrow> string" where
  "BreakerKind w = uw_breakerKind w"

definition TripBreaker :: "ns \<Rightarrow> ns \<Rightarrow> string \<Rightarrow> URLWorker \<Rightarrow> URLWorker" where
  "TripBreaker now cooldown kind w = w\<lparr> uw_breakerUntil := Some (now + cooldown), uw_breakerKind := kind \<rparr>"

definition QueueActive :: "URLWorker \<Rightarrow> bool" where
  "QueueActive w = list_ex (\<lambda>(k, q). Active q) (uw_queues w)"

text \<open>\<open>ReportAnswer\<close>; \<open>local_error\<close> says whether the error came from building the request.\<close>

definition ReportAnswer :: "ms \<Rightarrow> int \<Rightarrow> bool option \<Rightarrow> URLWorker \<Rightarrow> URLWorker" where
  "ReportAnswer now status local_error w =
     (let h = tg_health (uw_target w);
          h' = (if local_error = Some True then h
                else if local_error \<noteq> None \<or> retryableStatus status then failed now h
                else answered h)
      in w\<lparr> uw_target := (uw_target w)\<lparr> tg_health := h' \<rparr> \<rparr>)"

section \<open>Backlog budget\<close>

definition setMaxBacklog :: "int \<Rightarrow> URLWorker \<Rightarrow> URLWorker" where
  "setMaxBacklog v w =
     (let old = uw_maxBacklog w; held = tg_backlog (uw_target w); fl = uw_shrinkFloor w;
          fl' = (if v < old \<and> held > v then held
                 else if v > old then (if fl > 0 \<and> held > v then min fl held else 0)
                 else fl)
      in w\<lparr> uw_shrinkFloor := fl', uw_maxBacklog := v \<rparr>)"

definition HandleMaxBacklogHeader :: "string \<Rightarrow> URLWorker \<Rightarrow> URLWorker" where
  "HandleMaxBacklogHeader value w =
     (case parse_int64 value of
        None \<Rightarrow> w
      | Some maxBacklog \<Rightarrow> if maxBacklog < 0 then w else setMaxBacklog maxBacklog w)"

section \<open>Account-queue mode\<close>

definition applyAccountQueueModeLocked :: "URLWorker \<Rightarrow> URLWorker" where
  "applyAccountQueueModeLocked w =
     (case uw_destinationMode w of
        Some mode \<Rightarrow> w\<lparr> uw_accountQueueMode := mode \<rparr>
      | None \<Rightarrow> w\<lparr> uw_accountQueueMode := uw_nodeDefault w \<or> uw_senderOptIn w \<rparr>)"

definition handleAccountQueueHeader :: "string \<Rightarrow> URLWorker \<Rightarrow> URLWorker" where
  "handleAccountQueueHeader val w =
     (if ParseAccountQueueValue val \<noteq> Some True then w
      else applyAccountQueueModeLocked (w\<lparr> uw_senderOptIn := True \<rparr>))"

definition setAccountQueuePolicy :: "bool \<Rightarrow> bool option \<Rightarrow> URLWorker \<Rightarrow> URLWorker" where
  "setAccountQueuePolicy nodeDefault destination w =
     applyAccountQueueModeLocked (w\<lparr> uw_nodeDefault := nodeDefault, uw_destinationMode := destination \<rparr>)"

text \<open>The flag is whether the registry is told to remember the new choice.\<close>

definition HandleDestinationAccountQueue :: "bool \<Rightarrow> URLWorker \<Rightarrow> URLWorker \<times> bool" where
  "HandleDestinationAccountQueue on w =
     (applyAccountQueueModeLocked (w\<lparr> uw_destinationMode := Some on \<rparr>), uw_destinationMode w \<noteq> Some on)"

definition accountQueueDefault :: "environment \<Rightarrow> bool" where
  "accountQueueDefault env =
     (let val = env ''AQUIFER_ACCOUNT_QUEUE''
      in if val = '''' then True
         else case ParseAccountQueueValue val of None \<Rightarrow> True | Some on \<Rightarrow> on)"

definition SharedQueueKey :: string where
  "SharedQueueKey = ''__shared__''"

definition job_header :: "string \<Rightarrow> Job \<Rightarrow> string" where
  "job_header name job = (case map_of (j_Headers job) name of Some v \<Rightarrow> v | None \<Rightarrow> '''')"

definition JobQueueKey :: "(string \<Rightarrow> string) \<Rightarrow> Job \<Rightarrow> string" where
  "JobQueueKey H job =
     (let a = job_header ''Authorization'' job;
          b = (if a = '''' then job_header ''x-api-key'' job else a);
          apiKey = (if b = '''' then job_header ''api-key'' job else b)
      in H (j_UserID job @ '':'' @ apiKey))"

definition DomainKey :: "(string \<Rightarrow> (string \<times> string) option) \<Rightarrow> string \<Rightarrow> string" where
  "DomainKey parse_url rawURL =
     (case parse_url rawURL of None \<Rightarrow> rawURL | Some (scheme, host) \<Rightarrow> scheme @ ''://'' @ host)"

definition queueKeyLocked :: "(string \<Rightarrow> string) \<Rightarrow> Job \<Rightarrow> URLWorker \<Rightarrow> string" where
  "queueKeyLocked H job w = (if uw_accountQueueMode w then JobQueueKey H job else SharedQueueKey)"

definition queueFor :: "(string \<Rightarrow> string) \<Rightarrow> Job \<Rightarrow> URLWorker \<Rightarrow> AccountQueue option" where
  "queueFor H job w = map_of (uw_queues w) (queueKeyLocked H job w)"

section \<open>Admission and reservation\<close>

definition pending_total :: "(string \<times> AccountQueue) list \<Rightarrow> int" where
  "pending_total qs = sum_list (map (\<lambda>(k, q). if aq_backlog q \<le> 0 then 0 else aq_backlog q) qs)"

definition pending_queues :: "(string \<times> AccountQueue) list \<Rightarrow> int" where
  "pending_queues qs = int (length (filter (\<lambda>(k, q). aq_backlog q > 0) qs))"

definition pending_of :: "string \<Rightarrow> (string \<times> AccountQueue) list \<Rightarrow> int" where
  "pending_of key qs =
     (case map_of qs key of Some q \<Rightarrow> if aq_backlog q \<le> 0 then 0 else aq_backlog q | None \<Rightarrow> 0)"

definition snapshotForQueueLocked :: "string \<Rightarrow> URLWorker \<Rightarrow> QueueSnapshot" where
  "snapshotForQueueLocked key w =
     (let upstream = pending_total (uw_queues w);
          shared = (\<not> uw_accountQueueMode w \<and> upstream > 0);
          m = uw_maxBacklog w;
          start = FairStart * of_int m
      in \<lparr> qs_ActiveQueues = (if shared then 1 else pending_queues (uw_queues w)),
           qs_UpstreamBacklog = upstream,
           qs_QueueBacklog = (if shared then upstream else pending_of key (uw_queues w)),
           qs_MaxBacklog = m,
           qs_AdmissionPressure =
             (if m > 0 then clamp ((of_int upstream - start) / (of_int m - start)) 0 1 else 0),
           qs_RejectionProbability = 0 \<rparr>)"

datatype reserve_result =
    WorkerStopped
  | Rejected string int int QueueSnapshot
  | Reserved string QueueSnapshot

text \<open>The decision of \<open>reserve\<close>: the worker with the floor it may have dropped, and a refusal if any.\<close>

definition admit_job :: "f64 \<Rightarrow> string \<Rightarrow> URLWorker \<Rightarrow> URLWorker \<times> reserve_result option" where
  "admit_job draw key w =
     (let totalPending = pending_total (uw_queues w);
          own = pending_of key (uw_queues w);
          activeQueues = pending_queues (uw_queues w) + (if map_of (uw_queues w) key = None \<or> own = 0 then 1 else 0);
          activeQueues = (if \<not> uw_accountQueueMode w then 1 else activeQueues);
          queuePending = (if \<not> uw_accountQueueMode w then totalPending else own);
          maxBacklog = uw_maxBacklog w;
          fl = (if uw_shrinkFloor w > 0 \<and> totalPending \<le> maxBacklog then 0 else uw_shrinkFloor w);
          w = w\<lparr> uw_shrinkFloor := fl \<rparr>;
          decision = DecideFairWithFloor queuePending totalPending activeQueues maxBacklog fl draw
      in if \<not> fd_Allowed decision
         then (w, Some (Rejected (fd_Reason decision) maxBacklog totalPending (fd_Snapshot decision)))
         else (w, None))"

definition ensure_queue :: "environment \<Rightarrow> string \<Rightarrow> URLWorker \<Rightarrow> URLWorker" where
  "ensure_queue env key w =
     (case map_of (uw_queues w) key of
        Some q \<Rightarrow> w
      | None \<Rightarrow>
          on_queue key (start_loop (uw_slowStart w))
            (w\<lparr> uw_queues := al_put key (newAccountQueue env key (uw_domain w) (uw_rps w) (uw_maxConc w)) (uw_queues w) \<rparr>))"

definition reserve :: "environment \<Rightarrow> (string \<Rightarrow> string) \<Rightarrow> f64 \<Rightarrow> Job \<Rightarrow> bool \<Rightarrow> URLWorker \<Rightarrow> URLWorker \<times> reserve_result" where
  "reserve env H draw job enforceAdmission w =
     (if uw_stopped w then (w, WorkerStopped)
      else
        let key = queueKeyLocked H job w;
            (w1, refused) = (if enforceAdmission then admit_job draw key w else (w, None))
        in case refused of
             Some r \<Rightarrow> (w1, r)
           | None \<Rightarrow>
               let w2 = on_queue key reserveBacklog (ensure_queue env key w1)
               in (w2, Reserved key (snapshotForQueueLocked key w2)))"

text \<open>\<open>enqueue\<close>; \<open>taken\<close> is whether the queue's channel took the job before the queue was stopped.\<close>

definition worker_enqueue ::
  "environment \<Rightarrow> (string \<Rightarrow> string) \<Rightarrow> f64 \<Rightarrow> bool \<Rightarrow> Job \<Rightarrow> bool \<Rightarrow> URLWorker \<Rightarrow> URLWorker \<times> reserve_result" where
  "worker_enqueue env H draw taken job enforceAdmission w =
     (case reserve env H draw job enforceAdmission w of
        (w1, Reserved key snapshot) \<Rightarrow>
          if taken then (on_queue key (handoff job) w1, Reserved key snapshot)
          else (on_queue key (\<lambda>qw. releaseBacklog (emit [SetQueueKey (j_ID job) (storeKey (qw_q qw))] qw)) w1, WorkerStopped)
      | r \<Rightarrow> r)"

text \<open>The retirement callback of a queue whose loop went idle; the flag says whether the worker is now empty.\<close>

definition retire_idle :: "string \<Rightarrow> URLWorker \<Rightarrow> URLWorker \<times> bool" where
  "retire_idle k w =
     (case map_of (uw_queues w) k of
        None \<Rightarrow> (w, False)
      | Some q \<Rightarrow>
          if aq_backlog q > 0 \<or> aq_cmds q \<noteq> [] then (w, False)
          else
            let w1 = w\<lparr> uw_queues := al_del k (uw_queues w) \<rparr>;
                empty = (uw_queues w1 = [])
            in (if empty then w1\<lparr> uw_stopped := True \<rparr> else w1, empty))"

section \<open>Aggregate rate\<close>

definition active_queues :: "URLWorker \<Rightarrow> (string \<times> AccountQueue) list" where
  "active_queues w = filter (\<lambda>(k, q). Active q) (uw_queues w)"

definition aggregateRPS :: "URLWorker \<Rightarrow> f64" where
  "aggregateRPS w = sum_list (map (\<lambda>(k, q). aq_RPS q) (active_queues w))"

text \<open>The throttles \<open>checkAndThrottle\<close> sends, by queue.\<close>

definition checkAndThrottle :: "URLWorker \<Rightarrow> (string \<times> f64) list" where
  "checkAndThrottle w =
     (let qs = active_queues w; ceiling = budgetCeiling (uw_target w); total_rps = aggregateRPS w
      in if length qs < 2 \<or> ceiling \<le> 0 \<or> total_rps \<le> ceiling then []
         else map (\<lambda>(k, q). (k, max (aq_RPS q * (ceiling / total_rps)) MinRPS)) qs)"

text \<open>What the ticker of \<open>enforceAggregateBudget\<close> does besides throttling.\<close>

definition tick_drain :: "ns \<Rightarrow> URLWorker \<Rightarrow> URLWorker" where
  "tick_drain now w =
     w\<lparr> uw_drain := sampleDrain now (th_served (tg_health (uw_target w))) (tg_backlog (uw_target w)) (uw_drain w) \<rparr>"

definition worker_stuck :: "ns \<Rightarrow> URLWorker \<Rightarrow> bool" where
  "worker_stuck limit w = BacklogStuck limit (tg_backlog (uw_target w)) (uw_drain w)"

record QueueStat =
  qt_Key :: string
  qt_Backlog :: int
  qt_RPS :: f64
  qt_Served :: int
  qt_InMemory :: int

record TargetStats =
  ts_Target :: string
  ts_ActiveQueues :: int
  ts_Backlog :: int
  ts_FlowRate :: f64
  ts_Queues :: "QueueStat list"

definition Stats :: "URLWorker \<Rightarrow> TargetStats" where
  "Stats w =
     (let ceiling = budgetCeiling (uw_target w);
          flow = sum_list (map (\<lambda>(k, q). if aq_backlog q > 0 then aq_RPS q else 0) (uw_queues w))
      in \<lparr> ts_Target = uw_domain w, ts_ActiveQueues = pending_queues (uw_queues w),
           ts_Backlog = pending_total (uw_queues w),
           ts_FlowRate = (if ceiling > 0 then min flow (max ceiling MinRPS)
                          else if tg_pool (uw_target w) \<noteq> None then 0 else flow),
           ts_Queues = map (\<lambda>(k, q). \<lparr> qt_Key = k, qt_Backlog = aq_backlog q, qt_RPS = aq_RPS q,
             qt_Served = aq_served q, qt_InMemory = aq_inMemory q \<rparr>) (uw_queues w) \<rparr>)"

section \<open>Counters\<close>

text \<open>
  The contract of an operation of a queue with the counters its worker shares: what
  it does to the queue's backlog it does to the totals.  The laws hold for the
  operations by which jobs enter and leave a queue, and the worker's totals are kept
  by any operation that obeys them.
\<close>

definition active_bit :: "AccountQueue \<Rightarrow> int" where
  "active_bit q = (if 0 < aq_backlog q then 1 else 0)"

definition counts_kept :: "qworld \<Rightarrow> qworld \<Rightarrow> bool" where
  "counts_kept v v' \<longleftrightarrow>
     0 \<le> aq_backlog (qw_q v')
     \<and> tg_backlog (qw_t v') - aq_backlog (qw_q v') = tg_backlog (qw_t v) - aq_backlog (qw_q v)
     \<and> tg_activeQueues (qw_t v') - active_bit (qw_q v') = tg_activeQueues (qw_t v) - active_bit (qw_q v)"

definition totals_ok :: "URLWorker \<Rightarrow> bool" where
  "totals_ok w \<longleftrightarrow> al_wf (uw_queues w) \<and> (\<forall>k q. map_of (uw_queues w) k = Some q \<longrightarrow> 0 \<le> aq_backlog q)
     \<and> tg_backlog (uw_target w) = sum_list (map (\<lambda>(k, q). aq_backlog q) (uw_queues w))
     \<and> tg_activeQueues (uw_target w) = sum_list (map (\<lambda>(k, q). active_bit q) (uw_queues w))"

lemma sum_al_put:
  "sum_list (map (\<lambda>(k, v). g v) (al_put k v xs)) =
     sum_list (map (\<lambda>(k, v). g v) xs) + g v - (case map_of xs k of Some u \<Rightarrow> g u | None \<Rightarrow> (0 :: int))"
  by (induction xs) auto

lemma sum_al_del:
  "al_wf xs \<Longrightarrow> sum_list (map (\<lambda>(k, v). g v) (al_del k xs)) =
     sum_list (map (\<lambda>(k, v). g v) xs) - (case map_of xs k of Some u \<Rightarrow> g u | None \<Rightarrow> (0 :: int))"
proof (induction xs)
  case (Cons x xs)
  obtain k' v' where x: "x = (k', v')" by (cases x)
  show ?case
  proof (cases "k' = k")
    case True
    then have "map_of xs k = None" using Cons.prems x by (auto simp: al_wf_def map_of_eq_None_iff)
    with True Cons x show ?thesis by (auto simp: al_del_def al_wf_def)
  next
    case False
    with Cons x show ?thesis by (auto simp: al_del_def al_wf_def)
  qed
qed (simp add: al_del_def)

locale backlog_op =
  fixes f :: "qworld \<Rightarrow> qworld" and pre :: "AccountQueue \<Rightarrow> bool"
  assumes counted: "pre (qw_q v) \<Longrightarrow> 0 \<le> aq_backlog (qw_q v) \<Longrightarrow> counts_kept v (f v)"
begin

lemma keeps_totals:
  assumes "totals_ok w" and "\<And>q. map_of (uw_queues w) k = Some q \<Longrightarrow> pre q"
  shows "totals_ok (on_queue k f w)"
proof (cases "map_of (uw_queues w) k")
  case None
  with assms show ?thesis by (simp add: on_queue_def)
next
  case (Some q)
  let ?v = "\<lparr> qw_q = q, qw_t = uw_target w, qw_log = uw_log w \<rparr>"
  have "0 \<le> aq_backlog q" using assms(1) Some by (simp add: totals_ok_def)
  then have "counts_kept ?v (f ?v)" using counted [of ?v] assms(2) [OF Some] by simp
  with assms(1) Some show ?thesis
    by (auto simp: totals_ok_def on_queue_def Let_def sum_al_put counts_kept_def)
qed

end


interpretation reserving: backlog_op reserveBacklog "\<lambda>q. True"
  by unfold_locales (auto simp: counts_kept_def reserveBacklog_def on_t_def on_q_def Let_def active_bit_def)

interpretation finishing: backlog_op releaseBacklog "\<lambda>q. 0 < aq_backlog q"
  by unfold_locales (auto simp: counts_kept_def releaseBacklog_def on_t_def on_q_def Let_def active_bit_def)

interpretation clearing: backlog_op clearBacklog "\<lambda>q. True"
  by unfold_locales (auto simp: counts_kept_def clearBacklog_def on_t_def on_q_def Let_def active_bit_def)

interpretation handing: backlog_op "handoff job" "\<lambda>q. True" for job
  by unfold_locales (auto simp: counts_kept_def handoff_def emit_def on_q_def active_bit_def)

interpretation starting: backlog_op "start_loop slow" "\<lambda>q. True" for slow
  by unfold_locales (auto simp: counts_kept_def start_loop_def on_q_def active_bit_def Let_def)

interpretation undoing: backlog_op "\<lambda>qw. releaseBacklog (emit es qw)" "\<lambda>q. 0 < aq_backlog q" for es
  by unfold_locales
    (auto simp: counts_kept_def releaseBacklog_def emit_def on_t_def on_q_def Let_def active_bit_def)

section \<open>Runs of a worker\<close>

datatype worker_event =
    WSubmit Job f64 bool
  | WFinish string
  | WStopQueue string
  | WMaxBacklog int
  | WHeader string
  | WDestination bool
  | WIdle string
  | WSlowStart bool
  | WTrip ns ns string
  | WAnswer ms int "bool option"
  | WTick ns

definition worker_step :: "environment \<Rightarrow> (string \<Rightarrow> string) \<Rightarrow> worker_event \<Rightarrow> URLWorker \<Rightarrow> URLWorker" where
  "worker_step env H e w =
     (case e of
        WSubmit job draw taken \<Rightarrow> fst (worker_enqueue env H draw taken job True w)
      | WFinish k \<Rightarrow> on_queue k releaseBacklog w
      | WStopQueue k \<Rightarrow> on_queue k clearBacklog w
      | WMaxBacklog v \<Rightarrow> setMaxBacklog v w
      | WHeader val \<Rightarrow> handleAccountQueueHeader val w
      | WDestination on \<Rightarrow> fst (HandleDestinationAccountQueue on w)
      | WIdle k \<Rightarrow> fst (retire_idle k w)
      | WSlowStart v \<Rightarrow> w\<lparr> uw_slowStart := v \<rparr>
      | WTrip now cooldown kind \<Rightarrow> TripBreaker now cooldown kind w
      | WAnswer now status err \<Rightarrow> ReportAnswer now status err w
      | WTick now \<Rightarrow> tick_drain now w)"

text \<open>A queue finishes jobs it holds; a target advertises a positive budget.\<close>

definition worker_allowed :: "worker_event \<Rightarrow> URLWorker \<Rightarrow> bool" where
  "worker_allowed e w =
     (case e of
        WFinish k \<Rightarrow> (case map_of (uw_queues w) k of Some q \<Rightarrow> 0 < aq_backlog q | None \<Rightarrow> False)
      | WMaxBacklog v \<Rightarrow> 0 < v
      | _ \<Rightarrow> True)"

text \<open>Whose word decides the mode: the destination's, else the node owner's default or a sender's wish.\<close>

definition effective_mode :: "bool option \<Rightarrow> bool \<Rightarrow> bool \<Rightarrow> bool" where
  "effective_mode destination nodeDefault senderOptIn =
     (case destination of Some b \<Rightarrow> b | None \<Rightarrow> nodeDefault \<or> senderOptIn)"

definition mode_ok :: "URLWorker \<Rightarrow> bool" where
  "mode_ok w \<longleftrightarrow> uw_accountQueueMode w = effective_mode (uw_destinationMode w) (uw_nodeDefault w) (uw_senderOptIn w)"

lemma apply_mode_ok: "mode_ok (applyAccountQueueModeLocked w)"
  by (auto simp: mode_ok_def effective_mode_def applyAccountQueueModeLocked_def split: option.splits)

lemma apply_mode_same:
  "uw_queues (applyAccountQueueModeLocked w) = uw_queues w" "uw_target (applyAccountQueueModeLocked w) = uw_target w"
  "uw_maxBacklog (applyAccountQueueModeLocked w) = uw_maxBacklog w"
  "uw_shrinkFloor (applyAccountQueueModeLocked w) = uw_shrinkFloor w"
  by (auto simp: applyAccountQueueModeLocked_def split: option.splits)

definition budget_ok :: "URLWorker \<Rightarrow> bool" where
  "budget_ok w \<longleftrightarrow> 0 < uw_maxBacklog w \<and> 0 \<le> uw_shrinkFloor w
     \<and> 4 * tg_backlog (uw_target w) \<le> 5 * max (uw_maxBacklog w) (uw_shrinkFloor w)"

definition worker_ok :: "URLWorker \<Rightarrow> bool" where
  "worker_ok w \<longleftrightarrow> totals_ok w \<and> mode_ok w \<and> budget_ok w"

lemma on_queue_same [simp]:
  "uw_maxBacklog (on_queue k f w) = uw_maxBacklog w" "uw_shrinkFloor (on_queue k f w) = uw_shrinkFloor w"
  "uw_accountQueueMode (on_queue k f w) = uw_accountQueueMode w"
  "uw_destinationMode (on_queue k f w) = uw_destinationMode w"
  "uw_nodeDefault (on_queue k f w) = uw_nodeDefault w" "uw_senderOptIn (on_queue k f w) = uw_senderOptIn w"
  by (simp_all add: on_queue_def Let_def split: option.splits)

lemma on_queue_mode [simp]: "mode_ok (on_queue k f w) = mode_ok w"
  by (simp add: mode_ok_def)

lemma sum_eq_pending:
  "(\<And>k q. (k, q) \<in> set qs \<Longrightarrow> 0 \<le> aq_backlog q) \<Longrightarrow>
   pending_total qs = sum_list (map (\<lambda>(k, q). aq_backlog q) qs)"
  unfolding pending_total_def by (rule arg_cong [of _ _ sum_list], rule map_cong) force+

lemma totals_pending:
  assumes "totals_ok w" shows "pending_total (uw_queues w) = tg_backlog (uw_target w)"
proof -
  have "0 \<le> aq_backlog q" if "(k, q) \<in> set (uw_queues w)" for k q
  proof -
    have "map_of (uw_queues w) k = Some q" using assms that by (simp add: totals_ok_def al_wf_def)
    then show ?thesis using assms by (simp add: totals_ok_def)
  qed
  from sum_eq_pending [OF this] assms show ?thesis by (simp add: totals_ok_def)
qed

lemma totals_ok_frame:
  "uw_queues w' = uw_queues w \<Longrightarrow> tg_backlog (uw_target w') = tg_backlog (uw_target w) \<Longrightarrow>
   tg_activeQueues (uw_target w') = tg_activeQueues (uw_target w) \<Longrightarrow> totals_ok w' = totals_ok w"
  by (simp add: totals_ok_def)

lemma admit_job_frame:
  "admit_job draw key w = (w', r) \<Longrightarrow>
     uw_queues w' = uw_queues w \<and> uw_target w' = uw_target w \<and> uw_maxBacklog w' = uw_maxBacklog w
     \<and> uw_accountQueueMode w' = uw_accountQueueMode w \<and> mode_ok w' = mode_ok w"
  by (auto simp: admit_job_def Let_def mode_ok_def split: if_splits)

lemma admit_job_refusal: "admit_job draw key w = (w', Some r) \<Longrightarrow> \<exists>a b c d. r = Rejected a b c d"
  by (auto simp: admit_job_def Let_def split: if_splits)

lemma admit_job_budget:
  assumes "admit_job draw key w = (w', r)" and "totals_ok w" and "budget_ok w"
  shows "budget_ok w'"
    and "r = None \<Longrightarrow> 4 * (tg_backlog (uw_target w') + 1) \<le> 5 * max (uw_maxBacklog w') (uw_shrinkFloor w')"
proof -
  have t: "pending_total (uw_queues w) = tg_backlog (uw_target w)" by (rule totals_pending [OF assms(2)])
  define fl where "fl = (if uw_shrinkFloor w > 0 \<and> tg_backlog (uw_target w) \<le> uw_maxBacklog w then 0 else uw_shrinkFloor w)"
  have w': "uw_shrinkFloor w' = fl" "uw_maxBacklog w' = uw_maxBacklog w" "uw_target w' = uw_target w"
    using assms(1) t by (auto simp: admit_job_def Let_def fl_def split: if_splits)
  show "budget_ok w'" using assms(3) by (auto simp: budget_ok_def w' fl_def)
  assume "r = None"
  then obtain q a where "fair_admits q (tg_backlog (uw_target w)) a (uw_maxBacklog w) fl draw"
    using assms(1) t by (auto simp: admit_job_def Let_def fl_def fair_admits_def split: if_splits)
  then show "4 * (tg_backlog (uw_target w') + 1) \<le> 5 * max (uw_maxBacklog w') (uw_shrinkFloor w')"
    using fair.admits_ceiling assms(3) by (auto simp: w' budget_ok_def)
qed

lemma ensure_queue_totals:
  assumes "totals_ok w"
  shows "totals_ok (ensure_queue env key w)" "uw_maxBacklog (ensure_queue env key w) = uw_maxBacklog w"
    "uw_shrinkFloor (ensure_queue env key w) = uw_shrinkFloor w" "mode_ok (ensure_queue env key w) = mode_ok w"
    "tg_backlog (uw_target (ensure_queue env key w)) = tg_backlog (uw_target w)"
    "map_of (uw_queues (ensure_queue env key w)) key \<noteq> None"
proof -
  let ?q = "newAccountQueue env key (uw_domain w) (uw_rps w) (uw_maxConc w)"
  let ?w = "w\<lparr> uw_queues := al_put key ?q (uw_queues w) \<rparr>"
  have new: "aq_backlog ?q = 0" "active_bit ?q = 0" by (simp_all add: newAccountQueue_def active_bit_def)
  have "totals_ok ?w" if "map_of (uw_queues w) key = None"
    using assms that new by (auto simp: totals_ok_def sum_al_put)
  then show "totals_ok (ensure_queue env key w)"
    using assms starting.keeps_totals [of ?w key "uw_slowStart w"] by (auto simp: ensure_queue_def split: option.splits)
  show "uw_maxBacklog (ensure_queue env key w) = uw_maxBacklog w"
    "uw_shrinkFloor (ensure_queue env key w) = uw_shrinkFloor w" "mode_ok (ensure_queue env key w) = mode_ok w"
    by (simp_all add: ensure_queue_def mode_ok_def split: option.splits)
  show "tg_backlog (uw_target (ensure_queue env key w)) = tg_backlog (uw_target w)"
    "map_of (uw_queues (ensure_queue env key w)) key \<noteq> None"
    by (auto simp: ensure_queue_def on_queue_def Let_def start_loop_def on_q_def split: option.splits)
qed

lemma on_queue_backlog:
  assumes "map_of (uw_queues w) k = Some q"
  shows "tg_backlog (uw_target (on_queue k reserveBacklog w)) = tg_backlog (uw_target w) + 1"
    and "map_of (uw_queues (on_queue k reserveBacklog w)) k = Some (q\<lparr> aq_backlog := aq_backlog q + 1 \<rparr>)"
    and "tg_backlog (uw_target (on_queue k (handoff job) w)) = tg_backlog (uw_target w)"
    and "tg_backlog (uw_target (on_queue k (\<lambda>qw. releaseBacklog (emit (es qw) qw)) w)) = tg_backlog (uw_target w) - 1"
    and "tg_backlog (uw_target (on_queue k releaseBacklog w)) = tg_backlog (uw_target w) - 1"
    and "tg_backlog (uw_target (on_queue k clearBacklog w)) = tg_backlog (uw_target w) - max 0 (aq_backlog q)"
  using assms
  by (simp_all add: on_queue_def Let_def reserveBacklog_def releaseBacklog_def clearBacklog_def handoff_def emit_def
      on_t_def on_q_def max_def)

lemma worker_enqueue_ok:
  assumes ok: "worker_ok w"
  shows "worker_ok (fst (worker_enqueue env H draw taken job True w))"
proof -
  let ?key = "queueKeyLocked H job w"
  obtain w1 r where a: "admit_job draw ?key w = (w1, r)" by (metis surj_pair)
  from ok have t: "totals_ok w" and m: "mode_ok w" and b: "budget_ok w" by (simp_all add: worker_ok_def)
  note F = admit_job_frame [OF a] and B = admit_job_budget [OF a t b]
  have t1: "totals_ok w1" using t F by (simp add: totals_ok_def)
  show ?thesis
  proof (cases "uw_stopped w \<or> r \<noteq> None")
    case True
    then have "fst (worker_enqueue env H draw taken job True w) \<in> {w, w1}"
      using a admit_job_refusal [of draw ?key w w1] by (auto simp: worker_enqueue_def reserve_def)
    moreover have "worker_ok w1" using F B(1) t1 m by (simp add: worker_ok_def)
    ultimately show ?thesis using ok by auto
  next
    case False
    define w2 where "w2 = ensure_queue env ?key w1"
    define w3 where "w3 = on_queue ?key reserveBacklog w2"
    note E = ensure_queue_totals [OF t1, of env ?key, folded w2_def]
    obtain q where q: "map_of (uw_queues w2) ?key = Some q" using E(6) by auto
    note R = on_queue_backlog [OF q, folded w3_def]
    have t3: "totals_ok w3" unfolding w3_def by (rule reserving.keeps_totals [OF E(1)]) simp
    have q0: "0 \<le> aq_backlog q" using E(1) q by (simp add: totals_ok_def)
    have b3: "budget_ok w3" "mode_ok w3"
      using B b False F m E R(1) by (auto simp: budget_ok_def w3_def)
    note R3 = on_queue_backlog [OF R(2)]
    have res: "fst (worker_enqueue env H draw taken job True w) =
        (if taken then on_queue ?key (handoff job) w3
         else on_queue ?key (\<lambda>qw. releaseBacklog (emit [SetQueueKey (j_ID job) (storeKey (qw_q qw))] qw)) w3)"
      using False a by (simp add: worker_enqueue_def reserve_def Let_def w2_def w3_def)
    have u: "on_queue ?key (\<lambda>qw. releaseBacklog (emit [SetQueueKey (j_ID job) (storeKey (qw_q qw))] qw)) w3 =
        on_queue ?key (\<lambda>qw. releaseBacklog (emit [SetQueueKey (j_ID job) (storeKey (q\<lparr> aq_backlog := aq_backlog q + 1 \<rparr>))] qw)) w3"
      using R(2) by (simp add: on_queue_def)
    show ?thesis
    proof (cases taken)
      case True
      then show ?thesis
        unfolding res using handing.keeps_totals [OF t3, of ?key job] b3 R3(3) [of job]
        by (simp add: worker_ok_def budget_ok_def)
    next
      case False
      have "totals_ok (on_queue ?key (\<lambda>qw. releaseBacklog (emit [SetQueueKey (j_ID job) (storeKey (qw_q qw))] qw)) w3)"
        unfolding u using q0 R(2) by (intro undoing.keeps_totals [OF t3]) auto
      then show ?thesis unfolding res using False b3 R3(4) by (simp add: worker_ok_def budget_ok_def)
    qed
  qed
qed

lemma worker_step_ok:
  assumes ok: "worker_ok w" and al: "worker_allowed e w"
  shows "worker_ok (worker_step env H e w)"
proof -
  from ok have t: "totals_ok w" and m: "mode_ok w" and b: "budget_ok w" by (simp_all add: worker_ok_def)
  show ?thesis
  proof (cases e)
    case (WSubmit job draw taken)
    then show ?thesis using worker_enqueue_ok [OF ok] by (simp add: worker_step_def)
  next
    case (WFinish k)
    with al obtain q where q: "map_of (uw_queues w) k = Some q" "0 < aq_backlog q"
      by (auto simp: worker_allowed_def split: option.splits)
    have "totals_ok (on_queue k releaseBacklog w)" using q by (intro finishing.keeps_totals [OF t]) auto
    then show ?thesis
      using WFinish m b on_queue_backlog(5) [OF q(1)] by (simp add: worker_step_def worker_ok_def budget_ok_def)
  next
    case (WStopQueue k)
    have "totals_ok (on_queue k clearBacklog w)" by (rule clearing.keeps_totals [OF t]) simp
    moreover have "budget_ok (on_queue k clearBacklog w)"
    proof (cases "map_of (uw_queues w) k")
      case None
      then show ?thesis using b by (simp add: on_queue_def)
    next
      case (Some q)
      then show ?thesis using b on_queue_backlog(6) [OF Some] by (auto simp: budget_ok_def)
    qed
    ultimately show ?thesis using WStopQueue m by (simp add: worker_step_def worker_ok_def)
  next
    case (WMaxBacklog v)
    then show ?thesis
      using al t m b
      by (auto simp: worker_step_def worker_ok_def setMaxBacklog_def Let_def worker_allowed_def budget_ok_def totals_ok_def mode_ok_def)
  next
    case (WIdle k)
    have "totals_ok (w\<lparr> uw_queues := al_del k (uw_queues w) \<rparr>)"
      if q: "map_of (uw_queues w) k = Some q" "\<not> 0 < aq_backlog q" for q
    proof -
      have "0 \<le> aq_backlog q" using t q(1) by (simp add: totals_ok_def)
      then have "aq_backlog q = 0" "active_bit q = 0" using q(2) by (simp_all add: active_bit_def)
      then show ?thesis using t q(1) by (auto simp: totals_ok_def sum_al_del split: if_splits)
    qed
    with t m b WIdle show ?thesis
      by (auto simp: worker_step_def worker_ok_def retire_idle_def Let_def budget_ok_def totals_ok_def mode_ok_def split: option.splits)
  next
    case (WHeader val)
    then show ?thesis
      using ok apply_mode_ok [of "w\<lparr> uw_senderOptIn := True \<rparr>"]
      by (simp add: worker_step_def worker_ok_def handleAccountQueueHeader_def apply_mode_same totals_ok_def budget_ok_def)
  next
    case (WDestination on)
    then show ?thesis
      using ok apply_mode_ok [of "w\<lparr> uw_destinationMode := Some on \<rparr>"]
      by (simp add: worker_step_def worker_ok_def HandleDestinationAccountQueue_def apply_mode_same totals_ok_def budget_ok_def)
  qed (use t m b in \<open>simp_all add: worker_step_def worker_ok_def TripBreaker_def ReportAnswer_def tick_drain_def Let_def
      totals_ok_def budget_ok_def mode_ok_def\<close>)
qed

interpretation worker_runs: state_machine "worker_step env H" worker_allowed worker_ok for env H
  by unfold_locales (rule worker_step_ok)


section \<open>Throttling\<close>

lemma sum_max_le:
  fixes s m :: rat
  assumes "0 \<le> s" "0 \<le> m" and "\<And>x. x \<in> set xs \<Longrightarrow> 0 \<le> g x"
  shows "sum_list (map (\<lambda>x. max (g x * s) m) xs) \<le> sum_list (map g xs) * s + of_nat (length xs) * m"
  using assms(3)
proof (induction xs)
  case (Cons x xs)
  have "0 \<le> g x * s" using Cons.prems assms(1) by simp
  then have "max (g x * s) m \<le> g x * s + m" using assms(2) by simp
  note add_mono [OF this]
  moreover have "sum_list (map (\<lambda>x. max (g x * s) m) xs) \<le> sum_list (map g xs) * s + of_nat (length xs) * m"
    using Cons by simp
  ultimately have "max (g x * s) m + sum_list (map (\<lambda>x. max (g x * s) m) xs)
      \<le> g x * s + m + (sum_list (map g xs) * s + of_nat (length xs) * m)" by blast
  then show ?case by (simp add: algebra_simps)
qed simp

lemma throttled_rates:
  assumes "checkAndThrottle w \<noteq> []" and "\<And>x. x \<in> set (active_queues w) \<Longrightarrow> 0 \<le> aq_RPS (snd x)"
  shows "sum_list (map snd (checkAndThrottle w))
      \<le> budgetCeiling (uw_target w) + of_nat (length (active_queues w)) * MinRPS"
proof -
  let ?c = "budgetCeiling (uw_target w)" and ?t = "aggregateRPS w"
  have c: "0 < ?c" "?c < ?t" and e: "checkAndThrottle w = map (\<lambda>(k, q). (k, max (aq_RPS q * (?c / ?t)) MinRPS)) (active_queues w)"
    using assms(1) by (auto simp: checkAndThrottle_def Let_def split: if_splits)
  have "sum_list (map (\<lambda>x. max (aq_RPS (snd x) * (?c / ?t)) MinRPS) (active_queues w))
      \<le> sum_list (map (\<lambda>x. aq_RPS (snd x)) (active_queues w)) * (?c / ?t) + of_nat (length (active_queues w)) * MinRPS"
    using c assms(2) by (intro sum_max_le) (auto simp: MinRPS_def)
  also have "sum_list (map (\<lambda>x. aq_RPS (snd x)) (active_queues w)) = ?t" by (simp add: aggregateRPS_def case_prod_unfold)
  also have "?t * (?c / ?t) = ?c" using c by simp
  finally show ?thesis by (simp add: e case_prod_unfold comp_def)
qed

text \<open>A budget that goes from unlimited to a value below the backlog held sets no floor.\<close>

lemma unlimited_then_limited:
  assumes "uw_maxBacklog w = 0" and "0 < v" and "v < tg_backlog (uw_target w)"
  shows "uw_shrinkFloor (setMaxBacklog v (w\<lparr> uw_shrinkFloor := 0 \<rparr>)) = 0"
  using assms by (simp add: setMaxBacklog_def Let_def)

section \<open>Properties\<close>


definition sample_submit :: "string \<Rightarrow> Job" where
  "sample_submit user =
     \<lparr> j_ID = user, j_UserID = user, j_IdempotentKey = '''', j_URL = ''u'', j_PoolID = '''', j_Method = ''GET'',
       j_Headers = [], j_Body = '''', j_WebhookURL = '''', j_Kind = '''', j_Status = StatusQueued, j_CreatedAt = 0,
       j_ExecuteBefore = 0, j_IdempotencyScope = '''', j_MaxRetries = 0, j_Attempts = 0, j_WebhookMaxRetries = None,
       j_DedupHash = '''', j_OriginMachineID = '''', j_OriginRegion = '''', j_VisitedRegions = [], j_RerouteCount = 0 \<rparr>"

definition sample_worker_events :: "worker_event list" where
  "sample_worker_events = [WSubmit (sample_submit ''a'') 0 True, WSubmit (sample_submit ''b'') 0 True, WMaxBacklog 1,
     WSubmit (sample_submit ''a'') 0 True]"

definition sample_worker :: URLWorker where
  "sample_worker = fold (worker_step (\<lambda>_. '''') id) sample_worker_events
     (setAccountQueuePolicy True None (NewURLWorker (\<lambda>_. '''') ''d'' 2 1 None))"

lemma sample_worker_state:
  "tg_backlog (uw_target sample_worker) = 2" "uw_maxBacklog sample_worker = 1" "uw_shrinkFloor sample_worker = 2"
  by code_simp+


end
