(* ===== verification/WS_Scheduler.thy ===== *)
theory WS_Scheduler
  imports Support
begin

text \<open>
  The WebSocket connection scheduler (\<^verbatim>\<open>internal/websocket/queue.go\<close>): the
  client limit, the FIFO queue of upstream connection attempts, the paced grant
  loop, the slow-start ramp and the capacity a backend advertises.

  A waiter is a heap object shared by the scheduler and the session that waits on
  it, so the model keeps an explicit heap: \<open>cells\<close> is the list of waiters ever
  allocated and a pointer is an index of it.  The \<open>ready\<close> channel is a flag (closed
  or not), the one-slot \<open>positions\<close> channel an option, \<open>wake\<close> the one-slot wake
  channel, \<open>stop\<close> the closed stop channel.  Times are nanoseconds and the clock
  readings and the jitter draws are arguments.
\<close>

section \<open>Data\<close>

datatype scheduler_error =
    ErrWebSocketClientLimit
  | ErrWebSocketWaitingLimit
  | ErrWebSocketSchedulerClosed

record SchedulerConfig =
  MaxClients :: int
  MaxUpstreams :: int
  MaxWaiting :: int
  ConnectRPS :: f64
  SlowStartRPS :: f64

record websocketWaiter =
  ready :: bool
  positions :: "int option"
  wposition :: int
  granted :: bool
  canceled :: bool
  werr :: "scheduler_error option"

record scheduler =
  maxClients :: int
  maxUpstreams :: int
  maxWaiting :: int
  configuredRPS :: f64
  slowStartRPS :: f64
  rampRPS :: f64
  advertisedMax :: int
  advertisedRPS :: f64
  clients :: int
  activeUpstreams :: int
  waiters :: "nat list"
  nextGrant :: ns
  wake :: bool
  stop :: bool
  cells :: "websocketWaiter list"

record SchedulerSnapshot =
  snap_Clients :: int
  snap_ActiveUpstreams :: int
  snap_Waiting :: int
  snap_MaxClients :: int
  snap_MaxUpstreams :: int
  snap_EffectiveMax :: int
  snap_ConnectRPS :: f64
  snap_SlowStartRPS :: f64
  snap_CurrentRampRPS :: f64
  snap_EffectiveConnectRPS :: f64

section \<open>Operations\<close>

text \<open>The zero \<^verbatim>\<open>time.Time\<close>, 1 January of year 1, in nanoseconds of the Unix epoch.\<close>

definition zero_time :: ns where
  "zero_time = - 62135596800 * second"

text \<open>\<^verbatim>\<open>time.Until\<close> saturates at the ends of \<^verbatim>\<open>time.Duration\<close>.\<close>

definition time_until :: "ns \<Rightarrow> ns \<Rightarrow> ns" where
  "time_until t now = clamp (t - now) int64_min int64_max"

definition NewScheduler :: "SchedulerConfig \<Rightarrow> scheduler" where
  "NewScheduler cfg =
     (let mc = (if MaxClients cfg \<le> 0 then 1000 else MaxClients cfg);
          mu = (if MaxUpstreams cfg \<le> 0 then 1000 else MaxUpstreams cfg);
          mw = (if MaxWaiting cfg \<le> 0 then 1000 else MaxWaiting cfg);
          rps = (if ConnectRPS cfg \<le> 0 then 20 else ConnectRPS cfg);
          slow = (if SlowStartRPS cfg \<le> 0 then 1 else SlowStartRPS cfg);
          slow' = (if slow > rps then rps else slow)
      in \<lparr> maxClients = mc, maxUpstreams = mu, maxWaiting = mw, configuredRPS = rps,
           slowStartRPS = slow', rampRPS = slow', advertisedMax = 0, advertisedRPS = 0,
           clients = 0, activeUpstreams = 0, waiters = [], nextGrant = zero_time,
           wake = False, stop = False, cells = [] \<rparr>)"

definition notify :: "scheduler \<Rightarrow> scheduler" where
  "notify s = s\<lparr> wake := True \<rparr>"

definition AcquireClient :: "scheduler \<Rightarrow> scheduler \<times> (scheduler_error + unit)" where
  "AcquireClient s =
     (if stop s then (s, Inl ErrWebSocketSchedulerClosed)
      else if clients s \<ge> maxClients s then (s, Inl ErrWebSocketClientLimit)
      else (s\<lparr> clients := clients s + 1 \<rparr>, Inr ()))"

definition ReleaseClient :: "scheduler \<Rightarrow> scheduler" where
  "ReleaseClient s = (if clients s > 0 then s\<lparr> clients := clients s - 1 \<rparr> else s)"

text \<open>
  \<open>EnqueueUpstream\<close> returns the admission: the pointer of the new waiter and its
  starting position.
\<close>

definition EnqueueUpstream :: "scheduler \<Rightarrow> scheduler \<times> (scheduler_error + nat \<times> int)" where
  "EnqueueUpstream s =
     (if stop s then (s, Inl ErrWebSocketSchedulerClosed)
      else if int (length (waiters s)) \<ge> maxWaiting s then (s, Inl ErrWebSocketWaitingLimit)
      else
        let position = int (length (waiters s)) + 1;
            p = length (cells s);
            waiter = \<lparr> ready = False, positions = None, wposition = position,
                       granted = False, canceled = False, werr = None \<rparr>
        in (notify (s\<lparr> cells := cells s @ [waiter], waiters := waiters s @ [p] \<rparr>),
            Inr (p, position)))"

fun publish_from :: "int \<Rightarrow> nat list \<Rightarrow> websocketWaiter list \<Rightarrow> websocketWaiter list" where
  "publish_from position [] h = h"
| "publish_from position (w # ws) h =
     publish_from (position + 1) ws
       (if wposition (h ! w) = position then h
        else h[w := (h ! w)\<lparr> wposition := position, positions := Some position \<rparr>])"

definition publishPositionsLocked :: "scheduler \<Rightarrow> scheduler" where
  "publishPositionsLocked s = s\<lparr> cells := publish_from 1 (waiters s) (cells s) \<rparr>"

definition removeWaiterLocked :: "nat \<Rightarrow> scheduler \<Rightarrow> scheduler" where
  "removeWaiterLocked p s = s\<lparr> waiters := remove1 p (waiters s) \<rparr>"

definition set_cell :: "nat \<Rightarrow> (websocketWaiter \<Rightarrow> websocketWaiter) \<Rightarrow> scheduler \<Rightarrow> scheduler" where
  "set_cell p f s = s\<lparr> cells := (cells s)[p := f (cells s ! p)] \<rparr>"

text \<open>
  The three arms of the \<^verbatim>\<open>select\<close> in \<open>Admission.Wait\<close>.  \<open>Wait_position\<close> returns the
  position to report, if any, and the last position the caller has reported.
\<close>

definition Wait_ready :: "nat \<Rightarrow> scheduler \<Rightarrow> scheduler_error + unit" where
  "Wait_ready p s = (case werr (cells s ! p) of Some e \<Rightarrow> Inl e | None \<Rightarrow> Inr ())"

definition Wait_position :: "nat \<Rightarrow> int \<Rightarrow> scheduler \<Rightarrow> scheduler \<times> int option \<times> int" where
  "Wait_position p lastPosition s =
     (case positions (cells s ! p) of
        None \<Rightarrow> (s, None, lastPosition)
      | Some position \<Rightarrow>
          (set_cell p (\<lambda>c. c\<lparr> positions := None \<rparr>) s,
           (if position = lastPosition then None else Some position), position))"

definition Wait_done :: "nat \<Rightarrow> scheduler \<Rightarrow> scheduler" where
  "Wait_done p s =
     (if granted (cells s ! p)
      then notify (set_cell p (\<lambda>c. c\<lparr> granted := False \<rparr>)
             (s\<lparr> activeUpstreams := activeUpstreams s - 1 \<rparr>))
      else notify (publishPositionsLocked
             (removeWaiterLocked p (set_cell p (\<lambda>c. c\<lparr> canceled := True \<rparr>) s))))"

definition Cancel :: "nat \<Rightarrow> scheduler \<Rightarrow> scheduler" where
  "Cancel p s =
     notify
      (if granted (cells s ! p)
       then set_cell p (\<lambda>c. c\<lparr> granted := False \<rparr>)
              (s\<lparr> activeUpstreams := activeUpstreams s - 1 \<rparr>)
       else if \<not> canceled (cells s ! p)
       then publishPositionsLocked
              (removeWaiterLocked p (set_cell p (\<lambda>c. c\<lparr> canceled := True \<rparr>) s))
       else s)"

text \<open>The body of the closure \<open>releaseFunc\<close> returns; its \<^verbatim>\<open>sync.Once\<close> is the caller's phase below.\<close>

definition release_slot :: "scheduler \<Rightarrow> scheduler" where
  "release_slot s =
     notify (if activeUpstreams s > 0 then s\<lparr> activeUpstreams := activeUpstreams s - 1 \<rparr> else s)"

definition effectiveMaxLocked :: "scheduler \<Rightarrow> int" where
  "effectiveMaxLocked s =
     (if advertisedMax s > 0 \<and> advertisedMax s < maxUpstreams s then advertisedMax s
      else maxUpstreams s)"

definition effectiveRPSLocked :: "scheduler \<Rightarrow> f64" where
  "effectiveRPSLocked s =
     (let e1 = configuredRPS s;
          e2 = (if rampRPS s > 0 \<and> rampRPS s < e1 then rampRPS s else e1)
      in if advertisedRPS s > 0 \<and> advertisedRPS s < e2 then advertisedRPS s else e2)"

definition grant_interval :: "scheduler \<Rightarrow> ns" where
  "grant_interval s = f64_to_int (of_int second / effectiveRPSLocked s)"

definition ReportSuccess :: "scheduler \<Rightarrow> scheduler" where
  "ReportSuccess s =
     (let ramp = rampRPS s * 2
      in notify (s\<lparr> rampRPS := (if ramp > configuredRPS s then configuredRPS s else ramp) \<rparr>))"

definition ReportFailure :: "ns \<Rightarrow> int \<Rightarrow> scheduler \<Rightarrow> scheduler" where
  "ReportFailure now draw s =
     (let s1 = s\<lparr> rampRPS := slowStartRPS s \<rparr>
      in notify
           (if waiters s1 \<noteq> []
            then let earliest = now + Jitter draw (grant_interval s1)
                 in if nextGrant s1 < earliest then s1\<lparr> nextGrant := earliest \<rparr> else s1
            else s1))"

definition UpdateCapacity :: "int option \<Rightarrow> f64 option \<Rightarrow> scheduler \<Rightarrow> scheduler" where
  "UpdateCapacity maxConnections connectRPS s =
     (let s1 = (case maxConnections of
                  Some n \<Rightarrow> if n > 0 then s\<lparr> advertisedMax := n \<rparr> else s
                | None \<Rightarrow> s)
      in notify (case connectRPS of
                   Some r \<Rightarrow> if r > 0 then s1\<lparr> advertisedRPS := r \<rparr> else s1
                 | None \<Rightarrow> s1))"

definition Snapshot :: "scheduler \<Rightarrow> SchedulerSnapshot" where
  "Snapshot s =
     \<lparr> snap_Clients = clients s, snap_ActiveUpstreams = activeUpstreams s,
       snap_Waiting = int (length (waiters s)), snap_MaxClients = maxClients s,
       snap_MaxUpstreams = maxUpstreams s, snap_EffectiveMax = effectiveMaxLocked s,
       snap_ConnectRPS = configuredRPS s, snap_SlowStartRPS = slowStartRPS s,
       snap_CurrentRampRPS = rampRPS s, snap_EffectiveConnectRPS = effectiveRPSLocked s \<rparr>"

text \<open>
  \<open>grantReady\<close>: the clock is read once for \<^verbatim>\<open>time.Until\<close> and again, later, for the
  next grant time.  The result is the delay, whether there is work, and the state.
\<close>

fun drop_canceled :: "nat list \<Rightarrow> scheduler \<Rightarrow> scheduler" where
  "drop_canceled [] s = s\<lparr> waiters := [] \<rparr>"
| "drop_canceled (w # ws) s =
     (if canceled (cells s ! w)
      then drop_canceled ws (publishPositionsLocked (s\<lparr> waiters := ws \<rparr>))
      else s\<lparr> waiters := w # ws \<rparr>)"

definition grant_first :: "ns \<Rightarrow> int \<Rightarrow> scheduler \<Rightarrow> scheduler" where
  "grant_first now draw s =
     (let p = hd (waiters s);
          s1 = publishPositionsLocked (s\<lparr> waiters := tl (waiters s) \<rparr>);
          s2 = set_cell p (\<lambda>c. c\<lparr> granted := True \<rparr>) s1;
          s3 = s2\<lparr> activeUpstreams := activeUpstreams s2 + 1 \<rparr>;
          s4 = s3\<lparr> nextGrant := now + Jitter draw (grant_interval s3) \<rparr>
      in set_cell p (\<lambda>c. c\<lparr> ready := True \<rparr>) s4)"

definition grantReady :: "ns \<Rightarrow> ns \<Rightarrow> int \<Rightarrow> scheduler \<Rightarrow> ns \<times> bool \<times> scheduler" where
  "grantReady now now' draw s0 =
     (let s = drop_canceled (waiters s0) s0 in
      if waiters s = [] \<or> activeUpstreams s \<ge> effectiveMaxLocked s then (0, False, s)
      else let delay = time_until (nextGrant s) now in
        if delay > 0 then (delay, True, s)
        else let s' = grant_first now' draw s in (0, waiters s' \<noteq> [], s'))"

fun fail_cells :: "nat list \<Rightarrow> websocketWaiter list \<Rightarrow> websocketWaiter list" where
  "fail_cells [] h = h"
| "fail_cells (w # ws) h =
     fail_cells ws (h[w := (h ! w)\<lparr> werr := Some ErrWebSocketSchedulerClosed, ready := True \<rparr>])"

definition failWaiters :: "scheduler \<Rightarrow> scheduler" where
  "failWaiters s = s\<lparr> cells := fail_cells (waiters s) (cells s), waiters := [] \<rparr>"

section \<open>Sessions and the grant loop together\<close>

text \<open>
  A session that called \<open>EnqueueUpstream\<close> is in \<open>Admission.Wait\<close> (\<open>Waiting\<close>), holds the
  release closure \<open>Wait\<close> returned (\<open>Holding\<close>), or is through (\<open>Finished\<close>, which is
  also what the \<^verbatim>\<open>sync.Once\<close> of the closure remembers).  \<open>shown\<close> is \<open>lastPosition\<close>
  of each \<open>Wait\<close>.  The goroutine \<open>run\<close> is at the top of its loop, blocked on the
  wake channel, waiting on a timer, or has returned.
\<close>

datatype wait_phase = Waiting | Holding | Finished

datatype loop_pc = Loop_Top | Loop_Blocked | Loop_Timer ns | Loop_Returned

record world =
  sched :: scheduler
  phases :: "wait_phase list"
  shown :: "int list"
  pc :: loop_pc
  clock :: ns

definition world0 :: "SchedulerConfig \<Rightarrow> ns \<Rightarrow> world" where
  "world0 cfg now =
     \<lparr> sched = NewScheduler cfg, phases = [], shown = [], pc = Loop_Top, clock = now \<rparr>"

definition is_waiting :: "world \<Rightarrow> nat \<Rightarrow> bool" where
  "is_waiting w p \<longleftrightarrow> p < length (phases w) \<and> phases w ! p = Waiting"

inductive session_step :: "world \<Rightarrow> world \<Rightarrow> bool" where
  acquire: "session_step w (w\<lparr> sched := fst (AcquireClient (sched w)) \<rparr>)"
| release_client: "session_step w (w\<lparr> sched := ReleaseClient (sched w) \<rparr>)"
| enqueue: "EnqueueUpstream (sched w) = (s, Inr (p, position)) \<Longrightarrow>
    session_step w (w\<lparr> sched := s, phases := phases w @ [Waiting], shown := shown w @ [position] \<rparr>)"
| report_position: "is_waiting w p \<Longrightarrow> Wait_position p (shown w ! p) (sched w) = (s, r, x) \<Longrightarrow>
    session_step w (w\<lparr> sched := s, shown := (shown w)[p := x] \<rparr>)"
| wait_granted: "is_waiting w p \<Longrightarrow> ready (cells (sched w) ! p) \<Longrightarrow> Wait_ready p (sched w) = Inr () \<Longrightarrow>
    session_step w (w\<lparr> phases := (phases w)[p := Holding] \<rparr>)"
| wait_failed: "is_waiting w p \<Longrightarrow> ready (cells (sched w) ! p) \<Longrightarrow> Wait_ready p (sched w) = Inl e \<Longrightarrow>
    session_step w (w\<lparr> phases := (phases w)[p := Finished] \<rparr>)"
| wait_done: "is_waiting w p \<Longrightarrow>
    session_step w (w\<lparr> sched := Wait_done p (sched w), phases := (phases w)[p := Finished] \<rparr>)"
| cancel: "is_waiting w p \<Longrightarrow>
    session_step w (w\<lparr> sched := Cancel p (sched w), phases := (phases w)[p := Finished] \<rparr>)"
| release: "p < length (phases w) \<Longrightarrow> phases w ! p = Holding \<Longrightarrow>
    session_step w (w\<lparr> sched := release_slot (sched w), phases := (phases w)[p := Finished] \<rparr>)"
| report_success: "session_step w (w\<lparr> sched := ReportSuccess (sched w) \<rparr>)"
| report_failure: "session_step w (w\<lparr> sched := ReportFailure (clock w) draw (sched w) \<rparr>)"
| capacity: "session_step w (w\<lparr> sched := UpdateCapacity n r (sched w) \<rparr>)"
| close_scheduler: "session_step w (w\<lparr> sched := notify ((sched w)\<lparr> stop := True \<rparr>) \<rparr>)"
| tick: "clock w \<le> now \<Longrightarrow> session_step w (w\<lparr> clock := now \<rparr>)"

inductive loop_step :: "world \<Rightarrow> world \<Rightarrow> bool" where
  top_block: "pc w = Loop_Top \<Longrightarrow> clock w \<le> now \<Longrightarrow>
    grantReady (clock w) now draw (sched w) = (delay, False, s) \<Longrightarrow>
    loop_step w (w\<lparr> sched := s, pc := Loop_Blocked, clock := now \<rparr>)"
| top_again: "pc w = Loop_Top \<Longrightarrow> clock w \<le> now \<Longrightarrow>
    grantReady (clock w) now draw (sched w) = (delay, True, s) \<Longrightarrow> delay \<le> 0 \<Longrightarrow>
    loop_step w (w\<lparr> sched := s, pc := Loop_Top, clock := now \<rparr>)"
| top_timer: "pc w = Loop_Top \<Longrightarrow> clock w \<le> now \<Longrightarrow>
    grantReady (clock w) now draw (sched w) = (delay, True, s) \<Longrightarrow> 0 < delay \<Longrightarrow>
    loop_step w (w\<lparr> sched := s, pc := Loop_Timer (clock w + delay), clock := now \<rparr>)"
| wake_blocked: "pc w = Loop_Blocked \<Longrightarrow> wake (sched w) \<Longrightarrow>
    loop_step w (w\<lparr> sched := (sched w)\<lparr> wake := False \<rparr>, pc := Loop_Top \<rparr>)"
| wake_timer: "pc w = Loop_Timer t \<Longrightarrow> wake (sched w) \<Longrightarrow>
    loop_step w (w\<lparr> sched := (sched w)\<lparr> wake := False \<rparr>, pc := Loop_Top \<rparr>)"
| timer_fires: "pc w = Loop_Timer t \<Longrightarrow> t \<le> now \<Longrightarrow> clock w \<le> now \<Longrightarrow>
    loop_step w (w\<lparr> pc := Loop_Top, clock := now \<rparr>)"

definition loop_parked :: "loop_pc \<Rightarrow> bool" where
  "loop_parked c = (case c of Loop_Blocked \<Rightarrow> True | Loop_Timer t \<Rightarrow> True | _ \<Rightarrow> False)"

inductive stop_step :: "world \<Rightarrow> world \<Rightarrow> bool" where
  stop_loop: "loop_parked (pc w) \<Longrightarrow> stop (sched w) \<Longrightarrow>
    stop_step w (w\<lparr> sched := failWaiters (sched w), pc := Loop_Returned \<rparr>)"

definition ws_step :: "world \<Rightarrow> world \<Rightarrow> bool" where
  "ws_step w w' \<longleftrightarrow> session_step w w' \<or> loop_step w w' \<or> stop_step w w'"

inductive_cases session_stepE: "session_step w w'"
inductive_cases loop_stepE: "loop_step w w'"
inductive_cases stop_stepE: "stop_step w w'"

section \<open>The invariant\<close>

text \<open>The position the session shows after it reads what its channel holds.\<close>

definition next_shown :: "websocketWaiter \<Rightarrow> int \<Rightarrow> int" where
  "next_shown c x = (case positions c of Some q \<Rightarrow> q | None \<Rightarrow> x)"

definition slot_holders :: "wait_phase list \<Rightarrow> websocketWaiter list \<Rightarrow> nat set" where
  "slot_holders ph cs = {p. p < length cs \<and> ph ! p \<noteq> Finished \<and> granted (cs ! p)}"

definition cell_ok :: "wait_phase \<Rightarrow> websocketWaiter \<Rightarrow> bool" where
  "cell_ok f c \<longleftrightarrow>
     (f \<noteq> Finished \<longrightarrow> \<not> canceled c \<and> (granted c \<longleftrightarrow> ready c \<and> werr c = None))
     \<and> (f = Holding \<longrightarrow> granted c) \<and> (\<not> ready c \<longrightarrow> werr c = None)"

definition queue_ok :: "wait_phase list \<Rightarrow> int list \<Rightarrow> websocketWaiter list \<Rightarrow> nat list \<Rightarrow> bool" where
  "queue_ok ph sh cs ws \<longleftrightarrow>
     length ph = length cs \<and> length sh = length cs \<and> sorted_wrt (<) ws
     \<and> set ws = {p. p < length cs \<and> ph ! p = Waiting \<and> \<not> ready (cs ! p)}
     \<and> (\<forall>p < length cs. cell_ok (ph ! p) (cs ! p))
     \<and> (\<forall>p \<in> set ws. next_shown (cs ! p) (sh ! p) = wposition (cs ! p))"

definition positions_ok :: "websocketWaiter list \<Rightarrow> nat list \<Rightarrow> bool" where
  "positions_ok cs ws \<longleftrightarrow> (\<forall>k < length ws. wposition (cs ! (ws ! k)) = int k + 1)"

definition slots_ok :: "wait_phase list \<Rightarrow> websocketWaiter list \<Rightarrow> int \<Rightarrow> bool" where
  "slots_ok ph cs a \<longleftrightarrow> a = int (card (slot_holders ph cs))"

definition rates_ok :: "scheduler \<Rightarrow> bool" where
  "rates_ok s \<longleftrightarrow> 0 < slowStartRPS s \<and> slowStartRPS s \<le> rampRPS s \<and> rampRPS s \<le> configuredRPS s
     \<and> 0 \<le> advertisedRPS s \<and> 0 \<le> advertisedMax s"

definition limits_ok :: "scheduler \<Rightarrow> bool" where
  "limits_ok s \<longleftrightarrow> 0 < maxUpstreams s \<and> 0 \<le> clients s \<and> clients s \<le> maxClients s
     \<and> activeUpstreams s \<le> maxUpstreams s \<and> int (length (waiters s)) \<le> maxWaiting s"

text \<open>No wakeup is lost: a blocked loop has nothing it could grant, or a wake is pending.\<close>

definition loop_ok :: "scheduler \<Rightarrow> loop_pc \<Rightarrow> ns \<Rightarrow> bool" where
  "loop_ok s c now \<longleftrightarrow>
     (c = Loop_Blocked \<longrightarrow> wake s \<or> waiters s = [] \<or> effectiveMaxLocked s \<le> activeUpstreams s)
     \<and> (\<forall>t. c = Loop_Timer t \<longrightarrow> t \<le> nextGrant s)
     \<and> (c = Loop_Returned \<longrightarrow> stop s \<and> waiters s = [])
     \<and> nextGrant s \<le> now + int64_max"

definition world_ok :: "world \<Rightarrow> bool" where
  "world_ok w \<longleftrightarrow>
     queue_ok (phases w) (shown w) (cells (sched w)) (waiters (sched w))
     \<and> positions_ok (cells (sched w)) (waiters (sched w))
     \<and> slots_ok (phases w) (cells (sched w)) (activeUpstreams (sched w))
     \<and> rates_ok (sched w) \<and> limits_ok (sched w) \<and> loop_ok (sched w) (pc w) (clock w)"

section \<open>Publishing positions\<close>

lemma length_publish_from [simp]: "length (publish_from i ws h) = length h"
  by (induction i ws h rule: publish_from.induct) auto

lemma publish_from_flags [simp]:
  "ready (publish_from i ws h ! p) = ready (h ! p)"
  "granted (publish_from i ws h ! p) = granted (h ! p)"
  "canceled (publish_from i ws h ! p) = canceled (h ! p)"
  "werr (publish_from i ws h ! p) = werr (h ! p)"
  by (induction i ws h rule: publish_from.induct) (auto simp: nth_list_update')

lemma publish_from_other [simp]: "p \<notin> set ws \<Longrightarrow> publish_from i ws h ! p = h ! p"
  by (induction i ws h rule: publish_from.induct) auto

lemma publish_from_shown:
  "next_shown (h ! p) x = wposition (h ! p) \<Longrightarrow>
   next_shown (publish_from i ws h ! p) x = wposition (publish_from i ws h ! p)"
  by (induction i ws h rule: publish_from.induct) (auto simp: nth_list_update' next_shown_def)

lemma publish_from_position:
  "distinct ws \<Longrightarrow> (\<forall>w \<in> set ws. w < length h) \<Longrightarrow> k < length ws \<Longrightarrow>
   wposition (publish_from i ws h ! (ws ! k)) = i + int k"
  by (induction i ws h arbitrary: k rule: publish_from.induct) (auto simp: nth_Cons split: nat.splits)

lemma publish_positions_ok:
  assumes "distinct ws" and "\<forall>w \<in> set ws. w < length cs"
  shows "positions_ok (publish_from 1 ws cs) ws"
  using publish_from_position [OF assms] by (simp add: positions_ok_def)

lemma cell_ok_publish [simp]: "cell_ok f (publish_from i ws h ! p) = cell_ok f (h ! p)"
  by (simp add: cell_ok_def)

lemma sorted_wrt_less_distinct: "sorted_wrt (<) (ws :: nat list) \<Longrightarrow> distinct ws"
  by (induction ws) auto

section \<open>What each kind of step does to the queue\<close>

lemma queue_okD:
  assumes "queue_ok ph sh cs ws"
  shows "length ph = length cs" "length sh = length cs" "sorted_wrt (<) ws" "distinct ws"
    "\<And>p. p \<in> set ws \<longleftrightarrow> p < length cs \<and> ph ! p = Waiting \<and> \<not> ready (cs ! p)"
    "\<And>p. p < length cs \<Longrightarrow> cell_ok (ph ! p) (cs ! p)"
    "\<And>p. p \<in> set ws \<Longrightarrow> next_shown (cs ! p) (sh ! p) = wposition (cs ! p)"
  using assms by (auto simp: queue_ok_def sorted_wrt_less_distinct)

lemma queue_enqueue:
  assumes q: "queue_ok ph sh cs ws" and pos: "positions_ok cs ws"
    and c: "c = \<lparr> ready = False, positions = None, wposition = int (length ws) + 1,
                  granted = False, canceled = False, werr = None \<rparr>"
  shows "queue_ok (ph @ [Waiting]) (sh @ [int (length ws) + 1]) (cs @ [c]) (ws @ [length cs])"
    and "positions_ok (cs @ [c]) (ws @ [length cs])"
    and "slot_holders (ph @ [Waiting]) (cs @ [c]) = slot_holders ph cs"
proof -
  note D = queue_okD [OF q]
  have lt: "p < length cs" if "p \<in> set ws" for p using D(5) that by simp
  have new: "cell_ok Waiting c" "\<not> ready c" "next_shown c x = x" "wposition c = int (length ws) + 1" for x
    by (simp_all add: c cell_ok_def next_shown_def)
  show "queue_ok (ph @ [Waiting]) (sh @ [int (length ws) + 1]) (cs @ [c]) (ws @ [length cs])"
    using D lt new unfolding queue_ok_def
    by (auto simp: sorted_wrt_append nth_append less_Suc_eq)
  show "positions_ok (cs @ [c]) (ws @ [length cs])"
    using pos lt by (auto simp: positions_ok_def nth_append c less_Suc_eq)
  show "slot_holders (ph @ [Waiting]) (cs @ [c]) = slot_holders ph cs"
    using D(1) by (auto simp: slot_holders_def nth_append c less_Suc_eq)
qed

lemma sorted_remove1: "sorted_wrt (<) (ws :: nat list) \<Longrightarrow> sorted_wrt (<) (remove1 p ws)"
  by (induction ws) (auto dest: in_set_remove1 notin_set_remove1 set_remove1_subset [THEN subsetD])

lemma queue_leave:
  assumes q: "queue_ok ph sh cs ws" and p: "p < length cs" "ph ! p = Waiting" "\<not> granted (cs ! p)"
    and cs': "cs' = publish_from 1 (remove1 p ws) (cs[p := (cs ! p)\<lparr> canceled := True \<rparr>])"
  shows "queue_ok (ph[p := Finished]) sh cs' (remove1 p ws)"
    and "positions_ok cs' (remove1 p ws)"
    and "slot_holders (ph[p := Finished]) cs' = slot_holders ph cs"
proof -
  note D = queue_okD [OF q]
  let ?ws = "remove1 p ws" and ?cs = "cs[p := (cs ! p)\<lparr> canceled := True \<rparr>]"
  have set: "x \<in> set ?ws \<longleftrightarrow> x \<noteq> p \<and> x < length cs \<and> ph ! x = Waiting \<and> \<not> ready (cs ! x)" for x
    using D(4,5) by auto
  have flags: "ready (cs' ! x) = ready (cs ! x)" "granted (cs' ! x) = granted (cs ! x)"
      "x \<noteq> p \<Longrightarrow> cell_ok f (cs' ! x) = cell_ok f (cs ! x)" for x f
    by (auto simp: cs' nth_list_update')
  have fin: "cell_ok Finished (cs' ! p)"
    using D(6) [OF p(1)] p by (simp add: cs' cell_ok_def)
  have sh: "next_shown (cs' ! x) (sh ! x) = wposition (cs' ! x)" if "x \<in> set ?ws" for x
    unfolding cs' using that set D(5,7) by (intro publish_from_shown) auto
  show "queue_ok (ph[p := Finished]) sh cs' ?ws"
    unfolding queue_ok_def
    using D(1,2,3,6) p sh set fin flags by (auto simp: cs' sorted_remove1 nth_list_update')
  show "positions_ok cs' ?ws"
    unfolding cs' using D(4) set by (intro publish_positions_ok) auto
  show "slot_holders (ph[p := Finished]) cs' = slot_holders ph cs"
    using p D(1) flags by (auto simp: slot_holders_def nth_list_update' cs')
qed

lemma queue_give_back:
  assumes q: "queue_ok ph sh cs ws" and pos: "positions_ok cs ws"
    and p: "p < length cs" "ph ! p = Waiting" "granted (cs ! p)"
    and cs': "cs' = cs[p := (cs ! p)\<lparr> granted := False \<rparr>]"
  shows "queue_ok (ph[p := Finished]) sh cs' ws" and "positions_ok cs' ws"
    and "slot_holders (ph[p := Finished]) cs' = slot_holders ph cs - {p}"
    and "p \<in> slot_holders ph cs"
proof -
  note D = queue_okD [OF q]
  have r: "ready (cs ! p)" using D(6) [OF p(1)] p by (simp add: cell_ok_def)
  then have np: "p \<notin> set ws" using D(5) by simp
  have fin: "cell_ok Finished (cs' ! p)" using r p by (simp add: cs' cell_ok_def)
  show "queue_ok (ph[p := Finished]) sh cs' ws"
    unfolding queue_ok_def using D np p r fin by (auto simp: cs' nth_list_update')
  have "ws ! k \<noteq> p" if "k < length ws" for k using np that nth_mem by blast
  then show "positions_ok cs' ws" using pos by (auto simp: positions_ok_def cs' nth_list_update')
  show "slot_holders (ph[p := Finished]) cs' = slot_holders ph cs - {p}"
    using p D(1) by (auto simp: slot_holders_def nth_list_update' cs' split: if_splits)
  show "p \<in> slot_holders ph cs" using p by (simp add: slot_holders_def)
qed

lemma queue_phase:
  assumes q: "queue_ok ph sh cs ws" and p: "p < length cs" "ready (cs ! p)"
    and f: "cell_ok f (cs ! p)" "f \<noteq> Waiting"
  shows "queue_ok (ph[p := f]) sh cs ws"
  unfolding queue_ok_def using queue_okD [OF q] p f by (auto simp: nth_list_update')

lemma queue_read_position:
  assumes q: "queue_ok ph sh cs ws" and pos: "positions_ok cs ws"
    and p: "p < length cs" "positions (cs ! p) = Some x"
    and cs': "cs' = cs[p := (cs ! p)\<lparr> positions := None \<rparr>]"
  shows "queue_ok ph (sh[p := x]) cs' ws" and "positions_ok cs' ws"
    and "slot_holders ph cs' = slot_holders ph cs"
proof -
  note D = queue_okD [OF q]
  have same: "cell_ok f (cs' ! i) = cell_ok f (cs ! i)" "ready (cs' ! i) = ready (cs ! i)"
      "i \<in> set ws \<Longrightarrow> next_shown (cs' ! i) (sh[p := x] ! i) = wposition (cs' ! i)" for f i
    using p D(2) D(7) [of i] by (auto simp: cs' nth_list_update' cell_ok_def next_shown_def)
  show "queue_ok ph (sh[p := x]) cs' ws"
    unfolding queue_ok_def using D same by (auto simp: cs')
  show "positions_ok cs' ws" using pos by (auto simp: positions_ok_def cs' nth_list_update')
  show "slot_holders ph cs' = slot_holders ph cs"
    by (auto simp: slot_holders_def cs' nth_list_update' split: if_splits)
qed

lemma queue_grant:
  assumes q: "queue_ok ph sh cs (p # ws)"
    and cs': "cs' = (publish_from 1 ws cs)[p := (publish_from 1 ws cs ! p)\<lparr> granted := True, ready := True \<rparr>]"
  shows "queue_ok ph sh cs' ws" and "positions_ok cs' ws"
    and "slot_holders ph cs' = insert p (slot_holders ph cs)"
    and "p \<notin> slot_holders ph cs"
proof -
  note D = queue_okD [OF q]
  have p: "p < length cs" "ph ! p = Waiting" "\<not> ready (cs ! p)" "p \<notin> set ws" "sorted_wrt (<) ws"
    using D(3,4) D(5) [of p] by auto
  have set: "x \<in> set ws \<longleftrightarrow> x \<noteq> p \<and> x < length cs \<and> ph ! x = Waiting \<and> \<not> ready (cs ! x)" for x
    using D(4) D(5) [of x] by auto
  have c: "cell_ok Waiting (cs' ! p)"
    using D(6) [OF p(1)] p by (simp add: cs' cell_ok_def)
  have sh: "next_shown (cs' ! x) (sh ! x) = wposition (cs' ! x)" if "x \<in> set ws" for x
    unfolding cs' using publish_from_shown [of cs x "sh ! x" 1 ws] D(7) [of x] that p(4)
    by (auto simp: nth_list_update')
  have others: "x \<noteq> p \<Longrightarrow> ready (cs' ! x) = ready (cs ! x) \<and> granted (cs' ! x) = granted (cs ! x)
      \<and> cell_ok f (cs' ! x) = cell_ok f (cs ! x)" for x f
    by (simp add: cs')
  have own: "ready (cs' ! p)" "granted (cs' ! p)" "length cs' = length cs"
    using p by (simp_all add: cs')
  show "queue_ok ph sh cs' ws"
    unfolding queue_ok_def using D(1,2,6) p set sh others own c
    by auto metis+
  have "positions_ok (publish_from 1 ws cs) ws"
    using D(4) set by (intro publish_positions_ok) auto
  moreover have "ws ! k \<noteq> p" if "k < length ws" for k using p(4) that nth_mem by blast
  ultimately show "positions_ok cs' ws" by (auto simp: positions_ok_def cs' nth_list_update')
  show "slot_holders ph cs' = insert p (slot_holders ph cs)"
    using others own p by (auto simp: slot_holders_def) metis
  show "p \<notin> slot_holders ph cs"
    using D(6) [OF p(1)] p by (simp add: slot_holders_def cell_ok_def)
qed

lemma fail_cells_nth:
  "distinct ws \<Longrightarrow> (\<forall>w \<in> set ws. w < length h) \<Longrightarrow>
   length (fail_cells ws h) = length h \<and>
   fail_cells ws h ! p =
     (if p \<in> set ws then (h ! p)\<lparr> werr := Some ErrWebSocketSchedulerClosed, ready := True \<rparr> else h ! p)"
  by (induction ws h rule: fail_cells.induct) (auto simp: nth_list_update')

lemma queue_fail:
  assumes q: "queue_ok ph sh cs ws"
  shows "queue_ok ph sh (fail_cells ws cs) []" and "slot_holders ph (fail_cells ws cs) = slot_holders ph cs"
proof -
  note D = queue_okD [OF q]
  have lt: "\<forall>w \<in> set ws. w < length cs" using D(5) by simp
  note F = fail_cells_nth [OF D(4) lt]
  have c: "cell_ok (ph ! p) (fail_cells ws cs ! p)" if "p < length cs" for p
    using D(6) [OF that] D(5) [of p] F [of p] by (auto simp: cell_ok_def)
  show "queue_ok ph sh (fail_cells ws cs) []"
    unfolding queue_ok_def using D(1,2) D(5) F c by auto
  show "slot_holders ph (fail_cells ws cs) = slot_holders ph cs"
    using F by (auto simp: slot_holders_def)
qed

section \<open>Every step keeps the invariant\<close>

lemmas scheduler_defs =
  notify_def set_cell_def publishPositionsLocked_def removeWaiterLocked_def

lemma finite_slot_holders [simp]: "finite (slot_holders ph cs)"
  by (simp add: slot_holders_def)

lemma slots_ok_remove:
  "slots_ok ph cs a \<Longrightarrow> p \<in> slot_holders ph cs \<Longrightarrow> slot_holders ph' cs' = slot_holders ph cs - {p} \<Longrightarrow>
   slots_ok ph' cs' (a - 1) \<and> 0 < a"
  unfolding slots_ok_def
  by (metis card_Diff_singleton card_gt_0_iff empty_iff finite_slot_holders of_nat_0_less_iff of_nat_diff
      Suc_leI One_nat_def of_nat_1)

lemma slots_ok_insert:
  "slots_ok ph cs a \<Longrightarrow> p \<notin> slot_holders ph cs \<Longrightarrow> slot_holders ph' cs' = insert p (slot_holders ph cs) \<Longrightarrow>
   slots_ok ph' cs' (a + 1)"
  by (simp add: slots_ok_def)

lemma Jitter_le_max: "Jitter draw d \<le> int64_max"
  using wrap64_range by (auto simp: Jitter_def Let_def int64_max_def)

lemma effectiveMax_le: "effectiveMaxLocked s \<le> maxUpstreams s"
  by (simp add: effectiveMaxLocked_def)

text \<open>A step that only touches the scalars of the scheduler.\<close>

lemma world_ok_scalars:
  assumes "world_ok w" and "cells s = cells (sched w)" "waiters s = waiters (sched w)"
    "activeUpstreams s = activeUpstreams (sched w)"
    and "rates_ok s" "limits_ok s" "loop_ok s (pc w) (clock w)"
  shows "world_ok (w\<lparr> sched := s \<rparr>)"
  using assms by (simp add: world_ok_def)

lemma world_ok_enqueue:
  assumes ok: "world_ok w" and e: "EnqueueUpstream (sched w) = (s, Inr (p, position))"
  shows "world_ok (w\<lparr> sched := s, phases := phases w @ [Waiting], shown := shown w @ [position] \<rparr>)"
proof -
  let ?s = "sched w"
  define c where "c = \<lparr> ready = False, positions = None, wposition = int (length (waiters ?s)) + 1,
                  granted = False, canceled = False, werr = None \<rparr>"
  have s: "s = notify (?s\<lparr> cells := cells ?s @ [c], waiters := waiters ?s @ [length (cells ?s)] \<rparr>)"
    and pos: "position = int (length (waiters ?s)) + 1"
    and guard: "\<not> stop ?s" "int (length (waiters ?s)) < maxWaiting ?s"
    using e by (auto simp: EnqueueUpstream_def Let_def c_def split: if_splits)
  from ok have q: "queue_ok (phases w) (shown w) (cells ?s) (waiters ?s)" "positions_ok (cells ?s) (waiters ?s)"
    by (simp_all add: world_ok_def)
  note Q = queue_enqueue [OF q c_def]
  show ?thesis
    using ok Q guard
    by (auto simp: world_ok_def s pos notify_def rates_ok_def limits_ok_def loop_ok_def slots_ok_def)
qed

lemma world_ok_leave:
  assumes ok: "world_ok w" and p: "is_waiting w p" and ng: "\<not> granted (cells (sched w) ! p)"
  shows "world_ok (w\<lparr> sched := notify (publishPositionsLocked
             (removeWaiterLocked p (set_cell p (\<lambda>c. c\<lparr> canceled := True \<rparr>) (sched w)))),
           phases := (phases w)[p := Finished] \<rparr>)"
proof -
  let ?s = "sched w"
  from ok have q: "queue_ok (phases w) (shown w) (cells ?s) (waiters ?s)" by (simp add: world_ok_def)
  have pl: "p < length (cells ?s)" "phases w ! p = Waiting"
    using p queue_okD(1) [OF q] by (simp_all add: is_waiting_def)
  note Q = queue_leave [OF q pl ng refl]
  have "length (remove1 p (waiters ?s)) \<le> length (waiters ?s)" by (simp add: length_remove1)
  then show ?thesis
    using ok Q
    by (auto simp: world_ok_def scheduler_defs rates_ok_def limits_ok_def loop_ok_def slots_ok_def)
qed

lemma world_ok_give_back:
  assumes ok: "world_ok w" and p: "is_waiting w p" and g: "granted (cells (sched w) ! p)"
  shows "world_ok (w\<lparr> sched := notify (set_cell p (\<lambda>c. c\<lparr> granted := False \<rparr>)
             ((sched w)\<lparr> activeUpstreams := activeUpstreams (sched w) - 1 \<rparr>)),
           phases := (phases w)[p := Finished] \<rparr>)"
proof -
  let ?s = "sched w"
  from ok have q: "queue_ok (phases w) (shown w) (cells ?s) (waiters ?s)" "positions_ok (cells ?s) (waiters ?s)"
    and a: "slots_ok (phases w) (cells ?s) (activeUpstreams ?s)" by (simp_all add: world_ok_def)
  have pl: "p < length (cells ?s)" "phases w ! p = Waiting"
    using p queue_okD(1) [OF q(1)] by (simp_all add: is_waiting_def)
  note Q = queue_give_back [OF q pl g refl]
  show ?thesis
    using ok Q slots_ok_remove [OF a Q(4,3)]
    by (auto simp: world_ok_def scheduler_defs rates_ok_def limits_ok_def loop_ok_def)
qed

lemma world_ok_phase:
  assumes ok: "world_ok w" and p: "is_waiting w p" "ready (cells (sched w) ! p)"
    and f: "f = (case werr (cells (sched w) ! p) of None \<Rightarrow> Holding | Some e \<Rightarrow> Finished)"
  shows "world_ok (w\<lparr> phases := (phases w)[p := f] \<rparr>)"
proof -
  let ?s = "sched w"
  from ok have q: "queue_ok (phases w) (shown w) (cells ?s) (waiters ?s)"
    and a: "slots_ok (phases w) (cells ?s) (activeUpstreams ?s)" by (simp_all add: world_ok_def)
  have pl: "p < length (cells ?s)" "phases w ! p = Waiting"
    using p queue_okD(1) [OF q] by (simp_all add: is_waiting_def)
  have c: "cell_ok f (cells ?s ! p)" "f \<noteq> Waiting"
    using queue_okD(6) [OF q pl(1)] pl p(2) by (auto simp: f cell_ok_def split: option.splits)
  have "slot_holders ((phases w)[p := f]) (cells ?s) = slot_holders (phases w) (cells ?s)"
    using queue_okD(6) [OF q pl(1)] pl p(2) queue_okD(1) [OF q]
    by (auto simp: slot_holders_def f cell_ok_def nth_list_update' split: option.splits if_splits)
  then show ?thesis
    using ok queue_phase [OF q pl(1) p(2) c] by (simp add: world_ok_def slots_ok_def)
qed

lemma world_ok_release:
  assumes ok: "world_ok w" and p: "p < length (phases w)" "phases w ! p = Holding"
  shows "world_ok (w\<lparr> sched := release_slot (sched w), phases := (phases w)[p := Finished] \<rparr>)"
proof -
  let ?s = "sched w"
  from ok have q: "queue_ok (phases w) (shown w) (cells ?s) (waiters ?s)"
    and a: "slots_ok (phases w) (cells ?s) (activeUpstreams ?s)" by (simp_all add: world_ok_def)
  have pl: "p < length (cells ?s)" using p queue_okD(1) [OF q] by simp
  have c: "granted (cells ?s ! p)" "ready (cells ?s ! p)"
    using queue_okD(6) [OF q pl] p by (auto simp: cell_ok_def)
  have f: "cell_ok Finished (cells ?s ! p)" using c by (simp add: cell_ok_def)
  have h: "p \<in> slot_holders (phases w) (cells ?s)" using pl p c by (simp add: slot_holders_def)
  have h': "slot_holders ((phases w)[p := Finished]) (cells ?s) = slot_holders (phases w) (cells ?s) - {p}"
    using p by (auto simp: slot_holders_def nth_list_update' split: if_splits)
  show ?thesis
    using ok slots_ok_remove [OF a h h'] queue_phase [OF q pl c(2) f]
    by (auto simp: world_ok_def release_slot_def notify_def rates_ok_def limits_ok_def loop_ok_def)
qed

lemma world_ok_position:
  assumes ok: "world_ok w" and p: "is_waiting w p"
    and e: "Wait_position p (shown w ! p) (sched w) = (s, r, x)"
  shows "world_ok (w\<lparr> sched := s, shown := (shown w)[p := x] \<rparr>)"
proof (cases "positions (cells (sched w) ! p)")
  case None
  then have "s = sched w" "x = shown w ! p" using e by (auto simp: Wait_position_def)
  with ok show ?thesis by simp
next
  case (Some y)
  let ?s = "sched w"
  from ok have q: "queue_ok (phases w) (shown w) (cells ?s) (waiters ?s)" "positions_ok (cells ?s) (waiters ?s)"
    by (simp_all add: world_ok_def)
  have pl: "p < length (cells ?s)" using p queue_okD(1) [OF q(1)] by (simp add: is_waiting_def)
  have s: "s = set_cell p (\<lambda>c. c\<lparr> positions := None \<rparr>) ?s" "x = y"
    using e Some by (auto simp: Wait_position_def)
  show ?thesis
    using ok queue_read_position [OF q pl Some refl]
    by (auto simp: world_ok_def s set_cell_def rates_ok_def limits_ok_def loop_ok_def slots_ok_def
        effectiveMaxLocked_def)
qed

lemma world_ok_session_step: "session_step w w' \<Longrightarrow> world_ok w \<Longrightarrow> world_ok w'"
proof (induction rule: session_step.induct)
  case (acquire w)
  then show ?case
    by (intro world_ok_scalars)
      (auto simp: AcquireClient_def world_ok_def rates_ok_def limits_ok_def loop_ok_def effectiveMaxLocked_def)
next
  case (release_client w)
  then show ?case
    by (intro world_ok_scalars)
      (auto simp: ReleaseClient_def world_ok_def rates_ok_def limits_ok_def loop_ok_def effectiveMaxLocked_def)
next
  case (enqueue w s p position)
  then show ?case by (intro world_ok_enqueue)
next
  case (report_position w p s r x)
  then show ?case by (intro world_ok_position)
next
  case (wait_granted w p)
  then show ?case by (intro world_ok_phase) (auto simp: Wait_ready_def split: option.splits)
next
  case (wait_failed w p e)
  then show ?case by (intro world_ok_phase) (auto simp: Wait_ready_def split: option.splits)
next
  case (wait_done w p)
  then show ?case
    using world_ok_leave [of w p] world_ok_give_back [of w p] by (auto simp: Wait_done_def)
next
  case (cancel w p)
  then have "\<not> canceled (cells (sched w) ! p)"
    using queue_okD(1,6) [of "phases w" "shown w" "cells (sched w)" "waiters (sched w)"]
    by (auto simp: world_ok_def is_waiting_def cell_ok_def)
  then show ?case
    using cancel world_ok_leave [of w p] world_ok_give_back [of w p] by (auto simp: Cancel_def)
next
  case (release p w)
  then show ?case by (intro world_ok_release)
next
  case (report_success w)
  then show ?case
    by (intro world_ok_scalars)
      (auto simp: ReportSuccess_def notify_def Let_def world_ok_def rates_ok_def limits_ok_def loop_ok_def)
next
  case (report_failure w draw)
  have "clock w + Jitter draw d \<le> clock w + int64_max" for d by (simp add: Jitter_le_max)
  with report_failure show ?case
    by (intro world_ok_scalars)
      (auto simp: ReportFailure_def notify_def Let_def world_ok_def rates_ok_def limits_ok_def loop_ok_def)
next
  case (capacity w n r)
  then show ?case
    by (intro world_ok_scalars)
      (auto simp: UpdateCapacity_def notify_def Let_def world_ok_def rates_ok_def limits_ok_def loop_ok_def
        split: option.splits)
next
  case (close_scheduler w)
  then show ?case
    by (intro world_ok_scalars) (auto simp: notify_def world_ok_def rates_ok_def limits_ok_def loop_ok_def)
next
  case (tick w now)
  then show ?case by (auto simp: world_ok_def loop_ok_def)
qed

lemma grant_first_eq:
  assumes "waiters s = p # ws"
  shows "grant_first now draw s =
    s\<lparr> cells := (publish_from 1 ws (cells s))
          [p := (publish_from 1 ws (cells s) ! p)\<lparr> granted := True, ready := True \<rparr>],
       waiters := ws, activeUpstreams := activeUpstreams s + 1,
       nextGrant := now + Jitter draw (grant_interval s) \<rparr>"
proof -
  let ?h = "publish_from 1 ws (cells s)"
  have upd: "(?h[p := (?h ! p)\<lparr> granted := True \<rparr>])[p := (?h[p := (?h ! p)\<lparr> granted := True \<rparr>] ! p)\<lparr> ready := True \<rparr>]
      = ?h[p := (?h ! p)\<lparr> granted := True, ready := True \<rparr>]"
    by (cases "p < length ?h") (auto simp: not_less list_update_beyond)
  have same: "grant_interval (s\<lparr> waiters := ws, cells := c, activeUpstreams := a \<rparr>) = grant_interval s"
    for c a by (simp add: grant_interval_def effectiveRPSLocked_def Let_def)
  show ?thesis
    using assms upd by (simp add: grant_first_def scheduler_defs Let_def same)
qed

lemma drop_canceled_id:
  assumes "queue_ok ph sh (cells s) (waiters s)"
  shows "drop_canceled (waiters s) s = s"
proof (cases "waiters s")
  case (Cons p ws)
  then have "p < length (cells s)" "ph ! p = Waiting" using queue_okD(5) [OF assms, of p] by auto
  then have "\<not> canceled (cells s ! p)"
    using queue_okD(6) [OF assms, of p] by (simp add: cell_ok_def)
  then show ?thesis using Cons by simp
qed simp

lemma grantReady_cases:
  assumes "queue_ok ph sh (cells s) (waiters s)" and "grantReady now now' draw s = (delay, more_work, s')"
  obtains
    (idle) "waiters s = [] \<or> effectiveMaxLocked s \<le> activeUpstreams s" "\<not> more_work" "s' = s" "delay = 0"
  | (early) "waiters s \<noteq> []" "activeUpstreams s < effectiveMaxLocked s" "0 < delay" "more_work" "s' = s"
      "now < nextGrant s" "now + delay \<le> nextGrant s" "nextGrant s - now \<le> int64_max \<Longrightarrow> now + delay = nextGrant s"
  | (grant) p ws where "waiters s = p # ws" "activeUpstreams s < effectiveMaxLocked s" "nextGrant s \<le> now"
      "delay = 0" "more_work \<longleftrightarrow> ws \<noteq> []" "s' = grant_first now' draw s"
proof -
  let ?idle = "waiters s = [] \<or> effectiveMaxLocked s \<le> activeUpstreams s"
  let ?u = "time_until (nextGrant s) now" and ?g = "grant_first now' draw s"
  have r: "(delay, more_work, s') = (if ?idle then (0, False, s) else if 0 < ?u then (?u, True, s)
      else (0, waiters ?g \<noteq> [], ?g))"
    unfolding assms(2) [symmetric] grantReady_def Let_def drop_canceled_id [OF assms(1)] by (rule refl)
  have u: "0 < ?u \<longleftrightarrow> now < nextGrant s" "0 < ?u \<Longrightarrow> ?u \<le> nextGrant s - now"
      "nextGrant s - now \<le> int64_max \<Longrightarrow> 0 < ?u \<Longrightarrow> ?u = nextGrant s - now"
    by (auto simp: time_until_def clamp_def int64_min_def int64_max_def)
  consider "?idle" | "\<not> ?idle" "0 < ?u" | p ws where "\<not> ?idle" "\<not> 0 < ?u" "waiters s = p # ws"
    by (cases "waiters s") auto
  then show ?thesis
  proof cases
    case 1
    with r show ?thesis by (intro idle) auto
  next
    case 2
    with r u show ?thesis by (intro early) auto
  next
    case (3 p ws)
    have "waiters ?g = ws" by (simp add: grant_first_eq [OF 3(3)])
    with 3 r u show ?thesis by (intro grant [OF 3(3)]) auto
  qed
qed

lemma world_ok_grant:
  assumes ok: "world_ok w" and q: "waiters (sched w) = p # ws"
    and room: "activeUpstreams (sched w) < effectiveMaxLocked (sched w)" and now: "clock w \<le> now"
    and pc: "c = Loop_Top \<or> c = Loop_Blocked \<and> ws = []"
  shows "world_ok (w\<lparr> sched := grant_first now draw (sched w), pc := c, clock := now \<rparr>)"
proof -
  let ?s = "sched w"
  from ok have k: "queue_ok (phases w) (shown w) (cells ?s) (p # ws)"
    and a: "slots_ok (phases w) (cells ?s) (activeUpstreams ?s)" by (simp_all add: world_ok_def q)
  note Q = queue_grant [OF k refl]
  have "now + Jitter draw (grant_interval ?s) \<le> now + int64_max" by (simp add: Jitter_le_max)
  then show ?thesis
    using ok Q slots_ok_insert [OF a Q(4,3)] room effectiveMax_le [of ?s] pc q
    by (auto simp: world_ok_def grant_first_eq [OF q] rates_ok_def limits_ok_def loop_ok_def)
qed

lemma world_ok_loop_step: "loop_step w w' \<Longrightarrow> world_ok w \<Longrightarrow> world_ok w'"
proof (induction rule: loop_step.induct)
  case (top_block w now draw delay s)
  then have q: "queue_ok (phases w) (shown w) (cells (sched w)) (waiters (sched w))" by (simp add: world_ok_def)
  from q top_block(3) show ?case
  proof (cases rule: grantReady_cases)
    case idle
    with top_block show ?thesis by (auto simp: world_ok_def loop_ok_def)
  next
    case (grant p ws)
    with top_block show ?thesis using world_ok_grant [of w p ws now Loop_Blocked draw] by auto
  qed simp
next
  case (top_again w now draw delay s)
  then have q: "queue_ok (phases w) (shown w) (cells (sched w)) (waiters (sched w))" by (simp add: world_ok_def)
  from top_again(3) show ?case
    by (rule grantReady_cases [OF q]) (use top_again world_ok_grant [of w _ _ now Loop_Top draw] in auto)
next
  case (top_timer w now draw delay s)
  then have q: "queue_ok (phases w) (shown w) (cells (sched w)) (waiters (sched w))" by (simp add: world_ok_def)
  from top_timer(3) show ?case
    by (rule grantReady_cases [OF q]) (use top_timer in \<open>auto simp: world_ok_def loop_ok_def\<close>)
next
  case (wake_blocked w)
  then show ?case by (auto simp: world_ok_def loop_ok_def rates_ok_def limits_ok_def)
next
  case (wake_timer w t)
  then show ?case by (auto simp: world_ok_def loop_ok_def rates_ok_def limits_ok_def)
next
  case (timer_fires w t now)
  then show ?case by (auto simp: world_ok_def loop_ok_def)
qed

lemma world_ok_stop_step: "stop_step w w' \<Longrightarrow> world_ok w \<Longrightarrow> world_ok w'"
proof (induction rule: stop_step.induct)
  case (stop_loop w)
  let ?s = "sched w"
  from stop_loop have q: "queue_ok (phases w) (shown w) (cells ?s) (waiters ?s)" by (simp add: world_ok_def)
  show ?case
    using stop_loop queue_fail [OF q]
    by (auto simp: world_ok_def failWaiters_def positions_ok_def slots_ok_def rates_ok_def limits_ok_def loop_ok_def)
qed

lemma world_ok_init: "zero_time \<le> now \<Longrightarrow> world_ok (world0 cfg now)"
  by (auto simp: world_ok_def world0_def NewScheduler_def Let_def queue_ok_def positions_ok_def slots_ok_def
      slot_holders_def rates_ok_def limits_ok_def loop_ok_def zero_time_def int64_max_def)

lemma world_ok_reachable:
  assumes "zero_time \<le> now" and "ws_step\<^sup>*\<^sup>* (world0 cfg now) w"
  shows "world_ok w"
  using assms(2)
proof (induction rule: rtranclp_induct)
  case base
  show ?case by (rule world_ok_init [OF assms(1)])
next
  case (step w w')
  then show ?case
    using world_ok_session_step world_ok_loop_step world_ok_stop_step by (auto simp: ws_step_def)
qed

section \<open>The loop makes progress\<close>

definition loop_rank :: "world \<Rightarrow> nat" where
  "loop_rank w =
     (case pc w of
        Loop_Top \<Rightarrow> if clock w < nextGrant (sched w) then 3 else 1
      | Loop_Timer t \<Rightarrow> if t < nextGrant (sched w) then 4 else 2
      | _ \<Rightarrow> 0)"

definition loop_work :: "world \<Rightarrow> nat" where
  "loop_work w = 4 * length (waiters (sched w)) + (if wake (sched w) then 4 else 0) + loop_rank w"

lemma loop_work_bound: "loop_work w \<le> 4 * length (waiters (sched w)) + 8"
  by (simp add: loop_work_def loop_rank_def split: loop_pc.splits)

lemma top_step_cases:
  assumes ok: "world_ok w" and g: "grantReady (clock w) now draw (sched w) = (delay, more_work, s)"
  obtains
    (idle) "\<not> more_work" "s = sched w" "delay = 0"
  | (early) "0 < delay" "more_work" "s = sched w" "clock w + delay = nextGrant (sched w)" "clock w < nextGrant (sched w)"
  | (grant) p ws where "waiters (sched w) = p # ws" "nextGrant (sched w) \<le> clock w" "delay = 0"
      "s = grant_first now draw (sched w)"
proof -
  from ok have q: "queue_ok (phases w) (shown w) (cells (sched w)) (waiters (sched w))"
    and n: "nextGrant (sched w) - clock w \<le> int64_max" by (simp_all add: world_ok_def loop_ok_def)
  from grantReady_cases [OF q g] show ?thesis
    using n idle early grant by metis
qed

lemma loop_step_decreases: "loop_step w w' \<Longrightarrow> world_ok w \<Longrightarrow> loop_work w' < loop_work w"
proof (induction rule: loop_step.induct)
  case (top_block w now draw delay s)
  from top_block(4,3) show ?case
    by (cases rule: top_step_cases)
      (use top_block in \<open>auto simp: loop_work_def loop_rank_def grant_first_eq\<close>)
next
  case (top_again w now draw delay s)
  from top_again(5,3) show ?case
    by (cases rule: top_step_cases)
      (use top_again in \<open>auto simp: loop_work_def loop_rank_def grant_first_eq\<close>)
next
  case (top_timer w now draw delay s)
  from top_timer(5,3) show ?case
    by (cases rule: top_step_cases)
      (use top_timer in \<open>auto simp: loop_work_def loop_rank_def grant_first_eq\<close>)
qed (auto simp: loop_work_def loop_rank_def)

lemma loop_runs_bounded:
  assumes "(loop_step ^^ n) w w'" and "world_ok w"
  shows "world_ok w' \<and> n + loop_work w' \<le> loop_work w"
  using assms
proof (induction n arbitrary: w')
  case (Suc n)
  then obtain v where v: "(loop_step ^^ n) w v" "loop_step v w'" by auto
  with Suc.IH [OF v(1)] Suc.prems(2) show ?case
    using world_ok_loop_step [OF v(2)] loop_step_decreases [OF v(2)] by auto
qed simp

text \<open>The loop by itself stops only when there is nothing it may grant.\<close>

lemma loop_stuck:
  assumes ok: "world_ok w" and stuck: "\<forall>v. \<not> loop_step w v" and running: "\<not> stop (sched w)"
  shows "waiters (sched w) = [] \<or> effectiveMaxLocked (sched w) \<le> activeUpstreams (sched w)"
proof (cases "pc w")
  case Loop_Top
  obtain delay b s where g: "grantReady (clock w) (clock w) 0 (sched w) = (delay, b, s)"
    by (metis surj_pair)
  have "\<exists>v. loop_step w v"
    using loop_step.top_block [OF Loop_Top order_refl, of 0 delay s]
      loop_step.top_again [OF Loop_Top order_refl, of 0 delay s]
      loop_step.top_timer [OF Loop_Top order_refl, of 0 delay s] g
    by (cases b; cases "delay \<le> 0") auto
  with stuck show ?thesis by blast
next
  case Loop_Blocked
  with stuck have "\<not> wake (sched w)" using loop_step.wake_blocked by blast
  with ok Loop_Blocked show ?thesis by (auto simp: world_ok_def loop_ok_def)
next
  case (Loop_Timer t)
  then have "loop_step w (w\<lparr> pc := Loop_Top, clock := max t (clock w) \<rparr>)"
    by (intro loop_step.timer_fires) auto
  with stuck show ?thesis by blast
next
  case Loop_Returned
  with ok running show ?thesis by (auto simp: world_ok_def loop_ok_def)
qed

text \<open>What one step of the loop does to the queue: nothing, or the first waiter is granted.\<close>

definition answered :: "world \<Rightarrow> nat \<Rightarrow> bool" where
  "answered w p \<longleftrightarrow> ready (cells (sched w) ! p) \<and> granted (cells (sched w) ! p)"

definition granted_prefix :: "world \<Rightarrow> world \<Rightarrow> bool" where
  "granted_prefix w w' \<longleftrightarrow>
     (\<exists>k \<le> length (waiters (sched w)).
        waiters (sched w') = drop k (waiters (sched w))
        \<and> activeUpstreams (sched w') = activeUpstreams (sched w) + int k
        \<and> (\<forall>p \<in> set (take k (waiters (sched w))). answered w' p))"

definition same_scheduling :: "world \<Rightarrow> world \<Rightarrow> bool" where
  "same_scheduling w w' \<longleftrightarrow> phases w' = phases w \<and> stop (sched w') = stop (sched w)
     \<and> effectiveMaxLocked (sched w') = effectiveMaxLocked (sched w)
     \<and> (\<forall>p. answered w p \<longrightarrow> answered w' p)"

lemma loop_step_grants:
  "loop_step w w' \<Longrightarrow> world_ok w \<Longrightarrow> same_scheduling w w' \<and>
     (waiters (sched w') = waiters (sched w) \<and> activeUpstreams (sched w') = activeUpstreams (sched w)
      \<or> (\<exists>p. waiters (sched w) = p # waiters (sched w') \<and> answered w' p
          \<and> activeUpstreams (sched w') = activeUpstreams (sched w) + 1))"
proof -
  have frame: "same_scheduling w (w\<lparr> sched := sched w, pc := c, clock := t \<rparr>)" for w c t
    by (simp add: same_scheduling_def answered_def)
  have grant: "same_scheduling w (w\<lparr> sched := grant_first now draw (sched w), pc := c, clock := t \<rparr>) \<and>
      answered (w\<lparr> sched := grant_first now draw (sched w), pc := c, clock := t \<rparr>) p"
    if q: "waiters (sched w) = p # ws" and ok: "world_ok w" for w now draw c t p ws
  proof -
    have "p < length (cells (sched w))"
      using ok queue_okD(5) [of "phases w" "shown w" "cells (sched w)" "waiters (sched w)" p] q
      by (auto simp: world_ok_def)
    then show ?thesis
      by (auto simp: same_scheduling_def answered_def grant_first_eq [OF q] nth_list_update' effectiveMaxLocked_def)
  qed
  assume "loop_step w w'" and "world_ok w"
  then show ?thesis
  proof (induction rule: loop_step.induct)
    case (top_block w now draw delay s)
    from top_block(4,3) show ?case
      by (cases rule: top_step_cases) (use frame grant top_block(4) in \<open>auto simp: grant_first_eq\<close>)
  next
    case (top_again w now draw delay s)
    from top_again(5,3) show ?case
      by (cases rule: top_step_cases) (use frame grant top_again(5) in \<open>auto simp: grant_first_eq\<close>)
  next
    case (top_timer w now draw delay s)
    from top_timer(5,3) show ?case
      by (cases rule: top_step_cases) (use frame grant top_timer(5) in \<open>auto simp: grant_first_eq\<close>)
  qed (auto simp: same_scheduling_def answered_def effectiveMaxLocked_def)
qed

lemma loop_run_grants:
  assumes "(loop_step ^^ n) w w'" and "world_ok w"
  shows "same_scheduling w w' \<and> granted_prefix w w'"
  using assms
proof (induction n arbitrary: w')
  case 0
  then show ?case by (auto simp: same_scheduling_def granted_prefix_def intro: exI [of _ 0])
next
  case (Suc n)
  then obtain v where v: "(loop_step ^^ n) w v" "loop_step v w'" by auto
  then have ok: "world_ok v" using loop_runs_bounded Suc.prems(2) by blast
  from Suc.IH [OF v(1) Suc.prems(2)] obtain k where IH: "same_scheduling w v"
      "k \<le> length (waiters (sched w))" "waiters (sched v) = drop k (waiters (sched w))"
      "activeUpstreams (sched v) = activeUpstreams (sched w) + int k"
      "\<forall>p \<in> set (take k (waiters (sched w))). answered v p"
    by (auto simp: granted_prefix_def)
  note S = loop_step_grants [OF v(2) ok]
  have ss: "same_scheduling w w'" using IH(1) S by (auto simp: same_scheduling_def)
  have old: "\<forall>p \<in> set (take k (waiters (sched w))). answered w' p"
    using IH(5) S by (auto simp: same_scheduling_def)
  from S have "granted_prefix w w'"
  proof (elim conjE disjE exE)
    assume "waiters (sched w') = waiters (sched v)" "activeUpstreams (sched w') = activeUpstreams (sched v)"
    then show ?thesis using IH old by (auto simp: granted_prefix_def intro!: exI [of _ k])
  next
    fix p assume p: "waiters (sched v) = p # waiters (sched w')" "answered w' p"
      "activeUpstreams (sched w') = activeUpstreams (sched v) + 1"
    then have "drop k (waiters (sched w)) = p # waiters (sched w')" using IH(3) by simp
    then have k: "k < length (waiters (sched w))" "waiters (sched w) ! k = p"
        "drop (Suc k) (waiters (sched w)) = waiters (sched w')"
      by (auto simp: drop_Suc drop_tl nth_via_drop) (metis drop_all list.distinct(1) not_le)
    then show ?thesis
      using p IH old by (auto simp: granted_prefix_def take_Suc_conv_app_nth intro!: exI [of _ "Suc k"])
  qed
  with ss show ?case by simp
qed

section \<open>Pacing of the grants\<close>

definition grant_step :: "world \<Rightarrow> world \<Rightarrow> bool" where
  "grant_step w w' \<longleftrightarrow> loop_step w w' \<and> length (waiters (sched w')) < length (waiters (sched w))"

definition other_step :: "world \<Rightarrow> world \<Rightarrow> bool" where
  "other_step w w' \<longleftrightarrow> ws_step w w' \<and> \<not> grant_step w w'"

lemma grant_stepD:
  assumes "grant_step w w'" and ok: "world_ok w"
  shows "\<exists>draw. nextGrant (sched w) \<le> clock w \<and> clock w \<le> clock w'
    \<and> nextGrant (sched w') = clock w' + Jitter draw (grant_interval (sched w))"
proof -
  from assms have "loop_step w w'" "length (waiters (sched w')) < length (waiters (sched w))"
    by (simp_all add: grant_step_def)
  then show ?thesis using ok
  proof (induction rule: loop_step.induct)
    case (top_block w now draw delay s)
    from top_block(5,3) show ?case
      by (cases rule: top_step_cases) (use top_block in \<open>auto simp: grant_first_eq\<close>)
  next
    case (top_again w now draw delay s)
    from top_again(6,3) show ?case
      by (cases rule: top_step_cases) (use top_again in \<open>auto simp: grant_first_eq\<close>)
  next
    case (top_timer w now draw delay s)
    from top_timer(6,3) show ?case
      by (cases rule: top_step_cases) (use top_timer in \<open>auto simp: grant_first_eq\<close>)
  qed auto
qed

lemma session_step_nextGrant: "session_step w w' \<Longrightarrow> nextGrant (sched w) \<le> nextGrant (sched w')"
proof (induction rule: session_step.induct)
  case (enqueue w s p position)
  then show ?case by (auto simp: EnqueueUpstream_def Let_def notify_def split: if_splits)
next
  case (report_position w p s r x)
  then show ?case by (auto simp: Wait_position_def set_cell_def split: option.splits)
next
  case (capacity w n r)
  show ?case by (auto simp: UpdateCapacity_def Let_def notify_def split: option.splits)
qed (auto simp: AcquireClient_def ReleaseClient_def Wait_done_def Cancel_def release_slot_def ReportSuccess_def
    ReportFailure_def scheduler_defs Let_def)

lemma other_step_nextGrant:
  assumes "other_step w w'" and ok: "world_ok w"
  shows "nextGrant (sched w) \<le> nextGrant (sched w')"
proof -
  from assms consider "session_step w w'" | "loop_step w w'" "\<not> grant_step w w'" | "stop_step w w'"
    by (auto simp: other_step_def ws_step_def)
  then show ?thesis
  proof cases
    case 1
    then show ?thesis by (rule session_step_nextGrant)
  next
    case 2
    then have "\<not> length (waiters (sched w')) < length (waiters (sched w))" by (simp add: grant_step_def)
    with 2(1) show ?thesis using ok
    proof (induction rule: loop_step.induct)
      case (top_block w now draw delay s)
      from top_block(5,3) show ?case
        by (cases rule: top_step_cases) (use top_block in \<open>auto simp: grant_first_eq\<close>)
    next
      case (top_again w now draw delay s)
      from top_again(6,3) show ?case
        by (cases rule: top_step_cases) (use top_again in \<open>auto simp: grant_first_eq\<close>)
    next
      case (top_timer w now draw delay s)
      from top_timer(6,3) show ?case
        by (cases rule: top_step_cases) (use top_timer in \<open>auto simp: grant_first_eq\<close>)
    qed auto
  next
    case 3
    then show ?thesis by (auto elim!: stop_stepE simp: failWaiters_def)
  qed
qed

lemma other_run_nextGrant:
  assumes "other_step\<^sup>*\<^sup>* w w'" and "world_ok w"
  shows "world_ok w' \<and> nextGrant (sched w) \<le> nextGrant (sched w')"
  using assms
proof (induction rule: rtranclp_induct)
  case (step v v')
  then have "world_ok v'"
    using world_ok_session_step world_ok_loop_step world_ok_stop_step by (auto simp: other_step_def ws_step_def)
  with step show ?case using other_step_nextGrant [of v v'] by auto
qed simp

text \<open>One pass of the body of \<open>run\<close>, from the top of the loop to where it next waits.\<close>

definition run_pass :: "ns \<Rightarrow> int \<Rightarrow> world \<Rightarrow> world" where
  "run_pass now draw w =
     (let (delay, hasWork, s) = grantReady (clock w) now draw (sched w)
      in w\<lparr> sched := s,
            pc := (if \<not> hasWork then Loop_Blocked
                   else if delay \<le> 0 then Loop_Top else Loop_Timer (clock w + delay)),
            clock := now \<rparr>)"

lemma run_pass_step: "pc w = Loop_Top \<Longrightarrow> clock w \<le> now \<Longrightarrow> loop_step w (run_pass now draw w)"
  using loop_step.top_block [of w now draw] loop_step.top_again [of w now draw]
    loop_step.top_timer [of w now draw]
  by (auto simp: run_pass_def Let_def split: prod.splits)

section \<open>Properties\<close>

text \<open>A sample run: two sessions queue, one grant per second.\<close>

definition enqueue_session :: "world \<Rightarrow> world" where
  "enqueue_session w =
     (case EnqueueUpstream (sched w) of
        (s, Inr (p, position)) \<Rightarrow>
          w\<lparr> sched := s, phases := phases w @ [Waiting], shown := shown w @ [position] \<rparr>
      | (s, Inl e) \<Rightarrow> w)"

lemma enqueue_session_step: "ws_step\<^sup>*\<^sup>* w (enqueue_session w)"
  using session_step.enqueue [of w]
  by (auto simp: enqueue_session_def ws_step_def split: prod.splits sum.splits intro!: r_into_rtranclp)

definition sample_cfg :: SchedulerConfig where
  "sample_cfg = \<lparr> MaxClients = 10, MaxUpstreams = 2, MaxWaiting = 10, ConnectRPS = 20, SlowStartRPS = 1 \<rparr>"

definition sample_queued :: world where
  "sample_queued = enqueue_session (enqueue_session (world0 sample_cfg 0))"

definition sample_first :: world where
  "sample_first = run_pass 5 0 sample_queued"

definition sample_second :: world where
  "sample_second = (run_pass 5 0 sample_first)\<lparr> pc := Loop_Top, clock := 1000000005 \<rparr>"

lemma sample_queued_reachable: "ws_step\<^sup>*\<^sup>* (world0 sample_cfg 0) sample_queued"
  unfolding sample_queued_def by (rule rtranclp_trans) (rule enqueue_session_step)+

lemma sample_zero: "zero_time \<le> 0"
  by (simp add: zero_time_def)

lemma sample_queued_facts:
  "pc sample_queued = Loop_Top" "clock sample_queued = 0" "length (waiters (sched sample_queued)) = 2"
  "activeUpstreams (sched sample_queued) = 0" "\<not> stop (sched sample_queued)"
  "effectiveRPSLocked (sched sample_queued) = 1" "maxUpstreams (sched sample_queued) = 2"
  by code_simp+

lemma sample_first_facts:
  "pc sample_first = Loop_Top" "clock sample_first = 5" "waiters (sched sample_first) = [1]"
  "pc (run_pass 5 0 sample_first) = Loop_Timer (1000000005)" "clock (run_pass 5 0 sample_first) = 5"
  "waiters (sched (run_pass 5 0 sample_first)) = [1]"
  by code_simp+

lemma sample_second_facts:
  "waiters (sched (run_pass (1000000005) 0 sample_second)) = []" "waiters (sched sample_second) = [1]"
  "pc sample_second = Loop_Top" "clock sample_second = 1000000005"
  by code_simp+

lemma sample_steps:
  "grant_step sample_queued sample_first" "other_step\<^sup>*\<^sup>* sample_first sample_second"
  "grant_step sample_second (run_pass (1000000005) 0 sample_second)"
proof -
  show "grant_step sample_queued sample_first"
    using run_pass_step [of sample_queued 5 0] sample_queued_facts sample_first_facts
    by (simp add: grant_step_def sample_first_def)
  have "loop_step sample_first (run_pass 5 0 sample_first)"
    by (rule run_pass_step) (simp_all add: sample_first_facts)
  then have "other_step sample_first (run_pass 5 0 sample_first)"
    by (simp add: other_step_def ws_step_def grant_step_def sample_first_facts)
  moreover have "loop_step (run_pass 5 0 sample_first) sample_second"
    unfolding sample_second_def
    by (rule loop_step.timer_fires [OF sample_first_facts(4)]) (simp_all add: sample_first_facts)
  then have "other_step (run_pass 5 0 sample_first) sample_second"
    by (simp add: other_step_def ws_step_def grant_step_def sample_first_facts sample_second_facts)
  ultimately show "other_step\<^sup>*\<^sup>* sample_first sample_second" by simp
  show "grant_step sample_second (run_pass (1000000005) 0 sample_second)"
    using run_pass_step [of sample_second 1000000005 0] by (simp add: grant_step_def sample_second_facts)
qed

lemma scheduler_books:
  assumes ok: "world_ok w"
  shows "activeUpstreams (sched w) =
      int (card {p. p < length (phases w) \<and> (phases w ! p = Holding
        \<or> phases w ! p = Waiting \<and> granted (cells (sched w) ! p))})"
    and "activeUpstreams (sched w) \<le> maxUpstreams (sched w)"
    and "0 \<le> clients (sched w) \<and> clients (sched w) \<le> maxClients (sched w)"
    and "waiters (sched w) =
      filter (\<lambda>p. phases w ! p = Waiting \<and> \<not> ready (cells (sched w) ! p)) [0..<length (phases w)]"
    and "int (length (waiters (sched w))) \<le> maxWaiting (sched w)"
    and "\<forall>k < length (waiters (sched w)).
      next_shown (cells (sched w) ! (waiters (sched w) ! k)) (shown w ! (waiters (sched w) ! k)) = int k + 1"
    and "pc w = Loop_Blocked \<longrightarrow> wake (sched w) \<or> waiters (sched w) = []
      \<or> effectiveMaxLocked (sched w) \<le> activeUpstreams (sched w)"
proof -
  from ok have q: "queue_ok (phases w) (shown w) (cells (sched w)) (waiters (sched w))" by (simp add: world_ok_def)
  note D = queue_okD [OF q]
  have h: "slot_holders (phases w) (cells (sched w)) = {p. p < length (phases w) \<and> (phases w ! p = Holding
        \<or> phases w ! p = Waiting \<and> granted (cells (sched w) ! p))}"
  proof -
    have "(phases w ! p \<noteq> Finished \<and> granted (cells (sched w) ! p)) \<longleftrightarrow> (phases w ! p = Holding
        \<or> phases w ! p = Waiting \<and> granted (cells (sched w) ! p))" if "p < length (cells (sched w))" for p
      using D(6) [OF that] by (cases "phases w ! p") (auto simp: cell_ok_def)
    then show ?thesis using D(1) by (auto simp: slot_holders_def)
  qed
  show "activeUpstreams (sched w) =
      int (card {p. p < length (phases w) \<and> (phases w ! p = Holding
        \<or> phases w ! p = Waiting \<and> granted (cells (sched w) ! p))})"
    using ok by (simp add: world_ok_def slots_ok_def h)
  show "activeUpstreams (sched w) \<le> maxUpstreams (sched w)"
    and "0 \<le> clients (sched w) \<and> clients (sched w) \<le> maxClients (sched w)"
    and "int (length (waiters (sched w))) \<le> maxWaiting (sched w)"
    using ok by (simp_all add: world_ok_def limits_ok_def)
  show "waiters (sched w) =
      filter (\<lambda>p. phases w ! p = Waiting \<and> \<not> ready (cells (sched w) ! p)) [0..<length (phases w)]"
  proof (rule strict_sorted_equal)
    show "sorted_wrt (<) (filter (\<lambda>p. phases w ! p = Waiting \<and> \<not> ready (cells (sched w) ! p)) [0..<length (phases w)])"
      by (simp add: sorted_wrt_filter)
  qed (use D(1,3,5) in auto)
  show "\<forall>k < length (waiters (sched w)).
      next_shown (cells (sched w) ! (waiters (sched w) ! k)) (shown w ! (waiters (sched w) ! k)) = int k + 1"
    using ok D(7) by (auto simp: world_ok_def positions_ok_def)
  show "pc w = Loop_Blocked \<longrightarrow> wake (sched w) \<or> waiters (sched w) = []
      \<or> effectiveMaxLocked (sched w) \<le> activeUpstreams (sched w)"
    using ok by (simp add: world_ok_def loop_ok_def)
qed

text \<open>(C9) However sessions enqueue, wait, are answered, give up, release and the loop runs, the
  scheduler's books are exact.  The active count is the number of sessions that hold a
  slot or have been granted one they have not picked up, never above the configured
  maximum; the client count stays within its limit.  The queue holds exactly the waiting
  sessions not yet answered, in their order of arrival and no more of them than the
  limit, and the position a session shows once it has read its channel is its place in
  the queue.  No wakeup is lost: if the grant loop is blocked then either a wake is
  pending, or there is nothing it could grant.\<close>

theorem scheduler_books_exact:
  assumes "zero_time \<le> now" and "ws_step\<^sup>*\<^sup>* (world0 cfg now) w"
  shows "activeUpstreams (sched w) =
      int (card {p. p < length (phases w) \<and> (phases w ! p = Holding
        \<or> phases w ! p = Waiting \<and> granted (cells (sched w) ! p))})
    \<and> activeUpstreams (sched w) \<le> maxUpstreams (sched w)
    \<and> 0 \<le> clients (sched w) \<and> clients (sched w) \<le> maxClients (sched w)
    \<and> waiters (sched w) =
      filter (\<lambda>p. phases w ! p = Waiting \<and> \<not> ready (cells (sched w) ! p)) [0..<length (phases w)]
    \<and> int (length (waiters (sched w))) \<le> maxWaiting (sched w)
    \<and> (\<forall>k < length (waiters (sched w)).
      next_shown (cells (sched w) ! (waiters (sched w) ! k)) (shown w ! (waiters (sched w) ! k)) = int k + 1)
    \<and> (pc w = Loop_Blocked \<longrightarrow> wake (sched w) \<or> waiters (sched w) = []
      \<or> effectiveMaxLocked (sched w) \<le> activeUpstreams (sched w))"
  using scheduler_books [OF world_ok_reachable [OF assms]] by (intro conjI; fast)

theorem scheduler_books_exact_witness:
  "activeUpstreams (sched sample_queued) =
      int (card {p. p < length (phases sample_queued) \<and> (phases sample_queued ! p = Holding
        \<or> phases sample_queued ! p = Waiting \<and> granted (cells (sched sample_queued) ! p))})
   \<and> length (waiters (sched sample_queued)) = 2"
  using scheduler_books_exact [OF sample_zero sample_queued_reachable] sample_queued_facts by blast

text \<open>(C28) The grant loop always finishes its work.  From any reachable state of an open
  scheduler, the loop on its own takes at most four steps per waiting session and eight
  more; every step it takes leaves the queue a suffix of what it was, with the sessions
  removed from the front all granted and counted as active; and it comes to rest only
  when nobody waits or the effective maximum of connections is in use.\<close>

theorem grant_loop_progress:
  assumes "zero_time \<le> now" and "ws_step\<^sup>*\<^sup>* (world0 cfg now) w" and "\<not> stop (sched w)"
    and "(loop_step ^^ n) w w'"
  shows "n \<le> 4 * length (waiters (sched w)) + 8
    \<and> (\<exists>k \<le> length (waiters (sched w)). waiters (sched w') = drop k (waiters (sched w))
      \<and> activeUpstreams (sched w') = activeUpstreams (sched w) + int k
      \<and> (\<forall>p \<in> set (take k (waiters (sched w))). answered w' p))
    \<and> ((\<forall>v. \<not> loop_step w' v) \<longrightarrow>
      waiters (sched w') = [] \<or> effectiveMaxLocked (sched w') \<le> activeUpstreams (sched w'))"
proof -
  have ok: "world_ok w" by (rule world_ok_reachable [OF assms(1,2)])
  note B = loop_runs_bounded [OF assms(4) ok] and G = loop_run_grants [OF assms(4) ok]
  have "n \<le> 4 * length (waiters (sched w)) + 8" using B loop_work_bound [of w] by simp
  moreover have "waiters (sched w') = [] \<or> effectiveMaxLocked (sched w') \<le> activeUpstreams (sched w')"
    if "\<forall>v. \<not> loop_step w' v"
    using loop_stuck [OF _ that] B G assms(3) by (simp add: same_scheduling_def)
  ultimately show ?thesis using G by (simp add: granted_prefix_def)
qed

theorem grant_loop_progress_witness:
  "\<exists>k \<le> 2. waiters (sched sample_first) = drop k (waiters (sched sample_queued))
     \<and> activeUpstreams (sched sample_first) = int k
     \<and> (\<forall>p \<in> set (take k (waiters (sched sample_queued))). answered sample_first p)"
  using grant_loop_progress [OF sample_zero sample_queued_reachable sample_queued_facts(5), of 1 sample_first]
    sample_steps(1) sample_queued_facts by (simp add: grant_step_def eq_OO)

text \<open>(C29) Upstream connections open no faster than the effective rate, which is at most the
  configured one: between two consecutive grants, whatever sessions and backends do in
  between, at least the interval of the rate in force at the first grant passes.\<close>

theorem grants_paced:
  assumes "zero_time \<le> now" and "ws_step\<^sup>*\<^sup>* (world0 cfg now) w"
    and "grant_step w w1" and "other_step\<^sup>*\<^sup>* w1 w2" and "grant_step w2 w3"
    and "of_int second / 2 ^ 62 < effectiveRPSLocked (sched w)"
    and "effectiveRPSLocked (sched w) \<le> of_int second"
  shows "of_int second / effectiveRPSLocked (sched w) - 1 < of_int (clock w2 - clock w1)
    \<and> effectiveRPSLocked (sched w) \<le> configuredRPS (sched w)"
proof -
  let ?r = "effectiveRPSLocked (sched w)" and ?d = "grant_interval (sched w)"
  have ok: "world_ok w" by (rule world_ok_reachable [OF assms(1,2)])
  obtain draw where g: "nextGrant (sched w1) = clock w1 + Jitter draw ?d"
    using grant_stepD [OF assms(3) ok] by blast
  have ok1: "world_ok w1" using assms(3) world_ok_loop_step [of w w1] ok by (simp add: grant_step_def)
  note O = other_run_nextGrant [OF assms(4) ok1]
  have "nextGrant (sched w2) \<le> clock w2" using grant_stepD [OF assms(5)] O by blast
  with g O have gap: "Jitter draw ?d \<le> clock w2 - clock w1" by linarith
  have r0: "0 < ?r" using assms(6) by (rule order.strict_trans1 [rotated]) simp
  have q: "1 \<le> of_int second / ?r" "of_int second / ?r < 2 ^ 62"
    using assms(6,7) r0 by (simp_all add: field_simps)
  have "1 \<le> ?d" "?d < 2 ^ 62"
    using q r0 by (simp_all add: grant_interval_def f64_to_int_def floor_less_iff le_floor_iff)
  then have "?d \<le> clock w2 - clock w1" using Jitter_bounds [of ?d draw] gap by linarith
  moreover have "of_int second / ?r - 1 < of_int ?d"
    using f64_to_int_gt [of "of_int second / ?r"] r0 by (simp add: grant_interval_def)
  ultimately have "of_int second / ?r - 1 < of_int (clock w2 - clock w1)"
    by (meson less_le_trans of_int_le_iff)
  then show ?thesis by (auto simp: effectiveRPSLocked_def Let_def)
qed

theorem grants_paced_witness:
  "of_int second / effectiveRPSLocked (sched sample_queued) - 1 < of_int (clock sample_second - clock sample_first)
   \<and> effectiveRPSLocked (sched sample_queued) \<le> configuredRPS (sched sample_queued)"
  by (rule grants_paced [OF sample_zero sample_queued_reachable sample_steps])
    (simp_all add: sample_queued_facts)

end
