(* ===== verification/WS_Transcript.thy ===== *)
theory WS_Transcript
  imports Support
begin

text \<open>
  The WebSocket message protocol (\<^verbatim>\<open>internal/websocket/protocol.go\<close>), the transcript
  entries (\<^verbatim>\<open>internal/websocket/stream.go\<close>) and the delivery of a transcript to a
  client (\<open>deliverStream\<close>, \<open>readAfterCursor\<close>, \<open>deliverEvents\<close> and \<open>retryStore\<close> of
  \<^verbatim>\<open>internal/websocket/manager.go\<close>).

  \<^verbatim>\<open>json.Unmarshal\<close> of an envelope and \<^verbatim>\<open>json.Valid\<close> are arguments.  The Redis
  stream is the locale \<open>redis_stream\<close>: what XADD, XREAD and XRANGE are documented to
  do to the ordered list of entries.
\<close>

section \<open>The message protocol\<close>

record Envelope =
  e_Type :: string
  e_State :: string
  e_MessageID :: string
  e_CausedBy :: string
  e_StreamID :: string
  e_Payload :: string
  e_Reason :: string
  e_Position :: int
  e_Generation :: int
  e_RetryAfterMS :: int
  e_MaxConnections :: "int option"
  e_ConnectRPS :: "f64 option"

definition no_envelope :: Envelope where
  "no_envelope = \<lparr> e_Type = '''', e_State = '''', e_MessageID = '''', e_CausedBy = '''', e_StreamID = '''',
     e_Payload = '''', e_Reason = '''', e_Position = 0, e_Generation = 0, e_RetryAfterMS = 0,
     e_MaxConnections = None, e_ConnectRPS = None \<rparr>"

definition decodeClientWebSocketMessage ::
  "(string \<Rightarrow> Envelope option) \<Rightarrow> string \<Rightarrow> string + Envelope" where
  "decodeClientWebSocketMessage unmarshal raw =
     (case unmarshal raw of
        None \<Rightarrow> Inl ''invalid json''
      | Some msg \<Rightarrow>
          if e_Type msg \<noteq> ''command'' then Inl ''clients may only send command messages''
          else if e_MessageID msg = '''' then Inl ''message_id is required''
          else if e_Payload msg = '''' then Inl ''payload is required''
          else Inr msg)"

definition decodeBackendWebSocketMessage ::
  "(string \<Rightarrow> Envelope option) \<Rightarrow> string \<Rightarrow> string + Envelope" where
  "decodeBackendWebSocketMessage unmarshal raw =
     (case unmarshal raw of
        None \<Rightarrow> Inl ''invalid json''
      | Some msg \<Rightarrow>
          if e_Type msg = ''ack'' then
            (if e_MessageID msg = '''' then Inl ''ack message_id is required'' else Inr msg)
          else if e_Type msg = ''event'' then
            (if e_MessageID msg = '''' then Inl ''event message_id is required''
             else if e_Payload msg = '''' then Inl ''event payload is required'' else Inr msg)
          else if e_Type msg = ''aqueduct.capacity'' then
            (if e_MaxConnections msg = None \<and> e_ConnectRPS msg = None
             then Inl ''capacity message must set max_connections or connect_rps''
             else if (case e_MaxConnections msg of Some n \<Rightarrow> n \<le> 0 | None \<Rightarrow> False)
             then Inl ''max_connections must be positive''
             else if (case e_ConnectRPS msg of Some r \<Rightarrow> r \<le> 0 | None \<Rightarrow> False)
             then Inl ''connect_rps must be positive''
             else Inr msg)
          else Inl ''unsupported backend message type'')"

section \<open>Stream identifiers\<close>

definition parseRedisStreamID :: "string \<Rightarrow> (int \<times> int) option" where
  "parseRedisStreamID i =
     (case str_cut (CHR ''-'') i of
        None \<Rightarrow> None
      | Some (ms, sequence) \<Rightarrow>
          (case parse_int64 ms of
             None \<Rightarrow> None
           | Some parsedMS \<Rightarrow>
               (case parse_int64 sequence of
                  None \<Rightarrow> None
                | Some parsedSequence \<Rightarrow> Some (parsedMS, parsedSequence))))"

definition compareRedisStreamIDs :: "string \<Rightarrow> string \<Rightarrow> int option" where
  "compareRedisStreamIDs left right =
     (case parseRedisStreamID left of
        None \<Rightarrow> None
      | Some (leftMS, leftSequence) \<Rightarrow>
          (case parseRedisStreamID right of
             None \<Rightarrow> None
           | Some (rightMS, rightSequence) \<Rightarrow>
               if leftMS < rightMS \<or> leftMS = rightMS \<and> leftSequence < rightSequence then Some (- 1)
               else if leftMS = rightMS \<and> leftSequence = rightSequence then Some 0
               else Some 1))"

definition defaultString :: "string \<Rightarrow> string \<Rightarrow> string" where
  "defaultString value fallback = (if value = '''' then fallback else value)"

section \<open>Transcript entries\<close>

type_synonym fields = "(string \<times> string) list"
type_synonym xmessage = "string \<times> fields"

record StreamEvent =
  se_StreamID :: string
  se_Direction :: string
  se_Envelope :: Envelope
  se_RecordedAt :: ms

datatype stream_error =
    SessionRequired
  | InvalidDirection string
  | TranscriptInvalid string string
  | StoreFailed string

text \<open>The field list \<open>Append\<close> hands to XADD, after its argument checks.\<close>

definition append_values :: "ms \<Rightarrow> string \<Rightarrow> string \<Rightarrow> Envelope \<Rightarrow> stream_error + fields" where
  "append_values now sessionID direction message =
     (if sessionID = '''' then Inl SessionRequired
      else if direction \<noteq> ''client'' \<and> direction \<noteq> ''backend'' then Inl (InvalidDirection direction)
      else Inr [(''direction'', direction), (''type'', e_Type message), (''message_id'', e_MessageID message),
                (''caused_by'', e_CausedBy message), (''payload'', e_Payload message),
                (''generation'', itoa (e_Generation message)), (''recorded_at'', itoa now)])"

definition decodeWebSocketStreamEvent :: "(string \<Rightarrow> bool) \<Rightarrow> xmessage \<Rightarrow> stream_error + StreamEvent" where
  "decodeWebSocketStreamEvent json_valid raw =
     (let value = (\<lambda>name. case map_of (snd raw) name of Some v \<Rightarrow> v | None \<Rightarrow> '''') in
      case parse_int64 (defaultString (value ''generation'') ''0'') of
        None \<Rightarrow> Inl (TranscriptInvalid (fst raw) ''generation'')
      | Some generation \<Rightarrow>
          (case parse_int64 (defaultString (value ''recorded_at'') ''0'') of
             None \<Rightarrow> Inl (TranscriptInvalid (fst raw) ''recorded_at'')
           | Some recordedAt \<Rightarrow>
               let payload = value ''payload'';
                   event = \<lparr> se_StreamID = fst raw, se_Direction = value ''direction'',
                             se_Envelope = no_envelope\<lparr> e_Type := value ''type'', e_MessageID := value ''message_id'',
                               e_CausedBy := value ''caused_by'', e_Generation := generation \<rparr>,
                             se_RecordedAt = recordedAt \<rparr>
               in if payload = '''' then Inr event
                  else if \<not> json_valid payload then Inl (TranscriptInvalid (fst raw) ''payload is not JSON'')
                  else Inr (event\<lparr> se_Envelope := (se_Envelope event)\<lparr> e_Payload := payload \<rparr> \<rparr>)))"

fun decode_all :: "(string \<Rightarrow> bool) \<Rightarrow> xmessage list \<Rightarrow> stream_error + StreamEvent list" where
  "decode_all json_valid [] = Inr []"
| "decode_all json_valid (raw # rest) =
     (case decodeWebSocketStreamEvent json_valid raw of
        Inl e \<Rightarrow> Inl e
      | Inr event \<Rightarrow>
          (case decode_all json_valid rest of Inl e \<Rightarrow> Inl e | Inr events \<Rightarrow> Inr (event # events)))"

text \<open>
  \<open>ReadAfter\<close> over XREAD, an argument that answers a failure or the entries of the
  one stream (\<^verbatim>\<open>redis.Nil\<close> is no entries).
\<close>

definition ReadAfter ::
  "(string \<Rightarrow> int \<Rightarrow> string + xmessage list) \<Rightarrow> (string \<Rightarrow> bool) \<Rightarrow> string \<Rightarrow> int \<Rightarrow> stream_error + StreamEvent list" where
  "ReadAfter xread json_valid after count =
     (let count' = (if count \<le> 0 then 100 else count);
          after' = (if after = '''' then ''0-0'' else after)
      in case xread after' count' of
           Inl e \<Rightarrow> Inl (StoreFailed e)
         | Inr raws \<Rightarrow> decode_all json_valid raws)"

datatype cursor_error = ReplayGap | CursorUnreadable string | CursorInvalid

definition CheckCursor :: "(string + xmessage list) \<Rightarrow> string \<Rightarrow> cursor_error option" where
  "CheckCursor oldest after =
     (if after = '''' \<or> after = ''0-0'' then None
      else case oldest of
             Inl e \<Rightarrow> Some (CursorUnreadable e)
           | Inr [] \<Rightarrow> Some ReplayGap
           | Inr (first # _) \<Rightarrow>
               (case compareRedisStreamIDs after (fst first) of
                  None \<Rightarrow> Some CursorInvalid
                | Some cmp \<Rightarrow> if cmp < 0 then Some ReplayGap else None))"

section \<open>Delivery to a client\<close>

text \<open>The part of a session that delivers: its cursor and the messages written so far.\<close>

record delivery =
  d_cursor :: string
  d_written :: "Envelope list"

definition to_client :: "StreamEvent \<Rightarrow> Envelope" where
  "to_client event = (se_Envelope event)\<lparr> e_StreamID := se_StreamID event \<rparr>"

text \<open>\<open>deliverEvents\<close>; the argument \<open>wr\<close> says which writes to the client succeed.\<close>

fun deliverEvents :: "(Envelope \<Rightarrow> bool) \<Rightarrow> StreamEvent list \<Rightarrow> delivery \<Rightarrow> delivery \<times> bool" where
  "deliverEvents wr [] d = (d, True)"
| "deliverEvents wr (event # events) d =
     (let d1 = d\<lparr> d_cursor := se_StreamID event \<rparr> in
      if se_Direction event \<noteq> ''backend'' then deliverEvents wr events d1
      else if \<not> wr (to_client event) then (d1, False)
      else deliverEvents wr events (d1\<lparr> d_written := d_written d1 @ [to_client event] \<rparr>))"

text \<open>One read and delivery; the flag says whether the loop goes round again.\<close>

datatype pass_result = Pass_Failed | Pass_Done | Pass_Again

definition replay_pass ::
  "(string \<Rightarrow> int \<Rightarrow> string + xmessage list) \<Rightarrow> (string \<Rightarrow> bool) \<Rightarrow> (Envelope \<Rightarrow> bool) \<Rightarrow> int \<Rightarrow> delivery \<Rightarrow> delivery \<times> pass_result" where
  "replay_pass xread json_valid wr batch d =
     (case ReadAfter xread json_valid (d_cursor d) batch of
        Inl e \<Rightarrow> (d, Pass_Failed)
      | Inr events \<Rightarrow>
          if events = [] then (d, Pass_Done)
          else let (d1, fine) = deliverEvents wr events d in
            if \<not> fine then (d1, Pass_Failed)
            else if int (length events) < batch then (d1, Pass_Done) else (d1, Pass_Again))"

fun replay_loop ::
  "nat \<Rightarrow> (string \<Rightarrow> int \<Rightarrow> string + xmessage list) \<Rightarrow> (string \<Rightarrow> bool) \<Rightarrow> (Envelope \<Rightarrow> bool) \<Rightarrow> int \<Rightarrow> delivery \<Rightarrow> (delivery \<times> bool) option" where
  "replay_loop 0 xread json_valid wr batch d = None"
| "replay_loop (Suc fuel) xread json_valid wr batch d =
     (case replay_pass xread json_valid wr batch d of
        (d1, Pass_Failed) \<Rightarrow> Some (d1, False)
      | (d1, Pass_Done) \<Rightarrow> Some (d1, True)
      | (d1, Pass_Again) \<Rightarrow> replay_loop fuel xread json_valid wr batch d1)"

text \<open>
  \<open>retryStore\<close>: the operation's outcomes, the clock readings after each attempt and
  the jitter draws are arguments, as is whether the context ended during a sleep.
\<close>

definition storeRetryFirstDelay :: ns where
  "storeRetryFirstDelay = 100 * millisecond"

definition storeRetryMaxDelay :: ns where
  "storeRetryMaxDelay = 2 * second"

datatype op_outcome = Op_Ok | Op_Transient | Op_Permanent

datatype retry_result = Retry_Ok | Retry_Error | Retry_Cancelled

fun retryStore ::
  "nat \<Rightarrow> (nat \<Rightarrow> op_outcome) \<Rightarrow> (nat \<Rightarrow> bool) \<Rightarrow> (nat \<Rightarrow> bool) \<Rightarrow> (nat \<Rightarrow> ns) \<Rightarrow> ns \<Rightarrow> nat \<Rightarrow> ns
     \<Rightarrow> (retry_result \<times> nat) option" where
  "retryStore 0 outcome ended interrupted now deadline attempt delay = None"
| "retryStore (Suc fuel) outcome ended interrupted now deadline attempt delay =
     (if outcome attempt = Op_Ok then Some (Retry_Ok, attempt)
      else if ended attempt \<or> outcome attempt = Op_Permanent \<or> now attempt + delay > deadline
      then Some (Retry_Error, attempt)
      else if interrupted attempt then Some (Retry_Cancelled, attempt)
      else retryStore fuel outcome ended interrupted now deadline (Suc attempt)
             (min (delay * 2) storeRetryMaxDelay))"

section \<open>Identifiers and entries\<close>

definition stream_id :: "int \<Rightarrow> int \<Rightarrow> string" where
  "stream_id t n = itoa t @ ''-'' @ itoa n"

lemma nat_digits_no_dash: "CHR ''-'' \<notin> set (nat_digits n)"
  using nat_digits_all_digits [of "CHR ''-''" n] digit_not_sign by blast

lemma parse_stream_id:
  assumes "0 \<le> t" "t \<le> int64_max" "0 \<le> n" "n \<le> int64_max"
  shows "parseRedisStreamID (stream_id t n) = Some (t, n)"
proof -
  have "CHR ''-'' \<notin> set (itoa t)" using assms(1) by (simp add: itoa_def nat_digits_no_dash)
  then have "str_cut (CHR ''-'') (stream_id t n) = Some (itoa t, itoa n)"
    by (simp add: stream_id_def str_cut_append)
  with assms show ?thesis
    by (simp add: parseRedisStreamID_def parse_int64_itoa int64_min_def)
qed

definition id_less :: "string \<Rightarrow> string \<Rightarrow> bool" where
  "id_less a b \<longleftrightarrow> compareRedisStreamIDs a b = Some (- 1)"

lemma id_less_iff:
  "id_less a b \<longleftrightarrow> (\<exists>x y x' y'. parseRedisStreamID a = Some (x, y) \<and> parseRedisStreamID b = Some (x', y')
     \<and> (x < x' \<or> x = x' \<and> y < y'))"
  by (auto simp: id_less_def compareRedisStreamIDs_def split: option.splits)

lemma id_less_trans: "id_less a b \<Longrightarrow> id_less b c \<Longrightarrow> id_less a c"
  by (auto simp: id_less_iff)

lemma id_less_irrefl: "\<not> id_less a a"
  by (auto simp: id_less_iff)

lemma id_less_asym: "id_less a b \<Longrightarrow> \<not> id_less b a"
  by (auto simp: id_less_iff)

definition stream_ok :: "xmessage list \<Rightarrow> bool" where
  "stream_ok es \<longleftrightarrow> sorted_wrt (\<lambda>e f. id_less (fst e) (fst f)) es \<and> (\<forall>e \<in> set es. parseRedisStreamID (fst e) \<noteq> None)"

definition entries_after :: "string \<Rightarrow> xmessage list \<Rightarrow> xmessage list" where
  "entries_after c es = filter (\<lambda>e. id_less c (fst e)) es"

lemma entries_after_step:
  assumes ok: "stream_ok es" and m: "0 < m" "m \<le> length (entries_after a es)"
  shows "entries_after (fst (entries_after a es ! (m - 1))) es = drop m (entries_after a es)"
proof -
  let ?W = "entries_after a es" and ?c = "fst (entries_after a es ! (m - 1))"
  have s: "sorted_wrt (\<lambda>e f. id_less (fst e) (fst f)) ?W"
    using ok by (simp add: stream_ok_def entries_after_def sorted_wrt_filter)
  have c: "id_less a ?c"
    using nth_mem [of "m - 1" ?W] m by (auto simp: entries_after_def)
  have "entries_after ?c es = filter (\<lambda>e. id_less ?c (fst e)) ?W"
    unfolding entries_after_def filter_filter
    by (rule filter_cong [OF refl]) (use c in \<open>auto simp: entries_after_def intro: id_less_trans\<close>)
  also have "\<dots> = filter (\<lambda>e. id_less ?c (fst e)) (take m ?W) @ filter (\<lambda>e. id_less ?c (fst e)) (drop m ?W)"
    by (metis append_take_drop_id filter_append)
  also have "filter (\<lambda>e. id_less ?c (fst e)) (take m ?W) = []"
  proof -
    have "\<not> id_less ?c (fst (?W ! k))" if "k < m" for k
    proof (cases "k = m - 1")
      case False
      with that m s have "id_less (fst (?W ! k)) ?c" by (auto simp: sorted_wrt_iff_nth_less)
      then show ?thesis by (rule id_less_asym)
    qed (simp add: id_less_irrefl)
    then show ?thesis using m(2) by (fastforce simp: filter_empty_conv in_set_conv_nth)
  qed
  also have "filter (\<lambda>e. id_less ?c (fst e)) (drop m ?W) = drop m ?W"
  proof -
    have "id_less ?c (fst (?W ! (m + i)))" if "i < length ?W - m" for i
      using s m that by (simp add: sorted_wrt_iff_nth_less)
    then show ?thesis by (fastforce simp: filter_id_conv in_set_conv_nth)
  qed
  finally show ?thesis by simp
qed

text \<open>The entries a client is sent, in order.\<close>

definition sent :: "(string \<Rightarrow> bool) \<Rightarrow> xmessage list \<Rightarrow> Envelope list" where
  "sent json_valid es =
     List.map_filter
       (\<lambda>e. case decodeWebSocketStreamEvent json_valid e of
              Inl _ \<Rightarrow> None
            | Inr event \<Rightarrow> if se_Direction event = ''backend'' then Some (to_client event) else None) es"

lemma sent_simps [simp]: "sent jv [] = []" "sent jv (es @ fs) = sent jv es @ sent jv fs"
  by (simp_all add: sent_def map_filter_def)

lemma decode_event_id: "decodeWebSocketStreamEvent jv e = Inr event \<Longrightarrow> se_StreamID event = fst e"
  by (auto simp: decodeWebSocketStreamEvent_def Let_def split: option.splits if_splits)

lemma decode_all_Inr:
  "decode_all jv es = Inr events \<Longrightarrow>
     list_all2 (\<lambda>e event. decodeWebSocketStreamEvent jv e = Inr event) es events"
  by (induction es arbitrary: events) (auto split: sum.splits)

lemma deliverEvents_prefix:
  assumes "list_all2 (\<lambda>e event. decodeWebSocketStreamEvent jv e = Inr event) es events"
    and "deliverEvents wr events d = (d', fine)"
  shows "\<exists>m \<le> length es. d_written d' = d_written d @ sent jv (take m es)
    \<and> (fine \<longrightarrow> m = length es \<and> d_cursor d' = (if es = [] then d_cursor d else fst (List.last es)))"
  using assms
proof (induction es events arbitrary: d rule: list_all2_induct)
  case (Cons e es event events)
  define d1 where "d1 = d\<lparr> d_cursor := se_StreamID event \<rparr>"
  have c: "d_cursor d1 = fst e" using decode_event_id [OF Cons(1)] by (simp add: d1_def)
  consider (skip) "se_Direction event \<noteq> ''backend''"
    | (broken) "se_Direction event = ''backend''" "\<not> wr (to_client event)"
    | (written) "se_Direction event = ''backend''" "wr (to_client event)" by blast
  then show ?case
  proof cases
    case skip
    with Cons.prems have "deliverEvents wr events d1 = (d', fine)" by (simp add: d1_def)
    from Cons.IH [OF this] obtain m where "m \<le> length es"
      "d_written d' = d_written d1 @ sent jv (take m es)"
      "fine \<longrightarrow> m = length es \<and> d_cursor d' = (if es = [] then d_cursor d1 else fst (List.last es))" by blast
    with skip Cons(1) c show ?thesis
      by (intro exI [of _ "Suc m"]) (auto simp: d1_def sent_def map_filter_simps)
  next
    case broken
    with Cons.prems show ?thesis by (intro exI [of _ 0]) (auto simp: Let_def)
  next
    case written
    define d2 where "d2 = d1\<lparr> d_written := d_written d1 @ [to_client event] \<rparr>"
    from written Cons.prems have "deliverEvents wr events d2 = (d', fine)" by (simp add: d1_def d2_def)
    from Cons.IH [OF this] obtain m where "m \<le> length es"
      "d_written d' = d_written d2 @ sent jv (take m es)"
      "fine \<longrightarrow> m = length es \<and> d_cursor d' = (if es = [] then d_cursor d2 else fst (List.last es))" by blast
    with written Cons(1) c show ?thesis
      by (intro exI [of _ "Suc m"]) (auto simp: d1_def d2_def sent_def map_filter_simps)
  qed
qed auto

section \<open>The Redis stream\<close>

text \<open>
  XREAD answers the first entries after an identifier, XRANGE with a count of one the
  oldest entry, and XADD with MAXLEN appends an entry and may drop the oldest ones.
\<close>

locale redis_stream =
  fixes entries :: "'db \<Rightarrow> xmessage list"
    and xread :: "'db \<Rightarrow> string \<Rightarrow> int \<Rightarrow> string + xmessage list"
    and xoldest :: "'db \<Rightarrow> string + xmessage list"
    and xadd :: "xmessage \<Rightarrow> 'db \<Rightarrow> 'db"
  assumes xread_answer: "xread db c n = Inr raws \<Longrightarrow> 0 < n \<Longrightarrow> stream_ok (entries db) \<Longrightarrow>
      parseRedisStreamID c \<noteq> None \<Longrightarrow> raws = take (nat n) (entries_after c (entries db))"
    and xoldest_answer: "xoldest db = Inr raws \<Longrightarrow> raws = take 1 (entries db)"
    and xadd_entries: "\<exists>k. entries (xadd e db) = drop k (entries db @ [e])"
begin

lemma ReadAfter_answer:
  assumes "ReadAfter (xread db) jv c n = Inr events" "0 < n" "stream_ok (entries db)" "parseRedisStreamID c \<noteq> None"
  shows "list_all2 (\<lambda>e event. decodeWebSocketStreamEvent jv e = Inr event)
           (take (nat n) (entries_after c (entries db))) events"
proof -
  have "c \<noteq> ''''" using assms(4) by (auto simp: parseRedisStreamID_def str_cut_def)
  with assms(1,2) obtain raws where r: "xread db c n = Inr raws" "decode_all jv raws = Inr events"
    by (auto simp: ReadAfter_def Let_def split: sum.splits)
  with xread_answer [OF r(1) assms(2-4)] show ?thesis by (simp add: decode_all_Inr)
qed

lemma replay_pass_prefix:
  assumes p: "replay_pass (xread db) jv wr batch d = (d', r)" and "0 < batch" "stream_ok (entries db)"
    and c: "parseRedisStreamID (d_cursor d) \<noteq> None"
  defines "R \<equiv> entries_after (d_cursor d) (entries db)"
  shows "\<exists>m \<le> length R. d_written d' = d_written d @ sent jv (take m R)
    \<and> (r \<noteq> Pass_Failed \<longrightarrow> d_cursor d' = (if m = 0 then d_cursor d else fst (R ! (m - 1))))
    \<and> (r = Pass_Done \<longrightarrow> m = length R) \<and> (r = Pass_Again \<longrightarrow> 0 < m)"
proof (cases "ReadAfter (xread db) jv (d_cursor d) batch")
  case (Inl e)
  with p show ?thesis by (intro exI [of _ 0]) (auto simp: replay_pass_def)
next
  case (Inr events)
  note A = ReadAfter_answer [OF Inr assms(2,3) c, folded R_def]
  let ?b = "take (nat batch) R"
  have len: "length events = length ?b" using list_all2_lengthD [OF A] by simp
  obtain d1 fine where d1: "deliverEvents wr events d = (d1, fine)" by (metis surj_pair)
  from deliverEvents_prefix [OF A d1] obtain m where m: "m \<le> length ?b"
    "d_written d1 = d_written d @ sent jv (take m ?b)"
    "fine \<longrightarrow> m = length ?b \<and> d_cursor d1 = (if ?b = [] then d_cursor d else fst (List.last ?b))" by blast
  have tk: "take m ?b = take m R" "m \<le> length R" using m(1) by (simp_all add: min_absorb1)
  show ?thesis
  proof (cases "events = []")
    case True
    then have "R = []" using len assms(2) by (auto simp: min_def split: if_splits)
    with True Inr p show ?thesis by (intro exI [of _ 0]) (auto simp: replay_pass_def)
  next
    case False
    then have ne: "?b \<noteq> []" using len by auto
    have lb: "List.last ?b = R ! (length ?b - 1)" using ne by (subst last_conv_nth) (auto simp: min_def)
    have res: "d' = d1" "r = (if \<not> fine then Pass_Failed else if int (length events) < batch then Pass_Done else Pass_Again)"
      using p Inr False d1 by (auto simp: replay_pass_def split: if_splits)
    have "length R = m" if "int (length events) < batch" "fine"
      using that len m(3) by (auto simp: min_def split: if_splits)
    with res m tk ne lb show ?thesis by (intro exI [of _ m]) (auto split: if_splits)
  qed
qed

lemma replay_loop_returns:
  assumes "0 < batch" "stream_ok (entries db)" "parseRedisStreamID (d_cursor d) \<noteq> None"
    and "length (entries_after (d_cursor d) (entries db)) < fuel"
  shows "\<exists>d' b. replay_loop fuel (xread db) jv wr batch d = Some (d', b)
    \<and> (b \<longrightarrow> d_written d' = d_written d @ sent jv (entries_after (d_cursor d) (entries db)))"
  using assms(3,4)
proof (induction fuel arbitrary: d)
  case (Suc fuel)
  let ?R = "entries_after (d_cursor d) (entries db)"
  obtain d1 r where p: "replay_pass (xread db) jv wr batch d = (d1, r)" by (metis surj_pair)
  from replay_pass_prefix [OF p assms(1,2) Suc.prems(1)] obtain m where m: "m \<le> length ?R"
    "d_written d1 = d_written d @ sent jv (take m ?R)"
    "r \<noteq> Pass_Failed \<longrightarrow> d_cursor d1 = (if m = 0 then d_cursor d else fst (?R ! (m - 1)))"
    "r = Pass_Done \<longrightarrow> m = length ?R" "r = Pass_Again \<longrightarrow> 0 < m" by blast
  show ?case
  proof (cases r)
    case Pass_Again
    with m have m0: "0 < m" and c: "d_cursor d1 = fst (?R ! (m - 1))" by auto
    have rest: "entries_after (d_cursor d1) (entries db) = drop m ?R"
      unfolding c by (rule entries_after_step [OF assms(2) m0 m(1)])
    have "?R ! (m - 1) \<in> set (entries db)"
      using nth_mem [of "m - 1" ?R] m0 m(1) by (auto simp: entries_after_def)
    then have "parseRedisStreamID (d_cursor d1) \<noteq> None"
      using assms(2) c by (auto simp: stream_ok_def)
    moreover have "length (entries_after (d_cursor d1) (entries db)) < fuel"
      using Suc.prems(2) m0 m(1) by (simp add: rest)
    ultimately obtain d' b where "replay_loop fuel (xread db) jv wr batch d1 = Some (d', b)"
      "b \<longrightarrow> d_written d' = d_written d1 @ sent jv (drop m ?R)"
      using Suc.IH rest by metis
    moreover have "sent jv (take m ?R) @ sent jv (drop m ?R) = sent jv ?R"
      by (metis append_take_drop_id sent_simps(2))
    ultimately show ?thesis using p Pass_Again m(2) by auto
  qed (use p m in auto)
qed simp

end

section \<open>Sessions beside a growing transcript\<close>

text \<open>
  The transcript as others extend it while a session delivers: \<open>dl_log\<close> is every entry
  ever recorded, the store holds the tail of it that retention has kept.
\<close>

record 'db delivering =
  dl_db :: 'db
  dl_log :: "xmessage list"
  dl_state :: delivery
  dl_alive :: bool

datatype 'db delivery_event = Recorded "xmessage list" 'db | Delivers "Envelope \<Rightarrow> bool"

definition deliver_step ::
  "('db \<Rightarrow> string \<Rightarrow> int \<Rightarrow> string + xmessage list) \<Rightarrow> (string \<Rightarrow> bool) \<Rightarrow> int \<Rightarrow> 'db delivery_event \<Rightarrow> 'db delivering \<Rightarrow> 'db delivering" where
  "deliver_step xread jv batch ev s =
     (case ev of
        Recorded new db \<Rightarrow> s\<lparr> dl_db := db, dl_log := dl_log s @ new \<rparr>
      | Delivers wr \<Rightarrow>
          if dl_alive s
          then let (d, r) = replay_pass (xread (dl_db s)) jv wr batch (dl_state s)
               in s\<lparr> dl_state := d, dl_alive := r \<noteq> Pass_Failed \<rparr>
          else s)"

definition retained :: "('db \<Rightarrow> xmessage list) \<Rightarrow> string \<Rightarrow> xmessage list \<Rightarrow> 'db \<Rightarrow> bool" where
  "retained entries c es db \<longleftrightarrow>
     (\<exists>k. entries db = drop k es \<and> (\<forall>e \<in> set (take k es). \<not> id_less c (fst e)))"

definition deliver_allowed :: "('db \<Rightarrow> xmessage list) \<Rightarrow> int \<Rightarrow> 'db delivery_event \<Rightarrow> 'db delivering \<Rightarrow> bool" where
  "deliver_allowed entries batch ev s =
     (case ev of
        Recorded new db \<Rightarrow>
          stream_ok (dl_log s @ new) \<and> retained entries (d_cursor (dl_state s)) (dl_log s @ new) db
      | Delivers wr \<Rightarrow> 0 < batch)"

definition delivering_ok :: "('db \<Rightarrow> xmessage list) \<Rightarrow> (string \<Rightarrow> bool) \<Rightarrow> string \<Rightarrow> 'db delivering \<Rightarrow> bool" where
  "delivering_ok entries jv a s \<longleftrightarrow>
     stream_ok (dl_log s) \<and> parseRedisStreamID a \<noteq> None
     \<and> (\<exists>m \<le> length (entries_after a (dl_log s)).
          d_written (dl_state s) = sent jv (take m (entries_after a (dl_log s)))
          \<and> (dl_alive s \<longrightarrow>
               d_cursor (dl_state s) = (if m = 0 then a else fst (entries_after a (dl_log s) ! (m - 1)))
               \<and> retained entries (d_cursor (dl_state s)) (dl_log s) (dl_db s)))"

lemma delivering_okI:
  assumes "stream_ok (dl_log s)" "parseRedisStreamID a \<noteq> None" "m \<le> length (entries_after a (dl_log s))"
    "d_written (dl_state s) = sent jv (take m (entries_after a (dl_log s)))"
    "dl_alive s \<Longrightarrow> d_cursor (dl_state s) = (if m = 0 then a else fst (entries_after a (dl_log s) ! (m - 1)))"
    "dl_alive s \<Longrightarrow> retained entries (d_cursor (dl_state s)) (dl_log s) (dl_db s)"
  shows "delivering_ok entries jv a s"
  unfolding delivering_ok_def using assms by metis

lemma retained_after: "retained entries c es db \<Longrightarrow> entries_after c (entries db) = entries_after c es"
  unfolding retained_def entries_after_def
  by (metis (no_types, lifting) append_Nil append_take_drop_id filter_append filter_empty_conv)

lemma retained_mono: "retained entries c es db \<Longrightarrow> id_less c c' \<Longrightarrow> retained entries c' es db"
  unfolding retained_def by (meson id_less_trans)

lemma retained_ok: "retained entries c es db \<Longrightarrow> stream_ok es \<Longrightarrow> stream_ok (entries db)"
  by (fastforce simp: retained_def stream_ok_def intro: sorted_wrt_drop dest: in_set_dropD)

lemma delivering_ok_cursor:
  assumes "delivering_ok entries jv a s" and "dl_alive s"
  obtains m where "m \<le> length (entries_after a (dl_log s))"
    "d_written (dl_state s) = sent jv (take m (entries_after a (dl_log s)))"
    "d_cursor (dl_state s) = (if m = 0 then a else fst (entries_after a (dl_log s) ! (m - 1)))"
    "entries_after (d_cursor (dl_state s)) (dl_log s) = drop m (entries_after a (dl_log s))"
    "parseRedisStreamID (d_cursor (dl_state s)) \<noteq> None"
    "retained entries (d_cursor (dl_state s)) (dl_log s) (dl_db s)"
proof -
  let ?W = "entries_after a (dl_log s)"
  from assms obtain m where m: "m \<le> length ?W" "d_written (dl_state s) = sent jv (take m ?W)"
    "d_cursor (dl_state s) = (if m = 0 then a else fst (?W ! (m - 1)))"
    "retained entries (d_cursor (dl_state s)) (dl_log s) (dl_db s)"
    and ok: "stream_ok (dl_log s)" "parseRedisStreamID a \<noteq> None"
    by (auto simp: delivering_ok_def)
  have "entries_after (d_cursor (dl_state s)) (dl_log s) = drop m ?W"
    using m(1,3) entries_after_step [OF ok(1), of m a] by (cases "m = 0") auto
  moreover have "?W ! (m - 1) \<in> set (dl_log s)" if "0 < m"
    using nth_mem [of "m - 1" ?W] that m(1) by (auto simp: entries_after_def)
  then have "parseRedisStreamID (d_cursor (dl_state s)) \<noteq> None"
    using m(3) ok by (auto simp: stream_ok_def)
  ultimately show ?thesis using that m by blast
qed

context redis_stream
begin

lemma delivering_step_ok:
  assumes inv: "delivering_ok entries jv a s" and al: "deliver_allowed entries batch ev s"
  shows "delivering_ok entries jv a (deliver_step xread jv batch ev s)"
proof (cases ev)
  case (Recorded new db)
  let ?W = "entries_after a (dl_log s)"
  have W: "entries_after a (dl_log s @ new) = ?W @ entries_after a new"
    by (simp add: entries_after_def)
  from inv obtain m where m: "m \<le> length ?W" "d_written (dl_state s) = sent jv (take m ?W)"
    "dl_alive s \<longrightarrow> d_cursor (dl_state s) = (if m = 0 then a else fst (?W ! (m - 1)))"
    and a: "parseRedisStreamID a \<noteq> None" by (auto simp: delivering_ok_def)
  have nth: "(?W @ entries_after a new) ! (m - 1) = ?W ! (m - 1)" if "m \<noteq> 0"
    using m(1) that by (intro nth_append_left) linarith
  from al Recorded have "stream_ok (dl_log s @ new)"
    "retained entries (d_cursor (dl_state s)) (dl_log s @ new) db" by (simp_all add: deliver_allowed_def)
  with m a nth Recorded show ?thesis
    by (intro delivering_okI [where m = m]) (auto simp: deliver_step_def W)
next
  case (Delivers wr)
  with al have b: "0 < batch" by (simp add: deliver_allowed_def)
  show ?thesis
  proof (cases "dl_alive s")
    case True
    let ?W = "entries_after a (dl_log s)" and ?d = "dl_state s"
    from delivering_ok_cursor [OF inv True] obtain m where m: "m \<le> length ?W"
      "d_written ?d = sent jv (take m ?W)" "d_cursor ?d = (if m = 0 then a else fst (?W ! (m - 1)))"
      "entries_after (d_cursor ?d) (dl_log s) = drop m ?W" "parseRedisStreamID (d_cursor ?d) \<noteq> None"
      "retained entries (d_cursor ?d) (dl_log s) (dl_db s)" by blast
    obtain d' r where p: "replay_pass (xread (dl_db s)) jv wr batch ?d = (d', r)" by (metis surj_pair)
    have ok: "stream_ok (dl_log s)" using inv by (simp add: delivering_ok_def)
    have R: "entries_after (d_cursor ?d) (entries (dl_db s)) = drop m ?W"
      using retained_after [OF m(6)] m(4) by simp
    from replay_pass_prefix [OF p b retained_ok [OF m(6) ok] m(5), unfolded R] obtain n where
      n: "n \<le> length (drop m ?W)" "d_written d' = d_written ?d @ sent jv (take n (drop m ?W))"
      "r \<noteq> Pass_Failed \<longrightarrow> d_cursor d' = (if n = 0 then d_cursor ?d else fst (drop m ?W ! (n - 1)))" by blast
    have w: "d_written d' = sent jv (take (m + n) ?W)"
      using n(2) m(2) by (simp add: take_add)
    have cur: "d_cursor d' = (if m + n = 0 then a else fst (?W ! (m + n - 1)))" if "r \<noteq> Pass_Failed"
      using n(1,3) m(1,3) that by (auto simp: nth_drop)
    have keep: "retained entries (d_cursor d') (dl_log s) (dl_db s)" if "r \<noteq> Pass_Failed"
    proof (cases "n = 0")
      case False
      then have "drop m ?W ! (n - 1) \<in> set (entries_after (d_cursor ?d) (dl_log s))"
        using n(1) m(4) by (metis diff_less le_zero_eq less_le_trans neq0_conv nth_mem zero_less_one)
      then have "id_less (d_cursor ?d) (d_cursor d')"
        using n(3) that False by (auto simp: entries_after_def)
      then show ?thesis by (rule retained_mono [OF m(6)])
    qed (use n(3) that m(6) in simp)
    have "m + n \<le> length ?W" using n(1) m(1) by simp
    then show ?thesis
      using inv w cur keep p True Delivers
      by (intro delivering_okI [where m = "m + n"]) (auto simp: delivering_ok_def deliver_step_def)
  qed (use inv Delivers in \<open>simp add: deliver_step_def\<close>)
qed

lemma checked_cursor_retained:
  assumes "CheckCursor (Inr (take 1 (entries db))) a = None" and "parseRedisStreamID a \<noteq> None"
    and ok: "stream_ok es" and e: "entries db = drop k es" and "a = ''0-0'' \<longrightarrow> k = 0"
  shows "retained entries a es db"
proof (cases "k = 0")
  case True
  then show ?thesis using e by (auto simp: retained_def intro: exI [of _ 0])
next
  case False
  have "a \<noteq> ''''" using assms(2) by (auto simp: parseRedisStreamID_def str_cut_def)
  moreover have "a \<noteq> ''0-0''" using False assms(5) by simp
  ultimately have "drop k es \<noteq> []" using assms(1) by (auto simp: CheckCursor_def e)
  then obtain first rest where d: "drop k es = first # rest" by (cases "drop k es") auto
  then have "compareRedisStreamIDs a (fst first) \<noteq> Some (- 1)"
    using assms(1) \<open>a \<noteq> ''''\<close> \<open>a \<noteq> ''0-0''\<close> by (auto simp: CheckCursor_def e)
  note f = d this
  have k: "k < length es" "es ! k = first"
    using d by (auto simp: nth_via_drop) (metis drop_all list.distinct(1) not_le)
  have "id_less (fst (es ! i)) (fst first)" if "i < k" for i
    using ok k that by (auto simp: stream_ok_def sorted_wrt_iff_nth_less)
  then have "\<not> id_less a (fst (es ! i))" if "i < k" for i
    using that f(2) id_less_trans unfolding id_less_def [of a "fst first", symmetric] by blast
  then have "\<forall>e \<in> set (take k es). \<not> id_less a (fst e)"
    by (fastforce simp: in_set_conv_nth)
  with e show ?thesis by (auto simp: retained_def)
qed

sublocale deliveries: state_machine "deliver_step xread jv batch" "deliver_allowed entries batch"
    "delivering_ok entries jv a" for jv batch a
  by unfold_locales (rule delivering_step_ok)

lemma run_delivering_ok:
  "delivering_ok entries jv a s \<Longrightarrow> ok_run (deliver_step xread jv batch) (deliver_allowed entries batch) evs s \<Longrightarrow>
   delivering_ok entries jv a (fold (deliver_step xread jv batch) evs s)"
  by (rule deliveries.run_inv)

end

definition mem_xread :: "xmessage list \<Rightarrow> string \<Rightarrow> int \<Rightarrow> string + xmessage list" where
  "mem_xread db c n = Inr (take (nat n) (entries_after c db))"

definition mem_xoldest :: "xmessage list \<Rightarrow> string + xmessage list" where
  "mem_xoldest db = Inr (take 1 db)"

definition mem_xadd :: "xmessage \<Rightarrow> xmessage list \<Rightarrow> xmessage list" where
  "mem_xadd e db = db @ [e]"

definition mem_entries :: "xmessage list \<Rightarrow> xmessage list" where
  "mem_entries db = db"

interpretation mem_stream: redis_stream mem_entries mem_xread mem_xoldest mem_xadd
  by unfold_locales (auto simp: mem_xread_def mem_xoldest_def mem_xadd_def mem_entries_def intro: exI [of _ 0])

lemma retryStore_returns:
  assumes sleeps: "\<And>k. now k + storeRetryFirstDelay \<le> now (Suc k)"
    and "storeRetryFirstDelay \<le> delay" and "deadline < now attempt + int fuel * storeRetryFirstDelay"
  shows "\<exists>r n. retryStore (Suc fuel) outcome ended interrupted now deadline attempt delay = Some (r, n)
    \<and> (r = Retry_Ok \<longleftrightarrow> outcome n = Op_Ok)"
  using assms(2,3)
proof (induction fuel arbitrary: attempt delay)
  case 0
  then show ?case by (auto simp: storeRetryFirstDelay_def)
next
  case (Suc fuel)
  have "storeRetryFirstDelay \<le> min (delay * 2) storeRetryMaxDelay"
    using Suc.prems(1) by (simp add: storeRetryFirstDelay_def storeRetryMaxDelay_def)
  moreover have "deadline < now (Suc attempt) + int fuel * storeRetryFirstDelay"
    using Suc.prems(2) sleeps [of attempt] by (simp add: algebra_simps)
  ultimately show ?case
    using Suc.IH [of "min (delay * 2) storeRetryMaxDelay" "Suc attempt"]
    by (subst retryStore.simps) (auto simp del: retryStore.simps)
qed

section \<open>Properties\<close>

text \<open>(C30) A message recorded in a transcript is read back as it was: for a session, a known direction
  and a payload that is empty or valid JSON, the entry \<open>Append\<close> writes decodes to an event
  with the entry's identifier, the direction, the recording time, and the type, message id,
  causal id, generation and payload of the message; the other fields of the envelope,
  which only Aquifer's own status messages use, come back empty.  Any other direction is
  refused.\<close>

theorem transcript_roundtrip:
  assumes "sessionID \<noteq> ''''" and "int64_min \<le> e_Generation msg" "e_Generation msg \<le> int64_max"
    and "int64_min \<le> now" "now \<le> int64_max"
  shows "case append_values now sessionID direction msg of
      Inl err \<Rightarrow> direction \<notin> {''client'', ''backend''}
    | Inr values \<Rightarrow> direction \<in> {''client'', ''backend''} \<and>
        decodeWebSocketStreamEvent json_valid (i, values) =
          (if e_Payload msg \<noteq> '''' \<and> \<not> json_valid (e_Payload msg)
           then Inl (TranscriptInvalid i ''payload is not JSON'')
           else Inr \<lparr> se_StreamID = i, se_Direction = direction,
             se_Envelope = no_envelope\<lparr> e_Type := e_Type msg, e_MessageID := e_MessageID msg,
               e_CausedBy := e_CausedBy msg, e_Generation := e_Generation msg, e_Payload := e_Payload msg \<rparr>,
             se_RecordedAt = now \<rparr>)"
proof -
  have "defaultString (itoa n) ''0'' = itoa n" for n
    by (simp add: defaultString_def itoa_def)
  then show ?thesis
    using assms by (auto simp: append_values_def decodeWebSocketStreamEvent_def Let_def parse_int64_itoa no_envelope_def)
qed

definition sample_message :: Envelope where
  "sample_message = no_envelope\<lparr> e_Type := ''event'', e_MessageID := ''m1'', e_Payload := ''{}'', e_Generation := 3 \<rparr>"

theorem transcript_roundtrip_witness:
  "append_values 7 ''s'' ''backend'' sample_message =
     Inr [(''direction'', ''backend''), (''type'', ''event''), (''message_id'', ''m1''), (''caused_by'', ''''),
          (''payload'', ''{}''), (''generation'', ''3''), (''recorded_at'', ''7'')]
   \<and> decodeWebSocketStreamEvent (\<lambda>p. p = ''{}'') (''5-0'',
       [(''direction'', ''backend''), (''type'', ''event''), (''message_id'', ''m1''), (''caused_by'', ''''),
        (''payload'', ''{}''), (''generation'', ''3''), (''recorded_at'', ''7'')]) =
     Inr \<lparr> se_StreamID = ''5-0'', se_Direction = ''backend'', se_Envelope = sample_message, se_RecordedAt = 7 \<rparr>"
proof -
  have a: "append_values 7 ''s'' ''backend'' sample_message =
     Inr [(''direction'', ''backend''), (''type'', ''event''), (''message_id'', ''m1''), (''caused_by'', ''''),
          (''payload'', ''{}''), (''generation'', ''3''), (''recorded_at'', ''7'')]" by code_simp
  show ?thesis
    using transcript_roundtrip [of "''s''" sample_message 7 "''backend''" "\<lambda>p. p = ''{}''" "''5-0''"]
    unfolding a by (simp add: sample_message_def no_envelope_def int64_min_def int64_max_def)
qed

text \<open>(C13) A client gets its transcript exactly once and in order.  A session whose cursor passed
  \<open>CheckCursor\<close> reads a transcript that grows while it delivers, and whose retention does
  not overtake it.  Whatever is recorded and whichever writes fail, what the client was
  sent is a prefix, with nothing left out and nothing repeated, of the backend messages
  recorded after its starting point; while the session lives its cursor stands exactly at
  the end of that prefix, and the replay loop returns, having sent every one of them
  unless a read or a write failed.\<close>

theorem delivery_exact:
  assumes "redis_stream entries xread xoldest xadd"
    and "parseRedisStreamID a \<noteq> None" and "stream_ok es" and "entries db = drop k es"
    and "CheckCursor (Inr (take 1 (entries db))) a = None" and "a = ''0-0'' \<longrightarrow> k = 0"
    and "ok_run (deliver_step xread jv batch) (deliver_allowed entries batch) evs
           \<lparr> dl_db = db, dl_log = es, dl_state = \<lparr> d_cursor = a, d_written = [] \<rparr>, dl_alive = True \<rparr>"
    and "0 < batch"
  defines "s \<equiv> fold (deliver_step xread jv batch) evs
           \<lparr> dl_db = db, dl_log = es, dl_state = \<lparr> d_cursor = a, d_written = [] \<rparr>, dl_alive = True \<rparr>"
  shows "\<exists>m \<le> length (entries_after a (dl_log s)).
      d_written (dl_state s) = sent jv (take m (entries_after a (dl_log s)))
      \<and> (dl_alive s \<longrightarrow>
           entries_after (d_cursor (dl_state s)) (dl_log s) = drop m (entries_after a (dl_log s))
           \<and> (\<forall>wr fuel. length (dl_log s) < fuel \<longrightarrow>
                (\<exists>d' b. replay_loop fuel (xread (dl_db s)) jv wr batch (dl_state s) = Some (d', b)
                  \<and> (b \<longrightarrow> d_written d' = sent jv (entries_after a (dl_log s))))))"
proof -
  have "retained entries a es db"
    by (rule redis_stream.checked_cursor_retained [OF assms(1,5,2,3,4,6)])
  then have "delivering_ok entries jv a
      \<lparr> dl_db = db, dl_log = es, dl_state = \<lparr> d_cursor = a, d_written = [] \<rparr>, dl_alive = True \<rparr>"
    using assms(2,3) by (intro delivering_okI [where m = 0]) auto
  from redis_stream.run_delivering_ok [OF assms(1) this assms(7)]
  have inv: "delivering_ok entries jv a s" by (simp add: s_def)
  let ?W = "entries_after a (dl_log s)"
  show ?thesis
  proof (cases "dl_alive s")
    case False
    from inv obtain m where "m \<le> length ?W" "d_written (dl_state s) = sent jv (take m ?W)"
      unfolding delivering_ok_def by blast
    with False show ?thesis by (intro exI [of _ m] conjI) simp_all
  next
    case True
    obtain m where m: "m \<le> length ?W" "d_written (dl_state s) = sent jv (take m ?W)"
      "d_cursor (dl_state s) = (if m = 0 then a else fst (?W ! (m - 1)))"
      "entries_after (d_cursor (dl_state s)) (dl_log s) = drop m ?W"
      "parseRedisStreamID (d_cursor (dl_state s)) \<noteq> None"
      "retained entries (d_cursor (dl_state s)) (dl_log s) (dl_db s)"
      by (rule delivering_ok_cursor [OF inv True])
    have R: "entries_after (d_cursor (dl_state s)) (entries (dl_db s)) = drop m ?W"
      using retained_after [OF m(6)] m(4) by simp
    have ok: "stream_ok (entries (dl_db s))"
      using retained_ok [OF m(6)] inv by (simp add: delivering_ok_def)
    have all: "sent jv (take m ?W) @ sent jv (drop m ?W) = sent jv ?W"
      by (metis append_take_drop_id sent_simps(2))
    have "\<exists>d' b. replay_loop fuel (xread (dl_db s)) jv wr batch (dl_state s) = Some (d', b)
        \<and> (b \<longrightarrow> d_written d' = sent jv ?W)" if "length (dl_log s) < fuel" for wr fuel
    proof -
      have "length (drop m ?W) < fuel"
        using that length_filter_le [of "\<lambda>e. id_less a (fst e)" "dl_log s"]
        unfolding entries_after_def length_drop by linarith
      then show ?thesis
        using redis_stream.replay_loop_returns [OF assms(1) assms(8) ok m(5), unfolded R, of fuel jv wr] m(2) all
        by auto
    qed
    with m(1,2,4) show ?thesis by (intro exI [of _ m] conjI impI allI) simp_all
  qed
qed

definition sample_entry :: "string \<Rightarrow> string \<Rightarrow> xmessage" where
  "sample_entry i direction = (i, [(''direction'', direction), (''type'', ''event''), (''message_id'', i)])"

definition sample_transcript :: "xmessage list" where
  "sample_transcript = [sample_entry ''1-0'' ''backend'', sample_entry ''2-0'' ''client'', sample_entry ''3-0'' ''backend'']"

definition sample_late :: xmessage where
  "sample_late = sample_entry ''3-1'' ''backend''"

definition sample_events :: "xmessage list delivery_event list" where
  "sample_events = [Delivers (\<lambda>_. True), Recorded [sample_late] (sample_transcript @ [sample_late]), Delivers (\<lambda>_. True)]"

definition sample_delivering :: "xmessage list delivering" where
  "sample_delivering = \<lparr> dl_db = sample_transcript, dl_log = sample_transcript,
     dl_state = \<lparr> d_cursor = ''1-0'', d_written = [] \<rparr>, dl_alive = True \<rparr>"

lemma sample_delivery_facts:
  "parseRedisStreamID ''1-0'' \<noteq> None" "stream_ok sample_transcript" "stream_ok (sample_transcript @ [sample_late])"
  "CheckCursor (Inr (take 1 sample_transcript)) ''1-0'' = None"
  "map e_StreamID (sent (\<lambda>_. True) (entries_after ''1-0'' (sample_transcript @ [sample_late]))) = [''3-0'', ''3-1'']"
  by code_simp+

lemma sample_delivery_run:
  "ok_run (deliver_step mem_xread (\<lambda>_. True) 2) (deliver_allowed mem_entries 2) sample_events sample_delivering"
proof -
  have "retained mem_entries c (sample_transcript @ [sample_late]) (sample_transcript @ [sample_late])" for c
    by (auto simp: retained_def mem_entries_def intro: exI [of _ 0])
  then show ?thesis
    by (simp add: sample_events_def sample_delivering_def deliver_allowed_def deliver_step_def sample_delivery_facts
        split: prod.splits)
qed

theorem delivery_exact_witness:
  "\<exists>m \<le> 3. d_written (dl_state (fold (deliver_step mem_xread (\<lambda>_. True) 2) sample_events sample_delivering))
     = sent (\<lambda>_. True) (take m (entries_after ''1-0'' (sample_transcript @ [sample_late])))"
proof -
  have a: "dl_log (fold (deliver_step mem_xread (\<lambda>_. True) 2) sample_events sample_delivering) = sample_transcript @ [sample_late]"
    by (simp add: sample_events_def sample_delivering_def deliver_step_def split: prod.splits)
  have b: "length (entries_after ''1-0'' (sample_transcript @ [sample_late])) = 3" by code_simp
  have e: "mem_entries sample_transcript = drop 0 sample_transcript" by (simp add: mem_entries_def)
  have c: "CheckCursor (Inr (take 1 (mem_entries sample_transcript))) ''1-0'' = None"
    using sample_delivery_facts(4) by (simp add: mem_entries_def)
  show ?thesis
    using delivery_exact [OF mem_stream.redis_stream_axioms sample_delivery_facts(1,2) e c, of "\<lambda>_. True" 2 sample_events]
      sample_delivery_run [unfolded sample_delivering_def] a b
    unfolding sample_delivering_def by auto
qed

end
