(* ===== verification/WS_Manager.thy ===== *)
theory WS_Manager
  imports WS_Scheduler WS_Transcript Attempt
begin

text \<open>
  The WebSocket manager (\<^verbatim>\<open>internal/websocket/manager.go\<close>) and its settings
  (\<^verbatim>\<open>internal/websocket/config.go\<close>): the handshake with its refusals, the session
  registry and draining, the headers forwarded upstream, the capacity a backend
  advertises, the reconnect backoff, and the connection loop of a session.

  The network is an argument: whether an upgrade or a write succeeds, what a dial
  answers, what the transcript store replies.  \<^verbatim>\<open>url.Parse\<close> is the argument
  \<open>parse_url\<close>, giving the scheme and host of an absolute URL.
\<close>

section \<open>Settings\<close>

record ws_Config =
  wc_Enabled :: bool
  wc_RedisURL :: string
  wc_StreamPrefix :: string
  wc_StreamMaxEvents :: int
  wc_StreamTTL :: ns
  wc_ReadBatch :: int
  wc_ReadBlock :: ns
  wc_ReaderShards :: int
  wc_MaxMessageBytes :: int
  wc_HandshakeTimeout :: ns
  wc_ReconnectMax :: ns
  wc_StorePoolSize :: int
  wc_StoreRetry :: ns
  wc_Scheduler :: SchedulerConfig

definition positiveEnvInt64 :: "environment \<Rightarrow> string \<Rightarrow> int \<Rightarrow> int" where
  "positiveEnvInt64 env key fallback =
     (let value = env_Int64 env key fallback in if value \<le> 0 then fallback else value)"

definition positiveEnvFloat64 :: "environment \<Rightarrow> string \<Rightarrow> f64 \<Rightarrow> f64" where
  "positiveEnvFloat64 env key fallback =
     (let raw = env key
      in if raw = '''' then fallback
         else case parse_float raw of
                None \<Rightarrow> fallback
              | Some value \<Rightarrow> if value \<le> 0 then fallback else value)"

definition webSocketEnabled :: "environment \<Rightarrow> bool" where
  "webSocketEnabled env =
     (if env ''AQUIFER_WS_ENABLED'' \<noteq> '''' then env_Bool env ''AQUIFER_WS_ENABLED'' True
      else env ''AQUIFER_VALKEY_URL'' \<noteq> '''')"

definition LoadConfig :: "environment \<Rightarrow> ws_Config" where
  "LoadConfig env =
     \<lparr> wc_Enabled = webSocketEnabled env,
       wc_RedisURL = env ''AQUIFER_VALKEY_URL'',
       wc_StreamPrefix = defaultString (env ''AQUIFER_WS_STREAM_PREFIX'') ''aqueduct:ws:'',
       wc_StreamMaxEvents = positiveEnvInt64 env ''AQUIFER_WS_STREAM_MAX_EVENTS'' 10000,
       wc_StreamTTL = wrap64 (positiveEnvInt64 env ''AQUIFER_WS_STREAM_TTL_SECONDS'' 86400 * second),
       wc_ReadBatch = positiveEnvInt64 env ''AQUIFER_WS_READ_BATCH'' 100,
       wc_ReadBlock = wrap64 (positiveEnvInt64 env ''AQUIFER_WS_READ_BLOCK_MS'' 1000 * millisecond),
       wc_ReaderShards = positiveEnvInt64 env ''AQUIFER_WS_READER_SHARDS'' 8,
       wc_MaxMessageBytes = positiveEnvInt64 env ''AQUIFER_WS_MAX_MESSAGE_BYTES'' 1048576,
       wc_HandshakeTimeout = wrap64 (positiveEnvInt64 env ''AQUIFER_WS_HANDSHAKE_TIMEOUT_SECONDS'' 10 * second),
       wc_ReconnectMax = wrap64 (positiveEnvInt64 env ''AQUIFER_WS_RECONNECT_MAX_SECONDS'' 30 * second),
       wc_StorePoolSize = positiveEnvInt64 env ''AQUIFER_WS_VALKEY_POOL_SIZE'' 64,
       wc_StoreRetry = wrap64 (positiveEnvInt64 env ''AQUIFER_WS_STORE_RETRY_SECONDS'' 30 * second),
       wc_Scheduler =
         \<lparr> MaxClients = positiveEnvInt64 env ''AQUIFER_WS_MAX_CLIENT_CONNECTIONS'' 1000,
           MaxUpstreams = positiveEnvInt64 env ''AQUIFER_WS_MAX_UPSTREAM_CONNECTIONS'' 1000,
           MaxWaiting = positiveEnvInt64 env ''AQUIFER_WS_MAX_WAITING_CONNECTIONS'' 1000,
           ConnectRPS = positiveEnvFloat64 env ''AQUIFER_WS_CONNECT_RPS'' 20,
           SlowStartRPS = positiveEnvFloat64 env ''AQUIFER_WS_SLOW_START_RPS'' 1 \<rparr> \<rparr>"

section \<open>Helpers of the handshake\<close>

definition overMemory :: "(int \<times> int) option \<Rightarrow> int \<times> int \<times> bool" where
  "overMemory check =
     (case check of
        None \<Rightarrow> (0, 0, False)
      | Some (usedMB, limitMB) \<Rightarrow> (usedMB, limitMB, limitMB > 0 \<and> usedMB > limitMB))"

definition containsString :: "string list \<Rightarrow> string \<Rightarrow> bool" where
  "containsString values expected = list_ex (\<lambda>v. v = expected) values"

definition validateWebSocketUpstreamURL ::
  "(string \<Rightarrow> (string \<times> string) option) \<Rightarrow> (string \<Rightarrow> string option) \<Rightarrow> environment \<Rightarrow> string \<Rightarrow> string option" where
  "validateWebSocketUpstreamURL parse_url hostname env raw =
     (if raw = '''' then Some ''X-Aqueduct-Upstream-URL is required''
      else case parse_url raw of
             None \<Rightarrow> Some ''X-Aqueduct-Upstream-URL must be an absolute ws:// or wss:// URL''
           | Some (scheme, host) \<Rightarrow>
               if host = '''' \<or> scheme \<noteq> ''ws'' \<and> scheme \<noteq> ''wss''
               then Some ''X-Aqueduct-Upstream-URL must be an absolute ws:// or wss:// URL''
               else if \<not> Allowed hostname env raw
               then Some ''websocket upstream domain is not in AQUIFER_ALLOWED_URL_DOMAINS''
               else None)"

text \<open>\<^verbatim>\<open>http.CanonicalHeaderKey\<close>.\<close>

definition token_char :: "char \<Rightarrow> bool" where
  "token_char c \<longleftrightarrow>
     (let n = of_char c :: nat in 97 \<le> n \<and> n \<le> 122 \<or> 65 \<le> n \<and> n \<le> 90 \<or> is_digit c)
     \<or> c \<in> set ''!#$%&*+-.^_`|~'' \<or> c = CHR 0x27"

fun canon_from :: "bool \<Rightarrow> string \<Rightarrow> string" where
  "canon_from upper [] = []"
| "canon_from upper (c # cs) =
     (if upper then to_upper [c] else to_lower [c]) @ canon_from (c = CHR ''-'') cs"

definition CanonicalHeaderKey :: "string \<Rightarrow> string" where
  "CanonicalHeaderKey name = (if list_all token_char name then canon_from True name else name)"

definition isWebSocketHopHeader :: "string \<Rightarrow> bool" where
  "isWebSocketHopHeader name =
     list_ex (\<lambda>h. name = h)
       [''Connection'', ''Upgrade'', ''Sec-Websocket-Key'', ''Sec-Websocket-Version'',
        ''Sec-Websocket-Extensions'', ''Sec-Websocket-Protocol'', ''Host'']"

definition add_value :: "string \<Rightarrow> string \<Rightarrow> (string \<times> string list) list \<Rightarrow> (string \<times> string list) list" where
  "add_value name v h = al_put name ((case map_of h name of Some vs \<Rightarrow> vs | None \<Rightarrow> []) @ [v]) h"

fun forward_all :: "(string \<times> string list) list \<Rightarrow> (string \<times> string list) list \<Rightarrow> (string \<times> string list) list" where
  "forward_all [] destination = destination"
| "forward_all ((name, values) # source) destination =
     (let canonical = CanonicalHeaderKey name in
      if isWebSocketHopHeader canonical \<or> has_prefix canonical ''X-Aqueduct-'' \<or> has_prefix canonical ''X-Aquifer-''
      then forward_all source destination
      else forward_all source (fold (add_value canonical) values destination))"

definition forwardedWebSocketHeaders :: "(string \<times> string list) list \<Rightarrow> string \<Rightarrow> (string \<times> string list) list" where
  "forwardedWebSocketHeaders source sessionID =
     al_put (CanonicalHeaderKey ''X-Aqueduct-Session-ID'') [sessionID] (forward_all source [])"

section \<open>The handshake\<close>

record ws_request =
  rq_upgrade :: bool
  rq_subprotocols :: "string list"
  rq_session_id :: string
  rq_after :: string
  rq_upstream_url :: string

record ws_env =
  we_memory :: "(int \<times> int) option"
  we_ping :: bool
  we_oldest :: "string + xmessage list"
  we_upgrade :: bool
  we_draining :: bool
  we_draining_later :: bool

datatype serve_result =
    Refused response "(string \<times> int \<times> int) option"
  | UpgradeFailed
  | DrainingClosed
  | Serving nat int

definition json_error :: "string \<Rightarrow> int \<Rightarrow> response" where
  "json_error msg code = \<lparr> rs_status = code, rs_headers = [(''Content-Type'', ''application/json'')], rs_error = msg \<rparr>"

definition retry_error :: "string \<Rightarrow> int \<Rightarrow> response" where
  "retry_error msg code = \<lparr> rs_status = code,
     rs_headers = [(''Retry-After'', ''1''), (''Content-Type'', ''application/json'')], rs_error = msg \<rparr>"

definition scheduler_error_text :: "scheduler_error \<Rightarrow> string" where
  "scheduler_error_text e =
     (case e of
        ErrWebSocketClientLimit \<Rightarrow> ''websocket client connection limit reached''
      | ErrWebSocketWaitingLimit \<Rightarrow> ''websocket waiting connection limit reached''
      | ErrWebSocketSchedulerClosed \<Rightarrow> ''websocket scheduler closed'')"

text \<open>The checks before any slot is taken, in the order of the handler.\<close>

definition handshake_refusal ::
  "(string \<Rightarrow> (string \<times> string) option) \<Rightarrow> (string \<Rightarrow> string option) \<Rightarrow> environment \<Rightarrow> bool \<Rightarrow> ws_request \<Rightarrow> ws_env
     \<Rightarrow> (response \<times> (string \<times> int \<times> int) option) option" where
  "handshake_refusal parse_url hostname env enabled rq we =
     (let after = defaultString (rq_after rq) ''0-0'';
          (usedMB, limitMB, over) = overMemory (we_memory we)
      in if \<not> enabled then Some (json_error ''websocket proxy is disabled'' 404, None)
         else if \<not> rq_upgrade rq then Some (json_error ''websocket upgrade required'' 426, None)
         else if we_draining we then Some (WriteDraining 1, None)
         else if \<not> containsString (rq_subprotocols rq) ''aqueduct.v1''
         then Some (json_error ''Sec-WebSocket-Protocol must include aqueduct.v1'' 400, None)
         else if rq_session_id rq = '''' then Some (json_error ''session_id is required'' 400, None)
         else if parseRedisStreamID after = None
         then Some (json_error ''after must be a Redis stream id'' 400, None)
         else case validateWebSocketUpstreamURL parse_url hostname env (rq_upstream_url rq) of
           Some msg \<Rightarrow> Some (json_error msg 400, None)
         | None \<Rightarrow>
             if over
             then Some (retry_error (''memory '' @ itoa usedMB @ ''MB exceeds limit '' @ itoa limitMB @ ''MB; try again shortly'') 429,
                        Some (''memory'', limitMB, usedMB))
             else if \<not> we_ping we then Some (retry_error ''websocket event store unavailable'' 503, None)
             else case CheckCursor (we_oldest we) after of
               Some ReplayGap \<Rightarrow> Some (json_error ''websocket replay cursor is older than retained history'' 409, None)
             | Some _ \<Rightarrow> Some (retry_error ''websocket event store unavailable'' 503, None)
             | None \<Rightarrow> None)"

definition ServeHTTP ::
  "(string \<Rightarrow> (string \<times> string) option) \<Rightarrow> (string \<Rightarrow> string option) \<Rightarrow> environment \<Rightarrow> bool \<Rightarrow> ws_request \<Rightarrow> ws_env
     \<Rightarrow> scheduler \<Rightarrow> scheduler \<times> serve_result" where
  "ServeHTTP parse_url hostname env enabled rq we s =
     (case handshake_refusal parse_url hostname env enabled rq we of
        Some (resp, limit) \<Rightarrow> (s, Refused resp limit)
      | None \<Rightarrow>
          (case AcquireClient s of
             (s1, Inl e) \<Rightarrow> (s1, Refused (retry_error (scheduler_error_text e) 429) None)
           | (s1, Inr _) \<Rightarrow>
               (case EnqueueUpstream s1 of
                  (s2, Inl e) \<Rightarrow> (ReleaseClient s2, Refused (retry_error (scheduler_error_text e) 429) None)
                | (s2, Inr (p, position)) \<Rightarrow>
                    if \<not> we_upgrade we then (ReleaseClient (Cancel p s2), UpgradeFailed)
                    else if we_draining_later we then (ReleaseClient (Cancel p s2), DrainingClosed)
                    else (s2, Serving p position))))"

section \<open>Sessions and draining\<close>

record ws_manager =
  mg_sessions :: "nat list"
  mg_draining :: bool
  mg_waitgroup :: int

definition registerSession :: "nat \<Rightarrow> ws_manager \<Rightarrow> ws_manager \<times> bool" where
  "registerSession session m =
     (if mg_draining m then (m, False)
      else (m\<lparr> mg_sessions := List.insert session (mg_sessions m), mg_waitgroup := mg_waitgroup m + 1 \<rparr>, True))"

definition unregisterSession :: "nat \<Rightarrow> ws_manager \<Rightarrow> ws_manager" where
  "unregisterSession session m =
     m\<lparr> mg_sessions := removeAll session (mg_sessions m), mg_waitgroup := mg_waitgroup m - 1 \<rparr>"

text \<open>\<open>BeginDrain\<close>: the sessions told to reconnect, and the grace they are given in milliseconds.\<close>

definition BeginDrain :: "ns \<Rightarrow> ws_manager \<Rightarrow> ws_manager \<times> (nat \<times> ms) list" where
  "BeginDrain grace m =
     (let grace' = (if grace < 0 then 0 else grace) in
      if mg_draining m then (m, [])
      else (m\<lparr> mg_draining := True \<rparr>, map (\<lambda>i. (i, div_trunc grace' millisecond)) (mg_sessions m)))"

section \<open>Capacity headers and backoff\<close>

definition applyCapacityHeaders :: "headers option \<Rightarrow> scheduler \<Rightarrow> scheduler \<times> ns" where
  "applyCapacityHeaders response s =
     (case response of
        None \<Rightarrow> (s, 0)
      | Some h \<Rightarrow>
          let rawMax = header_get ''X-Aqueduct-WS-Max-Connections'' h;
              maxConnections = (if rawMax = '''' then None
                 else case parse_int64 rawMax of Some v \<Rightarrow> if v > 0 then Some v else None | None \<Rightarrow> None);
              rawRPS = header_get ''X-Aqueduct-WS-Connect-Rps'' h;
              connectRPS = (if rawRPS = '''' then None
                 else case parse_float rawRPS of Some v \<Rightarrow> if v > 0 then Some v else None | None \<Rightarrow> None);
              s1 = UpdateCapacity maxConnections connectRPS s;
              rawRetry = header_get ''Retry-After'' h;
              wait = (if rawRetry = '''' then 0
                 else case parse_int64 rawRetry of Some n \<Rightarrow> if n > 0 then wrap64 (n * second) else 0 | None \<Rightarrow> 0)
          in (s1, wait))"

text \<open>
  \<^verbatim>\<open>time.Duration(math.Pow(2, float64(attempt-1)))\<close>: the power is exact; from
  \<open>2\<^sup>63\<close> on the conversion is out of range and its value is the platform's, \<open>oor\<close>.
\<close>

definition pow2_duration :: "int \<Rightarrow> int \<Rightarrow> ns" where
  "pow2_duration oor n = (if n < 63 then 2 ^ nat n else oor)"

definition reconnectBackoff :: "int \<Rightarrow> int \<Rightarrow> int \<Rightarrow> ns \<Rightarrow> ns \<Rightarrow> ns" where
  "reconnectBackoff oor draw attempt0 retryAfter maximum =
     (let attempt = (if attempt0 < 1 then 1 else attempt0);
          b0 = wrap64 (pow2_duration oor (attempt - 1) * second);
          b1 = (if retryAfter > b0 then retryAfter else b0);
          b2 = (if maximum > 0 \<and> b1 > maximum then maximum else b1)
      in Jitter draw b2)"

section \<open>The connection loop of a session\<close>

text \<open>
  \<open>connectUpstream\<close> from the moment \<open>Wait\<close> handed it a slot: the effects in the order
  the code performs them and whether it goes round again.
\<close>

datatype connect_effect =
    Write_Status string int int
  | Apply_Capacity "headers option"
  | Release_Slot
  | Report_Failure
  | Report_Success
  | Relay int
  | Close_Upstream
  | Sleep_For ns

datatype connect_outcome = Return_Error | Again int

datatype dial_result = Dial_Failed "headers option" | Dialed "headers option" string

record connect_world =
  cw_write_connecting :: bool
  cw_dial :: dial_result
  cw_write_connected :: bool
  cw_write_reconnecting :: bool
  cw_ended :: bool
  cw_slept :: bool
  cw_generation :: int
  cw_oor :: int
  cw_draw :: int

definition back_off :: "connect_world \<Rightarrow> ns \<Rightarrow> int \<Rightarrow> ns \<Rightarrow> connect_effect list \<times> connect_outcome" where
  "back_off cw maximum attempt retryAfter =
     (let backoff = reconnectBackoff (cw_oor cw) (cw_draw cw) attempt retryAfter maximum;
          report = Write_Status ''reconnecting'' 0 (div_trunc backoff millisecond)
      in if \<not> cw_write_reconnecting cw then ([report], Return_Error)
         else if \<not> cw_slept cw then ([report, Sleep_For backoff], Return_Error)
         else ([report, Sleep_For backoff], Again attempt))"

definition connect_attempt :: "connect_world \<Rightarrow> ns \<Rightarrow> int \<Rightarrow> scheduler \<Rightarrow> connect_effect list \<times> connect_outcome" where
  "connect_attempt cw maximum attempt s =
     (if \<not> cw_write_connecting cw then ([Write_Status ''connecting'' 0 0, Release_Slot], Return_Error)
      else case cw_dial cw of
        Dial_Failed response \<Rightarrow>
          (let retryAfter = snd (applyCapacityHeaders response s);
               (es, r) = back_off cw maximum (attempt + 1) retryAfter
           in ([Write_Status ''connecting'' 0 0, Apply_Capacity response, Release_Slot, Report_Failure] @ es, r))
      | Dialed response subprotocol \<Rightarrow>
          if subprotocol \<noteq> ''aqueduct.v1''
          then ([Write_Status ''connecting'' 0 0, Apply_Capacity response, Release_Slot, Report_Failure, Close_Upstream], Return_Error)
          else if \<not> cw_write_connected cw
          then ([Write_Status ''connecting'' 0 0, Apply_Capacity response, Report_Success,
                 Write_Status ''connected'' (cw_generation cw) 0, Release_Slot, Close_Upstream], Return_Error)
          else
            let first = [Write_Status ''connecting'' 0 0, Apply_Capacity response, Report_Success,
                         Write_Status ''connected'' (cw_generation cw) 0, Relay (cw_generation cw), Release_Slot, Close_Upstream]
            in if cw_ended cw then (first, Return_Error)
               else let (es, r) = back_off cw maximum 1 0 in (first @ es, r))"

fun apply_effect :: "ns \<Rightarrow> int \<Rightarrow> connect_effect \<Rightarrow> scheduler \<Rightarrow> scheduler" where
  "apply_effect now draw (Apply_Capacity response) s = fst (applyCapacityHeaders response s)"
| "apply_effect now draw Release_Slot s = release_slot s"
| "apply_effect now draw Report_Failure s = ReportFailure now draw s"
| "apply_effect now draw Report_Success s = ReportSuccess s"
| "apply_effect now draw _ s = s"

section \<open>Lemmas\<close>

lemma connect_attempt_releases_once:
  "count_list (fst (connect_attempt cw maximum attempt s)) Release_Slot = 1"
  by (auto simp: connect_attempt_def back_off_def Let_def split: dial_result.splits prod.splits)


lemma fresh_cancel:
  assumes q: "queue_ok ph sh (cells s) (waiters s)" and pos: "positions_ok (cells s) (waiters s)"
    and e: "EnqueueUpstream s = (s', Inr (p, position))"
  shows "waiters (Cancel p s') = waiters s" "activeUpstreams (Cancel p s') = activeUpstreams s"
    "clients (Cancel p s') = clients s" "\<forall>i < length (cells s). cells (Cancel p s') ! i = cells s ! i"
proof -
  note D = queue_okD [OF q]
  have p: "p \<notin> set (waiters s)" "p = length (cells s)"
    using e D(5) by (auto simp: EnqueueUpstream_def Let_def split: if_splits)
  define c where "c = \<lparr> ready = False, positions = None, wposition = int (length (waiters s)) + 1,
                  granted = False, canceled = False, werr = None \<rparr>"
  have s': "s' = notify (s\<lparr> cells := cells s @ [c], waiters := waiters s @ [p] \<rparr>)"
    using e by (auto simp: EnqueueUpstream_def Let_def c_def split: if_splits)
  have canc: "Cancel p s' = notify (publishPositionsLocked (s'\<lparr> waiters := waiters s, cells := cells s @ [c\<lparr> canceled := True \<rparr>] \<rparr>))"
    using p by (simp add: Cancel_def s' scheduler_defs c_def remove1_append)
  show "waiters (Cancel p s') = waiters s" "activeUpstreams (Cancel p s') = activeUpstreams s"
    "clients (Cancel p s') = clients s"
    unfolding canc by (simp_all add: s' scheduler_defs)
  have keep: "publish_from i ws h = h"
    if "\<forall>k < length ws. wposition (h ! (ws ! k)) = i + int k" for i ws h
    using that
  proof (induction i ws h rule: publish_from.induct)
    case (2 position w ws h)
    have "wposition (h ! w) = position" using 2(2) by (auto dest: spec [of _ 0])
    moreover have "\<forall>k < length ws. wposition (h ! (ws ! k)) = position + 1 + int k"
      using 2(2) by (auto dest: spec [of _ "Suc _"])
    ultimately show ?case using 2(1) by simp
  qed simp
  have "publish_from 1 (waiters s) (cells s @ [c\<lparr> canceled := True \<rparr>]) = cells s @ [c\<lparr> canceled := True \<rparr>]"
    using pos D(5) nth_mem by (intro keep) (fastforce simp: positions_ok_def nth_append)
  then show "\<forall>i < length (cells s). cells (Cancel p s') ! i = cells s ! i"
    unfolding canc by (simp add: s' scheduler_defs nth_append)
qed

lemma add_values_keys:
  "fst ` set (fold (add_value name) vs h) \<subseteq> insert name (fst ` set h)"
proof (induction vs arbitrary: h)
  case (Cons v vs)
  show ?case using Cons [of "add_value name v h"] by (auto simp: add_value_def)
qed auto

definition internal_header :: "string \<Rightarrow> bool" where
  "internal_header name \<longleftrightarrow>
     isWebSocketHopHeader name \<or> has_prefix name ''X-Aqueduct-'' \<or> has_prefix name ''X-Aquifer-''"

lemma forward_all_keys:
  "(\<forall>name \<in> fst ` set h. \<not> internal_header name) \<Longrightarrow>
   (\<forall>name \<in> fst ` set (forward_all source h). \<not> internal_header name)"
proof (induction source h rule: forward_all.induct)
  case (2 name vs source h)
  let ?c = "CanonicalHeaderKey name"
  show ?case
  proof (cases "internal_header ?c")
    case True
    then have "forward_all ((name, vs) # source) h = forward_all source h"
      by (simp add: internal_header_def Let_def)
    then show ?thesis using 2(1) [OF refl True [unfolded internal_header_def] 2(3)] by (simp only: )
  next
    case False
    have "\<forall>n \<in> fst ` set (fold (add_value ?c) vs h). \<not> internal_header n"
    proof
      fix n assume "n \<in> fst ` set (fold (add_value ?c) vs h)"
      then have "n = ?c \<or> n \<in> fst ` set h" by (rule subsetD [OF add_values_keys, THEN insertE]) simp_all
      then show "\<not> internal_header n" using False 2(3) by metis
    qed
    moreover have "forward_all ((name, vs) # source) h = forward_all source (fold (add_value ?c) vs h)"
      using False by (simp add: internal_header_def Let_def)
    ultimately show ?thesis using 2(2) [OF refl False [unfolded internal_header_def]] by (simp only: )
  qed
qed simp

lemma forwarded_headers_safe:
  "map_of (forwardedWebSocketHeaders source sid) ''X-Aqueduct-Session-Id'' = Some [sid]
   \<and> (\<forall>name \<in> fst ` set (forwardedWebSocketHeaders source sid).
        name = ''X-Aqueduct-Session-Id'' \<or> \<not> internal_header name)"
proof -
  have "CanonicalHeaderKey ''X-Aqueduct-Session-ID'' = ''X-Aqueduct-Session-Id''" by code_simp
  then show ?thesis
    using forward_all_keys [of "[]" source] by (auto simp: forwardedWebSocketHeaders_def)
qed

lemma reconnect_base:
  assumes "1 \<le> attempt" "attempt \<le> 34"
  shows "wrap64 (pow2_duration oor (attempt - 1) * second) = 2 ^ nat (attempt - 1) * second"
    and "0 < (2 :: int) ^ nat (attempt - 1) * second"
proof -
  have "(2 :: int) ^ nat (attempt - 1) \<le> 2 ^ 33"
    using assms by (intro power_increasing) auto
  then have hi: "2 ^ nat (attempt - 1) * second \<le> int64_max" by (simp add: int64_max_def)
  show lo: "0 < (2 :: int) ^ nat (attempt - 1) * second" by simp
  have "int64_min \<le> 0" by (simp add: int64_min_def)
  with lo have "int64_min \<le> 2 ^ nat (attempt - 1) * second" by linarith
  from wrap64_id [OF this hi] show "wrap64 (pow2_duration oor (attempt - 1) * second) = 2 ^ nat (attempt - 1) * second"
    using assms by (simp add: pow2_duration_def)
qed

lemma reconnect_overflow:
  assumes "56 \<le> attempt" "attempt \<le> 63"
  shows "wrap64 (pow2_duration oor (attempt - 1) * second) = 0"
proof -
  have "attempt \<in> {56, 57, 58, 59, 60, 61, 62, 63}" using assms by auto
  then show ?thesis by (auto simp: pow2_duration_def wrap64_def)
qed

section \<open>Properties\<close>



text \<open>(C31) A handshake leaves the scheduler's books straight.  Whatever the request and the store
  answer, if the handler does not go on to serve the session then the client count, the
  connection count, the queue and every waiter in it are as before; if it does, exactly
  one client and one waiter at the end of the queue were added, no check of the handler
  failed, and neither limit was exceeded.\<close>

theorem handshake_books:
  assumes "zero_time \<le> now" and "ws_step\<^sup>*\<^sup>* (world0 cfg now) w"
    and "ServeHTTP parse_url hostname env enabled rq we (sched w) = (s', r)"
  shows "activeUpstreams s' = activeUpstreams (sched w) \<and>
    (case r of
       Serving p position \<Rightarrow>
         clients s' = clients (sched w) + 1 \<and> clients s' \<le> maxClients s'
         \<and> waiters s' = waiters (sched w) @ [p] \<and> p = length (cells (sched w))
         \<and> int (length (waiters s')) \<le> maxWaiting s' \<and> position = int (length (waiters s'))
         \<and> enabled \<and> rq_upgrade rq \<and> rq_session_id rq \<noteq> '''' \<and> we_ping we
         \<and> \<not> we_draining we \<and> \<not> we_draining_later we
     | _ \<Rightarrow> clients s' = clients (sched w) \<and> waiters s' = waiters (sched w)
         \<and> (\<forall>i < length (cells (sched w)). cells s' ! i = cells (sched w) ! i))"
proof -
  let ?s = "sched w"
  have ok: "world_ok w" by (rule world_ok_reachable [OF assms(1,2)])
  then have q: "queue_ok (phases w) (shown w) (cells ?s) (waiters ?s)" "positions_ok (cells ?s) (waiters ?s)"
    and c0: "0 \<le> clients ?s" by (simp_all add: world_ok_def limits_ok_def)
  show ?thesis
  proof (cases "handshake_refusal parse_url hostname env enabled rq we")
    case (Some x)
    with assms(3) show ?thesis by (auto simp: ServeHTTP_def split: prod.splits)
  next
    case None
    then have checks: "enabled" "rq_upgrade rq" "rq_session_id rq \<noteq> ''''" "we_ping we" "\<not> we_draining we"
      by (auto simp: handshake_refusal_def Let_def split: prod.splits if_splits option.splits)
    show ?thesis
    proof (cases "snd (AcquireClient ?s)")
      case (Inl e)
      with None assms(3) show ?thesis
        by (auto simp: ServeHTTP_def AcquireClient_def split: prod.splits if_splits)
    next
      case (Inr u)
      let ?s1 = "?s\<lparr> clients := clients ?s + 1 \<rparr>"
      have acq: "AcquireClient ?s = (?s1, Inr ())" and lim: "clients ?s < maxClients ?s"
        using Inr by (auto simp: AcquireClient_def split: if_splits)
      have q1: "queue_ok (phases w) (shown w) (cells ?s1) (waiters ?s1)" "positions_ok (cells ?s1) (waiters ?s1)"
        using q by simp_all
      obtain s2 y where e: "EnqueueUpstream ?s1 = (s2, y)" by (metis surj_pair)
      show ?thesis
      proof (cases y)
        case (Inl e')
        with e have "s2 = ?s1" by (auto simp: EnqueueUpstream_def Let_def split: if_splits)
        with None acq e Inl assms(3) c0 show ?thesis by (auto simp: ServeHTTP_def ReleaseClient_def)
      next
        case (Inr pp)
        obtain p position where y: "y = Inr (p, position)" using Inr by (cases pp) auto
        note F = fresh_cancel [OF q1 e [unfolded y]]
        have enq: "waiters s2 = waiters ?s @ [p]" "p = length (cells ?s)" "position = int (length (waiters ?s)) + 1"
            "clients s2 = clients ?s + 1" "maxClients s2 = maxClients ?s" "maxWaiting s2 = maxWaiting ?s"
            "activeUpstreams s2 = activeUpstreams ?s" "int (length (waiters ?s)) < maxWaiting ?s"
          using e [unfolded y] by (auto simp: EnqueueUpstream_def Let_def notify_def split: if_splits)
        have "(s', r) = (if \<not> we_upgrade we then (ReleaseClient (Cancel p s2), UpgradeFailed)
            else if we_draining_later we then (ReleaseClient (Cancel p s2), DrainingClosed) else (s2, Serving p position))"
          unfolding assms(3) [symmetric] by (simp add: ServeHTTP_def None acq e y)
        then show ?thesis
          using F enq checks lim c0 by (auto simp: ReleaseClient_def split: if_splits)
      qed
    qed
  qed
qed

definition sample_request :: ws_request where
  "sample_request = \<lparr> rq_upgrade = True, rq_subprotocols = [''aqueduct.v1''], rq_session_id = ''s'',
     rq_after = '''', rq_upstream_url = ''ws://b'' \<rparr>"

definition sample_answers :: "bool \<Rightarrow> ws_env" where
  "sample_answers upgrade = \<lparr> we_memory = Some (10, 20), we_ping = True, we_oldest = Inr [], we_upgrade = upgrade,
     we_draining = False, we_draining_later = False \<rparr>"

definition sample_serve :: "bool \<Rightarrow> scheduler \<times> serve_result" where
  "sample_serve upgrade =
     ServeHTTP (\<lambda>u. Some (''ws'', ''b'')) (\<lambda>u. Some ''b'') (\<lambda>_. '''') True sample_request (sample_answers upgrade)
       (sched sample_queued)"

lemma sample_serve_result: "snd (sample_serve True) = Serving 2 3" "snd (sample_serve False) = UpgradeFailed"
  by code_simp+

theorem handshake_books_witness:
  "waiters (fst (sample_serve True)) = waiters (sched sample_queued) @ [2]
   \<and> waiters (fst (sample_serve False)) = waiters (sched sample_queued)
   \<and> clients (fst (sample_serve False)) = clients (sched sample_queued)"
proof -
  have e: "sample_serve b = (fst (sample_serve b), snd (sample_serve b))" for b by simp
  show ?thesis
    using handshake_books [OF sample_zero sample_queued_reachable e [of True, unfolded sample_serve_def [of True]]]
      handshake_books [OF sample_zero sample_queued_reachable e [of False, unfolded sample_serve_def [of False]]]
    unfolding sample_serve_def [symmetric] sample_serve_result by simp
qed

end
