(* ===== verification/Cluster_Store.thy ===== *)
theory Cluster_Store
  imports Support "HOL-Library.Monad_Syntax"
begin

text \<open>
  Who owns a user in a cluster: \<^verbatim>\<open>internal/cluster/valkey.go\<close>.  The Valkey
  server is not part of the repository, so it is a record of the commands the
  code and its Lua scripts call, each at the server's clock; the locale
  \<open>valkey_server\<close> states the documented behaviour of those commands, and
  \<open>mem_valkey\<close> is an in-memory server that has it.  A Lua script and a
  transaction run alone on the server and are one step.  The JSON text of a
  member is written by \<open>encode\<close> and read by \<open>decode\<close>, which are parameters, as is
  the hash of a user's name.
\<close>

section \<open>Members and the server\<close>

record Member =
  mb_ID :: string
  mb_Address :: string
  mb_State :: string
  mb_ActiveUsers :: int
  mb_Capacity :: int
  mb_ReportedAt :: ms

definition no_member :: Member where
  "no_member = \<lparr> mb_ID = '''', mb_Address = '''', mb_State = '''', mb_ActiveUsers = 0, mb_Capacity = 0,
                 mb_ReportedAt = 0 \<rparr>"

definition StateActive :: string where "StateActive = ''active''"
definition StateDraining :: string where "StateDraining = ''draining''"
definition StateOffline :: string where "StateOffline = ''offline''"

definition defaultClusterMaxActiveUsers :: int where "defaultClusterMaxActiveUsers = 100"

definition gone :: "string \<Rightarrow> bool" where
  "gone state \<longleftrightarrow> state = StateDraining \<or> state = StateOffline"

record 'db valkey =
  GET :: "ms \<Rightarrow> string \<Rightarrow> 'db \<Rightarrow> string option"
  SET :: "ms \<Rightarrow> string \<Rightarrow> string \<Rightarrow> ms \<Rightarrow> 'db \<Rightarrow> 'db"
  PEXPIRE :: "ms \<Rightarrow> string \<Rightarrow> ms \<Rightarrow> 'db \<Rightarrow> 'db"
  DEL :: "string \<Rightarrow> 'db \<Rightarrow> 'db"
  ZADD :: "string \<Rightarrow> int \<Rightarrow> string \<Rightarrow> 'db \<Rightarrow> 'db"
  ZREM :: "string \<Rightarrow> string \<Rightarrow> 'db \<Rightarrow> 'db"
  ZREMRANGEBYSCORE :: "string \<Rightarrow> int \<Rightarrow> 'db \<Rightarrow> 'db"
  ZCARD :: "string \<Rightarrow> 'db \<Rightarrow> int"
  SADD :: "string \<Rightarrow> string \<Rightarrow> 'db \<Rightarrow> 'db"
  SREM :: "string \<Rightarrow> string \<Rightarrow> 'db \<Rightarrow> 'db"
  SMEMBERS :: "string \<Rightarrow> 'db \<Rightarrow> string list"

record cluster_codec =
  encode :: "Member \<Rightarrow> string"
  decode :: "string \<Rightarrow> Member option"
  hashKey :: "string \<Rightarrow> string"
  store_prefix :: string

section \<open>Keys\<close>

definition normal_prefix :: "string \<Rightarrow> string" where
  "normal_prefix prefix =
     (let p = (if prefix = '''' then ''aqueduct:'' else prefix)
      in if has_suffix p '':'' then p else p @ '':'')"

definition NormalizeValkeyURL :: "(string \<Rightarrow> (string \<times> string) option) \<Rightarrow> string \<Rightarrow> string option" where
  "NormalizeValkeyURL parse raw =
     (case parse raw of
        None \<Rightarrow> None
      | Some (scheme, rest) \<Rightarrow>
          (let s = to_lower scheme
           in if s \<in> {''redis'', ''rediss''} then Some (scheme @ rest)
              else if s = ''valkey'' then Some (''redis'' @ rest)
              else if s = ''valkeys'' then Some (''rediss'' @ rest)
              else None))"

definition instancesKey :: "string \<Rightarrow> string" where
  "instancesKey prefix = prefix @ ''instances''"

definition instanceKey :: "string \<Rightarrow> string \<Rightarrow> string" where
  "instanceKey prefix i = prefix @ ''instance:'' @ i"

definition instanceAssignmentsKey :: "string \<Rightarrow> string \<Rightarrow> string" where
  "instanceAssignmentsKey prefix i = prefix @ ''instance:'' @ i @ '':assignments''"

definition assignmentKey :: "string \<Rightarrow> string \<Rightarrow> string" where
  "assignmentKey prefix scopeHash = prefix @ ''assignment:'' @ scopeHash"

section \<open>Heartbeats\<close>

definition milliseconds :: "ns \<Rightarrow> ms" where
  "milliseconds d = div_trunc d millisecond"

definition Heartbeat :: "'db valkey \<Rightarrow> cluster_codec \<Rightarrow> ms \<Rightarrow> Member \<Rightarrow> ns \<Rightarrow> 'db \<Rightarrow> 'db" where
  "Heartbeat v j now m ttl db =
     SET v now (instanceKey (store_prefix j) (mb_ID m)) (encode j m) (milliseconds ttl)
       (SADD v (instancesKey (store_prefix j)) (mb_ID m) db)"

definition member_reply :: "cluster_codec \<Rightarrow> string option \<Rightarrow> Member option" where
  "member_reply j value =
     (case value of
        None \<Rightarrow> None
      | Some payload \<Rightarrow>
          (case decode j payload of
             None \<Rightarrow> None
           | Some m \<Rightarrow> if mb_ID m = '''' \<or> mb_Address m = '''' then None else Some m))"

definition Members :: "'db valkey \<Rightarrow> cluster_codec \<Rightarrow> ms \<Rightarrow> 'db \<Rightarrow> Member list \<times> 'db" where
  "Members v j now db =
     (let ids = SMEMBERS v (instancesKey (store_prefix j)) db;
          reply = (\<lambda>i. member_reply j (GET v now (instanceKey (store_prefix j) i) db));
          stale = filter (\<lambda>i. reply i = None) ids;
          db1 = fold (SREM v (instancesKey (store_prefix j))) stale db
      in (List.map_filter reply ids,
          fold (\<lambda>i. DEL v (instanceAssignmentsKey (store_prefix j) i)) stale db1))"

definition RemoveInstance :: "'db valkey \<Rightarrow> cluster_codec \<Rightarrow> string \<Rightarrow> 'db \<Rightarrow> 'db" where
  "RemoveInstance v j nodeID db =
     SREM v (instancesKey (store_prefix j)) nodeID
       (DEL v (instanceAssignmentsKey (store_prefix j) nodeID)
         (DEL v (instanceKey (store_prefix j) nodeID) db))"

section \<open>Assigning a user\<close>

definition active_member :: "cluster_codec \<Rightarrow> string option \<Rightarrow> Member option" where
  "active_member j payload =
     (case payload of
        None \<Rightarrow> None
      | Some p \<Rightarrow> (case decode j p of
                    None \<Rightarrow> None
                  | Some m \<Rightarrow> if gone (mb_State m) then None else Some m))"

text \<open>
  A candidate of the script is its two keys, its id and the capacity its
  caller knows, in the order of \<^verbatim>\<open>KEYS\<close> and \<^verbatim>\<open>ARGV\<close>.  A capacity of 0 is left
  out of the JSON text, and the script falls back to the caller's.  The scan
  keeps the indexes \<^verbatim>\<open>selected\<close> and \<^verbatim>\<open>least\<close>, 0 meaning none.
\<close>

record candidate =
  cd_instance :: string
  cd_assignments :: string
  cd_id :: string
  cd_capacity :: int

record scan =
  sc_selected :: nat
  sc_least :: nat
  sc_least_ratio :: f64

definition effective_capacity :: "Member \<Rightarrow> candidate \<Rightarrow> int" where
  "effective_capacity m c =
     (let capacity = (if mb_Capacity m = 0 then cd_capacity c else mb_Capacity m)
      in if capacity < 1 then 1 else capacity)"

definition weigh_candidate :: "nat \<Rightarrow> int \<Rightarrow> int \<Rightarrow> scan \<Rightarrow> scan" where
  "weigh_candidate i used capacity sc =
     (let ratio = of_int used / of_int capacity;
          sc1 = (if sc_selected sc = 0 \<and> used < capacity then sc\<lparr>sc_selected := i\<rparr> else sc)
      in if sc_least sc1 = 0 \<or> ratio < sc_least_ratio sc1
         then sc1\<lparr>sc_least := i, sc_least_ratio := ratio\<rparr> else sc1)"

fun scan_candidates ::
  "'db valkey \<Rightarrow> cluster_codec \<Rightarrow> ms \<Rightarrow> nat \<Rightarrow> candidate list \<Rightarrow> scan \<Rightarrow> 'db \<Rightarrow> scan \<times> 'db" where
  "scan_candidates v j now i [] sc db = (sc, db)"
| "scan_candidates v j now i (c # cs) sc db =
     (case active_member j (GET v now (cd_instance c) db) of
        None \<Rightarrow> scan_candidates v j now (Suc i) cs sc db
      | Some m \<Rightarrow>
          (let db1 = ZREMRANGEBYSCORE v (cd_assignments c) now db;
               zcard = ZCARD v (cd_assignments c) db1;
               used = (if mb_ActiveUsers m > zcard then mb_ActiveUsers m else zcard)
           in scan_candidates v j now (Suc i) cs (weigh_candidate i used (effective_capacity m c) sc) db1))"

definition claim_fresh ::
  "'db valkey \<Rightarrow> cluster_codec \<Rightarrow> ms \<Rightarrow> string \<Rightarrow> string \<Rightarrow> ms \<Rightarrow> candidate list \<Rightarrow> bool \<Rightarrow> 'db
     \<Rightarrow> string option \<times> 'db" where
  "claim_fresh v j now key scope ttl cs strict db =
     (let (sc, db1) = scan_candidates v j now 1 cs \<lparr> sc_selected = 0, sc_least = 0, sc_least_ratio = 0 \<rparr> db;
          selected = (if sc_selected sc = 0 \<and> \<not> strict then sc_least sc else sc_selected sc)
      in if selected = 0 then (Some '''', db1)
         else (let c = cs ! (selected - 1);
                   db2 = ZADD v (cd_assignments c) (now + ttl) scope (SET v now key (cd_id c) ttl db1)
               in (GET v now (cd_instance c) db2, db2)))"

definition assignClusterScopeScript ::
  "'db valkey \<Rightarrow> cluster_codec \<Rightarrow> ms \<Rightarrow> string \<Rightarrow> string \<Rightarrow> ms \<Rightarrow> candidate list \<Rightarrow> bool \<Rightarrow> 'db
     \<Rightarrow> string option \<times> 'db" where
  "assignClusterScopeScript v j now key scope ttl cs strict db =
     (case GET v now key db of
        None \<Rightarrow> claim_fresh v j now key scope ttl cs strict db
      | Some owner \<Rightarrow>
          (let payload = GET v now (instanceKey (store_prefix j) owner) db;
               assignments = instanceAssignmentsKey (store_prefix j) owner
           in case active_member j payload of
                Some _ \<Rightarrow> (payload, ZADD v assignments (now + ttl) scope (PEXPIRE v now key ttl db))
              | None \<Rightarrow> claim_fresh v j now key scope ttl cs strict (ZREM v assignments scope (DEL v key db))))"

definition candidate_of :: "string \<Rightarrow> Member \<Rightarrow> candidate" where
  "candidate_of prefix m =
     \<lparr> cd_instance = instanceKey prefix (mb_ID m),
       cd_assignments = instanceAssignmentsKey prefix (mb_ID m),
       cd_id = mb_ID m,
       cd_capacity = (if mb_Capacity m \<le> 0 then defaultClusterMaxActiveUsers else mb_Capacity m) \<rparr>"

datatype assign_error = Nil_Reply | Undecodable

definition Assign ::
  "'db valkey \<Rightarrow> cluster_codec \<Rightarrow> ms \<Rightarrow> string \<Rightarrow> Member list \<Rightarrow> ns \<Rightarrow> 'db \<Rightarrow> (assign_error + Member) \<times> 'db" where
  "Assign v j now scope candidates ttl db =
     (if candidates = [] then (Inr no_member, db)
      else (let hashed = hashKey j scope;
                (reply, db1) = assignClusterScopeScript v j now (assignmentKey (store_prefix j) hashed) hashed
                                 (milliseconds ttl) (map (candidate_of (store_prefix j)) candidates) False db
            in (case reply of
                  None \<Rightarrow> Inl Nil_Reply
                | Some payload \<Rightarrow>
                    if payload = '''' then Inr no_member
                    else (case decode j payload of None \<Rightarrow> Inl Undecodable | Some m \<Rightarrow> Inr m), db1)))"

section \<open>Renewing and releasing\<close>

definition renewClusterScopeLua ::
  "'db valkey \<Rightarrow> ms \<Rightarrow> string \<Rightarrow> string \<Rightarrow> string \<Rightarrow> ms \<Rightarrow> string \<Rightarrow> 'db \<Rightarrow> 'db" where
  "renewClusterScopeLua v now key assignments nodeID ttl scope db =
     (if GET v now key db \<noteq> Some nodeID then db
      else ZADD v assignments (now + ttl) scope (PEXPIRE v now key ttl db))"

definition Renew :: "'db valkey \<Rightarrow> cluster_codec \<Rightarrow> ms \<Rightarrow> string list \<Rightarrow> string \<Rightarrow> ns \<Rightarrow> 'db \<Rightarrow> 'db" where
  "Renew v j now scopes nodeID ttl db =
     fold (\<lambda>scope. renewClusterScopeLua v now (assignmentKey (store_prefix j) (hashKey j scope))
             (instanceAssignmentsKey (store_prefix j) nodeID) nodeID (milliseconds ttl) (hashKey j scope)) scopes db"

definition releaseClusterScopeScript ::
  "'db valkey \<Rightarrow> ms \<Rightarrow> string \<Rightarrow> string \<Rightarrow> string \<Rightarrow> string \<Rightarrow> 'db \<Rightarrow> 'db" where
  "releaseClusterScopeScript v now key assignments nodeID scope db =
     (if GET v now key db \<noteq> Some nodeID then db else ZREM v assignments scope (DEL v key db))"

definition Release :: "'db valkey \<Rightarrow> cluster_codec \<Rightarrow> ms \<Rightarrow> string \<Rightarrow> string \<Rightarrow> 'db \<Rightarrow> 'db" where
  "Release v j now scope nodeID db =
     releaseClusterScopeScript v now (assignmentKey (store_prefix j) (hashKey j scope))
       (instanceAssignmentsKey (store_prefix j) nodeID) nodeID (hashKey j scope) db"

section \<open>What the code relies on of the server\<close>

text \<open>
  A key is read until its expiry (nothing reads at an earlier time than the
  last write), writing one key leaves every other key readable as before, and
  the size of a sorted set after dropping its expired entries does not depend
  on an earlier trim, nor on changes of other keys.  Text that
  was encoded decodes to the same member, and the empty text decodes to none.
\<close>

locale valkey_server =
  fixes v :: "'db valkey"
  assumes get_persists: "GET v t' k db = Some x \<Longrightarrow> t \<le> t' \<Longrightarrow> GET v t k db = Some x"
    and get_set: "GET v t' k' (SET v t k x ttl db) =
          (if k' = k then (if t' < t + ttl then Some x else None) else GET v t' k' db)"
    and get_pexpire: "GET v t' k' (PEXPIRE v t k ttl db) =
          (if k' = k then (if t' < t + ttl then GET v t k db else None) else GET v t' k' db)"
    and get_del: "GET v t k' (DEL v k db) = (if k' = k then None else GET v t k' db)"
    and get_zadd: "k' \<noteq> k \<Longrightarrow> GET v t k' (ZADD v k s x db) = GET v t k' db"
    and get_zrem: "k' \<noteq> k \<Longrightarrow> GET v t k' (ZREM v k x db) = GET v t k' db"
    and get_ztrim: "k' \<noteq> k \<Longrightarrow> GET v t k' (ZREMRANGEBYSCORE v k s db) = GET v t k' db"
    and get_sadd: "k' \<noteq> k \<Longrightarrow> GET v t k' (SADD v k x db) = GET v t k' db"
    and get_srem: "k' \<noteq> k \<Longrightarrow> GET v t k' (SREM v k x db) = GET v t k' db"
    and zcard_trim: "ZCARD v k (ZREMRANGEBYSCORE v k s (ZREMRANGEBYSCORE v k' s db)) =
          ZCARD v k (ZREMRANGEBYSCORE v k s db)"
    and zcard_zrem: "k \<noteq> k' \<Longrightarrow> ZCARD v k (ZREMRANGEBYSCORE v k s (ZREM v k' x db)) = ZCARD v k (ZREMRANGEBYSCORE v k s db)"
    and zcard_del: "k \<noteq> k' \<Longrightarrow> ZCARD v k (ZREMRANGEBYSCORE v k s (DEL v k' db)) = ZCARD v k (ZREMRANGEBYSCORE v k s db)"

locale cluster_store = valkey_server v for v :: "'db valkey" +
  fixes j :: cluster_codec
  assumes decode_encode: "decode j (encode j m) = Some m"
    and decode_empty: "decode j '''' = None"

text \<open>
  An instance id is plain when its key cannot be the sorted set of another
  instance.  The operations of all nodes are events at the server's clock.
\<close>

definition plain :: "string \<Rightarrow> bool" where
  "plain i \<longleftrightarrow> \<not> has_suffix i '':assignments''"

datatype cluster_op =
  Op_Heartbeat Member ns | Op_Members | Op_Remove string
  | Op_Assign string "Member list" ns | Op_Renew "string list" string ns | Op_Release string string

fun cluster_step :: "'db valkey \<Rightarrow> cluster_codec \<Rightarrow> ms \<times> cluster_op \<Rightarrow> 'db \<Rightarrow> 'db" where
  "cluster_step v j (t, Op_Heartbeat m ttl) db = Heartbeat v j t m ttl db"
| "cluster_step v j (t, Op_Members) db = snd (Members v j t db)"
| "cluster_step v j (t, Op_Remove i) db = RemoveInstance v j i db"
| "cluster_step v j (t, Op_Assign scope cs ttl) db = snd (Assign v j t scope cs ttl db)"
| "cluster_step v j (t, Op_Renew scopes i ttl) db = Renew v j t scopes i ttl db"
| "cluster_step v j (t, Op_Release scope i) db = Release v j t scope i db"

fun answers :: "'db valkey \<Rightarrow> cluster_codec \<Rightarrow> string \<Rightarrow> (ms \<times> cluster_op) list \<Rightarrow> 'db \<Rightarrow> (assign_error + Member) list" where
  "answers v j scope [] db = []"
| "answers v j scope (e # es) db =
     (case e of
        (t, Op_Assign sc cs ttl) \<Rightarrow> (if sc = scope then [fst (Assign v j t sc cs ttl db)] else [])
      | _ \<Rightarrow> []) @ answers v j scope es (cluster_step v j e db)"

text \<open>The ids that may appear, and what keeps a user where it is until \<open>T\<close>.\<close>

fun plain_op :: "cluster_op \<Rightarrow> bool" where
  "plain_op (Op_Heartbeat m ttl) = plain (mb_ID m)"
| "plain_op (Op_Assign scope cs ttl) = list_all (\<lambda>m. plain (mb_ID m)) cs"
| "plain_op _ = True"

fun keeps_owner :: "cluster_codec \<Rightarrow> string \<Rightarrow> string \<Rightarrow> ms \<Rightarrow> ms \<times> cluster_op \<Rightarrow> bool" where
  "keeps_owner j scope own T (t, Op_Heartbeat m ttl) =
     (mb_ID m = own \<longrightarrow> \<not> gone (mb_State m) \<and> T \<le> t + milliseconds ttl)"
| "keeps_owner j scope own T (t, Op_Members) = True"
| "keeps_owner j scope own T (t, Op_Remove i) = (i \<noteq> own)"
| "keeps_owner j scope own T (t, Op_Assign sc cs ttl) =
     (hashKey j sc = hashKey j scope \<longrightarrow> cs \<noteq> [] \<and> T \<le> t + milliseconds ttl)"
| "keeps_owner j scope own T (t, Op_Renew scopes i ttl) = (i = own \<longrightarrow> T \<le> t + milliseconds ttl)"
| "keeps_owner j scope own T (t, Op_Release sc i) = (hashKey j sc = hashKey j scope \<longrightarrow> i \<noteq> own)"

definition named_ok :: "'db valkey \<Rightarrow> cluster_codec \<Rightarrow> 'db \<Rightarrow> bool" where
  "named_ok v j db \<longleftrightarrow>
     (\<forall>i t p m. plain i \<longrightarrow> GET v t (instanceKey (store_prefix j) i) db = Some p \<longrightarrow> decode j p = Some m \<longrightarrow> mb_ID m = i)
   \<and> (\<forall>h t i. GET v t (assignmentKey (store_prefix j) h) db = Some i \<longrightarrow> plain i)"

definition owned :: "'db valkey \<Rightarrow> cluster_codec \<Rightarrow> string \<Rightarrow> string \<Rightarrow> ms \<Rightarrow> ms \<Rightarrow> 'db \<Rightarrow> bool" where
  "owned v j h own T t db \<longleftrightarrow>
     (\<forall>t'. t \<le> t' \<longrightarrow> t' < T \<longrightarrow>
        GET v t' (assignmentKey (store_prefix j) h) db = Some own
      \<and> (\<exists>m. active_member j (GET v t' (instanceKey (store_prefix j) own) db) = Some m \<and> mb_ID m = own))"

section \<open>Keys do not collide\<close>

lemma key_eqs [simp]:
  "instanceKey p a = instanceKey p b \<longleftrightarrow> a = b"
  "assignmentKey p a = assignmentKey p b \<longleftrightarrow> a = b"
  "instanceKey p a \<noteq> assignmentKey p b" "assignmentKey p b \<noteq> instanceKey p a"
  "instanceKey p a \<noteq> instancesKey p" "assignmentKey p a \<noteq> instancesKey p"
  "assignmentKey p a \<noteq> instanceAssignmentsKey p b" "instanceAssignmentsKey p b \<noteq> assignmentKey p a"
  "instanceAssignmentsKey p a = instanceAssignmentsKey p b \<longleftrightarrow> a = b"
  by (simp_all add: instanceKey_def assignmentKey_def instancesKey_def instanceAssignmentsKey_def)

lemma plain_key [simp]: "plain a \<Longrightarrow> instanceKey p a \<noteq> instanceAssignmentsKey p b"
  by (auto simp: instanceKey_def instanceAssignmentsKey_def plain_def has_suffix_iff)

section \<open>The scan picks the first node with room, or the least loaded one\<close>

text \<open>The load and capacity the scan sees of a candidate, \<^const>\<open>None\<close> when it is not active.\<close>

definition candidate_load :: "'db valkey \<Rightarrow> cluster_codec \<Rightarrow> ms \<Rightarrow> 'db \<Rightarrow> candidate \<Rightarrow> (int \<times> int) option" where
  "candidate_load v j now db c =
     map_option (\<lambda>m. (max (mb_ActiveUsers m) (ZCARD v (cd_assignments c) (ZREMRANGEBYSCORE v (cd_assignments c) now db)),
                      effective_capacity m c))
       (active_member j (GET v now (cd_instance c) db))"

definition has_room :: "(int \<times> int) option \<Rightarrow> bool" where
  "has_room l = (case l of None \<Rightarrow> False | Some (used, capacity) \<Rightarrow> used < capacity)"

definition load_ratio :: "(int \<times> int) option \<Rightarrow> f64" where
  "load_ratio l = (case l of None \<Rightarrow> 0 | Some (used, capacity) \<Rightarrow> of_int used / of_int capacity)"

fun weigh_all :: "nat \<Rightarrow> (int \<times> int) option list \<Rightarrow> scan \<Rightarrow> scan" where
  "weigh_all i [] sc = sc"
| "weigh_all i (l # ls) sc =
     weigh_all (Suc i) ls (case l of None \<Rightarrow> sc | Some (used, capacity) \<Rightarrow> weigh_candidate i used capacity sc)"

definition selection_ok :: "(int \<times> int) option list \<Rightarrow> nat \<Rightarrow> bool" where
  "selection_ok ls n \<longleftrightarrow>
     (if n = 0 then \<forall>l\<in>set ls. \<not> has_room l
      else \<exists>xs l ys. ls = xs @ l # ys \<and> n = Suc (length xs) \<and> has_room l \<and> (\<forall>x\<in>set xs. \<not> has_room x))"

definition least_ok :: "(int \<times> int) option list \<Rightarrow> nat \<Rightarrow> f64 \<Rightarrow> bool" where
  "least_ok ls n r \<longleftrightarrow>
     (if n = 0 then set ls \<subseteq> {None}
      else \<exists>xs l ys. ls = xs @ l # ys \<and> n = Suc (length xs) \<and> l \<noteq> None \<and> r = load_ratio l
             \<and> (\<forall>x\<in>set ls. x \<noteq> None \<longrightarrow> r \<le> load_ratio x))"

lemma selection_ok_snoc:
  "selection_ok ls n \<Longrightarrow> selection_ok (ls @ [l]) (if n = 0 \<and> has_room l then Suc (length ls) else n)"
  unfolding selection_ok_def by (auto split: if_splits) (metis append_Cons append_assoc)+

lemma least_ok_snoc:
  assumes "least_ok ls n r"
  shows "l \<noteq> None \<Longrightarrow> n = 0 \<or> load_ratio l < r \<Longrightarrow> least_ok (ls @ [l]) (Suc (length ls)) (load_ratio l)"
    and "l = None \<or> n \<noteq> 0 \<and> \<not> load_ratio l < r \<Longrightarrow> least_ok (ls @ [l]) n r"
proof -
  assume l: "l \<noteq> None" "n = 0 \<or> load_ratio l < r"
  then have "\<forall>x\<in>set ls. x \<noteq> None \<longrightarrow> load_ratio l \<le> load_ratio x"
    using assms unfolding least_ok_def by (fastforce split: if_splits)
  with l show "least_ok (ls @ [l]) (Suc (length ls)) (load_ratio l)"
    unfolding least_ok_def by auto
next
  assume l: "l = None \<or> n \<noteq> 0 \<and> \<not> load_ratio l < r"
  show "least_ok (ls @ [l]) n r"
  proof (cases "n = 0")
    case False
    with assms obtain xs k ys where s: "ls = xs @ k # ys" "n = Suc (length xs)" "k \<noteq> None" "r = load_ratio k"
      "\<forall>x\<in>set ls. x \<noteq> None \<longrightarrow> r \<le> load_ratio x" unfolding least_ok_def by auto
    then have "ls @ [l] = xs @ k # (ys @ [l])" "\<forall>x\<in>set (ls @ [l]). x \<noteq> None \<longrightarrow> r \<le> load_ratio x"
      using l by auto
    with False s(2-4) show ?thesis unfolding least_ok_def by (simp only: if_False) blast
  qed (use assms l in \<open>auto simp: least_ok_def\<close>)
qed

lemma weigh_all_ok:
  assumes "selection_ok ls (sc_selected sc)" and "least_ok ls (sc_least sc) (sc_least_ratio sc)"
  defines "fin ms \<equiv> weigh_all (Suc (length ls)) ms sc"
  shows "selection_ok (ls @ ms) (sc_selected (fin ms)) \<and> least_ok (ls @ ms) (sc_least (fin ms)) (sc_least_ratio (fin ms))"
  using assms(1,2) unfolding fin_def
proof (induction ms arbitrary: ls sc)
  case (Cons l ms)
  let ?sc = "case l of None \<Rightarrow> sc | Some (used, capacity) \<Rightarrow> weigh_candidate (Suc (length ls)) used capacity sc"
  have "selection_ok (ls @ [l]) (sc_selected ?sc)"
    using selection_ok_snoc [OF Cons.prems(1), of l]
    by (auto simp: weigh_candidate_def Let_def has_room_def split: option.splits if_splits)
  moreover have "least_ok (ls @ [l]) (sc_least ?sc) (sc_least_ratio ?sc)"
    using least_ok_snoc [OF Cons.prems(2), of l]
    by (cases l) (auto simp: weigh_candidate_def Let_def load_ratio_def)
  ultimately show ?case using Cons.IH [of "ls @ [l]" ?sc] by simp
qed simp
section \<open>Every node names itself\<close>

definition empty_scan :: scan where
  "empty_scan = \<lparr> sc_selected = 0, sc_least = 0, sc_least_ratio = 0 \<rparr>"

definition chosen :: "bool \<Rightarrow> (int \<times> int) option list \<Rightarrow> nat" where
  "chosen strict ls =
     (let sc = weigh_all 1 ls empty_scan in if sc_selected sc = 0 \<and> \<not> strict then sc_least sc else sc_selected sc)"

lemma empty_scan_ok:
  "selection_ok ls (sc_selected (weigh_all 1 ls empty_scan))"
  "least_ok ls (sc_least (weigh_all 1 ls empty_scan)) (sc_least_ratio (weigh_all 1 ls empty_scan))"
proof -
  have "selection_ok [] (sc_selected empty_scan)" "least_ok [] (sc_least empty_scan) (sc_least_ratio empty_scan)"
    by (simp_all add: selection_ok_def least_ok_def empty_scan_def)
  from weigh_all_ok [OF this, of ls]
  show "selection_ok ls (sc_selected (weigh_all 1 ls empty_scan))"
    "least_ok ls (sc_least (weigh_all 1 ls empty_scan)) (sc_least_ratio (weigh_all 1 ls empty_scan))" by simp_all
qed

text \<open>What the choice is: the first with room, else the least loaded of the active ones.\<close>

lemma chosen_ok:
  assumes "chosen False ls = n"
  shows "if n = 0 then set ls \<subseteq> {None}
    else n \<le> length ls \<and> ls ! (n - 1) \<noteq> None
      \<and> (if \<exists>l\<in>set ls. has_room l then has_room (ls ! (n - 1)) \<and> (\<forall>x\<in>set (take (n - 1) ls). \<not> has_room x)
         else \<forall>x\<in>set ls. x \<noteq> None \<longrightarrow> load_ratio (ls ! (n - 1)) \<le> load_ratio x)"
proof -
  note S = empty_scan_ok [of ls, unfolded selection_ok_def least_ok_def]
  let ?sc = "weigh_all 1 ls empty_scan"
  show ?thesis
  proof (cases "sc_selected ?sc = 0")
    case True
    then have no: "\<not> (\<exists>l\<in>set ls. has_room l)" and n: "n = sc_least ?sc"
      using S(1) assms by (auto simp: chosen_def Let_def)
    show ?thesis
    proof (cases "n = 0")
      case False
      with S(2) n obtain xs l ys where "ls = xs @ l # ys" "n = Suc (length xs)" "l \<noteq> None"
        "\<forall>x\<in>set ls. x \<noteq> None \<longrightarrow> load_ratio l \<le> load_ratio x" by auto
      with no False show ?thesis by (simp add: nth_append)
    qed (use S(2) n no in auto)
  next
    case False
    with S(1) obtain xs l ys where s: "ls = xs @ l # ys" "sc_selected ?sc = Suc (length xs)" "has_room l"
      "\<forall>x\<in>set xs. \<not> has_room x" by auto
    moreover have "n = Suc (length xs)" using s(2) assms by (simp add: chosen_def Let_def)
    moreover have "l \<noteq> None" using s(3) by (cases l) (simp_all add: has_room_def)
    ultimately show ?thesis by auto
  qed
qed

lemma chosen_le: "chosen strict ls \<le> length ls"
proof -
  note S = empty_scan_ok [of ls, unfolded selection_ok_def least_ok_def]
  show ?thesis using S by (auto simp: chosen_def Let_def split: if_splits)
qed

context cluster_store
begin

lemmas get_rules = get_set get_pexpire get_del get_zadd get_zrem get_ztrim get_sadd get_srem

lemma candidate_load_trim:
  "cd_instance c \<noteq> k \<Longrightarrow> candidate_load v j now (ZREMRANGEBYSCORE v k now db) c = candidate_load v j now db c"
  by (simp add: candidate_load_def get_ztrim zcard_trim cong: option.map_cong)

lemma scan_weighs:
  assumes "\<forall>c\<in>set cs. \<forall>c'\<in>set cs. cd_instance c \<noteq> cd_assignments c'"
  shows "fst (scan_candidates v j now i cs sc db) = weigh_all i (map (candidate_load v j now db) cs) sc"
  using assms
proof (induction cs arbitrary: i sc db)
  case (Cons c cs)
  let ?db = "ZREMRANGEBYSCORE v (cd_assignments c) now db"
  have "map (candidate_load v j now ?db) cs = map (candidate_load v j now db) cs"
    using Cons.prems by (simp add: candidate_load_trim)
  moreover have "\<forall>c\<in>set cs. \<forall>c'\<in>set cs. cd_instance c \<noteq> cd_assignments c'" using Cons.prems by simp
  note Cons.IH [OF this]
  moreover have "candidate_load v j now db c = map_option (\<lambda>m. (let zcard = ZCARD v (cd_assignments c) ?db
      in if mb_ActiveUsers m > zcard then mb_ActiveUsers m else zcard, effective_capacity m c))
       (active_member j (GET v now (cd_instance c) db))"
    by (cases "active_member j (GET v now (cd_instance c) db)") (auto simp: candidate_load_def Let_def)
  ultimately show ?case by (simp add: Let_def del: map_eq_conv split: option.split)
qed simp

lemma scan_get:
  assumes "\<forall>c\<in>set cs. k \<noteq> cd_assignments c"
  shows "GET v t k (snd (scan_candidates v j now i cs sc db)) = GET v t k db"
  using assms by (induction cs arbitrary: i sc db)
    (auto simp: Let_def get_ztrim split: option.split)

lemma claim_fresh_result:
  fixes cs :: "candidate list" and db :: 'db and strict :: bool and now ttl :: ms and key scope :: string
  assumes "\<forall>c\<in>set cs. \<forall>c'\<in>set cs. cd_instance c \<noteq> cd_assignments c'"
    and "\<forall>c\<in>set cs. key \<noteq> cd_instance c"
  defines "n \<equiv> chosen strict (map (candidate_load v j now db) cs)"
  defines "res \<equiv> claim_fresh v j now key scope ttl cs strict db"
  shows "fst res = (if n = 0 then Some '''' else GET v now (cd_instance (cs ! (n - 1))) db)"
    and "\<forall>c\<in>set cs. k \<noteq> cd_assignments c \<Longrightarrow> GET v t k (snd res) =
      (if n \<noteq> 0 \<and> k = key then (if t < now + ttl then Some (cd_id (cs ! (n - 1))) else None) else GET v t k db)"
proof -
  obtain sc db1 where s: "scan_candidates v j now 1 cs empty_scan db = (sc, db1)" by (metis surj_pair)
  have n: "(if sc_selected sc = 0 \<and> \<not> strict then sc_least sc else sc_selected sc) = n"
    using scan_weighs [OF assms(1), of now 1 empty_scan db] s by (simp add: n_def chosen_def Let_def)
  have le: "n \<noteq> 0 \<Longrightarrow> cs ! (n - 1) \<in> set cs" using chosen_le [of strict "map (candidate_load v j now db) cs"]
    by (simp add: n_def)
  have g: "GET v t k db1 = GET v t k db" if "\<forall>c\<in>set cs. k \<noteq> cd_assignments c" for t k
    using scan_get [OF that, of t now 1 empty_scan db] s by simp
  have r: "res = (if n = 0 then (Some '''', db1)
      else (let c = cs ! (n - 1); db2 = ZADD v (cd_assignments c) (now + ttl) scope (SET v now key (cd_id c) ttl db1)
            in (GET v now (cd_instance c) db2, db2)))"
    using s n by (simp add: res_def claim_fresh_def Let_def empty_scan_def)
  show "fst res = (if n = 0 then Some '''' else GET v now (cd_instance (cs ! (n - 1))) db)"
    using le assms(1,2) by (auto simp: r Let_def get_zadd get_set g)
  show "GET v t k (snd res) =
      (if n \<noteq> 0 \<and> k = key then (if t < now + ttl then Some (cd_id (cs ! (n - 1))) else None) else GET v t k db)"
    if "\<forall>c\<in>set cs. k \<noteq> cd_assignments c"
    using that le by (auto simp: r Let_def get_zadd get_set g)
qed

end

text \<open>The keys the invariants read: instances with plain ids, and assignments.\<close>

lemma own_keys:
  "k = instanceKey p i \<and> plain i \<or> k = assignmentKey p h \<Longrightarrow> k \<noteq> instancesKey p"
  "k = instanceKey p i \<and> plain i \<or> k = assignmentKey p h \<Longrightarrow> k \<noteq> instanceAssignmentsKey p n"
  by (auto simp: key_eqs [symmetric] dest: sym)

lemma candidates_apart:
  assumes "list_all (\<lambda>m. plain (mb_ID m)) cs"
  shows "\<forall>c\<in>set (map (candidate_of p) cs). \<forall>c'\<in>set (map (candidate_of p) cs). cd_instance c \<noteq> cd_assignments c'"
    "\<forall>c\<in>set (map (candidate_of p) cs). assignmentKey p h \<noteq> cd_instance c"
  using assms by (auto simp: candidate_of_def list_all_iff)

definition candidate_loads :: "'db valkey \<Rightarrow> cluster_codec \<Rightarrow> ms \<Rightarrow> Member list \<Rightarrow> 'db \<Rightarrow> (int \<times> int) option list" where
  "candidate_loads v j now cs db = map (\<lambda>m. candidate_load v j now db (candidate_of (store_prefix j) m)) cs"

context cluster_store
begin

text \<open>The script for a user nobody holds, and for one a live node holds.\<close>

lemma script_fresh:
  fixes db :: 'db and cs :: "Member list" and now ttl :: ms and h :: string
  assumes "list_all (\<lambda>m. plain (mb_ID m)) cs"
  defines "n \<equiv> chosen False (candidate_loads v j now cs db)"
  defines "res \<equiv> claim_fresh v j now (assignmentKey (store_prefix j) h) h ttl (map (candidate_of (store_prefix j)) cs) False db"
  shows "fst res = (if n = 0 then Some '''' else GET v now (instanceKey (store_prefix j) (mb_ID (cs ! (n - 1)))) db)"
    and "k = instanceKey (store_prefix j) i \<and> plain i \<or> k = assignmentKey (store_prefix j) h' \<Longrightarrow>
      GET v t k (snd res) = (if n \<noteq> 0 \<and> k = assignmentKey (store_prefix j) h
        then (if t < now + ttl then Some (mb_ID (cs ! (n - 1))) else None) else GET v t k db)"
proof -
  let ?cs = "map (candidate_of (store_prefix j)) cs"
  note R = claim_fresh_result [OF candidates_apart(1) [OF assms(1), of "store_prefix j"] candidates_apart(2) [OF assms(1), of "store_prefix j" h], where now = now and db = db and strict = False and scope = h and ttl = ttl, folded res_def]
  have n: "chosen False (map (candidate_load v j now db) ?cs) = n" by (simp add: n_def candidate_loads_def comp_def)
  have m: "cd_instance (?cs ! (n - 1)) = instanceKey (store_prefix j) (mb_ID (cs ! (n - 1)))"
    "cd_id (?cs ! (n - 1)) = mb_ID (cs ! (n - 1))" if "n \<noteq> 0"
    using that chosen_le [of False "candidate_loads v j now cs db"] by (simp_all add: n_def candidate_loads_def candidate_of_def)
  show "fst res = (if n = 0 then Some '''' else GET v now (instanceKey (store_prefix j) (mb_ID (cs ! (n - 1)))) db)"
    using R(1)[unfolded n] m by simp
  show "GET v t k (snd res) = (if n \<noteq> 0 \<and> k = assignmentKey (store_prefix j) h
        then (if t < now + ttl then Some (mb_ID (cs ! (n - 1))) else None) else GET v t k db)"
    if "k = instanceKey (store_prefix j) i \<and> plain i \<or> k = assignmentKey (store_prefix j) h'"
    using R(2)[unfolded n, of k t] that m by (auto simp: candidate_of_def)
qed

end

section \<open>What each operation does to instances and assignments\<close>

context cluster_store
begin

abbreviation ikey :: "string \<Rightarrow> string" where "ikey \<equiv> instanceKey (store_prefix j)"
abbreviation akey :: "string \<Rightarrow> string" where "akey \<equiv> assignmentKey (store_prefix j)"

lemma own_get [simp]:
  "plain i \<Longrightarrow> GET v t (ikey i) (ZADD v (instanceAssignmentsKey (store_prefix j) n) s x db) = GET v t (ikey i) db"
  "plain i \<Longrightarrow> GET v t (ikey i) (ZREM v (instanceAssignmentsKey (store_prefix j) n) x db) = GET v t (ikey i) db"
  "plain i \<Longrightarrow> GET v t (ikey i) (DEL v (instanceAssignmentsKey (store_prefix j) n) db) = GET v t (ikey i) db"
  "GET v t (akey h) (ZADD v (instanceAssignmentsKey (store_prefix j) n) s x db) = GET v t (akey h) db"
  "GET v t (akey h) (ZREM v (instanceAssignmentsKey (store_prefix j) n) x db) = GET v t (akey h) db"
  "GET v t (akey h) (DEL v (instanceAssignmentsKey (store_prefix j) n) db) = GET v t (akey h) db"
  "GET v t (ikey i) (SADD v (instancesKey (store_prefix j)) x db) = GET v t (ikey i) db"
  "GET v t (ikey i) (SREM v (instancesKey (store_prefix j)) x db) = GET v t (ikey i) db"
  "GET v t (akey h) (SADD v (instancesKey (store_prefix j)) x db) = GET v t (akey h) db"
  "GET v t (akey h) (SREM v (instancesKey (store_prefix j)) x db) = GET v t (akey h) db"
  by (simp_all add: get_zadd get_zrem get_del get_sadd get_srem)

lemma Assign_script:
  fixes db :: 'db and now :: ms and scope :: string and ttl :: ns
  assumes "cs \<noteq> []"
  defines "run \<equiv> assignClusterScopeScript v j now (akey (hashKey j scope)) (hashKey j scope) (milliseconds ttl)
             (map (candidate_of (store_prefix j)) cs) False db"
  shows "snd (Assign v j now scope cs ttl db) = snd run"
    and "fst (Assign v j now scope cs ttl db) =
      (case fst run of
         None \<Rightarrow> Inl Nil_Reply
       | Some payload \<Rightarrow> if payload = '''' then Inr no_member
           else (case decode j payload of None \<Rightarrow> Inl Undecodable | Some m \<Rightarrow> Inr m))"
  using assms by (simp_all add: Assign_def Let_def case_prod_beta)

lemma assign_frame:
  assumes "list_all (\<lambda>m. plain (mb_ID m)) cs" and "k = ikey i \<and> plain i \<or> k = akey h" and "k \<noteq> akey (hashKey j scope)"
  shows "GET v t k (snd (Assign v j now scope cs ttl db)) = GET v t k db"
proof (cases "cs = []")
  case False
  with assms(2,3) show ?thesis
    by (auto simp: Assign_script assignClusterScopeScript_def Let_def script_fresh(2) [OF assms(1,2)] get_del get_pexpire
        split: option.split)
qed (simp add: Assign_def)

lemma assign_sticky:
  assumes "GET v now (akey (hashKey j scope)) db = Some own"
    and "active_member j (GET v now (ikey own) db) = Some m" and "cs \<noteq> []"
  shows "fst (Assign v j now scope cs ttl db) = Inr m"
    and "GET v t (akey (hashKey j scope)) (snd (Assign v j now scope cs ttl db)) =
      (if t < now + milliseconds ttl then Some own else None)"
proof -
  obtain p where p: "GET v now (ikey own) db = Some p" "decode j p = Some m" "p \<noteq> ''''"
    using assms(2) decode_empty by (cases "GET v now (ikey own) db = Some []")
      (auto simp: active_member_def split: option.splits if_splits)
  then show "fst (Assign v j now scope cs ttl db) = Inr m"
    using assms by (simp add: Assign_def assignClusterScopeScript_def Let_def)
  show "GET v t (akey (hashKey j scope)) (snd (Assign v j now scope cs ttl db)) =
      (if t < now + milliseconds ttl then Some own else None)"
    using assms p by (simp add: Assign_def assignClusterScopeScript_def Let_def get_pexpire)
qed

lemma unheld_loads:
  assumes "active_member j (GET v now (ikey own) db) = None" and "list_all (\<lambda>m. plain (mb_ID m)) cs"
  shows "candidate_loads v j now cs (ZREM v (instanceAssignmentsKey (store_prefix j) own) h (DEL v (akey h) db)) =
    candidate_loads v j now cs db"
proof -
  have "candidate_load v j now (ZREM v (instanceAssignmentsKey (store_prefix j) own) h (DEL v (akey h) db)) (candidate_of (store_prefix j) m)
      = candidate_load v j now db (candidate_of (store_prefix j) m)" if "plain (mb_ID m)" for m
  proof (cases "mb_ID m = own")
    case True
    with assms that show ?thesis by (simp add: candidate_load_def candidate_of_def get_del)
  next
    case False
    with that show ?thesis by (simp add: candidate_load_def candidate_of_def get_del zcard_zrem zcard_del)
  qed
  with assms(2) show ?thesis by (simp add: candidate_loads_def list_all_iff)
qed

lemma assign_unheld:
  fixes db :: 'db and cs :: "Member list" and now :: ms
  assumes "list_all (\<lambda>m. plain (mb_ID m)) cs" and "cs \<noteq> []"
    and unheld: "\<And>own. GET v now (akey (hashKey j scope)) db = Some own \<Longrightarrow>
      plain own \<and> active_member j (GET v now (ikey own) db) = None"
  defines "n \<equiv> chosen False (candidate_loads v j now cs db)"
  shows "fst (Assign v j now scope cs ttl db) =
      (if n = 0 then Inr no_member
       else (case GET v now (ikey (mb_ID (cs ! (n - 1)))) db of
               None \<Rightarrow> Inl Nil_Reply
             | Some payload \<Rightarrow> if payload = '''' then Inr no_member
                 else (case decode j payload of None \<Rightarrow> Inl Undecodable | Some m \<Rightarrow> Inr m)))"
    and "GET v t (akey (hashKey j scope)) (snd (Assign v j now scope cs ttl db)) =
      (if n = 0 then (if GET v now (akey (hashKey j scope)) db = None then GET v t (akey (hashKey j scope)) db else None)
       else if t < now + milliseconds ttl then Some (mb_ID (cs ! (n - 1))) else None)"
proof -
  let ?k = "akey (hashKey j scope)"
  have ap: "plain (mb_ID (cs ! (n - 1)))" if "n \<noteq> 0"
    using that assms(1) chosen_le [of False "candidate_loads v j now cs db"]
    by (simp add: n_def list_all_length candidate_loads_def)
  let ?claim = "claim_fresh v j now ?k (hashKey j scope) (milliseconds ttl) (map (candidate_of (store_prefix j)) cs) False"
  note F = script_fresh [OF assms(1), where now = now and h = "hashKey j scope" and ttl = "milliseconds ttl"]
  define run where "run = assignClusterScopeScript v j now ?k (hashKey j scope) (milliseconds ttl)
    (map (candidate_of (store_prefix j)) cs) False db"
  have fst: "fst run = (if n = 0 then Some '''' else GET v now (ikey (mb_ID (cs ! (n - 1)))) db)"
  proof (cases "GET v now ?k db")
    case None
    then show ?thesis by (simp add: run_def assignClusterScopeScript_def F(1) n_def)
  next
    case (Some own)
    with unheld [OF Some] ap show ?thesis
      by (simp add: run_def assignClusterScopeScript_def Let_def F(1) unheld_loads [OF _ assms(1)] n_def get_del)
  qed
  have snd: "GET v t ?k (snd run) =
      (if n = 0 then (if GET v now ?k db = None then GET v t ?k db else None)
       else if t < now + milliseconds ttl then Some (mb_ID (cs ! (n - 1))) else None)"
  proof (cases "GET v now ?k db")
    case None
    then show ?thesis by (simp add: run_def assignClusterScopeScript_def F(2) n_def)
  next
    case (Some own)
    with unheld [OF Some] show ?thesis
      by (simp add: run_def assignClusterScopeScript_def Let_def F(2) unheld_loads [OF _ assms(1)] n_def get_del)
  qed
  from fst snd show "fst (Assign v j now scope cs ttl db) =
      (if n = 0 then Inr no_member
       else (case GET v now (ikey (mb_ID (cs ! (n - 1)))) db of
               None \<Rightarrow> Inl Nil_Reply
             | Some payload \<Rightarrow> if payload = '''' then Inr no_member
                 else (case decode j payload of None \<Rightarrow> Inl Undecodable | Some m \<Rightarrow> Inr m)))"
    "GET v t ?k (snd (Assign v j now scope cs ttl db)) =
      (if n = 0 then (if GET v now ?k db = None then GET v t ?k db else None)
       else if t < now + milliseconds ttl then Some (mb_ID (cs ! (n - 1))) else None)"
    using Assign_script [OF assms(2), of now scope ttl db] by (simp_all add: run_def)
qed

end

section \<open>Invariants of every run\<close>

context cluster_store
begin

lemma members_get:
  "plain i \<Longrightarrow> GET v t (ikey i) (snd (Members v j now db)) = GET v t (ikey i) db"
  "GET v t (akey h) (snd (Members v j now db)) = GET v t (akey h) db"
proof -
  have srem: "GET v t (ikey i) (fold (SREM v (instancesKey (store_prefix j))) xs db) = GET v t (ikey i) db"
    "GET v t (akey h) (fold (SREM v (instancesKey (store_prefix j))) xs db) = GET v t (akey h) db" for xs db i
    by (induction xs arbitrary: db) simp_all
  have del: "plain i \<Longrightarrow> GET v t (ikey i) (fold (\<lambda>n. DEL v (instanceAssignmentsKey (store_prefix j) n)) xs db) = GET v t (ikey i) db"
    "GET v t (akey h) (fold (\<lambda>n. DEL v (instanceAssignmentsKey (store_prefix j) n)) xs db) = GET v t (akey h) db" for xs db i
    by (induction xs arbitrary: db) simp_all
  show "plain i \<Longrightarrow> GET v t (ikey i) (snd (Members v j now db)) = GET v t (ikey i) db"
    "GET v t (akey h) (snd (Members v j now db)) = GET v t (akey h) db"
    by (simp_all add: Members_def Let_def srem del)
qed

lemma renew_instance: "plain i \<Longrightarrow> GET v t (ikey i) (Renew v j now scopes n ttl db) = GET v t (ikey i) db"
  unfolding Renew_def by (induction scopes arbitrary: db) (auto simp: renewClusterScopeLua_def get_pexpire)

lemma renew_assignment:
  "GET v t (akey h) (Renew v j now scopes n ttl db) = GET v t (akey h) db
   \<or> GET v now (akey h) db = Some n
     \<and> GET v t (akey h) (Renew v j now scopes n ttl db) = (if t < now + milliseconds ttl then Some n else None)"
proof (induction scopes arbitrary: db)
  case (Cons s scopes)
  define db1 where "db1 = renewClusterScopeLua v now (akey (hashKey j s)) (instanceAssignmentsKey (store_prefix j) n) n
    (milliseconds ttl) (hashKey j s) db"
  have step: "Renew v j now (s # scopes) n ttl db = Renew v j now scopes n ttl db1" by (simp add: Renew_def db1_def)
  have g: "GET v t' (akey h) db1 = (if hashKey j s = h \<and> GET v now (akey h) db = Some n
      then (if t' < now + milliseconds ttl then Some n else None) else GET v t' (akey h) db)" for t'
    by (auto simp: db1_def renewClusterScopeLua_def get_pexpire)
  show ?case using Cons.IH [of db1] g [of t] g [of now] unfolding step by (auto split: if_splits)
qed (simp add: Renew_def)

text \<open>Every change an operation makes to the keys the invariants read.\<close>

lemma step_instance:
  assumes "plain i" and "plain_op op"
  shows "GET v t (ikey i) (cluster_step v j (now, op) db) =
    (case op of
       Op_Heartbeat m ttl \<Rightarrow>
         if mb_ID m = i then (if t < now + milliseconds ttl then Some (encode j m) else None) else GET v t (ikey i) db
     | Op_Remove n \<Rightarrow> if n = i then None else GET v t (ikey i) db
     | _ \<Rightarrow> GET v t (ikey i) db)"
proof (cases op)
  case (Op_Assign scope cs ttl)
  with assms assign_frame [of cs "ikey i" i "[]" scope] show ?thesis by simp
qed (use assms in \<open>auto simp: Heartbeat_def members_get RemoveInstance_def renew_instance Release_def releaseClusterScopeScript_def
      get_set get_del\<close>)

lemma assign_owner_source:
  assumes "plain_op (Op_Assign scope cs ttl)" and "named_ok v j db"
    and "GET v t (akey h) (snd (Assign v j now scope cs ttl db)) = Some i"
  shows "plain i"
proof (cases "h = hashKey j scope \<and> cs \<noteq> []")
  case False
  with assms assign_frame [of cs "akey h" "[]" h scope t now ttl db] have "GET v t (akey h) db = Some i"
    by (cases "cs = []") (simp_all add: Assign_def)
  with assms(2) show ?thesis by (auto simp: named_ok_def)
next
  case True
  show ?thesis
  proof (cases "\<exists>own m. GET v now (akey h) db = Some own \<and> active_member j (GET v now (ikey own) db) = Some m")
    case held: True
    then show ?thesis using True assms(2,3) assign_sticky(2) [of now scope db]
      by (auto simp: named_ok_def split: if_splits)
  next
    case unheld: False
    let ?n = "chosen False (candidate_loads v j now cs db)"
    have "plain own \<and> active_member j (GET v now (ikey own) db) = None" if "GET v now (akey (hashKey j scope)) db = Some own" for own
      using that unheld True assms(2) by (auto simp: named_ok_def)
    from assign_unheld(2) [OF _ _ this, where cs = cs and t = t and ttl = ttl] True assms(1,3)
    have "?n \<noteq> 0 \<and> i = mb_ID (cs ! (?n - 1)) \<or> GET v t (akey h) db = Some i" by (auto split: if_splits)
    then show ?thesis
    proof
      assume "?n \<noteq> 0 \<and> i = mb_ID (cs ! (?n - 1))"
      moreover from this have "?n - 1 < length cs" using chosen_le [of False "candidate_loads v j now cs db"]
        by (cases ?n) (auto simp: candidate_loads_def)
      ultimately show ?thesis using assms(1) by (simp add: list_all_length)
    qed (use assms(2) in \<open>auto simp: named_ok_def\<close>)
  qed
qed

lemma named_step:
  assumes "named_ok v j db" and "plain_op (snd e)"
  shows "named_ok v j (cluster_step v j e db)"
proof -
  obtain now op where e: "e = (now, op)" by fastforce
  have "mb_ID m = i" if "plain i" "GET v t (ikey i) (cluster_step v j e db) = Some p" "decode j p = Some m" for i t p m
  proof -
    have "GET v t (ikey i) db = Some p \<or> (\<exists>m. mb_ID m = i \<and> p = encode j m)"
      using that(2) step_instance [OF that(1), of op t now db] assms(2)
      by (auto simp: e split: cluster_op.splits if_splits)
    with that(1,3) assms(1) show ?thesis unfolding named_ok_def by (metis decode_encode option.inject)
  qed
  moreover have "plain i" if "GET v t (akey h) (cluster_step v j e db) = Some i" for h t i
  proof (cases op)
    case (Op_Assign scope cs ttl)
    with that assms assign_owner_source [of scope cs ttl db t h now i] show ?thesis by (simp add: e)
  next
    case (Op_Renew scopes n ttl)
    with that assms(1) renew_assignment [of t h now scopes n ttl db] show ?thesis
      by (auto simp: e named_ok_def split: if_splits)
  qed (use that assms(1) in \<open>auto simp: e named_ok_def Heartbeat_def members_get RemoveInstance_def Release_def
      releaseClusterScopeScript_def get_set get_del split: if_splits\<close>)
  ultimately show ?thesis by (auto simp: named_ok_def)
qed

sublocale naming: state_machine "cluster_step v j" "\<lambda>e _. plain_op (snd e)" "named_ok v j"
  by unfold_locales (rule named_step)

end

section \<open>A user stays with its node\<close>

context cluster_store
begin

lemma active_decode: "active_member j (Some (encode j m)) = (if gone (mb_State m) then None else Some m)"
  by (simp add: active_member_def decode_encode)

text \<open>What a successful assignment establishes.\<close>

lemma assign_result:
  assumes "named_ok v j db" and "plain_op (Op_Assign scope cs ttl)"
    and res: "fst (Assign v j now scope cs ttl db) = Inr m" and "mb_ID m \<noteq> ''''"
  shows "active_member j (GET v now (ikey (mb_ID m)) db) = Some m" and "plain (mb_ID m)"
    and "GET v t (akey (hashKey j scope)) (snd (Assign v j now scope cs ttl db)) =
      (if t < now + milliseconds ttl then Some (mb_ID m) else None)"
proof -
  have cs: "cs \<noteq> []" using res assms(4) by (auto simp: Assign_def no_member_def)
  let ?k = "akey (hashKey j scope)"
  have "active_member j (GET v now (ikey (mb_ID m)) db) = Some m \<and> plain (mb_ID m)
    \<and> GET v t ?k (snd (Assign v j now scope cs ttl db)) = (if t < now + milliseconds ttl then Some (mb_ID m) else None)"
  proof (cases "\<exists>own m'. GET v now ?k db = Some own \<and> active_member j (GET v now (ikey own) db) = Some m'")
    case True
    then obtain own m' where h: "GET v now ?k db = Some own" "active_member j (GET v now (ikey own) db) = Some m'" by blast
    then have "m' = m" using assign_sticky(1) [OF h cs, of ttl] res by simp
    moreover have "plain own" using assms(1) h(1) by (auto simp: named_ok_def)
    moreover from this have "mb_ID m' = own" using assms(1) h(2)
      by (auto simp: named_ok_def active_member_def split: option.splits if_splits)
    ultimately show ?thesis using h assign_sticky(2) [OF h cs] by simp
  next
    case False
    define n where "n = chosen False (candidate_loads v j now cs db)"
    define c where "c = cs ! (n - 1)"
    have unheld: "plain own \<and> active_member j (GET v now (ikey own) db) = None" if "GET v now ?k db = Some own" for own
      using that False assms(1) by (auto simp: named_ok_def)
    note U = assign_unheld [where scope = scope, OF assms(2)[unfolded plain_op.simps] cs unheld, folded n_def, folded c_def]
    have n: "n \<noteq> 0"
    proof
      assume "n = 0"
      with U(1) [of ttl] res have "m = no_member" by simp
      with assms(4) show False by (simp add: no_member_def)
    qed
    then have le: "n - 1 < length cs" using chosen_le [of False "candidate_loads v j now cs db"]
      by (cases n) (auto simp: candidate_loads_def n_def)
    have c: "plain (mb_ID c)" using assms(2) le by (simp add: list_all_length c_def)
    have "candidate_loads v j now cs db ! (n - 1) \<noteq> None"
      using chosen_ok [OF n_def [symmetric]] n by simp
    then obtain a where a: "active_member j (GET v now (ikey (mb_ID c)) db) = Some a"
      using le by (auto simp: candidate_loads_def candidate_load_def candidate_of_def c_def)
    then obtain p where p: "GET v now (ikey (mb_ID c)) db = Some p" "decode j p = Some a"
      by (auto simp: active_member_def split: option.splits if_splits)
    have "p \<noteq> []" using p(2) decode_empty by (metis option.distinct(1))
    with U(1) [of ttl] n p have "fst (Assign v j now scope cs ttl db) = Inr a" by simp
    with res have m: "m = a" by simp
    have "mb_ID a = mb_ID c" using assms(1) c p unfolding named_ok_def by blast
    with a c n U(2) [of t ttl] show ?thesis unfolding m by simp
  qed
  then show "active_member j (GET v now (ikey (mb_ID m)) db) = Some m" "plain (mb_ID m)"
    "GET v t ?k (snd (Assign v j now scope cs ttl db)) = (if t < now + milliseconds ttl then Some (mb_ID m) else None)"
    by blast+
qed

lemma assign_owned:
  assumes "named_ok v j db" and "plain_op (Op_Assign scope cs ttl)"
    and res: "Assign v j now scope cs ttl db = (Inr m, db')" and "mb_ID m \<noteq> ''''"
    and "T \<le> now + milliseconds ttl" and live: "GET v (T - 1) (ikey (mb_ID m)) db' \<noteq> None"
  shows "owned v j (hashKey j scope) (mb_ID m) T now db'"
proof -
  note R = assign_result [OF assms(1,2), of now m, unfolded res, simplified, OF assms(4)]
  have inst: "GET v t (ikey (mb_ID m)) db' = GET v t (ikey (mb_ID m)) db" for t
    using assign_frame [of cs "ikey (mb_ID m)" "mb_ID m" "[]" scope t now ttl db] assms(2) R(2) res by simp
  obtain p where p: "GET v (T - 1) (ikey (mb_ID m)) db' = Some p" using live by blast
  have "GET v t (ikey (mb_ID m)) db' = GET v now (ikey (mb_ID m)) db" if "now \<le> t" "t < T" for t
    using get_persists [OF p, of t] get_persists [OF p, of now] that inst by simp
  with R(1) R(3) assms(5) show ?thesis by (auto simp: owned_def)
qed

lemma owned_step:
  assumes own: "owned v j (hashKey j scope) own T t db" and "t \<le> now" "now < T"
    and "plain own" "plain_op op" "keeps_owner j scope own T (now, op)"
  shows "owned v j (hashKey j scope) own T now (cluster_step v j (now, op) db)"
proof -
  let ?h = "hashKey j scope"
  obtain m0 where here: "GET v now (akey ?h) db = Some own" "active_member j (GET v now (ikey own) db) = Some m0"
    using own assms(2,3) by (auto simp: owned_def)
  have "GET v t' (akey ?h) (cluster_step v j (now, op) db) = Some own" if t': "now \<le> t'" "t' < T" for t'
  proof -
    have was: "GET v t' (akey ?h) db = Some own" using own assms(2) t' by (auto simp: owned_def)
    show ?thesis
    proof (cases op)
      case (Op_Assign sc cs ttl)
      show ?thesis
      proof (cases "hashKey j sc = ?h")
        case True
        with Op_Assign assms(6) t' show ?thesis
          using assign_sticky(2) [of now sc db own m0 cs t' ttl] here by simp
      next
        case False
        with Op_Assign assms(5) was assign_frame [of cs "akey ?h" "[]" ?h sc t' now ttl db] show ?thesis by simp
      qed
    next
      case (Op_Renew scopes n ttl)
      with assms(6) t' here(1) was renew_assignment [of t' ?h now scopes n ttl db] show ?thesis by auto
    qed (use was here assms(6) in \<open>auto simp: Heartbeat_def members_get RemoveInstance_def Release_def
        releaseClusterScopeScript_def get_set get_del\<close>)
  qed
  moreover have "\<exists>m. active_member j (GET v t' (ikey own) (cluster_step v j (now, op) db)) = Some m \<and> mb_ID m = own"
    if t': "now \<le> t'" "t' < T" for t'
  proof -
    have was: "\<exists>m. active_member j (GET v t' (ikey own) db) = Some m \<and> mb_ID m = own"
      using own assms(2) t' by (auto simp: owned_def)
    then show ?thesis using step_instance [OF assms(4,5), of t' now db] assms(6) t'
      by (cases op) (auto simp: active_decode)
  qed
  ultimately show ?thesis by (simp add: owned_def)
qed

lemma owned_answers:
  assumes "owned v j (hashKey j scope) own T t db" and "plain own"
    and "sorted_wrt (\<le>) (t # map fst es)" and "\<forall>e\<in>set es. fst e < T \<and> plain_op (snd e) \<and> keeps_owner j scope own T e"
  shows "\<forall>a\<in>set (answers v j scope es db). \<exists>m. a = Inr m \<and> mb_ID m = own"
  using assms
proof (induction es arbitrary: t db)
  case (Cons e es)
  obtain now op where e: "e = (now, op)" by fastforce
  have c: "t \<le> now" "now < T" "plain_op op" "keeps_owner j scope own T (now, op)" using Cons.prems by (auto simp: e)
  have "\<exists>m. fst (Assign v j now scope cs ttl db) = Inr m \<and> mb_ID m = own" if "op = Op_Assign scope cs ttl" for cs ttl
    using that c Cons.prems(1) assign_sticky(1) [of now scope db own _ cs ttl] by (auto simp: owned_def)
  moreover have "\<forall>a\<in>set (answers v j scope es (cluster_step v j e db)). \<exists>m. a = Inr m \<and> mb_ID m = own"
    using Cons.prems owned_step [OF Cons.prems(1) c(1,2) Cons.prems(2) c(3,4)] by (intro Cons.IH [of now]) (auto simp: e)
  ultimately show ?case by (auto simp: e split: cluster_op.splits)
qed simp

end

section \<open>An in-memory server\<close>

record mem_db =
  mem_strings :: "(string \<times> string \<times> ms) list"
  mem_zsets :: "(string \<times> (string \<times> int) list) list"
  mem_sets :: "(string \<times> string list) list"

definition mem_get :: "ms \<Rightarrow> string \<Rightarrow> mem_db \<Rightarrow> string option" where
  "mem_get t k db = (case map_of (mem_strings db) k of
     None \<Rightarrow> None | Some (x, until) \<Rightarrow> if t < until then Some x else None)"

definition mem_list :: "(string \<times> 'a list) list \<Rightarrow> string \<Rightarrow> 'a list" where
  "mem_list kvs k = (case map_of kvs k of None \<Rightarrow> [] | Some xs \<Rightarrow> xs)"

definition mem_del :: "string \<Rightarrow> mem_db \<Rightarrow> mem_db" where
  "mem_del k db = \<lparr> mem_strings = al_del k (mem_strings db), mem_zsets = al_del k (mem_zsets db),
                    mem_sets = al_del k (mem_sets db) \<rparr>"

definition mem_set :: "ms \<Rightarrow> string \<Rightarrow> string \<Rightarrow> ms \<Rightarrow> mem_db \<Rightarrow> mem_db" where
  "mem_set t k x ttl db = (mem_del k db)\<lparr>mem_strings := al_put k (x, t + ttl) (mem_strings (mem_del k db))\<rparr>"

definition mem_pexpire :: "ms \<Rightarrow> string \<Rightarrow> ms \<Rightarrow> mem_db \<Rightarrow> mem_db" where
  "mem_pexpire t k ttl db = (case mem_get t k db of
     None \<Rightarrow> db\<lparr>mem_strings := al_del k (mem_strings db)\<rparr>
   | Some x \<Rightarrow> db\<lparr>mem_strings := al_put k (x, t + ttl) (mem_strings db)\<rparr>)"

definition mem_zupd :: "string \<Rightarrow> ((string \<times> int) list \<Rightarrow> (string \<times> int) list) \<Rightarrow> mem_db \<Rightarrow> mem_db" where
  "mem_zupd k f db = db\<lparr>mem_zsets := al_put k (f (mem_list (mem_zsets db) k)) (mem_zsets db)\<rparr>"

definition mem_supd :: "string \<Rightarrow> (string list \<Rightarrow> string list) \<Rightarrow> mem_db \<Rightarrow> mem_db" where
  "mem_supd k f db = db\<lparr>mem_sets := al_put k (f (mem_list (mem_sets db) k)) (mem_sets db)\<rparr>"

definition mem_valkey :: "mem_db valkey" where
  "mem_valkey =
     \<lparr> GET = mem_get, SET = mem_set, PEXPIRE = mem_pexpire, DEL = mem_del,
       ZADD = (\<lambda>k s x. mem_zupd k (al_put x s)),
       ZREM = (\<lambda>k x. mem_zupd k (al_del x)),
       ZREMRANGEBYSCORE = (\<lambda>k s. mem_zupd k (filter (\<lambda>(_, s'). s < s'))),
       ZCARD = (\<lambda>k db. int (length (mem_list (mem_zsets db) k))),
       SADD = (\<lambda>k x. mem_supd k (List.insert x)),
       SREM = (\<lambda>k x. mem_supd k (removeAll x)),
       SMEMBERS = (\<lambda>k db. mem_list (mem_sets db) k) \<rparr>"

definition mem_empty :: mem_db where
  "mem_empty = \<lparr> mem_strings = [], mem_zsets = [], mem_sets = [] \<rparr>"

text \<open>A text format for members: every byte of a field is marked, every field is ended.\<close>

definition put_text :: "string \<Rightarrow> string" where
  "put_text s = concat (map (\<lambda>c. [CHR ''x'', c]) s) @ ''.''"

fun get_text :: "string \<Rightarrow> (string \<times> string) option" where
  "get_text (a # r) =
     (if a = CHR ''.'' then Some ([], r)
      else case r of [] \<Rightarrow> None | c # r' \<Rightarrow> map_option (apfst ((#) c)) (get_text r'))"
| "get_text [] = None"

definition put_int :: "int \<Rightarrow> string" where
  "put_int n = (if n < 0 then ''n'' @ put_text (nat_digits (nat (- n))) else ''p'' @ put_text (nat_digits (nat n)))"

definition get_int :: "string \<Rightarrow> (int \<times> string) option" where
  "get_int s = (case s of
     [] \<Rightarrow> None
   | sign # r \<Rightarrow> (case get_text r of
       None \<Rightarrow> None
     | Some (digits, r') \<Rightarrow> map_option (\<lambda>n. (if sign = CHR ''n'' then - int n else int n, r')) (parse_unsigned digits)))"

definition text_encode :: "Member \<Rightarrow> string" where
  "text_encode m = put_text (mb_ID m) @ put_text (mb_Address m) @ put_text (mb_State m)
     @ put_int (mb_ActiveUsers m) @ put_int (mb_Capacity m) @ put_int (mb_ReportedAt m)"

definition text_decode :: "string \<Rightarrow> Member option" where
  "text_decode s = do {
     (i, s) \<leftarrow> get_text s; (a, s) \<leftarrow> get_text s; (st, s) \<leftarrow> get_text s;
     (u, s) \<leftarrow> get_int s; (c, s) \<leftarrow> get_int s; (r, s) \<leftarrow> get_int s;
     Some \<lparr> mb_ID = i, mb_Address = a, mb_State = st, mb_ActiveUsers = u, mb_Capacity = c, mb_ReportedAt = r \<rparr> }"

definition text_codec :: "string \<Rightarrow> cluster_codec" where
  "text_codec prefix = \<lparr> encode = text_encode, decode = text_decode, hashKey = (\<lambda>s. s), store_prefix = normal_prefix prefix \<rparr>"

lemma get_put_text [simp]: "get_text (put_text s @ r) = Some (s, r)"
  unfolding put_text_def by (induction s) auto

lemma get_put_int [simp]: "get_int (put_int n @ r) = Some (n, r)"
  by (simp add: get_int_def put_int_def)

lemma text_decode_encode: "text_decode (text_encode m) = Some m"
  using get_put_int [of "mb_ReportedAt m" "[]"] by (simp add: text_decode_def text_encode_def)

lemma mem_valkey_sel [simp]:
  "GET mem_valkey = mem_get" "SET mem_valkey = mem_set" "PEXPIRE mem_valkey = mem_pexpire" "DEL mem_valkey = mem_del"
  "ZADD mem_valkey = (\<lambda>k s x. mem_zupd k (al_put x s))" "ZREM mem_valkey = (\<lambda>k x. mem_zupd k (al_del x))"
  "ZREMRANGEBYSCORE mem_valkey = (\<lambda>k s. mem_zupd k (filter (\<lambda>(_, s'). s < s')))"
  "ZCARD mem_valkey = (\<lambda>k db. int (length (mem_list (mem_zsets db) k)))"
  "SADD mem_valkey = (\<lambda>k x. mem_supd k (List.insert x))" "SREM mem_valkey = (\<lambda>k x. mem_supd k (removeAll x))"
  by (simp_all add: mem_valkey_def)

lemma mem_get_upd [simp]: "mem_get t k (mem_zupd k' f db) = mem_get t k db" "mem_get t k (mem_supd k' g db) = mem_get t k db"
  by (simp_all add: mem_get_def mem_zupd_def mem_supd_def)

lemma mem_zlist [simp]:
  "mem_list (mem_zsets (mem_zupd k' f db)) k = (if k = k' then f (mem_list (mem_zsets db) k) else mem_list (mem_zsets db) k)"
  "mem_list (mem_zsets (mem_del k' db)) k = (if k = k' then [] else mem_list (mem_zsets db) k)"
  by (simp_all add: mem_zupd_def mem_list_def mem_del_def)

lemma mem_get_write [simp]:
  "mem_get t k' (mem_del k db) = (if k' = k then None else mem_get t k' db)"
  "mem_get t' k' (mem_set t k x ttl db) = (if k' = k then (if t' < t + ttl then Some x else None) else mem_get t' k' db)"
  "mem_get t' k' (mem_pexpire t k ttl db) =
     (if k' = k then (if t' < t + ttl then mem_get t k db else None) else mem_get t' k' db)"
  by (auto simp: mem_get_def mem_del_def mem_set_def mem_pexpire_def split: option.split)

lemma mem_get_earlier: "mem_get t' k db = Some x \<Longrightarrow> t \<le> t' \<Longrightarrow> mem_get t k db = Some x"
  by (auto simp: mem_get_def split: option.splits if_splits)

interpretation mem_store: cluster_store mem_valkey "text_codec prefix" for prefix
  by unfold_locales
    (simp_all add: text_codec_def text_decode_encode text_decode_def [of "[]"], rule mem_get_earlier)

section \<open>Ownership\<close>

lemma run_named:
  assumes "cluster_store v j" and "\<And>t k. GET v t k db0 = None" and "list_all (\<lambda>e. plain_op (snd e)) pre"
  shows "named_ok v j (fold (cluster_step v j) pre db0)"
proof -
  have "ok_run (cluster_step v j) (\<lambda>e _. plain_op (snd e)) pre db0"
    using assms(3) by (induction pre arbitrary: db0) auto
  moreover have "named_ok v j db0" using assms(2) by (simp add: named_ok_def)
  ultimately show ?thesis
    by (induction pre arbitrary: db0) (auto intro: cluster_store.named_step [OF assms(1)])
qed

text \<open>(C4) One user, one node.  Once the store has answered an assignment
  with a node, every assignment of that user by any node and with any list of
  candidates names the same node until \<open>T\<close>, whatever heartbeats, sweeps of
  stale members, assignments, renewals and releases all nodes interleave: as
  long as the assignment and the owner's heartbeat last until \<open>T\<close>, the owner
  neither drains nor leaves, and nobody releases the user in the owner's name.\<close>

theorem cluster_single_owner:
  assumes "cluster_store v j" and "\<And>t k. GET v t k db0 = None"
    and "list_all (\<lambda>e. plain_op (snd e)) pre" and "plain_op (Op_Assign scope cs ttl)"
    and "Assign v j now scope cs ttl (fold (cluster_step v j) pre db0) = (Inr m, db)" and "mb_ID m \<noteq> ''''"
    and "T \<le> now + milliseconds ttl" and "GET v (T - 1) (instanceKey (store_prefix j) (mb_ID m)) db \<noteq> None"
    and "sorted (now # map fst es)"
    and "\<forall>e\<in>set es. fst e < T \<and> plain_op (snd e) \<and> keeps_owner j scope (mb_ID m) T e"
  shows "\<forall>a\<in>set (answers v j scope es db). \<exists>m'. a = Inr m' \<and> mb_ID m' = mb_ID m"
proof -
  note N = run_named [OF assms(1-3)]
  note A = cluster_store.assign_result(2) [OF assms(1) N assms(4), of now m] cluster_store.assign_owned [OF assms(1) N assms(4-8)]
  from assms(5,6) A have "plain (mb_ID m)" "owned v j (hashKey j scope) (mb_ID m) T now db" by simp_all
  from cluster_store.owned_answers [OF assms(1) this(2,1)] assms(9,10) show ?thesis by simp
qed

definition sample_node :: "string \<Rightarrow> int \<Rightarrow> Member" where
  "sample_node i users = \<lparr> mb_ID = i, mb_Address = ''http://'' @ i, mb_State = StateActive, mb_ActiveUsers = users,
                          mb_Capacity = 2, mb_ReportedAt = 0 \<rparr>"

definition sample_history :: "(ms \<times> cluster_op) list" where
  "sample_history = [(0, Op_Heartbeat (sample_node ''a'' 0) (15 * second)), (0, Op_Heartbeat (sample_node ''b'' 2) (15 * second))]"

definition sample_later :: "(ms \<times> cluster_op) list" where
  "sample_later =
     [(200, Op_Assign ''other'' [sample_node ''b'' 0] (310 * second)),
      (5000, Op_Heartbeat (sample_node ''a'' 1) (15 * second)),
      (5001, Op_Members),
      (5100, Op_Release ''u'' ''b''),
      (5200, Op_Assign ''u'' [sample_node ''b'' 0] (310 * second)),
      (9000, Op_Remove ''b''),
      (14999, Op_Assign ''u'' [sample_node ''c'' 0, sample_node ''a'' 0] (310 * second))]"

definition sample_db :: mem_db where
  "sample_db = fold (cluster_step mem_valkey (text_codec ''aqueduct'')) sample_history mem_empty"

definition sample_assign :: "(assign_error + Member) \<times> mem_db" where
  "sample_assign = Assign mem_valkey (text_codec ''aqueduct'') 100 ''u'' [sample_node ''b'' 2, sample_node ''a'' 0] (310 * second) sample_db"

lemma mem_empty_get: "GET mem_valkey t k mem_empty = None"
  by (simp add: mem_get_def mem_empty_def)

theorem cluster_single_owner_witness:
  "sample_assign = (Inr (sample_node ''a'' 0), snd sample_assign)
   \<and> length (answers mem_valkey (text_codec ''aqueduct'') ''u'' sample_later (snd sample_assign)) = 2
   \<and> list_all (\<lambda>a. case a of Inl _ \<Rightarrow> False | Inr m \<Rightarrow> mb_ID m = ''a'')
       (answers mem_valkey (text_codec ''aqueduct'') ''u'' sample_later (snd sample_assign))"
proof -
  have r: "fst sample_assign = Inr (sample_node ''a'' 0)" by code_simp
  then have s: "Assign mem_valkey (text_codec ''aqueduct'') 100 ''u'' [sample_node ''b'' 2, sample_node ''a'' 0] (310 * second)
      (fold (cluster_step mem_valkey (text_codec ''aqueduct'')) sample_history mem_empty) = (Inr (sample_node ''a'' 0), snd sample_assign)"
    by (simp add: sample_assign_def sample_db_def prod_eq_iff)
  have c: "list_all (\<lambda>e. plain_op (snd e)) sample_history"
    "plain_op (Op_Assign ''u'' [sample_node ''b'' 2, sample_node ''a'' 0] (310 * second))"
    "mb_ID (sample_node ''a'' 0) \<noteq> ''''" "15000 \<le> 100 + milliseconds (310 * second)"
    "GET mem_valkey (15000 - 1) (instanceKey (store_prefix (text_codec ''aqueduct'')) (mb_ID (sample_node ''a'' 0))) (snd sample_assign) \<noteq> None"
    "sorted (100 # map fst sample_later)"
    "\<forall>e\<in>set sample_later. fst e < 15000 \<and> plain_op (snd e) \<and> keeps_owner (text_codec ''aqueduct'') ''u'' (mb_ID (sample_node ''a'' 0)) 15000 e"
    by code_simp+
  have l: "length (answers mem_valkey (text_codec ''aqueduct'') ''u'' sample_later (snd sample_assign)) = 2" by code_simp
  note W = cluster_single_owner [OF mem_store.cluster_store_axioms mem_empty_get c(1,2) s c(3-7)]
  show ?thesis using r l W by (auto simp: prod_eq_iff list_all_iff sample_node_def split: sum.split)
qed

text \<open>(C33) Bounded load.  A user that nobody holds, or whose node is gone, is
  given to the first candidate in the caller's order that has room (fewer
  unexpired assignments and reported users than its capacity), and to the
  least loaded active candidate when none has room; with no active candidate
  nobody is named.  The answer and the recorded assignment agree.\<close>

theorem assign_bounded_load:
  assumes "cluster_store v j" and "\<And>t k. GET v t k db0 = None"
    and "list_all (\<lambda>e. plain_op (snd e)) pre" and "plain_op (Op_Assign scope cs ttl)" and "cs \<noteq> []" and "0 < milliseconds ttl"
    and db: "db = fold (cluster_step v j) pre db0"
    and unheld: "\<forall>own. GET v now (assignmentKey (store_prefix j) (hashKey j scope)) db = Some own
          \<longrightarrow> active_member j (GET v now (instanceKey (store_prefix j) own) db) = None"
  shows "let ls = candidate_loads v j now cs db; (r, db') = Assign v j now scope cs ttl db
    in if set ls \<subseteq> {None} then r = Inr no_member
       else \<exists>n m. n < length cs \<and> ls ! n \<noteq> None \<and> r = Inr m \<and> mb_ID m = mb_ID (cs ! n)
              \<and> GET v now (assignmentKey (store_prefix j) (hashKey j scope)) db' = Some (mb_ID m)
              \<and> (if \<exists>l\<in>set ls. has_room l then has_room (ls ! n) \<and> (\<forall>k<n. \<not> has_room (ls ! k))
                 else \<forall>l\<in>set ls. l \<noteq> None \<longrightarrow> load_ratio (ls ! n) \<le> load_ratio l)"
proof -
  let ?ls = "candidate_loads v j now cs db" and ?k = "assignmentKey (store_prefix j) (hashKey j scope)"
  obtain r db' where A: "Assign v j now scope cs ttl db = (r, db')" by fastforce
  have N: "named_ok v j db" unfolding db by (rule run_named [OF assms(1-3)])
  define n where "n = chosen False ?ls"
  have un: "plain own \<and> active_member j (GET v now (instanceKey (store_prefix j) own) db) = None"
    if "GET v now ?k db = Some own" for own using that N unheld by (auto simp: named_ok_def)
  note U = cluster_store.assign_unheld [where scope = scope, OF assms(1) assms(4)[unfolded plain_op.simps] assms(5) un, folded n_def]
  note C = chosen_ok [OF n_def [symmetric]]
  have len: "length ?ls = length cs" by (simp add: candidate_loads_def)
  show ?thesis
  proof (cases "n = 0")
    case True
    with C U(1) [of ttl] A show ?thesis by (simp add: Let_def)
  next
    case False
    then have le: "n - 1 < length cs" "?ls ! (n - 1) \<noteq> None" using C len by (cases n; simp)+
    then have ne: "\<not> set ?ls \<subseteq> {None}" using len by (metis nth_mem singletonD subsetD)
    from le obtain a where a: "active_member j (GET v now (instanceKey (store_prefix j) (mb_ID (cs ! (n - 1)))) db) = Some a"
      by (auto simp: candidate_loads_def candidate_load_def candidate_of_def)
    then obtain p where p: "GET v now (instanceKey (store_prefix j) (mb_ID (cs ! (n - 1)))) db = Some p" "decode j p = Some a"
      by (auto simp: active_member_def split: option.splits if_splits)
    have "p \<noteq> []" using p(2) cluster_store.decode_empty [OF assms(1)] by (metis option.distinct(1))
    with U(1) [of ttl] False p A have r: "r = Inr a" by simp
    have i: "mb_ID a = mb_ID (cs ! (n - 1))" using N assms(4) le(1) p by (auto simp: named_ok_def list_all_length)
    have g: "GET v now ?k db' = Some (mb_ID a)" using U(2) [of now ttl] False A assms(6) i by simp
    have t: "(\<forall>x\<in>set (take (n - 1) ?ls). \<not> has_room x) \<longleftrightarrow> (\<forall>k<n - 1. \<not> has_room (?ls ! k))"
      using le(1) len by (simp add: all_set_conv_all_nth)
    have D: "if \<exists>l\<in>set ?ls. has_room l then has_room (?ls ! (n - 1)) \<and> (\<forall>k<n - 1. \<not> has_room (?ls ! k))
                 else \<forall>l\<in>set ?ls. l \<noteq> None \<longrightarrow> load_ratio (?ls ! (n - 1)) \<le> load_ratio l"
      using C [unfolded if_not_P [OF False] t] by blast
    show ?thesis unfolding A Let_def prod.case if_not_P [OF ne] using le r i g D by blast
  qed
qed

theorem assign_bounded_load_witness:
  "candidate_loads mem_valkey (text_codec ''aqueduct'') 100 [sample_node ''b'' 2, sample_node ''a'' 0] sample_db = [Some (2, 2), Some (0, 2)]
   \<and> (\<exists>m. fst sample_assign = Inr m \<and> mb_ID m = ''a''
        \<and> GET mem_valkey 100 ''aqueduct:assignment:u'' (snd sample_assign) = Some ''a'')"
proof -
  have l: "candidate_loads mem_valkey (text_codec ''aqueduct'') 100 [sample_node ''b'' 2, sample_node ''a'' 0] sample_db = [Some (2, 2), Some (0, 2)]"
    by code_simp
  have c: "list_all (\<lambda>e. plain_op (snd e)) sample_history"
    "plain_op (Op_Assign ''u'' [sample_node ''b'' 2, sample_node ''a'' 0] (310 * second))"
    "[sample_node ''b'' 2, sample_node ''a'' 0] \<noteq> []" "0 < milliseconds (310 * second)"
    by code_simp+
  have k: "assignmentKey (store_prefix (text_codec ''aqueduct'')) (hashKey (text_codec ''aqueduct'') ''u'') = ''aqueduct:assignment:u''"
    by code_simp
  have g: "GET mem_valkey 100 ''aqueduct:assignment:u'' sample_db = None" by code_simp
  then have u: "\<forall>own. GET mem_valkey 100 (assignmentKey (store_prefix (text_codec ''aqueduct'')) (hashKey (text_codec ''aqueduct'') ''u'')) sample_db = Some own
      \<longrightarrow> active_member (text_codec ''aqueduct'') (GET mem_valkey 100 (instanceKey (store_prefix (text_codec ''aqueduct'')) own) sample_db) = None"
    unfolding k by simp
  obtain r db' where s: "sample_assign = (r, db')" by fastforce
  note W = assign_bounded_load [OF mem_store.cluster_store_axioms mem_empty_get c sample_db_def u,
    unfolded k l Let_def, folded sample_assign_def, unfolded s prod.case]
  have "has_room (Some (0, 2))" "\<not> has_room (Some (2, 2))" by (simp_all add: has_room_def)
  with W obtain m where "r = Inr m" "mb_ID m = mb_ID (sample_node ''a'' 0)"
    "GET mem_valkey 100 ''aqueduct:assignment:u'' db' = Some (mb_ID m)"
    by (auto simp: less_Suc_eq simp del: mem_valkey_sel)
  moreover have "mb_ID (sample_node ''a'' 0) = ''a''" by (simp add: sample_node_def)
  ultimately show ?thesis unfolding s fst_conv snd_conv using l by (intro conjI exI [of _ m]) simp_all
qed

end
