(* ===== verification/Cluster_Router.thy ===== *)
theory Cluster_Router
  imports Cluster_Store Ordered_KV
begin

text \<open>
  Which node serves a user: \<^verbatim>\<open>internal/cluster/router.go\<close>.  The state of a
  router is a record; its maps are association lists.  The rendezvous score of
  a member for a key (a SHA-256 in hexadecimal) is the parameter \<open>score\<close>.  A
  reply of the state store is an argument.  \<open>syncState\<close> and \<open>rebalance\<close> release
  the router's lock between their steps, so what other goroutines do to the
  router in between is an argument too: an arbitrary function applied each
  time the lock is taken again.
\<close>

section \<open>Settings\<close>

record cluster_Config =
  cc_Enabled :: bool
  cc_Provider :: string
  cc_Self :: Member
  cc_Members :: "Member list"
  cc_PruneTTL :: ns
  cc_HeartbeatInterval :: ns
  cc_InstanceTTL :: ns
  cc_AssignmentIdle :: ns
  cc_RequestTimeout :: ns
  cc_ValkeyURL :: string
  cc_ValkeyPrefix :: string

definition parse_member :: "string \<Rightarrow> Member option" where
  "parse_member raw =
     (let part = trim_space raw
      in if part = '''' then None
         else (case str_cut (CHR ''='') part of
                 None \<Rightarrow> None
               | Some (left, right) \<Rightarrow>
                   (let i = trim_space left; address = trim_right (CHR ''/'') (trim_space right)
                    in if i \<noteq> '''' \<and> address \<noteq> '''' then Some (no_member\<lparr>mb_ID := i, mb_Address := address\<rparr>) else None)))"

definition ParseMembers :: "string \<Rightarrow> Member list" where
  "ParseMembers raw = List.map_filter parse_member (split_on (CHR '','') raw)"

definition or_default :: "bool \<Rightarrow> 'a \<Rightarrow> 'a \<Rightarrow> 'a" where
  "or_default bad def v = (if bad then def else v)"

definition cluster_LoadConfig :: "environment \<Rightarrow> cluster_Config" where
  "cluster_LoadConfig env =
     (let provider = to_lower (trim_space (env ''AQUIFER_CLUSTER_PROVIDER''));
          url = env ''AQUIFER_CLUSTER_VALKEY_URL'';
          capacity = env_Int64 env ''AQUIFER_CLUSTER_MAX_ACTIVE_USERS'' defaultClusterMaxActiveUsers;
          prefix = env ''AQUIFER_CLUSTER_VALKEY_PREFIX'';
          seconds = (\<lambda>name def. wrap64 (env_Int64 env name def * second));
          prune = seconds ''AQUIFER_CLUSTER_PRUNE_TTL_SECONDS'' 30;
          beat = seconds ''AQUIFER_CLUSTER_HEARTBEAT_SECONDS'' 5;
          heartbeat = or_default (beat \<le> 0) (5 * second) beat;
          inst = seconds ''AQUIFER_CLUSTER_INSTANCE_TTL_SECONDS'' 15;
          idle = seconds ''AQUIFER_CLUSTER_ASSIGNMENT_IDLE_SECONDS'' 300;
          timeout = wrap64 (env_Int64 env ''AQUIFER_CLUSTER_VALKEY_TIMEOUT_MS'' 50 * millisecond)
      in \<lparr> cc_Enabled = env_Bool env ''AQUIFER_CLUSTER_ENABLED'' False,
           cc_Provider = or_default (provider = '''') ''static'' provider,
           cc_Self = \<lparr> mb_ID = env ''AQUIFER_CLUSTER_SELF_ID'', mb_Address = env ''AQUIFER_CLUSTER_SELF_ADDR'',
                       mb_State = StateActive, mb_ActiveUsers = 0,
                       mb_Capacity = or_default (capacity \<le> 0) defaultClusterMaxActiveUsers capacity, mb_ReportedAt = 0 \<rparr>,
           cc_Members = ParseMembers (env ''AQUIFER_CLUSTER_MEMBERS''),
           cc_PruneTTL = or_default (prune < 0) (30 * second) prune,
           cc_HeartbeatInterval = heartbeat,
           cc_InstanceTTL = or_default (inst < wrap64 (3 * heartbeat)) (wrap64 (3 * heartbeat)) inst,
           cc_AssignmentIdle = or_default (idle \<le> 0) (300 * second) idle,
           cc_RequestTimeout = or_default (timeout \<le> 0) (50 * millisecond) timeout,
           cc_ValkeyURL = or_default (url = '''') (env ''AQUIFER_VALKEY_URL'') url,
           cc_ValkeyPrefix = or_default (prefix = '''') ''aqueduct:'' prefix \<rparr>)"

section \<open>The router\<close>

record scope_activity =
  ca_lastSeen :: ns
  ca_outstanding :: int

record Router =
  rt_self :: Member
  rt_provider :: string
  rt_pruneTTL :: ns
  rt_idleTTL :: ns
  rt_rebalanceGrace :: ns
  rt_heartbeat :: ns
  rt_instanceTTL :: ns
  rt_store :: bool
  rt_members :: "(string \<times> Member) list"
  rt_prunedUntil :: "(string \<times> ns) list"
  rt_localScopes :: "(string \<times> scope_activity) list"
  rt_nodeState :: string
  rt_storeErrors :: int

text \<open>A map from ids to members, built from a list: entries without id or address are left out.\<close>

definition index_members :: "(Member \<Rightarrow> Member) \<Rightarrow> Member list \<Rightarrow> (string \<times> Member) list" where
  "index_members f ms =
     fold (\<lambda>m kvs. if mb_ID m = [] \<or> mb_Address m = [] then kvs else al_put (mb_ID m) (f m) kvs) ms []"

definition known_members :: "Member \<Rightarrow> Member list \<Rightarrow> (string \<times> Member) list" where
  "known_members self ms =
     al_put (mb_ID self) self
       (index_members (\<lambda>m. m\<lparr>mb_Capacity := or_default (mb_Capacity m \<le> 0) (mb_Capacity self) (mb_Capacity m)\<rparr>) ms)"

text \<open>\<open>has_store\<close> says whether a state store was given or the Valkey client could be
  built; with one, the caller starts the \<^verbatim>\<open>syncState\<close> loop.\<close>

definition NewRouter :: "cluster_Config \<Rightarrow> bool \<Rightarrow> Router option" where
  "NewRouter cfg has_store =
     (if \<not> cc_Enabled cfg then None
      else if mb_ID (cc_Self cfg) = '''' \<or> mb_Address (cc_Self cfg) = '''' then None
      else let provider = (if cc_Provider cfg \<in> {''static'', ''valkey''} then cc_Provider cfg else ''static'');
               self0 = cc_Self cfg;
               self = self0\<lparr>mb_State := or_default (mb_State self0 = '''') StateActive (mb_State self0),
                            mb_Capacity := or_default (mb_Capacity self0 \<le> 0) defaultClusterMaxActiveUsers (mb_Capacity self0)\<rparr>;
               heartbeat = or_default (cc_HeartbeatInterval cfg \<le> 0) (5 * second) (cc_HeartbeatInterval cfg)
           in Some \<lparr> rt_self = self, rt_provider = provider,
                rt_pruneTTL = or_default (cc_PruneTTL cfg \<le> 0) (30 * second) (cc_PruneTTL cfg),
                rt_idleTTL = or_default (cc_AssignmentIdle cfg \<le> 0) (300 * second) (cc_AssignmentIdle cfg),
                rt_rebalanceGrace = heartbeat, rt_heartbeat = heartbeat,
                rt_instanceTTL = or_default (cc_InstanceTTL cfg < wrap64 (3 * heartbeat)) (wrap64 (3 * heartbeat)) (cc_InstanceTTL cfg),
                rt_store = has_store, rt_members = known_members self (cc_Members cfg),
                rt_prunedUntil = [], rt_localScopes = [], rt_nodeState = StateActive, rt_storeErrors = 0 \<rparr>)"

definition assignmentTTL :: "Router \<Rightarrow> ns" where
  "assignmentTTL r = wrap64 (rt_idleTTL r + 2 * rt_heartbeat r)"

definition expirePruned :: "ns \<Rightarrow> Router \<Rightarrow> Router" where
  "expirePruned now r = r\<lparr>rt_prunedUntil := filter (\<lambda>(_, until). now < until) (rt_prunedUntil r)\<rparr>"

definition pruned :: "ns \<Rightarrow> Router \<Rightarrow> string \<Rightarrow> bool" where
  "pruned now r i = (case map_of (rt_prunedUntil r) i of None \<Rightarrow> False | Some until \<Rightarrow> now < until)"

definition available :: "ns \<Rightarrow> string set \<Rightarrow> Router \<Rightarrow> Member \<Rightarrow> bool" where
  "available now excluded r m \<longleftrightarrow> mb_ID m \<notin> excluded \<and> \<not> pruned now r (mb_ID m) \<and> \<not> gone (mb_State m)"

definition ranks_before :: "(string \<Rightarrow> string \<Rightarrow> string) \<Rightarrow> string \<Rightarrow> Member \<Rightarrow> Member \<Rightarrow> bool" where
  "ranks_before score key a b =
     (let left = score (mb_ID a) key; right = score (mb_ID b) key
      in if left = right then str_less (mb_ID a) (mb_ID b) else str_less right left)"

definition rankedOwners ::
  "(string \<Rightarrow> string \<Rightarrow> string) \<Rightarrow> ns \<Rightarrow> string \<Rightarrow> string set \<Rightarrow> Router \<Rightarrow> Member list \<times> Router" where
  "rankedOwners score now key excluded r =
     (if key = '''' then ([], r)
      else let r1 = expirePruned now r
           in (sort_by (ranks_before score key) (filter (available now excluded r1) (map snd (rt_members r1))), r1))"

definition touch :: "string \<Rightarrow> ns \<Rightarrow> (int \<Rightarrow> int) \<Rightarrow> Router \<Rightarrow> Router" where
  "touch key now f r =
     r\<lparr>rt_localScopes := al_put key
        \<lparr> ca_lastSeen = now,
          ca_outstanding = f (case map_of (rt_localScopes r) key of None \<Rightarrow> 0 | Some a \<Rightarrow> ca_outstanding a) \<rparr>
        (rt_localScopes r)\<rparr>"

definition touchLocalScope :: "string \<Rightarrow> ns \<Rightarrow> Router \<Rightarrow> Router" where
  "touchLocalScope key now r = touch key now (\<lambda>n. n) r"

text \<open>\<open>assign\<close> is the store's reply for the ranked candidates; \<open>now2\<close> the clock when the scope is touched.\<close>

definition ResolveOwner ::
  "(string \<Rightarrow> string \<Rightarrow> string) \<Rightarrow> (Member list \<Rightarrow> assign_error + Member) \<Rightarrow> ns \<Rightarrow> ns \<Rightarrow> string \<Rightarrow> string set \<Rightarrow> Router
     \<Rightarrow> Member option \<times> Router" where
  "ResolveOwner score assign now now2 key excluded r =
     (case rankedOwners score now key excluded r of
        ([], r1) \<Rightarrow> (None, r1)
      | (first # rest, r1) \<Rightarrow>
          if \<not> rt_store r1 then (Some first, r1)
          else let (owner, r2) =
                     (case assign (first # rest) of
                        Inl _ \<Rightarrow> (first, r1\<lparr>rt_storeErrors := rt_storeErrors r1 + 1\<rparr>)
                      | Inr assigned \<Rightarrow>
                          (if mb_ID assigned \<noteq> '''' \<and> mb_Address assigned \<noteq> '''' then assigned else first, r1))
               in (Some owner, if mb_ID owner = mb_ID (rt_self r2) then touchLocalScope key now2 r2 else r2))"

definition PruneMember :: "string \<Rightarrow> ns \<Rightarrow> Router \<Rightarrow> Router" where
  "PruneMember i now r =
     (if i = '''' \<or> i = mb_ID (rt_self r) \<or> rt_pruneTTL r \<le> 0 then r
      else r\<lparr>rt_prunedUntil := al_put i (now + rt_pruneTTL r) (rt_prunedUntil r)\<rparr>)"

definition MarkUnavailable :: "bool \<Rightarrow> string \<Rightarrow> string \<Rightarrow> ns \<Rightarrow> Router \<Rightarrow> Router \<times> (string \<times> string) option" where
  "MarkUnavailable release_ok key i now r =
     (if i = [] then (r, None)
      else let r1 = PruneMember i now r
           in if rt_store r1
              then (if release_ok then r1 else r1\<lparr>rt_storeErrors := rt_storeErrors r1 + 1\<rparr>, Some (key, i))
              else (r1, None))"

definition TrackLocalJob :: "string \<Rightarrow> ns \<Rightarrow> Router \<Rightarrow> Router" where
  "TrackLocalJob key now r =
     (if \<not> rt_store r \<or> key = '''' then r else touch key now (\<lambda>n. n + 1) r)"

definition CompleteLocalJob :: "string \<Rightarrow> ns \<Rightarrow> Router \<Rightarrow> Router" where
  "CompleteLocalJob key now r =
     (if \<not> rt_store r \<or> key = '''' \<or> map_of (rt_localScopes r) key = None then r
      else touch key now (\<lambda>n. if n > 0 then n - 1 else n) r)"

section \<open>Heartbeats and the sync pass\<close>

definition active_scope :: "ns \<Rightarrow> Router \<Rightarrow> scope_activity \<Rightarrow> bool" where
  "active_scope now r a \<longleftrightarrow> ca_outstanding a > 0 \<or> now - ca_lastSeen a < rt_idleTTL r"

definition activeScopeCount :: "ns \<Rightarrow> Router \<Rightarrow> int" where
  "activeScopeCount now r = int (length (filter (active_scope now r) (map snd (rt_localScopes r))))"

definition publishHeartbeat :: "bool \<Rightarrow> ns \<Rightarrow> Router \<Rightarrow> Member \<times> Router" where
  "publishHeartbeat delivered now r =
     ((rt_self r)\<lparr>mb_ActiveUsers := activeScopeCount now r, mb_State := rt_nodeState r, mb_ReportedAt := div_trunc now millisecond\<rparr>,
      if delivered then r else r\<lparr>rt_storeErrors := rt_storeErrors r + 1\<rparr>)"

definition SetState :: "string \<Rightarrow> Router \<Rightarrow> Router" where
  "SetState state r =
     r\<lparr>rt_nodeState := state,
       rt_members := al_put (mb_ID (rt_self r))
          ((case map_of (rt_members r) (mb_ID (rt_self r)) of None \<Rightarrow> no_member | Some m \<Rightarrow> m)\<lparr>mb_State := state\<rparr>)
          (rt_members r)\<rparr>"

definition handOffCandidate :: "scope_activity option \<Rightarrow> ns \<Rightarrow> Router \<Rightarrow> bool" where
  "handOffCandidate activity now r =
     (case activity of
        None \<Rightarrow> False
      | Some a \<Rightarrow> ca_outstanding a = 0
               \<and> rt_rebalanceGrace r \<le> now - ca_lastSeen a \<and> now - ca_lastSeen a < rt_idleTTL r)"

text \<open>
  What happens around a pass: the clock and the other goroutines each time the
  lock is taken, and whether each release reached the store.  A pass returns
  the users it released together with the router at that moment.
\<close>

record pass_world =
  pw_clock :: "nat \<Rightarrow> ns"
  pw_other :: "nat \<Rightarrow> Router \<Rightarrow> Router"
  pw_release :: "nat \<Rightarrow> bool"

type_synonym release_log = "(string \<times> ns \<times> Router) list"

definition drop_scope :: "string \<Rightarrow> Router \<Rightarrow> Router" where
  "drop_scope key r = r\<lparr>rt_localScopes := al_del key (rt_localScopes r)\<rparr>"

definition count_error :: "bool \<Rightarrow> Router \<Rightarrow> Router" where
  "count_error failure r = (if failure then r\<lparr>rt_storeErrors := rt_storeErrors r + 1\<rparr> else r)"

definition idle_scope :: "ns \<Rightarrow> Router \<Rightarrow> scope_activity \<Rightarrow> bool" where
  "idle_scope now r a \<longleftrightarrow> ca_outstanding a = 0 \<and> rt_idleTTL r \<le> now - ca_lastSeen a"

fun release_idle :: "pass_world \<Rightarrow> nat \<Rightarrow> string list \<Rightarrow> Router \<Rightarrow> release_log \<Rightarrow> Router \<times> release_log" where
  "release_idle w k [] r sent = (r, sent)"
| "release_idle w k (key # keys) r sent =
     (let r1 = pw_other w k r; now = pw_clock w k
      in case map_of (rt_localScopes r1) key of
           None \<Rightarrow> release_idle w (Suc k) keys r1 sent
         | Some a \<Rightarrow>
             if \<not> idle_scope now r1 a then release_idle w (Suc k) keys r1 sent
             else release_idle w (Suc k) keys (drop_scope key (count_error (\<not> pw_release w k) r1)) (sent @ [(key, now, r1)]))"

section \<open>Handing users back\<close>

definition rebalanceRatio :: f64 where "rebalanceRatio = 3 / 2"
definition rebalanceMaxPerPass :: nat where "rebalanceMaxPerPass = 10"

record rebalancing =
  rb_router :: Router
  rb_excess :: int
  rb_handed :: "(string \<times> int) list"
  rb_log :: release_log
  rb_failed :: "string list"

definition handed_to :: "string \<Rightarrow> rebalancing \<Rightarrow> int" where
  "handed_to i b = (case map_of (rb_handed b) i of None \<Rightarrow> 0 | Some n \<Rightarrow> n)"

definition member_capacity :: "Member \<Rightarrow> int" where
  "member_capacity m = (if mb_Capacity m \<le> 0 then defaultClusterMaxActiveUsers else mb_Capacity m)"

definition rebalance_step ::
  "(string \<Rightarrow> string \<Rightarrow> string) \<Rightarrow> pass_world \<Rightarrow> f64 \<Rightarrow> nat \<Rightarrow> string \<Rightarrow> rebalancing \<Rightarrow> bool \<times> rebalancing" where
  "rebalance_step score w fair k key b =
     (if rb_excess b \<le> 0 \<or> length (rb_log b) \<ge> rebalanceMaxPerPass then (False, b)
      else let (ranked, r1) = rankedOwners score (pw_clock w (2 * k)) key {} (pw_other w (2 * k) (rb_router b))
           in case ranked of
                [] \<Rightarrow> (True, b\<lparr>rb_router := r1\<rparr>)
              | preferred # _ \<Rightarrow>
                  let load = mb_ActiveUsers preferred + handed_to (mb_ID preferred) b
                  in if mb_ID preferred = mb_ID (rt_self r1) \<or> fair \<le> of_int load \<or> member_capacity preferred \<le> load
                     then (True, b\<lparr>rb_router := r1\<rparr>)
                     else let r2 = pw_other w (2 * k + 1) r1; now = pw_clock w (2 * k + 1)
                          in if \<not> handOffCandidate (map_of (rt_localScopes r2) key) now r2
                             then (True, b\<lparr>rb_router := r2\<rparr>)
                             else if \<not> pw_release w k
                             then (False, b\<lparr>rb_router := count_error True r2, rb_failed := [key]\<rparr>)
                             else (True, \<lparr> rb_router = drop_scope key r2, rb_excess = rb_excess b - 1,
                                     rb_handed = al_put (mb_ID preferred) (handed_to (mb_ID preferred) b + 1) (rb_handed b),
                                     rb_log = rb_log b @ [(key, now, r2)], rb_failed = [] \<rparr>))"

fun rebalance_loop ::
  "(string \<Rightarrow> string \<Rightarrow> string) \<Rightarrow> pass_world \<Rightarrow> f64 \<Rightarrow> nat \<Rightarrow> string list \<Rightarrow> rebalancing \<Rightarrow> rebalancing" where
  "rebalance_loop score w fair k [] b = b"
| "rebalance_loop score w fair k (key # keys) b =
     (let (continue, b1) = rebalance_step score w fair k key b
      in if continue then rebalance_loop score w fair (Suc k) keys b1 else b1)"

definition counted :: "ns \<Rightarrow> Router \<Rightarrow> Member list" where
  "counted now r = filter (\<lambda>m. \<not> gone (mb_State m) \<and> \<not> pruned now r (mb_ID m)) (map snd (rt_members r))"

definition fair_share :: "ns \<Rightarrow> Router \<Rightarrow> f64" where
  "fair_share now r = of_int (sum_list (map mb_ActiveUsers (counted now r))) / of_nat (length (counted now r))"

definition rebalance :: "(string \<Rightarrow> string \<Rightarrow> string) \<Rightarrow> pass_world \<Rightarrow> ns \<Rightarrow> Router \<Rightarrow> rebalancing" where
  "rebalance score w now r0 =
     (let r = expirePruned now r0;
          fair = fair_share now r;
          mine = activeScopeCount now r;
          idle = map fst (filter (\<lambda>(_, a). handOffCandidate (Some a) now r) (rt_localScopes r));
          start = \<lparr> rb_router = r, rb_excess = mine - \<lceil>fair\<rceil>, rb_handed = [], rb_log = [], rb_failed = [] \<rparr>
      in if gone (rt_nodeState r) \<or> length (counted now r) < 2 \<or> sum_list (map mb_ActiveUsers (counted now r)) = 0
            \<or> of_int mine \<le> rebalanceRatio * fair
         then start
         else rebalance_loop score w fair 0 (sort_by str_less idle) start)"

section \<open>One sync pass\<close>

datatype store_call = Call_Heartbeat Member | Call_Renew "string list" | Call_Release string | Call_Members

record sync_world =
  sy_now :: "nat \<Rightarrow> ns"
  sy_other :: "nat \<Rightarrow> Router \<Rightarrow> Router"
  sy_heartbeat :: bool
  sy_renew :: bool
  sy_idle :: pass_world
  sy_members :: "Member list option"
  sy_rebalance :: pass_world

definition adopt_members :: "Member \<Rightarrow> Member list \<Rightarrow> ns \<Rightarrow> Router \<Rightarrow> Router" where
  "adopt_members self ms now r =
     r\<lparr>rt_members := al_put (mb_ID (rt_self r)) (self\<lparr>mb_State := rt_nodeState r, mb_ActiveUsers := activeScopeCount now r\<rparr>)
        (index_members (\<lambda>m. m) ms)\<rparr>"

definition syncState :: "(string \<Rightarrow> string \<Rightarrow> string) \<Rightarrow> sync_world \<Rightarrow> Router \<Rightarrow> Router \<times> store_call list \<times> release_log" where
  "syncState score w r =
     (if \<not> rt_store r then (r, [], [])
      else let now = sy_now w 0;
               release = map fst (filter (\<lambda>(_, a). idle_scope now r a) (rt_localScopes r));
               renew = map fst (filter (\<lambda>(_, a). \<not> idle_scope now r a) (rt_localScopes r));
               (self, r1) = publishHeartbeat (sy_heartbeat w) now (sy_other w 0 r);
               (r2, sent) = release_idle (sy_idle w) 0 release (count_error (\<not> sy_renew w) r1) [];
               calls = [Call_Heartbeat self, Call_Renew renew] @ map (\<lambda>(key, _). Call_Release key) sent @ [Call_Members]
           in case sy_members w of
                None \<Rightarrow> (count_error True r2, calls, sent)
              | Some ms \<Rightarrow>
                  (let r3 = adopt_members self ms (sy_now w 1) (sy_other w 1 r2);
                       b = rebalance score (sy_rebalance w) (sy_now w 2) (sy_other w 2 r3)
                   in (rb_router b, calls @ map Call_Release (map fst (rb_log b) @ rb_failed b), sent @ rb_log b)))"

section \<open>Forwarded requests\<close>

definition HasForwardedHeader :: "(string \<Rightarrow> string) \<Rightarrow> bool" where
  "HasForwardedHeader header \<longleftrightarrow> header ''X-Aquifer-Cluster-Forwarded'' = ''true''"

definition ForwardExpired :: "(string \<Rightarrow> string) \<Rightarrow> ms \<Rightarrow> bool" where
  "ForwardExpired header now =
     (let raw = header ''X-Aquifer-Cluster-Forward-Deadline''
      in if raw = [] then False
         else (case parse_int64 raw of None \<Rightarrow> False | Some deadline \<Rightarrow> now > deadline))"

section \<open>Ranking\<close>

text \<open>One entry per member, under the member's own id.\<close>

definition indexed :: "(string \<times> Member) list \<Rightarrow> bool" where
  "indexed kvs \<longleftrightarrow> al_wf kvs \<and> (\<forall>(i, m)\<in>set kvs. mb_ID m = i)"

lemma indexed_put: "indexed kvs \<Longrightarrow> mb_ID m = i \<Longrightarrow> indexed (al_put i m kvs)"
proof -
  assume "indexed kvs" "mb_ID m = i"
  moreover have "\<forall>(k, v)\<in>set (al_put i m kvs). (k, v) = (i, m) \<or> (k, v) \<in> set kvs"
    by (induction i m kvs rule: al_put.induct) auto
  ultimately show ?thesis by (auto simp: indexed_def)
qed

lemma indexed_index_members: "(\<And>m. mb_ID (f m) = mb_ID m) \<Longrightarrow> indexed (index_members f ms)"
proof -
  assume f: "\<And>m. mb_ID (f m) = mb_ID m"
  have "indexed (fold (\<lambda>m kvs. if mb_ID m = [] \<or> mb_Address m = [] then kvs else al_put (mb_ID m) (f m) kvs) ms kvs)"
    if "indexed kvs" for kvs using that by (induction ms arbitrary: kvs) (simp_all add: indexed_put f)
  from this [of "[]"] show ?thesis by (simp add: index_members_def indexed_def)
qed

lemma indexed_known: "indexed (known_members self ms)"
  by (simp add: known_members_def indexed_put indexed_index_members)

lemma indexed_NewRouter: "NewRouter cfg has_store = Some r \<Longrightarrow> indexed (rt_members r)"
  by (auto simp: NewRouter_def Let_def indexed_known split: if_splits)

lemma indexed_adopt: "mb_ID self = mb_ID (rt_self r) \<Longrightarrow> indexed (rt_members (adopt_members self ms now r))"
  by (simp add: adopt_members_def indexed_put indexed_index_members)

lemma indexed_SetState:
  assumes "indexed (rt_members r)" and "map_of (rt_members r) (mb_ID (rt_self r)) = Some m"
  shows "indexed (rt_members (SetState state r))"
proof -
  have "mb_ID m = mb_ID (rt_self r)" using assms map_of_SomeD [OF assms(2)] by (auto simp: indexed_def)
  with assms show ?thesis by (simp add: SetState_def indexed_put)
qed

lemma strict_ranks:
  assumes "inj_on mb_ID A"
  shows "strict_total_on A (ranks_before score key)"
  unfolding strict_total_on_def
proof (intro conjI ballI impI)
  fix x y z assume A: "x \<in> A" "y \<in> A" "z \<in> A" and l: "ranks_before score key x y" "ranks_before score key y z"
  then show "ranks_before score key x z"
    by (auto simp: ranks_before_def Let_def split: if_splits dest: str_less_trans)
next
  fix x y assume "x \<in> A" "y \<in> A" "x \<noteq> y"
  then have "mb_ID x \<noteq> mb_ID y" using assms by (auto dest: inj_onD)
  then show "ranks_before score key x y \<or> ranks_before score key y x"
    using str_less_linear by (auto simp: ranks_before_def Let_def)
qed (simp add: ranks_before_def)

lemma indexed_inj: "indexed kvs \<Longrightarrow> inj_on mb_ID (set (map snd kvs))"
proof (rule inj_onI)
  fix x y assume k: "indexed kvs" "x \<in> set (map snd kvs)" "y \<in> set (map snd kvs)" "mb_ID x = mb_ID y"
  then have "(mb_ID x, x) \<in> set kvs" "(mb_ID x, y) \<in> set kvs" by (auto simp: indexed_def)
  with k(1) show "x = y" by (auto simp: indexed_def al_wf_def dest: eq_key_imp_eq_value)
qed

lemma indexed_distinct: "indexed kvs \<Longrightarrow> distinct (map snd kvs)"
proof -
  assume "indexed kvs"
  then have "map fst kvs = map mb_ID (map snd kvs)" "distinct (map fst kvs)" by (auto simp: indexed_def al_wf_def)
  then show ?thesis by (metis distinct_map)
qed

text \<open>The members a node may use for a key, whatever order its map is ranged over.\<close>

definition usable :: "ns \<Rightarrow> string set \<Rightarrow> Router \<Rightarrow> Member set" where
  "usable now excluded r = {m \<in> snd ` set (rt_members r). available now excluded (expirePruned now r) m}"

lemma expirePruned_sel [simp]: "rt_members (expirePruned now r) = rt_members r" "rt_self (expirePruned now r) = rt_self r"
  "rt_localScopes (expirePruned now r) = rt_localScopes r" "rt_store (expirePruned now r) = rt_store r"
  "rt_nodeState (expirePruned now r) = rt_nodeState r" "rt_idleTTL (expirePruned now r) = rt_idleTTL r"
  by (simp_all add: expirePruned_def)

lemma ranked_facts:
  assumes "indexed (rt_members r)" and "key \<noteq> []"
  shows "set (fst (rankedOwners score now key E r)) = usable now E r"
    and "strict_total_on (snd ` set (rt_members r)) (ranks_before score key)"
    and "distinct (filter (available now E (expirePruned now r)) (map snd (rt_members r)))"
  using assms strict_ranks [OF indexed_inj [OF assms(1)], of score key] indexed_distinct [OF assms(1)]
  by (auto simp: rankedOwners_def Let_def usable_def)

text \<open>(C34) Nodes rank alike.  Two nodes that see the same usable members rank
  them in the same order for every user, whatever order their member maps are
  ranged over; and a node that excludes some members tries the remaining ones
  in the same order as before.  So a user only moves when its own node goes,
  and then to the next node of its ranking.\<close>

theorem ranking_agrees:
  assumes "indexed (rt_members r)" and "indexed (rt_members r')" and "usable now E r = usable now' E' r'"
  shows "fst (rankedOwners score now key E r) = fst (rankedOwners score now' key E' r')
    \<and> fst (rankedOwners score now key (E \<union> X) r) = filter (\<lambda>m. mb_ID m \<notin> X) (fst (rankedOwners score now key E r))"
proof (cases "key = []")
  case False
  let ?avail = "\<lambda>now E r. filter (available now E (expirePruned now r)) (map snd (rt_members r))"
  note F = ranked_facts [OF assms(1) False] and F' = ranked_facts [OF assms(2) False]
  have s: "set (?avail now E r) = usable now E r" "set (?avail now' E' r') = usable now' E' r'" by (auto simp: usable_def)
  have t: "strict_total_on (set (?avail now E r)) (ranks_before score key)"
    by (rule strict_total_on_subset [OF F(2)]) auto
  have "sort_by (ranks_before score key) (?avail now E r) = sort_by (ranks_before score key) (?avail now' E' r')"
    using s assms(3) by (intro sort_by_eqI t F(3) F'(3)) simp
  moreover have "filter (\<lambda>m. mb_ID m \<notin> X) (?avail now E r) = ?avail now (E \<union> X) r"
    by (auto simp: available_def intro: filter_cong)
  then have "sort_by (ranks_before score key) (?avail now (E \<union> X) r)
      = filter (\<lambda>m. mb_ID m \<notin> X) (sort_by (ranks_before score key) (?avail now E r))"
    using sort_by_filter [OF t F(3), of "\<lambda>m. mb_ID m \<notin> X"] by simp
  ultimately show ?thesis using False by (simp add: rankedOwners_def Let_def)
qed (simp add: rankedOwners_def)

definition sample_router :: "Member list \<Rightarrow> Router" where
  "sample_router ms =
     \<lparr> rt_self = sample_node ''a'' 0, rt_provider = ''valkey'', rt_pruneTTL = 30 * second, rt_idleTTL = 300 * second,
       rt_rebalanceGrace = 5 * second, rt_heartbeat = 5 * second, rt_instanceTTL = 15 * second, rt_store = True,
       rt_members = known_members (sample_node ''a'' 0) ms, rt_prunedUntil = [], rt_localScopes = [],
       rt_nodeState = StateActive, rt_storeErrors = 0 \<rparr>"

definition sample_score :: "string \<Rightarrow> string \<Rightarrow> string" where
  "sample_score i key = i @ key"

theorem ranking_agrees_witness:
  "let r = sample_router [sample_node ''b'' 2, sample_node ''c'' 1]; r' = sample_router [sample_node ''c'' 1, sample_node ''b'' 2]
   in fst (rankedOwners sample_score 0 ''u'' {} r) = fst (rankedOwners sample_score 5 ''u'' {} r')
      \<and> fst (rankedOwners sample_score 0 ''u'' ({} \<union> {''c''}) r)
        = filter (\<lambda>m. mb_ID m \<notin> {''c''}) (fst (rankedOwners sample_score 0 ''u'' {} r))
      \<and> map mb_ID (fst (rankedOwners sample_score 0 ''u'' {} r)) = [''c'', ''b'', ''a'']"
proof -
  let ?r = "sample_router [sample_node ''b'' 2, sample_node ''c'' 1]" and ?r' = "sample_router [sample_node ''c'' 1, sample_node ''b'' 2]"
  have i: "indexed (rt_members (sample_router ms))" for ms by (simp add: sample_router_def indexed_known)
  have u: "usable 0 {} ?r = usable 5 {} ?r'" by code_simp
  have "map mb_ID (fst (rankedOwners sample_score 0 ''u'' {} ?r)) = [''c'', ''b'', ''a'']" by code_simp
  with ranking_agrees [OF i i u, of sample_score "''u''" "{''c''}"] show ?thesis by (simp only: Let_def)
qed

section \<open>Handing users back is safe\<close>

text \<open>A user was released while it had no work here and had not been seen for a while.\<close>

definition released_idle :: "string \<times> ns \<times> Router \<Rightarrow> bool" where
  "released_idle e =
     (case e of (key, t, r) \<Rightarrow>
        (case map_of (rt_localScopes r) key of
           None \<Rightarrow> False
         | Some a \<Rightarrow> ca_outstanding a = 0 \<and> min (rt_idleTTL r) (rt_rebalanceGrace r) \<le> t - ca_lastSeen a))"

lemma release_idle_log: "list_all released_idle sent \<Longrightarrow> list_all released_idle (snd (release_idle w k keys r sent))"
  by (induction w k keys r sent rule: release_idle.induct)
    (auto simp: Let_def released_idle_def idle_scope_def split: option.splits if_splits)

text \<open>One user: nothing is released, or this one is, while there is excess and the pass has room.\<close>

lemma rebalance_step_cases:
  assumes "rebalance_step score w fair k key b = (go, b1)"
  obtains "rb_log b1 = rb_log b" "rb_excess b1 = rb_excess b"
  | e where "rb_log b1 = rb_log b @ [e]" "rb_excess b1 = rb_excess b - 1" "released_idle e"
      "0 < rb_excess b" "length (rb_log b) < rebalanceMaxPerPass"
  using assms
  by (auto simp: rebalance_step_def Let_def case_prod_beta released_idle_def handOffCandidate_def min_le_iff_disj
      split: if_splits list.splits option.splits)

lemma rebalance_loop_log:
  assumes "list_all released_idle (rb_log b)" and "length (rb_log b) \<le> rebalanceMaxPerPass"
    and "out = rb_log (rebalance_loop score w fair k keys b)"
  shows "list_all released_idle out \<and> length out \<le> rebalanceMaxPerPass
    \<and> int (length out) \<le> int (length (rb_log b)) + max 0 (rb_excess b)"
  using assms(1,2) unfolding assms(3)
proof (induction keys arbitrary: k b)
  case (Cons key keys)
  obtain go b1 where s: "rebalance_step score w fair k key b = (go, b1)" by fastforce
  then show ?case
  proof (cases rule: rebalance_step_cases)
    case 1
    with s Cons.IH [of b1 "Suc k"] Cons.prems show ?thesis by (cases go) simp_all
  next
    case (2 e)
    with s Cons.IH [of b1 "Suc k"] Cons.prems show ?thesis by (cases go) auto
  qed
qed simp

text \<open>(C35) A sync pass hands back only idle users.  Whatever other requests do
  between its steps, every user the pass releases had no outstanding job on
  this node at the moment of the release and had not been seen for at least
  the smaller of the idle time and the grace period.  A rebalance hands back at
  most ten users, none unless the node holds more than one and a half times
  the fair share, and never so many that it drops below the fair share.\<close>

theorem handing_back_safe:
  "list_all released_idle (snd (snd (syncState score w r)))
   \<and> (let out = rb_log (rebalance score pw now r'); fair = fair_share now (expirePruned now r');
          mine = activeScopeCount now (expirePruned now r')
      in out = []
         \<or> length out \<le> 10 \<and> rebalanceRatio * fair < of_int mine \<and> \<lceil>fair\<rceil> \<le> mine - int (length out)
           \<and> \<not> gone (rt_nodeState r'))"
proof -
  have r: "rb_log (rebalance score pw now r) = [] \<and> list_all released_idle (rb_log (rebalance score pw now r))
      \<or> list_all released_idle (rb_log (rebalance score pw now r)) \<and> length (rb_log (rebalance score pw now r)) \<le> 10
      \<and> rebalanceRatio * fair_share now (expirePruned now r) < of_int (activeScopeCount now (expirePruned now r))
      \<and> int (length (rb_log (rebalance score pw now r))) \<le> max 0 (activeScopeCount now (expirePruned now r) - \<lceil>fair_share now (expirePruned now r)\<rceil>)
      \<and> \<not> gone (rt_nodeState r)" for pw now r
    unfolding rebalance_def Let_def
    using rebalance_loop_log [of "\<lparr> rb_router = expirePruned now r,
        rb_excess = activeScopeCount now (expirePruned now r) - \<lceil>fair_share now (expirePruned now r)\<rceil>,
        rb_handed = [], rb_log = [], rb_failed = [] \<rparr>" _ score pw "fair_share now (expirePruned now r)" 0, OF _ _ refl]
    by (auto simp: rebalanceMaxPerPass_def not_le)
  have all: "list_all released_idle (rb_log (rebalance score pw now r))" for pw now r using r by blast
  have "list_all released_idle (snd (snd (syncState score w r)))"
    unfolding syncState_def Let_def case_prod_beta
    using release_idle_log [of "[]"] all by (auto split: option.splits)
  moreover have "rb_log (rebalance score pw now r') = [] \<or> length (rb_log (rebalance score pw now r')) \<le> 10
      \<and> rebalanceRatio * fair_share now (expirePruned now r') < of_int (activeScopeCount now (expirePruned now r'))
      \<and> \<lceil>fair_share now (expirePruned now r')\<rceil> \<le> activeScopeCount now (expirePruned now r') - int (length (rb_log (rebalance score pw now r')))
      \<and> \<not> gone (rt_nodeState r')"
    using r [of pw now r'] by (auto simp: max_def split: if_splits)
  ultimately show ?thesis by (simp only: Let_def)
qed

end
