(* ===== verification/Job_Registry.thy ===== *)
theory Job_Registry
  imports URL_Worker Cluster_Router
begin

text \<open>
  The registry of workers (\<^verbatim>\<open>internal/dispatch/registry.go\<close>), the rate settings
  (\<^verbatim>\<open>dispatch/config.go\<close>) and the registry's parts of \<^verbatim>\<open>paged_recovery.go\<close> and
  \<^verbatim>\<open>drain_rate.go\<close>.  The registry composes the target workers, the per-user load
  tracker and the cluster router.  A step of the registry is one pass through
  its critical sections; the race of an enqueue with a worker that stops is in
  the arguments (whether the worker's queue still took the job).  Reading and
  parsing the YAML file is the argument \<open>parsed\<close>.
\<close>

section \<open>Rate settings\<close>

record RateConfig =
  rc_RPS :: f64
  rc_MaxConcurrent :: int

record dispatch_Config =
  dc_Defaults :: RateConfig
  dc_Upstreams :: "(string \<times> RateConfig) list"

definition built_in_config :: dispatch_Config where
  "built_in_config = \<lparr> dc_Defaults = \<lparr> rc_RPS = 2, rc_MaxConcurrent = 1 \<rparr>, dc_Upstreams = [] \<rparr>"

text \<open>
  \<open>readable\<close> is whether the file could be read; \<open>parsed\<close> is the configuration
  \<^verbatim>\<open>yaml.Unmarshal\<close> leaves behind and whether it reported an error.
\<close>

definition dispatch_LoadConfig :: "string \<Rightarrow> bool \<Rightarrow> (dispatch_Config \<Rightarrow> dispatch_Config \<times> bool) \<Rightarrow> dispatch_Config" where
  "dispatch_LoadConfig path readable parsed =
     (if path = [] \<or> \<not> readable then built_in_config
      else let (cfg, err) = parsed built_in_config
           in if err then cfg
              else cfg\<lparr>dc_Defaults :=
                     \<lparr> rc_RPS = (if rc_RPS (dc_Defaults cfg) \<le> 0 then 2 else rc_RPS (dc_Defaults cfg)),
                       rc_MaxConcurrent = (if rc_MaxConcurrent (dc_Defaults cfg) \<le> 0 then 1 else rc_MaxConcurrent (dc_Defaults cfg)) \<rparr>\<rparr>)"

definition ForURL :: "(string \<Rightarrow> (string \<times> string) option) \<Rightarrow> string \<Rightarrow> dispatch_Config \<Rightarrow> RateConfig" where
  "ForURL parse_url rawURL c =
     (case parse_url rawURL of
        None \<Rightarrow> dc_Defaults c
      | Some (_, host) \<Rightarrow> (case map_of (dc_Upstreams c) host of Some rc \<Rightarrow> rc | None \<Rightarrow> dc_Defaults c))"

section \<open>The registry\<close>

record Registry =
  rg_workers :: "(string \<times> URLWorker) list"
  rg_accountQueueDefault :: bool
  rg_destinationAccountQueue :: "(string \<times> bool) list"
  rg_cfg :: dispatch_Config
  rg_router :: "Router option"
  rg_users :: userLoadTracker
  rg_totalJobs :: int
  rg_queueDepth :: int
  rg_stopping :: bool

record surroundings =
  su_env :: environment
  su_hash :: "string \<Rightarrow> string"
  su_parse :: "string \<Rightarrow> (string \<times> string) option"
  su_pools :: "string \<Rightarrow> Pool option"

definition NewRegistry :: "environment \<Rightarrow> dispatch_Config \<Rightarrow> int \<Rightarrow> int \<Rightarrow> Router option \<Rightarrow> Registry" where
  "NewRegistry env cfg total_jobs queue_depth router =
     \<lparr> rg_workers = [], rg_accountQueueDefault = accountQueueDefault env, rg_destinationAccountQueue = [], rg_cfg = cfg,
       rg_router = router, rg_users = newUserLoadTracker, rg_totalJobs = total_jobs, rg_queueDepth = queue_depth,
       rg_stopping = False \<rparr>"

definition routing_key :: "surroundings \<Rightarrow> Job \<Rightarrow> string" where
  "routing_key s job = (if j_PoolID job \<noteq> [] then ''pool:'' @ j_PoolID job else DomainKey (su_parse s) (j_URL job))"

definition resolveWorkerLocked :: "surroundings \<Rightarrow> Job \<Rightarrow> Registry \<Rightarrow> string \<times> URLWorker \<times> Registry" where
  "resolveWorkerLocked s job r =
     (let key = routing_key s job;
          pool = (if j_PoolID job \<noteq> [] then su_pools s (j_PoolID job) else None);
          rc = (if j_PoolID job \<noteq> [] then dc_Defaults (rg_cfg r) else ForURL (su_parse s) (j_URL job) (rg_cfg r))
      in case map_of (rg_workers r) key of
           Some w \<Rightarrow> (key, w, r)
         | None \<Rightarrow>
             let w = setAccountQueuePolicy (rg_accountQueueDefault r) (map_of (rg_destinationAccountQueue r) key)
                       (NewURLWorker (su_env s) key (rc_RPS rc) (rc_MaxConcurrent rc) pool)
             in (key, w, r\<lparr>rg_workers := al_put key w (rg_workers r)\<rparr>))"

text \<open>The three callbacks a worker is given: a job is done, the worker is idle, the target chose its queue mode.\<close>

definition job_done :: "Job \<Rightarrow> ns \<Rightarrow> Registry \<Rightarrow> Registry" where
  "job_done job now r =
     r\<lparr>rg_router := map_option (CompleteLocalJob (j_UserID job) now) (rg_router r), rg_users := user_done job (rg_users r)\<rparr>"

definition worker_idle :: "string \<Rightarrow> URLWorker \<Rightarrow> Registry \<Rightarrow> Registry" where
  "worker_idle key w r =
     (if map_of (rg_workers r) key = Some w then r\<lparr>rg_workers := al_del key (rg_workers r)\<rparr> else r)"

definition remember_destination :: "string \<Rightarrow> bool \<Rightarrow> Registry \<Rightarrow> Registry" where
  "remember_destination key on r =
     r\<lparr>rg_destinationAccountQueue := al_put key on (rg_destinationAccountQueue r)\<rparr>"

definition worker_snapshot :: "URLWorker \<Rightarrow> QueueSnapshot" where
  "worker_snapshot w = snapshotForQueueLocked [] w"

datatype enqueue_result = Draining | Refused string int int QueueSnapshot | Accepted QueueSnapshot

definition track :: "(string \<Rightarrow> ns \<Rightarrow> Router \<Rightarrow> Router) \<Rightarrow> Job \<Rightarrow> ns \<Rightarrow> Registry \<Rightarrow> Registry" where
  "track f job now r = r\<lparr>rg_router := map_option (f (j_UserID job) now) (rg_router r)\<rparr>"

text \<open>One attempt; \<^const>\<open>None\<close> when the worker had stopped and a fresh one must be resolved.\<close>

definition enqueueOnWorker ::
  "surroundings \<Rightarrow> f64 \<Rightarrow> bool \<Rightarrow> ns \<Rightarrow> string \<Rightarrow> Job \<Rightarrow> string \<Rightarrow> bool \<Rightarrow> URLWorker \<Rightarrow> Registry \<Rightarrow> enqueue_result option \<times> Registry" where
  "enqueueOnWorker s draw taken now key job header enforce w r =
     (let w0 = (if header \<noteq> [] then handleAccountQueueHeader header w else w);
          r1 = track TrackLocalJob job now r;
          (w1, result) = worker_enqueue (su_env s) (su_hash s) draw taken job enforce w0;
          r2 = r1\<lparr>rg_workers := al_put key w1 (rg_workers r1)\<rparr>
      in case result of
           Rejected reason limit current snapshot \<Rightarrow>
             (Some (Refused reason limit current snapshot), track CompleteLocalJob job now r2)
         | Reserved _ snapshot \<Rightarrow>
             (Some (Accepted (if enforce then snapshot else worker_snapshot w1)),
              r2\<lparr>rg_users := user_add job (rg_users r2), rg_totalJobs := rg_totalJobs r2 + 1,
                 rg_queueDepth := rg_queueDepth r2 + 1\<rparr>)
         | WorkerStopped \<Rightarrow> (None, track CompleteLocalJob job now r2))"

record race =
  ra_draw :: "nat \<Rightarrow> f64"
  ra_taken :: "nat \<Rightarrow> bool"
  ra_now :: "nat \<Rightarrow> ns"

text \<open>The retry loop of \<open>enqueue\<close>; \<^const>\<open>None\<close> when \<open>fuel\<close> attempts were not enough.\<close>

fun enqueue_loop ::
  "nat \<Rightarrow> nat \<Rightarrow> surroundings \<Rightarrow> race \<Rightarrow> Job \<Rightarrow> string \<Rightarrow> bool \<Rightarrow> Registry \<Rightarrow> enqueue_result option \<times> Registry" where
  "enqueue_loop 0 k s ra job header enforce r = (None, r)"
| "enqueue_loop (Suc fuel) k s ra job header enforce r =
     (if rg_stopping r then (Some Draining, r)
      else let (key, w, r1) = resolveWorkerLocked s job r
           in case enqueueOnWorker s (ra_draw ra k) (ra_taken ra k) (ra_now ra k) key job header enforce w r1 of
                (Some result, r2) \<Rightarrow> (Some result, r2)
              | (None, r2) \<Rightarrow>
                  enqueue_loop fuel (Suc k) s ra job header enforce (r2\<lparr>rg_workers := al_del key (rg_workers r2)\<rparr>))"

definition enqueue ::
  "nat \<Rightarrow> surroundings \<Rightarrow> f64 \<Rightarrow> race \<Rightarrow> Job \<Rightarrow> string \<Rightarrow> bool \<Rightarrow> Registry \<Rightarrow> enqueue_result option \<times> Registry" where
  "enqueue fuel s draw ra job header enforce r =
     (if rg_stopping r then (Some Draining, r)
      else let (rejected, limit, backlog) = webhookBacklogDecision (su_env s) (j_UserID job) draw (rg_users r)
           in if enforce \<and> \<not> IsWebhookDelivery job \<and> rejected
              then (Some (Refused ''webhook_backlog'' limit backlog
                     \<lparr> qs_ActiveQueues = 0, qs_UpstreamBacklog = 0, qs_QueueBacklog = 0, qs_MaxBacklog = 0,
                       qs_AdmissionPressure = 0, qs_RejectionProbability = 0 \<rparr>), r)
              else enqueue_loop fuel 0 s ra job header enforce r)"

text \<open>\<open>inserted\<close> is whether the store took the delivery as new; \<open>body\<close> is the marshalled payload.\<close>

definition webhook_job :: "(string \<Rightarrow> string) \<Rightarrow> string \<Rightarrow> ms \<Rightarrow> string \<Rightarrow> string \<Rightarrow> string \<Rightarrow> int \<Rightarrow> string \<Rightarrow> Job" where
  "webhook_job H newID now originalJobID userID webhookURL maxRetries body =
     (new_job H newID now
       \<lparr> r_UserID = userID, r_IdempotentKey = ''webhook:'' @ originalJobID, r_URL = webhookURL, r_PoolID = [],
         r_Method = ''POST'', r_Headers = [(''Content-Type'', ''application/json'')], r_Body = body, r_WebhookURL = [],
         r_ExecuteBefore = 0, r_IdempotencyScope = [], r_MaxRetries = Some maxRetries, r_WebhookMaxRetries = None,
         r_OriginMachineID = [], r_OriginRegion = [], r_VisitedRegions = [], r_RerouteCount = 0, r_DirectOnly = False,
         r_AccountQueueMode = [] \<rparr>)\<lparr>j_Kind := KindWebhookDelivery\<rparr>"

definition EnqueueWebhook :: "nat \<Rightarrow> surroundings \<Rightarrow> race \<Rightarrow> bool \<Rightarrow> Job \<Rightarrow> Registry \<Rightarrow> Registry" where
  "EnqueueWebhook fuel s ra inserted job r =
     (if j_URL job = [] \<or> rg_stopping r \<or> \<not> inserted then r
      else snd (enqueue fuel s 0 ra job [] False r))"

section \<open>Reports\<close>

definition QueueSnapshot_of :: "Registry \<Rightarrow> int \<times> int" where
  "QueueSnapshot_of r =
     (sum_list (map (\<lambda>(_, w). qs_ActiveQueues (worker_snapshot w)) (rg_workers r)),
      sum_list (map (\<lambda>(_, w). qs_UpstreamBacklog (worker_snapshot w)) (rg_workers r)))"

definition BacklogFullnessRatio :: "Registry \<Rightarrow> f64" where
  "BacklogFullnessRatio r =
     fold (\<lambda>(_, w) ratio. let q = worker_snapshot w
             in if qs_MaxBacklog q > 0 then max ratio (of_int (qs_UpstreamBacklog q) / of_int (qs_MaxBacklog q)) else ratio)
       (rg_workers r) 0"

definition idleForShutdown :: "int \<Rightarrow> Registry \<Rightarrow> bool" where
  "idleForShutdown stored r \<longleftrightarrow> stored = 0 \<and> list_all (\<lambda>(_, w). \<not> QueueActive w) (rg_workers r)"

definition TargetBacklogStuck :: "surroundings \<Rightarrow> Job \<Rightarrow> ns \<Rightarrow> Registry \<Rightarrow> bool" where
  "TargetBacklogStuck s job limit r =
     (case map_of (rg_workers r) (routing_key s job) of None \<Rightarrow> False | Some w \<Rightarrow> worker_stuck limit w)"

definition StoreKeyFor :: "surroundings \<Rightarrow> Job \<Rightarrow> Registry \<Rightarrow> string \<times> Registry" where
  "StoreKeyFor s job r =
     (let (_, w, r1) = resolveWorkerLocked s job r
      in (StoreQueueKey (uw_domain w) (queueKeyLocked (su_hash s) job w), r1))"

definition AttachRecoveredBacklog :: "surroundings \<Rightarrow> Job \<Rightarrow> string \<Rightarrow> PageCursor \<Rightarrow> nat \<Rightarrow> ms \<Rightarrow> Registry \<Rightarrow> bool \<times> Registry" where
  "AttachRecoveredBacklog s job stored_key after remaining cutoff r =
     (let (key, w, r1) = resolveWorkerLocked s job r; q = queueKeyLocked (su_hash s) job w
      in case queueFor (su_hash s) job w of
           None \<Rightarrow> (False, r1)
         | Some _ \<Rightarrow>
             (True, r1\<lparr>rg_workers := al_put key (on_queue q (attachSpill stored_key after remaining cutoff) w) (rg_workers r1)\<rparr>))"

section \<open>The books of the registry\<close>

text \<open>
  Work accepted and not finished is a multiset of jobs.  Besides submissions,
  deliveries and completions, the router is synchronised with its store, and
  requests resolve owners.
\<close>

datatype registry_event =
    Submit Job string f64 race nat
  | Deliver Job race bool nat
  | Finish Job ns
  | Sync "string \<Rightarrow> string \<Rightarrow> string" sync_world
  | Touch string ns
  | Idle string URLWorker

definition alone :: "sync_world \<Rightarrow> bool" where
  "alone w \<longleftrightarrow> (\<forall>k r. sy_other w k r = r) \<and> (\<forall>k r. pw_other (sy_idle w) k r = r) \<and> (\<forall>k r. pw_other (sy_rebalance w) k r = r)"

definition accepted :: "enqueue_result option \<Rightarrow> Job \<Rightarrow> Job multiset \<Rightarrow> Job multiset" where
  "accepted res job M = (case res of Some (Accepted _) \<Rightarrow> add_mset job M | _ \<Rightarrow> M)"

fun registry_step :: "surroundings \<Rightarrow> registry_event \<Rightarrow> Registry \<times> Job multiset \<Rightarrow> Registry \<times> Job multiset" where
  "registry_step s (Submit job header draw ra fuel) (r, M) =
     (let (res, r') = enqueue fuel s draw ra job header True r in (r', accepted res job M))"
| "registry_step s (Deliver job ra inserted fuel) (r, M) =
     (EnqueueWebhook fuel s ra inserted job r,
      if j_URL job = [] \<or> rg_stopping r \<or> \<not> inserted then M else accepted (fst (enqueue fuel s 0 ra job [] False r)) job M)"
| "registry_step s (Finish job now) (r, M) = (job_done job now r, M - {#job#})"
| "registry_step s (Sync score w) (r, M) = (r\<lparr>rg_router := map_option (\<lambda>rt. fst (syncState score w rt)) (rg_router r)\<rparr>, M)"
| "registry_step s (Touch key now) (r, M) = (r\<lparr>rg_router := map_option (touchLocalScope key now) (rg_router r)\<rparr>, M)"
| "registry_step s (Idle key w) (r, M) = (worker_idle key w r, M)"

fun registry_ok :: "registry_event \<Rightarrow> Registry \<times> Job multiset \<Rightarrow> bool" where
  "registry_ok (Finish job now) (r, M) = (job \<in># M)"
| "registry_ok (Sync score w) (r, M) = alone w"
| "registry_ok _ s = True"

definition outstanding :: "Router \<Rightarrow> string \<Rightarrow> int" where
  "outstanding rt u = (case map_of (rt_localScopes rt) u of None \<Rightarrow> 0 | Some a \<Rightarrow> ca_outstanding a)"

definition user_work :: "Job multiset \<Rightarrow> string \<Rightarrow> int" where
  "user_work M u = int (size (filter_mset (\<lambda>j. j_UserID j = u) M))"

definition router_books :: "Router option \<Rightarrow> Job multiset \<Rightarrow> bool" where
  "router_books rt M =
     (case rt of None \<Rightarrow> True
      | Some rt \<Rightarrow> al_wf (rt_localScopes rt) \<and> (rt_store rt \<longrightarrow> (\<forall>u. u \<noteq> [] \<longrightarrow> outstanding rt u = user_work M u)))"

definition books_ok :: "Registry \<times> Job multiset \<Rightarrow> bool" where
  "books_ok s = (case s of (r, M) \<Rightarrow> tracks (rg_users r) M \<and> router_books (rg_router r) M)"

lemma user_work_add [simp]: "user_work (add_mset j M) u = user_work M u + (if j_UserID j = u then 1 else 0)"
  by (simp add: user_work_def)

lemma user_work_nonneg: "0 \<le> user_work M u"
  by (simp add: user_work_def)

lemma outstanding_touch: "outstanding (touch key now f rt) u = (if u = key then f (outstanding rt u) else outstanding rt u)"
  by (simp add: outstanding_def touch_def)

lemma touch_sel [simp]: "rt_store (touch key now f rt) = rt_store rt"
  "al_wf (rt_localScopes rt) \<Longrightarrow> al_wf (rt_localScopes (touch key now f rt))"
  by (simp_all add: touch_def)

lemma track_books:
  "router_books (Some rt) M \<Longrightarrow> router_books (Some (TrackLocalJob (j_UserID job) now rt)) (add_mset job M)"
  by (auto simp: router_books_def TrackLocalJob_def outstanding_touch)

lemma complete_books:
  assumes "router_books (Some rt) (add_mset job M)"
  shows "router_books (Some (CompleteLocalJob (j_UserID job) now rt)) M"
proof (cases "rt_store rt \<and> j_UserID job \<noteq> []")
  case True
  with assms have o: "outstanding rt (j_UserID job) = user_work M (j_UserID job) + 1" by (simp add: router_books_def)
  then have "map_of (rt_localScopes rt) (j_UserID job) \<noteq> None" using user_work_nonneg [of M "j_UserID job"]
    by (cases "map_of (rt_localScopes rt) (j_UserID job)") (auto simp: outstanding_def)
  with True assms o user_work_nonneg [of M "j_UserID job"] show ?thesis
    by (auto simp: router_books_def CompleteLocalJob_def outstanding_touch)
next
  case False
  with assms show ?thesis by (auto simp: router_books_def CompleteLocalJob_def)
qed

text \<open>Dropping a scope without outstanding work changes no count.\<close>

lemma drop_scope_books: "map_of (rt_localScopes rt) key = Some a \<Longrightarrow> ca_outstanding a = 0 \<Longrightarrow>
    router_books (Some rt) M \<Longrightarrow> router_books (Some (drop_scope key rt)) M"
  by (auto simp: router_books_def drop_scope_def outstanding_def split: if_splits)

lemma same_scopes_books:
  "rt_localScopes rt' = rt_localScopes rt \<Longrightarrow> rt_store rt' = rt_store rt \<Longrightarrow> router_books (Some rt') M = router_books (Some rt) M"
  by (simp add: router_books_def outstanding_def)

lemma count_error_books [simp]: "router_books (Some (count_error b rt)) M = router_books (Some rt) M"
  "rt_localScopes (count_error b rt) = rt_localScopes rt"
  by (simp_all add: count_error_def router_books_def outstanding_def)

lemma release_idle_books:
  assumes "\<forall>k r. pw_other w k r = r"
  shows "router_books (Some rt) M \<Longrightarrow> router_books (Some (fst (release_idle w k keys rt sent))) M"
proof (induction keys arbitrary: k rt sent)
  case (Cons key keys)
  show ?case
  proof (cases "map_of (rt_localScopes rt) key")
    case None
    with Cons assms show ?thesis by simp
  next
    case (Some a)
    have "router_books (Some (drop_scope key (count_error (\<not> pw_release w k) rt))) M" if "idle_scope (pw_clock w k) rt a"
      using drop_scope_books [of "count_error (\<not> pw_release w k) rt" key a M] Some that Cons.prems
      by (simp add: idle_scope_def)
    with Cons Some assms show ?thesis by (simp add: Let_def)
  qed
qed simp

lemma expire_books [simp]: "router_books (Some (expirePruned now rt)) M = router_books (Some rt) M"
  by (rule same_scopes_books) simp_all

lemma ranked_books: "rankedOwners score now key E rt = (ranked, rt') \<Longrightarrow> router_books (Some rt') M = router_books (Some rt) M"
  by (auto simp: rankedOwners_def Let_def split: if_splits)

lemma rebalance_step_books:
  assumes "\<forall>k r. pw_other w k r = r" and "rebalance_step score w fair k key b = (go, b')"
    and books: "router_books (Some (rb_router b)) M"
  shows "router_books (Some (rb_router b')) M"
proof -
  obtain ranked r1 where rk: "rankedOwners score (pw_clock w (2 * k)) key {} (rb_router b) = (ranked, r1)" by fastforce
  have r1: "router_books (Some r1) M" using ranked_books [OF rk] books by simp
  have "router_books (Some (drop_scope key r1)) M" if "handOffCandidate (map_of (rt_localScopes r1) key) t r1" for t
    using that drop_scope_books [of r1 key _ M] r1 by (auto simp: handOffCandidate_def split: option.splits)
  with assms(2) r1 books show ?thesis
    by (auto simp: rebalance_step_def rk assms(1) Let_def split: if_splits list.splits)
qed

lemma rebalance_loop_books:
  assumes "\<forall>k r. pw_other w k r = r" and "router_books (Some (rb_router b)) M"
  shows "router_books (Some (rb_router (rebalance_loop score w fair k keys b))) M"
  using assms(2)
proof (induction keys arbitrary: k b)
  case (Cons key keys)
  obtain go b' where s: "rebalance_step score w fair k key b = (go, b')" by fastforce
  from rebalance_step_books [OF assms(1) s Cons.prems] have "router_books (Some (rb_router b')) M" .
  with s Cons.IH show ?case by simp
qed simp

lemma rebalance_books:
  assumes "\<forall>k r. pw_other w k r = r" and "router_books (Some rt) M"
  shows "router_books (Some (rb_router (rebalance score w now rt))) M"
  using assms rebalance_loop_books [OF assms(1)] by (simp add: rebalance_def Let_def)

lemma sync_books:
  assumes "alone w" and "router_books (Some rt) M"
  shows "router_books (Some (fst (syncState score w rt))) M"
proof -
  have o: "\<And>k r. sy_other w k r = r" "\<forall>k r. pw_other (sy_idle w) k r = r" "\<forall>k r. pw_other (sy_rebalance w) k r = r"
    using assms(1) by (simp_all add: alone_def)
  have adopt: "router_books (Some (adopt_members self ms now r)) M = router_books (Some r) M" for self ms now r
    by (rule same_scopes_books) (simp_all add: adopt_members_def)
  have beat: "router_books (Some (snd (publishHeartbeat d now r))) M = router_books (Some r) M" for d now r
    by (rule same_scopes_books) (simp_all add: publishHeartbeat_def)
  show ?thesis unfolding syncState_def Let_def case_prod_beta o(1)
    using assms(2) release_idle_books [OF o(2)] rebalance_books [OF o(3)]
    by (simp add: adopt beat split: option.split)
qed

lemma enqueueOnWorker_books:
  assumes "enqueueOnWorker s draw taken now key job header enforce w r = (res, r')" and "books_ok (r, M)"
  shows "books_ok (r', accepted res job M) \<and> rg_stopping r' = rg_stopping r"
proof -
  have t: "router_books (rg_router (track TrackLocalJob job now r)) (add_mset job M)"
    using assms(2) track_books by (cases "rg_router r") (auto simp: books_ok_def track_def router_books_def)
  have c: "router_books (map_option (CompleteLocalJob (j_UserID job) now) (rg_router (track TrackLocalJob job now r))) M"
    using t complete_books by (cases "rg_router (track TrackLocalJob job now r)") (auto simp: router_books_def)
  have u: "tracks (rg_users r) M" using assms(2) by (simp add: books_ok_def)
  show ?thesis using assms(1) t c u user_add_tracks [OF u, of job]
    by (auto simp: enqueueOnWorker_def Let_def books_ok_def accepted_def track_def case_prod_beta split: reserve_result.splits)
qed

lemma resolve_books: "resolveWorkerLocked s job r = (key, w, r') \<Longrightarrow>
    books_ok (r', M) = books_ok (r, M) \<and> rg_stopping r' = rg_stopping r"
  by (auto simp: resolveWorkerLocked_def Let_def books_ok_def split: option.splits)

lemma enqueue_loop_books:
  "enqueue_loop fuel k s ra job header enforce r = (res, r') \<Longrightarrow> books_ok (r, M) \<Longrightarrow> books_ok (r', accepted res job M)"
proof (induction fuel arbitrary: k r)
  case 0
  then show ?case by (simp add: accepted_def)
next
  case (Suc fuel)
  show ?case
  proof (cases "rg_stopping r")
    case True
    with Suc.prems show ?thesis by (auto simp: accepted_def)
  next
    case False
    obtain key w r1 where res1: "resolveWorkerLocked s job r = (key, w, r1)" by (metis prod_cases3)
    obtain out r2 where on: "enqueueOnWorker s (ra_draw ra k) (ra_taken ra k) (ra_now ra k) key job header enforce w r1 = (out, r2)"
      by fastforce
    have b2: "books_ok (r2, accepted out job M)"
      using enqueueOnWorker_books [OF on] resolve_books [OF res1] Suc.prems(2) by blast
    show ?thesis
    proof (cases out)
      case None
      then have "books_ok (r2\<lparr>rg_workers := al_del key (rg_workers r2)\<rparr>, M)" using b2 by (simp add: books_ok_def accepted_def)
      with Suc.IH Suc.prems(1) False res1 on None show ?thesis by simp
    next
      case (Some x)
      with Suc.prems(1) False res1 on b2 show ?thesis by simp
    qed
  qed
qed

lemma enqueue_books:
  "enqueue fuel s draw ra job header enforce r = (res, r') \<Longrightarrow> books_ok (r, M) \<Longrightarrow> books_ok (r', accepted res job M)"
  by (auto simp: enqueue_def accepted_def case_prod_beta split: if_splits dest: enqueue_loop_books)

interpretation registry_runs: state_machine "registry_step s" registry_ok books_ok for s
proof unfold_locales
  fix st :: "Registry \<times> Job multiset" and e
  obtain r M where st: "st = (r, M)" by fastforce
  assume ok: "books_ok st" "registry_ok e st"
  show "books_ok (registry_step s e st)"
  proof (cases e)
    case (Submit job header draw ra fuel)
    with ok enqueue_books [of fuel s draw ra job header True r] show ?thesis by (auto simp: st split: prod.split)
  next
    case (Deliver job ra inserted fuel)
    with ok enqueue_books [of fuel s 0 ra job "[]" False r "fst (enqueue fuel s 0 ra job [] False r)" "snd (enqueue fuel s 0 ra job [] False r)" M]
    show ?thesis by (auto simp: st EnqueueWebhook_def)
  next
    case (Finish job now)
    with ok have M: "M = add_mset job (M - {#job#})" by (simp add: st)
    have u: "tracks (user_done job (rg_users r)) (M - {#job#})"
      using ok(1) M user_done_tracks [of "rg_users r" job "M - {#job#}"] by (simp add: st books_ok_def)
    have "router_books (map_option (CompleteLocalJob (j_UserID job) now) (rg_router r)) (M - {#job#})"
      using ok(1) M complete_books [of _ job "M - {#job#}" now] by (cases "rg_router r") (auto simp: st books_ok_def router_books_def)
    with u Finish show ?thesis by (simp add: st job_done_def books_ok_def)
  next
    case (Sync score w)
    with ok sync_books [of w _ M score] show ?thesis by (cases "rg_router r") (auto simp: st books_ok_def router_books_def)
  next
    case (Touch key now)
    with ok show ?thesis
      by (cases "rg_router r") (auto simp: st books_ok_def router_books_def touchLocalScope_def outstanding_touch)
  next
    case (Idle key w)
    with ok show ?thesis by (auto simp: st books_ok_def worker_idle_def)
  qed
qed

section \<open>Enqueueing returns\<close>

lemma worker_enqueue_live:
  "\<not> uw_stopped w \<Longrightarrow> taken \<Longrightarrow> snd (worker_enqueue env H draw taken job enforce w) \<noteq> WorkerStopped"
  by (auto simp: worker_enqueue_def reserve_def admit_job_def Let_def case_prod_beta split: reserve_result.splits option.splits if_splits)

lemma policy_stopped [simp]:
  "uw_stopped (applyAccountQueueModeLocked w) = uw_stopped w"
  "uw_stopped (setAccountQueuePolicy a b w) = uw_stopped w" "uw_stopped (handleAccountQueueHeader h w) = uw_stopped w"
  "\<not> uw_stopped (NewURLWorker env domain rps maxConc pool)"
  by (simp_all add: applyAccountQueueModeLocked_def setAccountQueuePolicy_def handleAccountQueueHeader_def NewURLWorker_def split: option.split)

lemma fresh_attempt_returns:
  assumes "map_of (rg_workers r) (routing_key s job) = None" and "ra_taken ra k"
  shows "fst (enqueue_loop (Suc fuel) k s ra job header enforce r) \<noteq> None"
proof -
  obtain key w r1 where res: "resolveWorkerLocked s job r = (key, w, r1)" by (metis prod_cases3)
  then have "\<not> uw_stopped w" using assms(1) by (auto simp: resolveWorkerLocked_def Let_def)
  moreover define w0 where "w0 = (if header \<noteq> [] then handleAccountQueueHeader header w else w)"
  ultimately have "\<not> uw_stopped w0" by simp
  from worker_enqueue_live [OF this assms(2)]
  have "fst (enqueueOnWorker s (ra_draw ra k) (ra_taken ra k) (ra_now ra k) key job header enforce w r1) \<noteq> None"
    by (auto simp: enqueueOnWorker_def w0_def [symmetric] Let_def case_prod_beta split: reserve_result.splits)
  with res show ?thesis by (auto split: option.splits prod.splits)
qed

lemma enqueue_loop_returns:
  "(\<And>i. k + n \<le> i \<Longrightarrow> ra_taken ra i) \<Longrightarrow> fst (enqueue_loop (Suc (Suc n)) k s ra job header enforce r) \<noteq> None"
proof (induction n arbitrary: k r)
  case 0
  obtain key w r1 where res: "resolveWorkerLocked s job r = (key, w, r1)" by (metis prod_cases3)
  then have key: "key = routing_key s job" by (auto simp: resolveWorkerLocked_def Let_def split: option.splits)
  obtain out r2 where on: "enqueueOnWorker s (ra_draw ra k) (ra_taken ra k) (ra_now ra k) key job header enforce w r1 = (out, r2)"
    by fastforce
  have "fst (enqueue_loop (Suc 0) (Suc k) s ra job header enforce (r2\<lparr>rg_workers := al_del key (rg_workers r2)\<rparr>)) \<noteq> None"
    using 0 by (intro fresh_attempt_returns) (simp_all add: key)
  then show ?case using res on by (cases out) (simp_all del: enqueue_loop.simps(2) add: enqueue_loop.simps(2) [of "Suc 0"])
next
  case (Suc n)
  obtain key w r1 where res: "resolveWorkerLocked s job r = (key, w, r1)" by (metis prod_cases3)
  obtain out r2 where on: "enqueueOnWorker s (ra_draw ra k) (ra_taken ra k) (ra_now ra k) key job header enforce w r1 = (out, r2)"
    by fastforce
  have "fst (enqueue_loop (Suc (Suc n)) (Suc k) s ra job header enforce (r2\<lparr>rg_workers := al_del key (rg_workers r2)\<rparr>)) \<noteq> None"
    using Suc.prems by (intro Suc.IH) simp
  then show ?case using res on by (cases out) (simp_all del: enqueue_loop.simps(2) add: enqueue_loop.simps(2) [of "Suc (Suc n)"])
qed

text \<open>The depth counters are only ever raised.\<close>

lemma enqueue_depth:
  assumes "enqueue_loop fuel k s ra job header enforce r = (res, r')"
  shows "rg_queueDepth r \<le> rg_queueDepth r'"
  using assms
proof (induction fuel arbitrary: k r)
  case (Suc fuel)
  obtain key w r1 where res: "resolveWorkerLocked s job r = (key, w, r1)" by (metis prod_cases3)
  then have 1: "rg_queueDepth r1 = rg_queueDepth r" by (auto simp: resolveWorkerLocked_def Let_def split: option.splits)
  obtain out r2 where on: "enqueueOnWorker s (ra_draw ra k) (ra_taken ra k) (ra_now ra k) key job header enforce w r1 = (out, r2)"
    by fastforce
  then have 2: "rg_queueDepth r1 \<le> rg_queueDepth r2"
    by (auto simp: enqueueOnWorker_def Let_def track_def case_prod_beta split: reserve_result.splits)
  from Suc.prems Suc.IH [of "Suc k" "r2\<lparr>rg_workers := al_del key (rg_workers r2)\<rparr>"] res on 1 2 show ?case
    by (cases out) (auto split: if_splits)
qed simp

lemma queue_depth_never_falls: "rg_queueDepth r \<le> rg_queueDepth (fst (registry_step s e (r, M)))"
proof (cases e)
  case (Submit job header draw ra fuel)
  then show ?thesis using enqueue_depth [OF surjective_pairing, of r fuel 0 s ra job header True]
    by (auto simp: enqueue_def case_prod_beta split: prod.split)
next
  case (Deliver job ra inserted fuel)
  then show ?thesis using enqueue_depth [OF surjective_pairing, of r fuel 0 s ra job "[]" False]
    by (auto simp: EnqueueWebhook_def enqueue_def case_prod_beta)
qed (auto simp: job_done_def worker_idle_def)

section \<open>Properties\<close>


text \<open>(C36) Enqueueing returns.  If from some attempt on the queues take the job
  handed to them, the retry loop that replaces stopped workers ends: two more
  attempts than the number of races lost are enough.\<close>

theorem enqueue_returns:
  assumes "\<And>i. n \<le> i \<Longrightarrow> ra_taken ra i"
  shows "\<exists>res r'. enqueue (Suc (Suc n)) s draw ra job header enforce r = (Some res, r')"
proof -
  have "fst (enqueue_loop (Suc (Suc n)) 0 s ra job header enforce r) \<noteq> None"
    by (rule enqueue_loop_returns) (use assms in simp)
  then obtain res r' where "enqueue_loop (Suc (Suc n)) 0 s ra job header enforce r = (Some res, r')"
    by (metis not_None_eq prod.collapse)
  then show ?thesis by (simp add: enqueue_def case_prod_beta del: enqueue_loop.simps)
qed

definition sample_surroundings :: surroundings where
  "sample_surroundings = \<lparr> su_env = (\<lambda>_. []), su_hash = id, su_parse = (\<lambda>u. Some (''http'', u)), su_pools = (\<lambda>_. None) \<rparr>"

definition sample_race :: race where
  "sample_race = \<lparr> ra_draw = (\<lambda>_. 0), ra_taken = (\<lambda>i. 1 \<le> i), ra_now = (\<lambda>i. int i) \<rparr>"

definition sample_cluster :: cluster_Config where
  "sample_cluster =
     \<lparr> cc_Enabled = True, cc_Provider = ''valkey'', cc_Self = sample_node ''a'' 0, cc_Members = [], cc_PruneTTL = 0,
       cc_HeartbeatInterval = 0, cc_InstanceTTL = 0, cc_AssignmentIdle = 0, cc_RequestTimeout = 0, cc_ValkeyURL = [],
       cc_ValkeyPrefix = [] \<rparr>"

definition sample_sync :: sync_world where
  "sample_sync =
     \<lparr> sy_now = (\<lambda>_. 400 * second), sy_other = (\<lambda>_ r. r), sy_heartbeat = True, sy_renew = True,
       sy_idle = \<lparr> pw_clock = (\<lambda>_. 400 * second), pw_other = (\<lambda>_ r. r), pw_release = (\<lambda>_. True) \<rparr>,
       sy_members = Some [],
       sy_rebalance = \<lparr> pw_clock = (\<lambda>_. 400 * second), pw_other = (\<lambda>_ r. r), pw_release = (\<lambda>_. True) \<rparr> \<rparr>"

definition sample_accepts :: "registry_event list" where
  "sample_accepts =
     [Submit ((sample_submit ''a'')\<lparr>j_Kind := KindUser\<rparr>) [] 0 sample_race 3, Submit (sample_submit ''b'') [] 0 sample_race 3,
      Deliver (webhook_job id ''w'' 0 ''j'' ''a'' ''hook'' 3 []) sample_race True 3]"

definition sample_registry_events :: "registry_event list" where
  "sample_registry_events = sample_accepts @ [Finish (sample_submit ''b'') 5, Touch ''c'' 6, Sync sample_score sample_sync]"

definition sample_registry :: Registry where
  "sample_registry = NewRegistry (\<lambda>_. []) built_in_config 0 0 (NewRouter sample_cluster True)"

definition sample_books :: "Registry \<times> Job multiset" where
  "sample_books = fold (registry_step sample_surroundings) sample_registry_events (sample_registry, {#})"


theorem enqueue_returns_witness:
  "\<exists>res r'. enqueue 3 sample_surroundings 0 sample_race (sample_submit ''a'') [] True sample_registry = (Some res, r')"
proof -
  have "ra_taken sample_race i" if "1 \<le> i" for i using that by (simp add: sample_race_def)
  from enqueue_returns [OF this] show ?thesis by (simp only: numeral_3_eq_3 One_nat_def)
qed

end
