(* ===== verification/Core_Submit.thy ===== *)
theory Core_Submit
  imports Admission_Control Inbound_Rate Sqlite_Store Job_Registry
begin

text \<open>
  \<^verbatim>\<open>internal/core/aquifer.go\<close>: how a request becomes a queued job.  A submission claims its
  idempotency key, inserts its row, passes the remote ledger, the schema and admission,
  and is handed to the registry; a refusal after the insert deletes the row.  The
  parts between two locks are the steps of a machine in which any number of submissions
  interleave with each other and with the other users of the store.  The store is the
  interface \<^verbatim>\<open>storage.Store\<close>, with an instance for each backend.  The clock, ids, the
  ledger's replies, the schema verdict and the readings of admission are arguments.
\<close>

section \<open>The store interface\<close>

text \<open>The methods without a result are given by the events of the store's contract.\<close>

record 's JobStore =
  js_CheckOrInsert :: "ms \<Rightarrow> Job \<Rightarrow> 's \<Rightarrow> (string \<times> bool) \<times> 's"
  js_GetJob :: "ms \<Rightarrow> string \<Rightarrow> 's \<Rightarrow> Job option"
  js_GetResult :: "ms \<Rightarrow> string \<Rightarrow> 's \<Rightarrow> Result option"
  js_Counts :: "ms \<Rightarrow> 's \<Rightarrow> Counts"
  js_apply :: "store_event \<Rightarrow> 's \<Rightarrow> 's"

definition pebble_JobStore :: "('d, stored) kv \<Rightarrow> (string \<Rightarrow> string) \<Rightarrow> (ms \<times> 'd Pebble) JobStore" where
  "pebble_JobStore kv H =
     \<lparr> js_CheckOrInsert = (\<lambda>now job (T, s). let (r, s') = CheckOrInsert kv H now job s in (r, (now, s'))),
       js_GetJob = (\<lambda>now i (T, s). GetJob kv now i s), js_GetResult = (\<lambda>now i (T, s). GetResult kv now i s),
       js_Counts = (\<lambda>now (T, s). store_Counts s), js_apply = store_step kv H \<rparr>"

definition sqlite_JobStore :: "(string \<Rightarrow> string) \<Rightarrow> SQLite JobStore" where
  "sqlite_JobStore H =
     \<lparr> js_CheckOrInsert = sq_CheckOrInsert H False False, js_GetJob = sq_GetJob, js_GetResult = sq_GetResult,
       js_Counts = sq_Counts, js_apply = sq_step H \<rparr>"

section \<open>Key claims\<close>

text \<open>The keys held.  A claim of a held key waits, which is \<^const>\<open>None\<close>; the channel of the
  holder only wakes the waiters.\<close>

type_synonym keyClaims = "string list"

definition claim :: "string \<Rightarrow> keyClaims \<Rightarrow> keyClaims option" where
  "claim key keys = (if key \<in> set keys then None else Some (key # keys))"

definition release :: "string \<Rightarrow> keyClaims \<Rightarrow> keyClaims" where
  "release key keys = filter (\<lambda>k. k \<noteq> key) keys"

section \<open>One submission\<close>

record remote_entry =
  rm_JobID :: string
  rm_Status :: Status
  rm_ResultKey :: string

record EnqueueResult =
  er_JobID :: string
  er_Status :: Status
  er_Duplicate :: bool
  er_ResultKey :: string
  er_Queue :: "QueueSnapshot option"

datatype submit_error =
    ErrAquiferDraining
  | ErrInvalid string
  | ErrSchema string
  | AdmissionRejected Decision

text \<open>The fields submissions use.  The redirect gate is in \<open>Core_Proxy.node\<close>, the region adapter and the
  target URLs are in \<open>Core_Proxy.redirect_world\<close>, the samplers in \<open>Core_Server\<close>; the cluster router is
  the one the registry holds, and the pools are an argument (\<open>Job_Registry.surroundings\<close>).\<close>

record 's Aquifer =
  co_store :: 's
  co_registry :: Registry
  co_admission :: "Controller option"
  co_inbound :: "InboundRateController option"
  co_draining :: bool
  co_newKeys :: keyClaims

record 's submit_world =
  sw_store :: "'s JobStore"
  sw_around :: surroundings
  sw_hostname :: "string \<Rightarrow> string option"

text \<open>What the checks after the insert read: the ledger's entry, the schema verdict, the
  readings of admission.\<close>

record check_world =
  cw_remote :: "remote_entry option"
  cw_schema :: "string option"
  cw_readings :: readings

record dispatch_world =
  dw_fuel :: nat
  dw_draw :: f64
  dw_race :: race

definition submit_begin :: "'s submit_world \<Rightarrow> string \<Rightarrow> ms \<Rightarrow> Request \<Rightarrow> 's Aquifer \<Rightarrow> submit_error + Job" where
  "submit_begin w newID now req a =
     (if co_draining a then Inl ErrAquiferDraining
      else let msg = Validate (sw_hostname w) (su_env (sw_around w)) req
           in if msg \<noteq> '''' then Inl (ErrInvalid msg) else Inr (new_job (su_hash (sw_around w)) newID now req))"

definition claim_key :: "'s submit_world \<Rightarrow> Job \<Rightarrow> string" where
  "claim_key w job = IdempotencyHash (su_hash (sw_around w)) job"

text \<open>\<open>Some id\<close> when the store already had a job with this hash.\<close>

definition submit_insert :: "'s submit_world \<Rightarrow> ms \<Rightarrow> ns \<Rightarrow> Job \<Rightarrow> 's Aquifer \<Rightarrow> string option \<times> 's Aquifer" where
  "submit_insert w now latency job a =
     (let ((existingID, isDuplicate), st) = js_CheckOrInsert (sw_store w) now job (co_store a)
      in (if isDuplicate then Some existingID else None,
          a\<lparr>co_store := st,
            co_inbound := map_option (Observe (now * millisecond) (j_UserID job) latency (\<not> isDuplicate)) (co_inbound a)\<rparr>))"

definition DeleteJob_row :: "'s submit_world \<Rightarrow> string \<Rightarrow> 's Aquifer \<Rightarrow> 's Aquifer" where
  "DeleteJob_row w i a = a\<lparr>co_store := js_apply (sw_store w) (SDelete i) (co_store a)\<rparr>"

definition check_admission :: "'s submit_world \<Rightarrow> readings \<Rightarrow> Job \<Rightarrow> 's Aquifer \<Rightarrow> submit_error option \<times> 's Aquifer" where
  "check_admission w r job a =
     (case co_admission a of
        None \<Rightarrow> (None, a)
      | Some c \<Rightarrow>
          (let (decision, c1) = Check r c; limit = StuckBacklogLimit (su_env (sw_around w))
           in if d_Allowed decision then (None, a\<lparr>co_admission := Some c1\<rparr>)
              else if d_Soft decision \<and> limit > 0 \<and> \<not> TargetBacklogStuck (sw_around w) job limit (co_registry a)
              then (None, a\<lparr>co_admission := Some (Admitted c1)\<rparr>)
              else (Some (AdmissionRejected decision),
                    a\<lparr>co_admission := Some (if d_Soft decision then Admission_Control.Refused c1 else c1)\<rparr>)))"

text \<open>The checks of a new row: \<open>None\<close> when it may be dispatched, else why it goes.\<close>

definition submit_checks ::
  "'s submit_world \<Rightarrow> check_world \<Rightarrow> Job \<Rightarrow> 's Aquifer \<Rightarrow> (submit_error + EnqueueResult) option \<times> 's Aquifer" where
  "submit_checks w cw job a =
     (case cw_remote cw of
        Some entry \<Rightarrow>
          (Some (Inr \<lparr> er_JobID = rm_JobID entry, er_Status = rm_Status entry, er_Duplicate = True,
                       er_ResultKey = rm_ResultKey entry, er_Queue = None \<rparr>), a)
      | None \<Rightarrow>
          (case (if j_URL job \<noteq> [] then cw_schema cw else None) of
             Some detail \<Rightarrow> (Some (Inl (ErrSchema detail)), a)
           | None \<Rightarrow> (case check_admission w (cw_readings cw) job a of (err, a') \<Rightarrow> (map_option Inl err, a'))))"

definition rejection :: "string \<Rightarrow> int \<Rightarrow> int \<Rightarrow> QueueSnapshot \<Rightarrow> submit_error" where
  "rejection reason limit current queue =
     AdmissionRejected \<lparr> d_Allowed = False, d_Reason = reason, d_Limit = limit, d_Current = current,
                         d_Queue = Some queue, d_Soft = False \<rparr>"

text \<open>The handover to the registry; \<open>None\<close> while its retry loop is still running.\<close>

definition hand_over ::
  "'s submit_world \<Rightarrow> dispatch_world \<Rightarrow> Job \<Rightarrow> string \<Rightarrow> 's Aquifer \<Rightarrow> (submit_error + QueueSnapshot) option \<times> 's Aquifer" where
  "hand_over w dw job header a =
     (let (result, r) = enqueue (dw_fuel dw) (sw_around w) (dw_draw dw) (dw_race dw) job header True (co_registry a);
          a1 = a\<lparr>co_registry := r\<rparr>
      in case result of
           None \<Rightarrow> (None, a1)
         | Some Draining \<Rightarrow> (Some (Inl ErrAquiferDraining), a1)
         | Some (Job_Registry.Refused reason limit current queue) \<Rightarrow> (Some (Inl (rejection reason limit current queue)), a1)
         | Some (Accepted queue) \<Rightarrow> (Some (Inr queue), a1))"

definition Dispatch ::
  "'s submit_world \<Rightarrow> dispatch_world \<Rightarrow> Job \<Rightarrow> string \<Rightarrow> 's Aquifer \<Rightarrow> (submit_error + QueueSnapshot) option \<times> 's Aquifer" where
  "Dispatch w dw job header a =
     (case hand_over w dw job header a of
        (Some (Inl err), a1) \<Rightarrow> (Some (Inl err), DeleteJob_row w (j_ID job) a1)
      | other \<Rightarrow> other)"

definition duplicate_of :: "string \<Rightarrow> EnqueueResult" where
  "duplicate_of i = \<lparr> er_JobID = i, er_Status = StatusQueued, er_Duplicate = True, er_ResultKey = [], er_Queue = None \<rparr>"

datatype prepared = Blocked | PUnclaimed submit_error | PFailed submit_error | PDuplicate EnqueueResult | PJob Job

text \<open>\<open>prepareJob\<close> without interference; \<^const>\<open>Blocked\<close> means it waits for the key, and the key is
  held when it returns except for \<^const>\<open>PUnclaimed\<close>, the errors before the claim.\<close>

definition prepareJob ::
  "'s submit_world \<Rightarrow> string \<Rightarrow> ms \<Rightarrow> ns \<Rightarrow> check_world \<Rightarrow> Request \<Rightarrow> 's Aquifer \<Rightarrow> prepared \<times> 's Aquifer" where
  "prepareJob w newID now latency cw req a =
     (case submit_begin w newID now req a of
        Inl err \<Rightarrow> (PUnclaimed err, a)
      | Inr job \<Rightarrow>
          (case claim (claim_key w job) (co_newKeys a) of
             None \<Rightarrow> (Blocked, a)
           | Some keys \<Rightarrow>
               (case submit_insert w now latency job (a\<lparr>co_newKeys := keys\<rparr>) of
                  (Some existing, a1) \<Rightarrow> (PDuplicate (duplicate_of existing), a1)
                | (None, a1) \<Rightarrow>
                    (case submit_checks w cw job a1 of
                       (None, a2) \<Rightarrow> (PJob job, a2)
                     | (Some (Inl err), a2) \<Rightarrow> (PFailed err, DeleteJob_row w (j_ID job) a2)
                     | (Some (Inr dup), a2) \<Rightarrow> (PDuplicate dup, DeleteJob_row w (j_ID job) a2)))))"

definition release_for :: "'s submit_world \<Rightarrow> string \<Rightarrow> ms \<Rightarrow> Request \<Rightarrow> 's Aquifer \<Rightarrow> 's Aquifer" where
  "release_for w newID now req a =
     a\<lparr>co_newKeys := release (claim_key w (new_job (su_hash (sw_around w)) newID now req)) (co_newKeys a)\<rparr>"

definition PrepareJob ::
  "'s submit_world \<Rightarrow> string \<Rightarrow> ms \<Rightarrow> ns \<Rightarrow> check_world \<Rightarrow> Request \<Rightarrow> 's Aquifer \<Rightarrow> prepared \<times> 's Aquifer" where
  "PrepareJob w newID now latency cw req a =
     (case prepareJob w newID now latency cw req a of
        (Blocked, a1) \<Rightarrow> (Blocked, a1)
      | (PUnclaimed err, a1) \<Rightarrow> (PUnclaimed err, a1)
      | (r, a1) \<Rightarrow> (r, release_for w newID now req a1))"

text \<open>\<open>None\<close> when it waits for the key or the handover has not returned.\<close>

definition Enqueue ::
  "'s submit_world \<Rightarrow> string \<Rightarrow> ms \<Rightarrow> ns \<Rightarrow> check_world \<Rightarrow> dispatch_world \<Rightarrow> Request \<Rightarrow> 's Aquifer
     \<Rightarrow> (submit_error + EnqueueResult) option \<times> 's Aquifer" where
  "Enqueue w newID now latency cw dw req a =
     (case prepareJob w newID now latency cw req a of
        (Blocked, a1) \<Rightarrow> (None, a1)
      | (PUnclaimed err, a1) \<Rightarrow> (Some (Inl err), a1)
      | (PFailed err, a1) \<Rightarrow> (Some (Inl err), release_for w newID now req a1)
      | (PDuplicate dup, a1) \<Rightarrow> (Some (Inr dup), release_for w newID now req a1)
      | (PJob job, a1) \<Rightarrow>
          (case Dispatch w dw job (r_AccountQueueMode req) a1 of
             (None, a2) \<Rightarrow> (None, a2)
           | (Some (Inl err), a2) \<Rightarrow> (Some (Inl err), release_for w newID now req a2)
           | (Some (Inr queue), a2) \<Rightarrow>
               (Some (Inr \<lparr> er_JobID = j_ID job, er_Status = StatusQueued, er_Duplicate = False, er_ResultKey = [],
                            er_Queue = Some queue \<rparr>), release_for w newID now req a2)))"

text \<open>\<open>BeginDrain\<close>; the second component lists the calls it makes outside this state, in order: to the
  WebSocket manager (\<open>WS_Manager\<close>) and to the node's registration.\<close>

datatype drain_call = DrainWebSockets ns | DrainRegistration

definition core_BeginDrain :: "ns \<Rightarrow> 's Aquifer \<Rightarrow> bool \<times> drain_call list \<times> 's Aquifer" where
  "core_BeginDrain webSocketGrace a =
     (if co_draining a then (False, [], a)
      else (True, [DrainWebSockets webSocketGrace, DrainRegistration],
            a\<lparr>co_draining := True,
              co_registry := (co_registry a)\<lparr>rg_router := map_option (SetState ''draining'') (rg_router (co_registry a))\<rparr>\<rparr>))"

section \<open>Many submissions\<close>

text \<open>
  The steps of a submission between two locks.  A proxied request releases its key as
  soon as it is prepared and decides about the queue later, without it.
\<close>

datatype reply =
    RError submit_error
  | RDuplicate string
  | RRemote EnqueueResult
  | RQueued string QueueSnapshot
  | RPanic

datatype phase =
    Claiming
  | Claimed
  | Inserted
  | Prepared
  | Discarding reply
  | Releasing reply
  | Direct
  | Undoing reply
  | Finished

record submission =
  sb_req :: Request
  sb_job :: Job
  sb_proxied :: bool
  sb_phase :: phase

record 's service =
  sv_core :: "'s Aquifer"
  sv_subs :: "(nat \<times> submission) list"
  sv_queued :: "string list"
  sv_replies :: "(nat \<times> reply) list"

datatype service_event =
    Arrive nat bool string ms Request
  | Claim nat
  | Insert nat ms ns
  | Checks nat check_world
  | Panic nat
  | Discard nat
  | Hand nat
  | Queue nat dispatch_world
  | Release nat
  | Drain ns
  | Background store_event

definition to_phase :: "nat \<Rightarrow> phase \<Rightarrow> submission \<Rightarrow> 's service \<Rightarrow> 's service" where
  "to_phase n p b v = v\<lparr>sv_subs := al_put n (b\<lparr>sb_phase := p\<rparr>) (sv_subs v)\<rparr>"

definition with_core :: "'s Aquifer \<Rightarrow> 's service \<Rightarrow> 's service" where
  "with_core a v = v\<lparr>sv_core := a\<rparr>"

definition reply_to :: "nat \<Rightarrow> reply \<Rightarrow> 's service \<Rightarrow> 's service" where
  "reply_to n r v = v\<lparr>sv_replies := sv_replies v @ [(n, r)]\<rparr>"

fun removal_reply :: "submit_error + EnqueueResult \<Rightarrow> reply" where
  "removal_reply (Inl err) = RError err"
| "removal_reply (Inr dup) = RRemote dup"

definition arrive :: "'s submit_world \<Rightarrow> nat \<Rightarrow> bool \<Rightarrow> string \<Rightarrow> ms \<Rightarrow> Request \<Rightarrow> 's service \<Rightarrow> 's service" where
  "arrive w n proxied newID now req v =
     (case submit_begin w newID now req (sv_core v) of
        Inl err \<Rightarrow> reply_to n (RError err) v
      | Inr job \<Rightarrow> v\<lparr>sv_subs := al_put n \<lparr> sb_req = req, sb_job = job, sb_proxied = proxied, sb_phase = Claiming \<rparr> (sv_subs v)\<rparr>)"

definition step_claim :: "'s submit_world \<Rightarrow> nat \<Rightarrow> submission \<Rightarrow> 's service \<Rightarrow> 's service" where
  "step_claim w n b v =
     (case claim (claim_key w (sb_job b)) (co_newKeys (sv_core v)) of
        None \<Rightarrow> v
      | Some keys \<Rightarrow> to_phase n Claimed b (with_core ((sv_core v)\<lparr>co_newKeys := keys\<rparr>) v))"

definition step_insert :: "'s submit_world \<Rightarrow> nat \<Rightarrow> ms \<Rightarrow> ns \<Rightarrow> submission \<Rightarrow> 's service \<Rightarrow> 's service" where
  "step_insert w n now latency b v =
     (case submit_insert w now latency (sb_job b) (sv_core v) of
        (Some existing, a) \<Rightarrow> to_phase n (Releasing (RDuplicate existing)) b (with_core a v)
      | (None, a) \<Rightarrow> to_phase n Inserted b (with_core a v))"

definition step_checks :: "'s submit_world \<Rightarrow> nat \<Rightarrow> check_world \<Rightarrow> submission \<Rightarrow> 's service \<Rightarrow> 's service" where
  "step_checks w n cw b v =
     (case submit_checks w cw (sb_job b) (sv_core v) of
        (None, a) \<Rightarrow> to_phase n Prepared b (with_core a v)
      | (Some why, a) \<Rightarrow> to_phase n (Discarding (removal_reply why)) b (with_core a v))"

definition step_queue :: "'s submit_world \<Rightarrow> nat \<Rightarrow> dispatch_world \<Rightarrow> submission \<Rightarrow> 's service \<Rightarrow> 's service" where
  "step_queue w n dw b v =
     (let holding = (sb_phase b = Prepared)
      in case hand_over w dw (sb_job b) (r_AccountQueueMode (sb_req b)) (sv_core v) of
           (None, a) \<Rightarrow> with_core a v
         | (Some (Inl err), a) \<Rightarrow>
             to_phase n (if holding then Discarding (RError err) else Undoing (RError err)) b (with_core a v)
         | (Some (Inr queue), a) \<Rightarrow>
             (let v1 = (with_core a v)\<lparr>sv_queued := sv_queued v @ [j_ID (sb_job b)]\<rparr>; r = RQueued (j_ID (sb_job b)) queue
              in if holding then to_phase n (Releasing r) b v1 else reply_to n r (to_phase n Finished b v1)))"

definition step_release :: "'s submit_world \<Rightarrow> nat \<Rightarrow> phase \<Rightarrow> submission \<Rightarrow> 's service \<Rightarrow> 's service" where
  "step_release w n p b v =
     to_phase n p b (with_core ((sv_core v)\<lparr>co_newKeys := release (claim_key w (sb_job b)) (co_newKeys (sv_core v))\<rparr>) v)"

text \<open>A panic in \<open>prepareJob\<close> deletes the row, if there is one, and releases the key.\<close>

fun sub_step :: "'s submit_world \<Rightarrow> nat \<Rightarrow> service_event \<Rightarrow> phase \<Rightarrow> submission \<Rightarrow> 's service \<Rightarrow> 's service" where
  "sub_step w n (Claim _) Claiming b v = step_claim w n b v"
| "sub_step w n (Insert _ now latency) Claimed b v = step_insert w n now latency b v"
| "sub_step w n (Checks _ cw) Inserted b v = step_checks w n cw b v"
| "sub_step w n (Panic _) Claimed b v = to_phase n (Releasing RPanic) b v"
| "sub_step w n (Panic _) Inserted b v = to_phase n (Discarding RPanic) b v"
| "sub_step w n (Discard _) (Discarding r) b v = to_phase n (Releasing r) b (with_core (DeleteJob_row w (j_ID (sb_job b)) (sv_core v)) v)"
| "sub_step w n (Discard _) (Undoing r) b v =
     reply_to n r (to_phase n Finished b (with_core (DeleteJob_row w (j_ID (sb_job b)) (sv_core v)) v))"
| "sub_step w n (Hand _) Prepared b v = (if sb_proxied b then step_release w n Direct b v else v)"
| "sub_step w n (Queue _ dw) Prepared b v = (if sb_proxied b then v else step_queue w n dw b v)"
| "sub_step w n (Queue _ dw) Direct b v = step_queue w n dw b v"
| "sub_step w n (Release _) (Releasing r) b v = reply_to n r (step_release w n Finished b v)"
| "sub_step w n _ _ b v = v"

fun event_of :: "service_event \<Rightarrow> nat option" where
  "event_of (Arrive n _ _ _ _) = Some n"
| "event_of (Claim n) = Some n"
| "event_of (Insert n _ _) = Some n"
| "event_of (Checks n _) = Some n"
| "event_of (Panic n) = Some n"
| "event_of (Discard n) = Some n"
| "event_of (Hand n) = Some n"
| "event_of (Queue n _) = Some n"
| "event_of (Release n) = Some n"
| "event_of (Drain grace) = None"
| "event_of (Background e) = None"

definition on_submission :: "'s submit_world \<Rightarrow> service_event \<Rightarrow> nat \<Rightarrow> 's service \<Rightarrow> 's service" where
  "on_submission w e n v =
     (case map_of (sv_subs v) n of None \<Rightarrow> v | Some b \<Rightarrow> sub_step w n e (sb_phase b) b v)"

fun service_step :: "'s submit_world \<Rightarrow> service_event \<Rightarrow> 's service \<Rightarrow> 's service" where
  "service_step w (Arrive n proxied newID now req) v = arrive w n proxied newID now req v"
| "service_step w (Drain grace) v = with_core (snd (snd (core_BeginDrain grace (sv_core v)))) v"
| "service_step w (Background e) v =
     with_core ((sv_core v)\<lparr>co_store := js_apply (sw_store w) e (co_store (sv_core v))\<rparr>) v"
| "service_step w e v = (case event_of e of Some n \<Rightarrow> on_submission w e n v | None \<Rightarrow> v)"

text \<open>New submissions have new numbers, an insert is one the store accepts, and the other users of
  the store keep to its contract and insert nothing.\<close>

fun no_insert :: "store_event \<Rightarrow> bool" where
  "no_insert (SInsert _ _) = False"
| "no_insert _ = True"

fun service_ok :: "(store_event \<Rightarrow> 's \<Rightarrow> bool) \<Rightarrow> service_event \<Rightarrow> 's service \<Rightarrow> bool" where
  "service_ok allowed (Arrive n _ _ _ _) v \<longleftrightarrow> map_of (sv_subs v) n = None"
| "service_ok allowed (Insert n now _) v \<longleftrightarrow>
     (case map_of (sv_subs v) n of None \<Rightarrow> True | Some b \<Rightarrow> allowed (SInsert now (sb_job b)) (co_store (sv_core v)))"
| "service_ok allowed (Background e) v \<longleftrightarrow> no_insert e \<and> allowed e (co_store (sv_core v))"
| "service_ok allowed _ v \<longleftrightarrow> True"

fun unproxied :: "service_event \<Rightarrow> bool" where
  "unproxied (Arrive _ proxied _ _ _) \<longleftrightarrow> \<not> proxied"
| "unproxied _ \<longleftrightarrow> True"

definition quiet :: "'s service \<Rightarrow> bool" where
  "quiet v \<longleftrightarrow> list_all (\<lambda>(_, b). sb_phase b = Finished) (sv_subs v)"

definition start_service :: "'s Aquifer \<Rightarrow> 's service" where
  "start_service a = \<lparr> sv_core = a, sv_subs = [], sv_queued = [], sv_replies = [] \<rparr>"

definition service_after :: "'s submit_world \<Rightarrow> service_event list \<Rightarrow> 's Aquifer \<Rightarrow> 's service" where
  "service_after w es a = fold (service_step w) es (start_service a)"

definition holds_key :: "phase \<Rightarrow> bool" where
  "holds_key p \<longleftrightarrow> (case p of Claiming \<Rightarrow> False | Direct \<Rightarrow> False | Undoing _ \<Rightarrow> False | Finished \<Rightarrow> False | _ \<Rightarrow> True)"

definition has_row :: "phase \<Rightarrow> bool" where
  "has_row p \<longleftrightarrow> (case p of Inserted \<Rightarrow> True | Prepared \<Rightarrow> True | Discarding _ \<Rightarrow> True | _ \<Rightarrow> False)"

section \<open>What the store owes a submission\<close>

locale job_store =
  fixes w :: "'s submit_world" and inv :: "'s \<Rightarrow> bool" and owner :: "'s \<Rightarrow> string \<Rightarrow> string option"
    and allowed :: "store_event \<Rightarrow> 's \<Rightarrow> bool"
  assumes duplicate: "inv s \<Longrightarrow> allowed (SInsert now job) s \<Longrightarrow> owner s (claim_key w job) = Some i
      \<Longrightarrow> fst (js_CheckOrInsert (sw_store w) now job s) = (i, True)
        \<and> inv (snd (js_CheckOrInsert (sw_store w) now job s)) \<and> owner (snd (js_CheckOrInsert (sw_store w) now job s)) = owner s"
    and fresh: "inv s \<Longrightarrow> allowed (SInsert now job) s \<Longrightarrow> owner s (claim_key w job) = None
      \<Longrightarrow> fst (js_CheckOrInsert (sw_store w) now job s) = ([], False)
        \<and> inv (snd (js_CheckOrInsert (sw_store w) now job s))
        \<and> owner (snd (js_CheckOrInsert (sw_store w) now job s)) = (owner s)(claim_key w job \<mapsto> j_ID job)"
    and others: "inv s \<Longrightarrow> no_insert e \<Longrightarrow> allowed e s \<Longrightarrow>
        inv (js_apply (sw_store w) e s) \<and> owner (js_apply (sw_store w) e s) \<subseteq>\<^sub>m owner s"
    and deletes: "inv s \<Longrightarrow> allowed (SDelete i) s \<and> owner (js_apply (sw_store w) (SDelete i) s) h \<noteq> Some i"
begin

definition sub_ok :: "string set \<Rightarrow> string set \<Rightarrow> submission \<Rightarrow> bool" where
  "sub_ok keys queued b \<longleftrightarrow> \<not> sb_proxied b
     \<and> (holds_key (sb_phase b) \<longrightarrow> claim_key w (sb_job b) \<in> keys)
     \<and> (\<forall>i. sb_phase b = Releasing (RDuplicate i) \<or> sb_phase b = Discarding (RDuplicate i) \<longrightarrow> i \<in> queued)
     \<and> sb_phase b \<noteq> Direct \<and> (\<forall>r. sb_phase b \<noteq> Undoing r)"

definition svc_inv :: "'s service \<Rightarrow> bool" where
  "svc_inv v \<longleftrightarrow> inv (co_store (sv_core v))
     \<and> (\<forall>n b. map_of (sv_subs v) n = Some b \<longrightarrow> sub_ok (set (co_newKeys (sv_core v))) (set (sv_queued v)) b)
     \<and> (\<forall>n m b c. map_of (sv_subs v) n = Some b \<and> map_of (sv_subs v) m = Some c \<and> holds_key (sb_phase b) \<and> holds_key (sb_phase c)
            \<and> claim_key w (sb_job b) = claim_key w (sb_job c) \<longrightarrow> n = m)
     \<and> (\<forall>h i. owner (co_store (sv_core v)) h = Some i \<longrightarrow> i \<in> set (sv_queued v)
            \<or> (\<exists>n b. map_of (sv_subs v) n = Some b \<and> has_row (sb_phase b) \<and> claim_key w (sb_job b) = h \<and> j_ID (sb_job b) = i))
     \<and> (\<forall>n i. (n, RDuplicate i) \<in> set (sv_replies v) \<longrightarrow> i \<in> set (sv_queued v))"

end

context job_store
begin

lemma svc_invD:
  assumes "svc_inv v"
  shows "inv (co_store (sv_core v))"
    and "map_of (sv_subs v) n = Some b \<Longrightarrow> sub_ok (set (co_newKeys (sv_core v))) (set (sv_queued v)) b"
    and "map_of (sv_subs v) n = Some b \<Longrightarrow> map_of (sv_subs v) m = Some c \<Longrightarrow> holds_key (sb_phase b) \<Longrightarrow> holds_key (sb_phase c)
      \<Longrightarrow> claim_key w (sb_job b) = claim_key w (sb_job c) \<Longrightarrow> n = m"
    and "owner (co_store (sv_core v)) h = Some i \<Longrightarrow> i \<in> set (sv_queued v)
      \<or> (\<exists>n b. map_of (sv_subs v) n = Some b \<and> has_row (sb_phase b) \<and> claim_key w (sb_job b) = h \<and> j_ID (sb_job b) = i)"
    and "(n, RDuplicate i) \<in> set (sv_replies v) \<Longrightarrow> i \<in> set (sv_queued v)"
  using assms by (auto simp: svc_inv_def)

lemma service_updates:
  "v\<lparr>sv_core := a, sv_subs := bs\<rparr> = \<lparr> sv_core = a, sv_subs = bs, sv_queued = sv_queued v, sv_replies = sv_replies v \<rparr>"
  "v\<lparr>sv_core := a, sv_queued := q, sv_subs := bs\<rparr> = \<lparr> sv_core = a, sv_subs = bs, sv_queued = q, sv_replies = sv_replies v \<rparr>"
  "v\<lparr>sv_core := a, sv_subs := bs, sv_replies := rs\<rparr> = \<lparr> sv_core = a, sv_subs = bs, sv_queued = sv_queued v, sv_replies = rs \<rparr>"
  by (cases v, simp)+

lemma row_holder: "has_row p \<Longrightarrow> holds_key p"
  by (cases p) (simp_all add: has_row_def holds_key_def)

lemma sub_ok_more:
  "sub_ok K Q b \<Longrightarrow> Q \<subseteq> Q' \<Longrightarrow> (holds_key (sb_phase b) \<Longrightarrow> claim_key w (sb_job b) \<in> K') \<Longrightarrow> sub_ok K' Q' b"
  by (auto simp: sub_ok_def)

text \<open>One submission moves on, with the core, the queue and the replies; nothing else does.\<close>

lemma svc_inv_change:
  assumes v: "svc_inv v" and b: "map_of (sv_subs v) n = Some b" and core: "inv (co_store a)"
    and keys: "\<And>m c. m \<noteq> n \<Longrightarrow> map_of (sv_subs v) m = Some c \<Longrightarrow> holds_key (sb_phase c) \<Longrightarrow> claim_key w (sb_job c) \<in> set (co_newKeys a)"
    and queued: "set (sv_queued v) \<subseteq> set q"
    and sub: "sub_ok (set (co_newKeys a)) (set q) (b\<lparr>sb_phase := p\<rparr>)"
    and uniq: "holds_key p \<Longrightarrow> holds_key (sb_phase b) \<or> claim_key w (sb_job b) \<notin> set (co_newKeys (sv_core v))"
    and rows: "\<And>h i. owner (co_store a) h = Some i \<Longrightarrow> i \<in> set q
        \<or> has_row p \<and> claim_key w (sb_job b) = h \<and> j_ID (sb_job b) = i
        \<or> owner (co_store (sv_core v)) h = Some i \<and> \<not> (has_row (sb_phase b) \<and> claim_key w (sb_job b) = h \<and> j_ID (sb_job b) = i)"
    and replies: "\<And>m i. (m, RDuplicate i) \<in> set rs \<Longrightarrow> i \<in> set q"
  shows "svc_inv \<lparr> sv_core = a, sv_subs = al_put n (b\<lparr>sb_phase := p\<rparr>) (sv_subs v), sv_queued = q, sv_replies = rs \<rparr>"
proof -
  let ?b = "b\<lparr>sb_phase := p\<rparr>" and ?M = "map_of (al_put n (b\<lparr>sb_phase := p\<rparr>) (sv_subs v))"
  have M: "?M m = (if m = n then Some ?b else map_of (sv_subs v) m)" for m by simp
  have subs: "sub_ok (set (co_newKeys a)) (set q) c" if "?M m = Some c" for m c
  proof (cases "m = n")
    case True with that sub show ?thesis by (simp add: M)
  next
    case False
    with that have c: "map_of (sv_subs v) m = Some c" by (simp add: M)
    show ?thesis by (rule sub_ok_more [OF svc_invD(2) [OF v c] queued]) (rule keys [OF False c])
  qed
  have other: False if "m \<noteq> n" "map_of (sv_subs v) m = Some c" "holds_key p" "holds_key (sb_phase c)"
      "claim_key w (sb_job b) = claim_key w (sb_job c)" for m c
  proof (cases "holds_key (sb_phase b)")
    case True with svc_invD(3) [OF v b that(2) True that(4,5)] that(1) show False by simp
  next
    case False
    with uniq [OF that(3)] svc_invD(2) [OF v that(2)] that(4,5) show False by (simp add: sub_ok_def)
  qed
  have single: "m = k" if "?M m = Some c" "?M k = Some d" "holds_key (sb_phase c)" "holds_key (sb_phase d)"
      "claim_key w (sb_job c) = claim_key w (sb_job d)" for m k c d
    using that other [of m c] other [of k d] svc_invD(3) [OF v, of m c k d]
    by (auto simp: M split: if_splits)
  have row: "i \<in> set q \<or> (\<exists>m c. ?M m = Some c \<and> has_row (sb_phase c) \<and> claim_key w (sb_job c) = h \<and> j_ID (sb_job c) = i)"
    if "owner (co_store a) h = Some i" for h i
    using rows [OF that]
  proof (elim disjE)
    assume "has_row p \<and> claim_key w (sb_job b) = h \<and> j_ID (sb_job b) = i"
    then show ?thesis by (intro disjI2 exI [of _ n] exI [of _ ?b]) (simp add: M)
  next
    assume old: "owner (co_store (sv_core v)) h = Some i \<and> \<not> (has_row (sb_phase b) \<and> claim_key w (sb_job b) = h \<and> j_ID (sb_job b) = i)"
    then have "i \<in> set (sv_queued v) \<or> (\<exists>m c. map_of (sv_subs v) m = Some c \<and> has_row (sb_phase c)
        \<and> claim_key w (sb_job c) = h \<and> j_ID (sb_job c) = i)"
      using svc_invD(4) [OF v] by simp
    then show ?thesis
    proof
      assume "\<exists>m c. map_of (sv_subs v) m = Some c \<and> has_row (sb_phase c) \<and> claim_key w (sb_job c) = h \<and> j_ID (sb_job c) = i"
      then obtain m c where c: "map_of (sv_subs v) m = Some c" "has_row (sb_phase c)" "claim_key w (sb_job c) = h" "j_ID (sb_job c) = i"
        by blast
      with old b have "m \<noteq> n" by auto
      with c show ?thesis by (intro disjI2 exI [of _ m] exI [of _ c]) (simp add: M)
    qed (use queued in blast)
  qed simp
  show ?thesis
    unfolding svc_inv_def using core subs single row replies by (simp del: map_of_al_put)
qed


lemmas phase_simps = holds_key_def has_row_def

text \<open>A move that keeps the store, the keys and the queue.\<close>

lemma svc_inv_move:
  assumes v: "svc_inv v" and b: "map_of (sv_subs v) n = Some b"
    and a: "co_store a = co_store (sv_core v)" "co_newKeys a = co_newKeys (sv_core v)"
    and p: "holds_key p" "holds_key (sb_phase b)" "has_row (sb_phase b) \<Longrightarrow> has_row p" "\<And>i. p \<noteq> Releasing (RDuplicate i)"
      "\<And>i. p \<noteq> Discarding (RDuplicate i)"
  shows "svc_inv (to_phase n p b (with_core a v))"
proof -
  have ok: "sub_ok (set (co_newKeys (sv_core v))) (set (sv_queued v)) b" by (rule svc_invD(2) [OF v b])
  have "svc_inv \<lparr> sv_core = a, sv_subs = al_put n (b\<lparr>sb_phase := p\<rparr>) (sv_subs v), sv_queued = sv_queued v, sv_replies = sv_replies v \<rparr>"
  proof (rule svc_inv_change [OF v b])
    show "sub_ok (set (co_newKeys a)) (set (sv_queued v)) (b\<lparr>sb_phase := p\<rparr>)"
      using ok p a by (auto simp: sub_ok_def holds_key_def)
    show "claim_key w (sb_job c) \<in> set (co_newKeys a)" if "map_of (sv_subs v) m = Some c" "holds_key (sb_phase c)" for m c
      using svc_invD(2) [OF v that(1)] that(2) a by (simp add: sub_ok_def)
  qed (use v a p svc_invD(1,5) [OF v] in auto)
  then show ?thesis by (simp add: to_phase_def with_core_def service_updates)
qed

lemma checks_keep [simp]:
  "co_store (snd (submit_checks w cw job a)) = co_store a" "co_newKeys (snd (submit_checks w cw job a)) = co_newKeys a"
  by (simp_all add: submit_checks_def check_admission_def Let_def split: option.splits prod.splits)

lemma hand_over_keep [simp]:
  "co_store (snd (hand_over w dw job header a)) = co_store a" "co_newKeys (snd (hand_over w dw job header a)) = co_newKeys a"
  by (simp_all add: hand_over_def Let_def split: option.splits prod.splits enqueue_result.splits)

lemma svc_inv_claim:
  assumes v: "svc_inv v" and b: "map_of (sv_subs v) n = Some b" and p: "sb_phase b = Claiming"
  shows "svc_inv (step_claim w n b v)"
proof (cases "claim_key w (sb_job b) \<in> set (co_newKeys (sv_core v))")
  case False
  let ?a = "(sv_core v)\<lparr>co_newKeys := claim_key w (sb_job b) # co_newKeys (sv_core v)\<rparr>"
  have "svc_inv \<lparr> sv_core = ?a, sv_subs = al_put n (b\<lparr>sb_phase := Claimed\<rparr>) (sv_subs v), sv_queued = sv_queued v, sv_replies = sv_replies v \<rparr>"
  proof (rule svc_inv_change [OF v b])
    show "sub_ok (set (co_newKeys ?a)) (set (sv_queued v)) (b\<lparr>sb_phase := Claimed\<rparr>)"
      using svc_invD(2) [OF v b] by (simp add: sub_ok_def)
    show "claim_key w (sb_job c) \<in> set (co_newKeys ?a)" if "map_of (sv_subs v) m = Some c" "holds_key (sb_phase c)" for m c
      using svc_invD(2) [OF v that(1)] that(2) by (simp add: sub_ok_def)
  qed (use v p False svc_invD(1,5) [OF v] in \<open>auto simp: phase_simps\<close>)
  with False show ?thesis by (simp add: step_claim_def claim_def to_phase_def with_core_def service_updates)
qed (simp add: step_claim_def claim_def v)

lemma svc_inv_insert:
  assumes v: "svc_inv v" and b: "map_of (sv_subs v) n = Some b" and p: "sb_phase b = Claimed"
    and ok: "allowed (SInsert now (sb_job b)) (co_store (sv_core v))"
  shows "svc_inv (step_insert w n now latency b v)"
proof -
  let ?s = "co_store (sv_core v)" and ?k = "claim_key w (sb_job b)"
  let ?r = "js_CheckOrInsert (sw_store w) now (sb_job b) ?s"
  let ?a = "\<lambda>dup. (sv_core v)\<lparr>co_store := snd ?r,
      co_inbound := map_option (Observe (now * millisecond) (j_UserID (sb_job b)) latency (\<not> dup)) (co_inbound (sv_core v))\<rparr>"
  note inv = svc_invD(1) [OF v]
  have sub: "sub_ok (set (co_newKeys (sv_core v))) (set (sv_queued v)) b" by (rule svc_invD(2) [OF v b])
  have others: "claim_key w (sb_job c) \<in> set (co_newKeys (sv_core v))"
    if "map_of (sv_subs v) m = Some c" "holds_key (sb_phase c)" for m c
    using svc_invD(2) [OF v that(1)] that(2) by (simp add: sub_ok_def)
  show ?thesis
  proof (cases "owner ?s ?k")
    case None
    note new = fresh [OF inv ok None]
    then have step: "step_insert w n now latency b v = to_phase n Inserted b (with_core (?a False) v)"
      by (cases ?r) (auto simp: step_insert_def submit_insert_def)
    have "svc_inv \<lparr> sv_core = ?a False, sv_subs = al_put n (b\<lparr>sb_phase := Inserted\<rparr>) (sv_subs v), sv_queued = sv_queued v, sv_replies = sv_replies v \<rparr>"
      by (rule svc_inv_change [OF v b])
        (use new p others sub svc_invD(5) [OF v] in \<open>auto simp: phase_simps sub_ok_def split: if_splits\<close>)
    then show ?thesis by (simp add: step to_phase_def with_core_def service_updates)
  next
    case (Some i)
    note dup = duplicate [OF inv ok Some]
    then have step: "step_insert w n now latency b v = to_phase n (Releasing (RDuplicate i)) b (with_core (?a True) v)"
      by (cases ?r) (auto simp: step_insert_def submit_insert_def)
    have "i \<in> set (sv_queued v)"
      using svc_invD(4) [OF v Some]
    proof
      assume "\<exists>m c. map_of (sv_subs v) m = Some c \<and> has_row (sb_phase c) \<and> claim_key w (sb_job c) = ?k \<and> j_ID (sb_job c) = i"
      then obtain m c where c: "map_of (sv_subs v) m = Some c" "has_row (sb_phase c)" "claim_key w (sb_job c) = ?k" by blast
      have "m = n" using svc_invD(3) [OF v c(1) b row_holder [OF c(2)] _ c(3)] p by (simp add: holds_key_def)
      with c b p show ?thesis by (simp add: has_row_def)
    qed
    then have "svc_inv \<lparr> sv_core = ?a True, sv_subs = al_put n (b\<lparr>sb_phase := Releasing (RDuplicate i)\<rparr>) (sv_subs v), sv_queued = sv_queued v, sv_replies = sv_replies v \<rparr>"
      by (intro svc_inv_change [OF v b])
        (use dup p others sub svc_invD(5) [OF v] in \<open>auto simp: phase_simps sub_ok_def split: if_splits\<close>)
    then show ?thesis by (simp add: step to_phase_def with_core_def service_updates)
  qed
qed

lemma svc_inv_discard:
  assumes v: "svc_inv v" and b: "map_of (sv_subs v) n = Some b" and p: "sb_phase b = Discarding r"
  shows "svc_inv (to_phase n (Releasing r) b (with_core (DeleteJob_row w (j_ID (sb_job b)) (sv_core v)) v))"
proof -
  let ?s = "co_store (sv_core v)" and ?a = "DeleteJob_row w (j_ID (sb_job b)) (sv_core v)"
  note inv = svc_invD(1) [OF v]
  have ok: "allowed (SDelete (j_ID (sb_job b))) ?s" using deletes [OF inv] by blast
  have gone: "owner (js_apply (sw_store w) (SDelete (j_ID (sb_job b))) ?s) h \<noteq> Some (j_ID (sb_job b))" for h
    using deletes [OF inv] by blast
  have sub: "sub_ok (set (co_newKeys (sv_core v))) (set (sv_queued v)) b" by (rule svc_invD(2) [OF v b])
  have kept: "owner ?s h = Some i" if "owner (js_apply (sw_store w) (SDelete (j_ID (sb_job b))) ?s) h = Some i" for h i
    using others [OF inv _ ok] that by (auto simp: map_le_def dom_def)
  have "svc_inv \<lparr> sv_core = ?a, sv_subs = al_put n (b\<lparr>sb_phase := Releasing r\<rparr>) (sv_subs v), sv_queued = sv_queued v, sv_replies = sv_replies v \<rparr>"
  proof (rule svc_inv_change [OF v b])
    show "inv (co_store ?a)" using others [OF inv _ ok] by (simp add: DeleteJob_row_def)
    show "claim_key w (sb_job c) \<in> set (co_newKeys ?a)" if "map_of (sv_subs v) m = Some c" "holds_key (sb_phase c)" for m c
      using svc_invD(2) [OF v that(1)] that(2) by (simp add: sub_ok_def DeleteJob_row_def)
  qed (use p sub svc_invD(5) [OF v] gone kept in \<open>auto simp: phase_simps sub_ok_def DeleteJob_row_def\<close>)
  then show ?thesis by (simp add: to_phase_def with_core_def service_updates)
qed

lemma svc_inv_queue:
  assumes v: "svc_inv v" and b: "map_of (sv_subs v) n = Some b" and p: "sb_phase b = Prepared"
  shows "svc_inv (step_queue w n dw b v)"
proof -
  let ?h = "hand_over w dw (sb_job b) (r_AccountQueueMode (sb_req b)) (sv_core v)"
  have keep: "co_store (snd ?h) = co_store (sv_core v)" "co_newKeys (snd ?h) = co_newKeys (sv_core v)" by simp_all
  have sub: "sub_ok (set (co_newKeys (sv_core v))) (set (sv_queued v)) b" by (rule svc_invD(2) [OF v b])
  obtain res a where h: "?h = (res, a)" by (cases ?h)
  consider "res = None" | err where "res = Some (Inl err)" | queue where "res = Some (Inr queue)"
    by (metis option.exhaust sum.exhaust)
  then show ?thesis
  proof cases
    case 1
    with h keep v p show ?thesis by (simp add: step_queue_def Let_def with_core_def svc_inv_def)
  next
    case 2
    with h keep p have "svc_inv (to_phase n (Discarding (RError err)) b (with_core a v))"
      by (intro svc_inv_move [OF v b]) (simp_all add: phase_simps)
    with h 2 p show ?thesis by (simp add: step_queue_def Let_def)
  next
    case 3
    let ?i = "j_ID (sb_job b)"
    have "svc_inv \<lparr> sv_core = a, sv_subs = al_put n (b\<lparr>sb_phase := Releasing (RQueued ?i queue)\<rparr>) (sv_subs v),
        sv_queued = sv_queued v @ [?i], sv_replies = sv_replies v \<rparr>"
    proof (rule svc_inv_change [OF v b])
      show "claim_key w (sb_job c) \<in> set (co_newKeys a)" if "map_of (sv_subs v) m = Some c" "holds_key (sb_phase c)" for m c
        using svc_invD(2) [OF v that(1)] that(2) h keep by (simp add: sub_ok_def)
      show "sub_ok (set (co_newKeys a)) (set (sv_queued v @ [?i])) (b\<lparr>sb_phase := Releasing (RQueued ?i queue)\<rparr>)"
        using sub p h keep by (simp add: sub_ok_def phase_simps)
      show "inv (co_store a)" using svc_invD(1) [OF v] keep h by simp
      show "i \<in> set (sv_queued v @ [?i])" if "(m, RDuplicate i) \<in> set (sv_replies v)" for m i
        using svc_invD(5) [OF v that] by simp
    qed (use h keep p in \<open>auto simp: phase_simps\<close>)
    with h 3 p show ?thesis by (simp add: step_queue_def Let_def to_phase_def with_core_def service_updates)
  qed
qed

lemma svc_inv_release:
  assumes v: "svc_inv v" and b: "map_of (sv_subs v) n = Some b" and p: "sb_phase b = Releasing r"
  shows "svc_inv (reply_to n r (step_release w n Finished b v))"
proof -
  let ?a = "(sv_core v)\<lparr>co_newKeys := release (claim_key w (sb_job b)) (co_newKeys (sv_core v))\<rparr>"
  have sub: "sub_ok (set (co_newKeys (sv_core v))) (set (sv_queued v)) b" by (rule svc_invD(2) [OF v b])
  have "svc_inv \<lparr> sv_core = ?a, sv_subs = al_put n (b\<lparr>sb_phase := Finished\<rparr>) (sv_subs v), sv_queued = sv_queued v,
      sv_replies = sv_replies v @ [(n, r)] \<rparr>"
  proof (rule svc_inv_change [OF v b])
    show "claim_key w (sb_job c) \<in> set (co_newKeys ?a)" if "m \<noteq> n" "map_of (sv_subs v) m = Some c" "holds_key (sb_phase c)" for m c
      using svc_invD(2) [OF v that(2)] that svc_invD(3) [OF v that(2) b that(3)] p
      by (auto simp: sub_ok_def release_def holds_key_def)
    show "i \<in> set (sv_queued v)" if "(m, RDuplicate i) \<in> set (sv_replies v @ [(n, r)])" for m i
      using that svc_invD(5) [OF v, of m i] sub p by (auto simp: sub_ok_def)
  qed (use v p sub svc_invD(1) [OF v] in \<open>auto simp: phase_simps sub_ok_def\<close>)
  then show ?thesis by (simp add: step_release_def reply_to_def to_phase_def with_core_def service_updates)
qed


lemma removal_replies: "removal_reply why \<noteq> RDuplicate i"
  by (cases why) simp_all

lemma svc_inv_checks:
  assumes v: "svc_inv v" and b: "map_of (sv_subs v) n = Some b" and p: "sb_phase b = Inserted"
  shows "svc_inv (step_checks w n cw b v)"
proof -
  obtain why a where c: "submit_checks w cw (sb_job b) (sv_core v) = (why, a)" by fastforce
  then have keep: "co_store a = co_store (sv_core v)" "co_newKeys a = co_newKeys (sv_core v)"
    using checks_keep [of cw "sb_job b" "sv_core v"] by simp_all
  show ?thesis
    using svc_inv_move [OF v b keep, of Prepared] svc_inv_move [OF v b keep, of "Discarding (removal_reply _)"] p c
    by (auto simp: step_checks_def phase_simps removal_replies split: option.split)
qed

lemma sub_step_inv:
  assumes v: "svc_inv v" and b: "map_of (sv_subs v) n = Some b" and n: "event_of e = Some n" and ok: "service_ok allowed e v"
  shows "svc_inv (sub_step w n e (sb_phase b) b v)"
proof -
  have sub: "\<not> sb_proxied b" "sb_phase b \<noteq> Direct" "\<And>r. sb_phase b \<noteq> Undoing r"
    using svc_invD(2) [OF v b] by (simp_all add: sub_ok_def)
  have self: "with_core (sv_core v) v = v" by (simp add: with_core_def)
  have panic: "sb_phase b = Claimed \<Longrightarrow> svc_inv (to_phase n (Releasing RPanic) b v)"
    "sb_phase b = Inserted \<Longrightarrow> svc_inv (to_phase n (Discarding RPanic) b v)"
    using svc_inv_move [OF v b, of "sv_core v" "Releasing RPanic"] svc_inv_move [OF v b, of "sv_core v" "Discarding RPanic"] self
    by (simp_all add: phase_simps)
  have insert: "e = Insert n now latency \<Longrightarrow> sb_phase b = Claimed \<Longrightarrow> svc_inv (step_insert w n now latency b v)" for now latency
    using svc_inv_insert [OF v b] ok b by simp
  show ?thesis
    by (cases e; cases "sb_phase b")
      (use v n sub panic insert svc_inv_claim [OF v b] svc_inv_checks [OF v b] svc_inv_discard [OF v b] svc_inv_queue [OF v b]
        svc_inv_release [OF v b] in simp_all)
qed

lemma svc_inv_background:
  assumes v: "svc_inv v" and e: "no_insert e" "allowed e (co_store (sv_core v))"
  shows "svc_inv (service_step w (Background e) v)"
proof -
  let ?s = "js_apply (sw_store w) e (co_store (sv_core v))"
  note le = others [OF svc_invD(1) [OF v] e]
  have "owner (co_store (sv_core v)) h = Some i" if "owner ?s h = Some i" for h i
    using le that by (auto simp: map_le_def dom_def)
  with v le show ?thesis by (simp add: svc_inv_def with_core_def)
qed

lemma svc_inv_arrive:
  assumes v: "svc_inv v" and n: "map_of (sv_subs v) n = None"
  shows "svc_inv (arrive w n False newID now req v)"
proof (cases "submit_begin w newID now req (sv_core v)")
  case (Inl err)
  with v show ?thesis by (simp add: arrive_def reply_to_def svc_inv_def)
next
  case (Inr job)
  let ?b = "\<lparr> sb_req = req, sb_job = job, sb_proxied = False, sb_phase = Claiming \<rparr>"
  have idle: "\<not> holds_key (sb_phase ?b)" "\<not> has_row (sb_phase ?b)" by (simp_all add: phase_simps)
  have "sub_ok K Q ?b" for K Q by (simp add: sub_ok_def phase_simps)
  moreover have "map_of (sv_subs v) m = Some c \<Longrightarrow> m \<noteq> n" for m c using n by auto
  ultimately show ?thesis
    using v Inr n idle unfolding svc_inv_def arrive_def by (simp del: submission.simps) (smt (verit) option.inject)
qed

sublocale services: state_machine "service_step w" "\<lambda>e v. service_ok allowed e v \<and> unproxied e" svc_inv
proof
  fix v e assume v: "svc_inv v" and ok: "service_ok allowed e v \<and> unproxied e"
  show "svc_inv (service_step w e v)"
  proof (cases e)
    case (Arrive n proxied newID now req)
    with v ok show ?thesis by (simp add: svc_inv_arrive)
  next
    case (Drain grace)
    with v show ?thesis by (simp add: core_BeginDrain_def with_core_def svc_inv_def)
  next
    case (Background se)
    with ok svc_inv_background [OF v] show ?thesis by simp
  qed (use v ok sub_step_inv in \<open>auto simp: on_submission_def split: option.split\<close>)
qed

lemma start_inv: "inv (co_store a) \<Longrightarrow> owner (co_store a) = Map.empty \<Longrightarrow> svc_inv (start_service a)"
  by (simp add: svc_inv_def start_service_def)

lemma run_ok:
  assumes "inv (co_store a)" "owner (co_store a) = Map.empty"
    and "ok_run (service_step w) (\<lambda>e v. service_ok allowed e v \<and> unproxied e) es (start_service a)"
  shows "svc_inv (service_after w es a)"
  using services.run_inv [OF start_inv [OF assms(1,2)] assms(3)] by (simp add: service_after_def)

lemma quiet_rows: "svc_inv v \<Longrightarrow> quiet v \<Longrightarrow> owner (co_store (sv_core v)) h = Some i \<Longrightarrow> i \<in> set (sv_queued v)"
  using svc_invD(4) by (fastforce simp: quiet_def list_all_iff has_row_def dest: map_of_SomeD)

end

text \<open>The handler \<open>Enqueue\<close> is the run of one submission with nothing in between.\<close>

definition whole_submission :: "string \<Rightarrow> ms \<Rightarrow> ns \<Rightarrow> check_world \<Rightarrow> dispatch_world \<Rightarrow> Request \<Rightarrow> service_event list" where
  "whole_submission newID now latency cw dw req =
     [Arrive 0 False newID now req, Claim 0, Insert 0 now latency, Checks 0 cw, Queue 0 dw, Discard 0, Release 0]"

fun answers :: "reply \<Rightarrow> submit_error + EnqueueResult \<Rightarrow> bool" where
  "answers (RError e) (Inl e') \<longleftrightarrow> e = e'"
| "answers (RDuplicate i) (Inr r) \<longleftrightarrow> r = duplicate_of i"
| "answers (RRemote d) (Inr r) \<longleftrightarrow> r = d"
| "answers (RQueued i q) (Inr r) \<longleftrightarrow> r = \<lparr> er_JobID = i, er_Status = StatusQueued, er_Duplicate = False, er_ResultKey = [], er_Queue = Some q \<rparr>"
| "answers _ _ \<longleftrightarrow> False"

lemma Enqueue_as_run:
  assumes "Enqueue w newID now latency cw dw req a = (Some res, a')"
  shows "\<exists>r. sv_replies (service_after w (whole_submission newID now latency cw dw req) a) = [(0, r)] \<and> answers r res
    \<and> sv_core (service_after w (whole_submission newID now latency cw dw req) a) = a'"
proof -
  note defs = service_after_def start_service_def whole_submission_def on_submission_def arrive_def reply_to_def
    to_phase_def with_core_def step_claim_def step_insert_def step_checks_def step_queue_def step_release_def Let_def
  show ?thesis
  proof (cases "submit_begin w newID now req a")
    case (Inl err)
    with assms show ?thesis by (auto simp: defs Enqueue_def prepareJob_def release_for_def release_def)
  next
    case (Inr job)
    then have job: "job = new_job (su_hash (sw_around w)) newID now req"
      by (auto simp: submit_begin_def Let_def split: if_splits)
    obtain keys where keys: "claim (claim_key w job) (co_newKeys a) = Some keys"
      using assms Inr by (auto simp: Enqueue_def prepareJob_def split: option.splits)
    obtain dup a1 where ins: "submit_insert w now latency job (a\<lparr>co_newKeys := keys\<rparr>) = (dup, a1)" by fastforce
    show ?thesis
    proof (cases dup)
      case (Some i)
      with assms Inr keys ins job show ?thesis by (auto simp: defs Enqueue_def prepareJob_def release_for_def)
    next
      case None
      obtain why a2 where chk: "submit_checks w cw job a1 = (why, a2)" by fastforce
      show ?thesis
      proof (cases why)
        case (Some x)
        with assms Inr keys ins None chk job show ?thesis
          by (cases x) (auto simp: defs Enqueue_def prepareJob_def release_for_def DeleteJob_row_def)
      next
        case why: None
        obtain out a3 where hand: "hand_over w dw job (r_AccountQueueMode req) a2 = (out, a3)" by fastforce
        with assms Inr keys ins None chk why job show ?thesis
          by (cases out rule: option.exhaust; cases "the out")
            (auto simp: defs Enqueue_def prepareJob_def release_for_def DeleteJob_row_def Dispatch_def)
      qed
    qed
  qed
qed

section \<open>The two backends\<close>

definition pebble_world :: "('d, stored) kv \<Rightarrow> surroundings \<Rightarrow> (string \<Rightarrow> string option) \<Rightarrow> (ms \<times> 'd Pebble) submit_world" where
  "pebble_world kv s hostname = \<lparr> sw_store = pebble_JobStore kv (su_hash s), sw_around = s, sw_hostname = hostname \<rparr>"

definition pebble_owner :: "('d, stored) kv \<Rightarrow> ms \<times> 'd Pebble \<Rightarrow> string \<Rightarrow> string option" where
  "pebble_owner kv st h = (case kv_get kv (p_db (snd st)) (idemKey h) of Found (SText i) \<Rightarrow> Some i | _ \<Rightarrow> None)"

definition sqlite_world :: "surroundings \<Rightarrow> (string \<Rightarrow> string option) \<Rightarrow> SQLite submit_world" where
  "sqlite_world s hostname = \<lparr> sw_store = sqlite_JobStore (su_hash s), sw_around = s, sw_hostname = hostname \<rparr>"

definition sqlite_owner :: "SQLite \<Rightarrow> string \<Rightarrow> string option" where
  "sqlite_owner t h = map_option rw_id (find (\<lambda>r. rw_hash r = h) (sq_jobs t))"

definition sqlite_inv :: "SQLite \<Rightarrow> bool" where
  "sqlite_inv t \<longleftrightarrow> distinct (map rw_id (sq_jobs t)) \<and> distinct (map rw_hash (sq_jobs t))"

fun sqlite_allowed :: "store_event \<Rightarrow> SQLite \<Rightarrow> bool" where
  "sqlite_allowed (SInsert now job) t \<longleftrightarrow> list_all (\<lambda>r. rw_id r \<noteq> j_ID job) (sq_jobs t)"
| "sqlite_allowed _ t \<longleftrightarrow> True"

lemma sqlite_owner_iff:
  "sqlite_inv t \<Longrightarrow> sqlite_owner t h = Some i \<longleftrightarrow> (\<exists>r \<in> set (sq_jobs t). rw_hash r = h \<and> rw_id r = i)"
  using find_unique [of rw_hash "sq_jobs t" h] by (auto simp: sqlite_inv_def sqlite_owner_def)

lemma sqlite_owner_le:
  assumes t: "sqlite_inv t" "sqlite_inv t'"
    and rows: "\<And>r. r \<in> set (sq_jobs t') \<Longrightarrow> \<exists>r' \<in> set (sq_jobs t). rw_id r' = rw_id r \<and> rw_hash r' = rw_hash r"
  shows "sqlite_owner t' \<subseteq>\<^sub>m sqlite_owner t"
proof (unfold map_le_def, rule ballI)
  fix h assume "h \<in> dom (sqlite_owner t')"
  then obtain i where i: "sqlite_owner t' h = Some i" by blast
  with rows have "sqlite_owner t h = Some i" unfolding sqlite_owner_iff [OF t(1)] sqlite_owner_iff [OF t(2)] by blast
  with i show "sqlite_owner t' h = sqlite_owner t h" by simp
qed

lemma map_keys:
  assumes "\<And>r. rw_id (f r) = rw_id r \<and> rw_hash (f r) = rw_hash r" and "sq_jobs t' = map f (sq_jobs t)" and "sqlite_inv t"
  shows "sqlite_inv t'" and "sqlite_owner t' \<subseteq>\<^sub>m sqlite_owner t"
proof -
  have "rw_id \<circ> f = rw_id" "rw_hash \<circ> f = rw_hash" using assms(1) by auto
  then show inv: "sqlite_inv t'" using assms(2,3) by (simp add: sqlite_inv_def)
  show "sqlite_owner t' \<subseteq>\<^sub>m sqlite_owner t"
    by (rule sqlite_owner_le [OF assms(3) inv]) (use assms(1,2) in force)
qed

lemma filter_keys:
  assumes "sq_jobs t' = filter P (sq_jobs t)" and "sqlite_inv t"
  shows "sqlite_inv t'" and "sqlite_owner t' \<subseteq>\<^sub>m sqlite_owner t"
proof -
  show inv: "sqlite_inv t'" using assms by (simp add: sqlite_inv_def distinct_map_filter)
  show "sqlite_owner t' \<subseteq>\<^sub>m sqlite_owner t"
    by (rule sqlite_owner_le [OF assms(2) inv]) (use assms(1) in auto)
qed

lemma sqlite_others:
  assumes "sqlite_inv t" "no_insert e"
  shows "sqlite_inv (sq_step H e t) \<and> sqlite_owner (sq_step H e t) \<subseteq>\<^sub>m sqlite_owner t"
proof -
  have same: "sqlite_inv t' \<and> sqlite_owner t' \<subseteq>\<^sub>m sqlite_owner t" if "sq_jobs t' = sq_jobs t" for t'
    using map_keys [of id t' t] assms(1) that by simp
  have upd: "sqlite_inv t' \<and> sqlite_owner t' \<subseteq>\<^sub>m sqlite_owner t"
    if "\<And>r. rw_id (f r) = rw_id r \<and> rw_hash (f r) = rw_hash r" "sq_jobs t' = sq_jobs (update_row i f t)" for f i t'
    using map_keys [of "\<lambda>r. if rw_id r = i then f r else r" t' t] assms(1) that by (simp add: update_row_def)
  have flt: "sqlite_inv t' \<and> sqlite_owner t' \<subseteq>\<^sub>m sqlite_owner t" if "sq_jobs t' = filter P (sq_jobs t)" for t' P
    using filter_keys [OF that] assms(1) by simp
  show ?thesis
  proof (cases e)
    case (SUpdate now i st)
    let ?f = "\<lambda>r. if st = StatusCompleted \<or> st = StatusFailed then r\<lparr>rw_status := st, rw_expires_at := now + ttlForStatus st\<rparr>
        else r\<lparr>rw_status := st, rw_expires_at := pending_expiry now r\<rparr>"
    have "sq_jobs (sq_UpdateStatus now i st t) = sq_jobs (update_row i ?f t)"
      by (simp add: sq_UpdateStatus_def Let_def update_row_def)
    with SUpdate upd [of ?f] show ?thesis by simp
  qed (use assms(2) same upd [OF _ refl] flt [of _ "\<lambda>_. False"] flt in \<open>auto simp: sq_SetQueueKey_def sq_DeleteJob_def sq_PutResult_def sq_RecordRetry_def
      sq_SetDrainEventsEnabled_def sq_AcknowledgeDrainEventsThrough_def sq_deleteExpired_def sq_ClearIdempotentKeys_def\<close>)
qed

interpretation sqlite_submissions: job_store "sqlite_world s hostname" sqlite_inv sqlite_owner sqlite_allowed for s hostname
proof
  fix t :: SQLite and now job i
  let ?w = "sqlite_world s hostname" and ?h = "IdempotencyHash (su_hash s) job"
  have key: "claim_key ?w job = ?h" and check: "js_CheckOrInsert (sw_store ?w) = sq_CheckOrInsert (su_hash s) False False"
    and app: "js_apply (sw_store ?w) = sq_step (su_hash s)"
    by (simp_all add: claim_key_def sqlite_world_def sqlite_JobStore_def)
  assume t: "sqlite_inv t"
  note owns = sqlite_owner_iff [OF t]
  show "fst (js_CheckOrInsert (sw_store ?w) now job t) = (i, True) \<and> sqlite_inv (snd (js_CheckOrInsert (sw_store ?w) now job t))
      \<and> sqlite_owner (snd (js_CheckOrInsert (sw_store ?w) now job t)) = sqlite_owner t"
    if dup: "sqlite_owner t (claim_key ?w job) = Some i"
  proof -
    obtain r where r: "find (\<lambda>r. rw_hash r = ?h) (sq_jobs t) = Some r" "rw_id r = i"
      using dup by (auto simp: key sqlite_owner_def)
    then have "list_ex (\<lambda>r. rw_id r = j_ID job \<or> rw_hash r = ?h) (sq_jobs t)" by (auto simp: list_ex_iff find_Some_iff)
    with r t show ?thesis by (simp add: check sq_CheckOrInsert_def Let_def)
  qed
  show "fst (js_CheckOrInsert (sw_store ?w) now job t) = ([], False) \<and> sqlite_inv (snd (js_CheckOrInsert (sw_store ?w) now job t))
      \<and> sqlite_owner (snd (js_CheckOrInsert (sw_store ?w) now job t)) = (sqlite_owner t)(claim_key ?w job \<mapsto> j_ID job)"
    if ok: "sqlite_allowed (SInsert now job) t" and none: "sqlite_owner t (claim_key ?w job) = None"
  proof -
    let ?t = "t\<lparr>sq_jobs := sq_jobs t @ [insert_row (su_hash s) now job]\<rparr>"
    have new: "\<forall>r \<in> set (sq_jobs t). rw_id r \<noteq> j_ID job \<and> rw_hash r \<noteq> ?h"
      using ok none by (auto simp: key list_all_iff sqlite_owner_def find_None_iff)
    have row: "rw_id (insert_row (su_hash s) now job) = j_ID job" "rw_hash (insert_row (su_hash s) now job) = ?h"
      by (simp_all add: insert_row_def)
    have inv: "sqlite_inv ?t" using t new row by (auto simp: sqlite_inv_def)
    have step: "js_CheckOrInsert (sw_store ?w) now job t = (([], False), ?t)"
      using new by (auto simp: check sq_CheckOrInsert_def Let_def list_ex_iff)
    have "sqlite_owner ?t h = ((sqlite_owner t)(?h \<mapsto> j_ID job)) h" for h
    proof -
      have "sqlite_owner ?t h = Some i \<longleftrightarrow> ((sqlite_owner t)(?h \<mapsto> j_ID job)) h = Some i" for i
        using new row none by (auto simp: owns sqlite_owner_iff [OF inv] key)
      then show ?thesis by (metis option.exhaust)
    qed
    with step inv key show ?thesis by auto
  qed
  show "sqlite_inv (js_apply (sw_store ?w) e t) \<and> sqlite_owner (js_apply (sw_store ?w) e t) \<subseteq>\<^sub>m sqlite_owner t"
    if "no_insert e" for e
    using sqlite_others [OF t that] by (simp add: app)
  show "sqlite_allowed (SDelete i) t \<and> sqlite_owner (js_apply (sw_store ?w) (SDelete i) t) h \<noteq> Some i" for h
    using sqlite_others [OF t, of "SDelete i" "su_hash s"] by (auto simp: app sq_DeleteJob_def sqlite_owner_iff)
qed

context pebble_db
begin

lemma owner_view:
  assumes "run_inv \<alpha> H st"
  shows "pebble_owner kv st h = Some i \<longleftrightarrow> (\<exists>r. recs_of (\<alpha> (p_db (snd st))) i = Some r \<and> IdempotencyHash H (pr_Job r) = h)"
proof -
  obtain T s where st: "st = (T, s)" by (cases st)
  with assms have ok: "store_ok H T (\<alpha> (p_db s)) (p_queued s) (p_inFlight s)" by (simp add: run_inv_def store_inv_def)
  have "pebble_owner kv st h = Some i \<longleftrightarrow> kv_get kv (p_db s) (idemKey h) = Found (SText i)"
    by (auto simp: pebble_owner_def st split: lookup.splits stored.splits)
  also have "\<dots> \<longleftrightarrow> idem_of (\<alpha> (p_db s)) h = Some i" by (rule idem_get [OF store_okD(1) [OF ok]])
  finally show ?thesis using index_okD(1) [OF store_okD(2) [OF ok]] by (simp add: st)
qed

text \<open>No operation but an insert adds a record or changes a record's hash.\<close>

lemma other_recs:
  assumes inv: "run_inv \<alpha> H (T, s)" and ok: "store_allowed kv H e (T, s)" "no_insert e"
    and r: "recs_of (\<alpha> (p_db (snd (store_step kv H e (T, s))))) i = Some r"
  shows "\<exists>r'. recs_of (\<alpha> (p_db s)) i = Some r' \<and> IdempotencyHash H (pr_Job r') = IdempotencyHash H (pr_Job r)"
proof -
  have inv': "store_inv \<alpha> H T s" using inv by (simp add: run_inv_def)
  have shape: "shape_ok (\<alpha> (p_db s))" using inv' by (simp add: store_inv_def store_ok_def)
  show ?thesis
  proof (cases e)
    case (SPage now q after before limit)
    with ok have "T \<le> now" "nul \<notin> set q" "q \<noteq> ''''" "in63 (pc_CreatedAt after)" "before \<le> 0 \<or> in63 before" by auto
    from QueuedPage_views(3) [OF inv' this, of limit] SPage r show ?thesis by simp
  next
    case (SExpire now)
    with ok r deleteExpired_views(2) [OF inv', of now] show ?thesis by (auto split: if_splits)
  qed (use ok r shape ack_views(2) [OF inv'] in \<open>auto simp: SetQueueKey_recs PutResult_recs RecordRetry_recs DeleteJob_recs UpdateStatus_recs
      ClearIdempotentKeys_view cleared_views SetDrainEventsEnabled_def IdempotencyHash_def split: if_splits\<close>)
qed

sublocale submissions: job_store "pebble_world kv s hostname" "run_inv \<alpha> (su_hash s)" "pebble_owner kv" "store_allowed kv (su_hash s)" for s hostname
proof
  fix st :: "ms \<times> 'd Pebble" and now job i
  let ?w = "pebble_world kv s hostname" and ?H = "su_hash s" and ?h = "IdempotencyHash (su_hash s) job"
  obtain T p where st: "st = (T, p)" by (cases st)
  have key: "claim_key ?w job = ?h" and app: "js_apply (sw_store ?w) = store_step kv ?H"
    and check: "js_CheckOrInsert (sw_store ?w) now job st = (fst (CheckOrInsert kv ?H now job p), now, snd (CheckOrInsert kv ?H now job p))"
    by (simp_all add: claim_key_def pebble_world_def pebble_JobStore_def st case_prod_beta)
  assume inv: "run_inv \<alpha> ?H st"
  note owns = owner_view [OF inv]
  have sinv: "store_inv \<alpha> ?H T p" using inv by (simp add: run_inv_def st)
  show "fst (js_CheckOrInsert (sw_store ?w) now job st) = (i, True) \<and> run_inv \<alpha> ?H (snd (js_CheckOrInsert (sw_store ?w) now job st))
      \<and> pebble_owner kv (snd (js_CheckOrInsert (sw_store ?w) now job st)) = pebble_owner kv st"
    if ok: "store_allowed kv ?H (SInsert now job) st" and dup: "pebble_owner kv st (claim_key ?w job) = Some i"
  proof -
    obtain r where "getRecord kv i p = Some r" "IdempotencyHash ?H (pr_Job r) = ?h"
      using dup owns by (auto simp: key st getRecord_view)
    from CheckOrInsert_duplicate [OF sinv this] have eq: "CheckOrInsert kv ?H now job p = ((i, True), p)" .
    have "run_inv \<alpha> ?H (now, p)" using runs.step_inv [OF inv ok] eq by (simp add: st)
    with eq show ?thesis unfolding check by (simp add: st pebble_owner_def [abs_def])
  qed
  show "fst (js_CheckOrInsert (sw_store ?w) now job st) = ([], False) \<and> run_inv \<alpha> ?H (snd (js_CheckOrInsert (sw_store ?w) now job st))
      \<and> pebble_owner kv (snd (js_CheckOrInsert (sw_store ?w) now job st)) = (pebble_owner kv st)(claim_key ?w job \<mapsto> j_ID job)"
    if ok: "store_allowed kv ?H (SInsert now job) st" and none: "pebble_owner kv st (claim_key ?w job) = None"
  proof -
    have ok': "T \<le> now" "job_ok ?H now job" and unused: "unused_id (\<alpha> (p_db p)) (j_ID job)"
      using ok id_unused_view by (auto simp: st)
    have fresh: "getRecord kv i p = Some r \<Longrightarrow> IdempotencyHash ?H (pr_Job r) \<noteq> ?h" for i r
      using none owns [of ?h i] by (auto simp: key st getRecord_view)
    let ?st = "(now, snd (CheckOrInsert kv ?H now job p))"
    note new = CheckOrInsert_fresh [OF sinv ok'(2,1) unused fresh]
    have inv': "run_inv \<alpha> ?H ?st" using new(2) by (simp add: run_inv_def)
    have hash: "IdempotencyHash ?H (norm_job job) = ?h" using ok'(2) by (intro hash_norm_job) (simp add: job_ok_def)
    have absent: "recs_of (\<alpha> (p_db p)) (j_ID job) = None" using unused by (simp add: unused_id_def)
    have recs: "recs_of (\<alpha> (p_db (snd ?st))) k = (if k = j_ID job then Some \<lparr> pr_Job = norm_job job, pr_QueueKey = '''',
        pr_ExpiresAt = PendingExpiresAt now job, pr_Result = None \<rparr> else recs_of (\<alpha> (p_db p)) k)" for k
      using new(3) CheckOrInsert_others [of k job ?H now p] by (simp add: getRecord_view)
    have "pebble_owner kv ?st h = ((pebble_owner kv st)(?h \<mapsto> j_ID job)) h" for h
    proof -
      have "pebble_owner kv ?st h = Some k \<longleftrightarrow> ((pebble_owner kv st)(?h \<mapsto> j_ID job)) h = Some k" for k
        unfolding owner_view [OF inv'] using owns [of h k] none [unfolded key] owns [of ?h k] recs [of k] hash absent
        by (cases "k = j_ID job") (auto simp: st)
      then show ?thesis by (metis option.exhaust)
    qed
    with new(1) inv' key show ?thesis unfolding check by auto
  qed
  show others: "run_inv \<alpha> ?H (js_apply (sw_store ?w) e st) \<and> pebble_owner kv (js_apply (sw_store ?w) e st) \<subseteq>\<^sub>m pebble_owner kv st"
    if "no_insert e" "store_allowed kv ?H e st" for e
  proof -
    have inv': "run_inv \<alpha> ?H (store_step kv ?H e st)" by (rule runs.step_inv [OF inv that(2)])
    have "pebble_owner kv (store_step kv ?H e st) h = pebble_owner kv st h" if h: "h \<in> dom (pebble_owner kv (store_step kv ?H e st))" for h
    proof -
      obtain k where k: "pebble_owner kv (store_step kv ?H e st) h = Some k" using h by blast
      have "pebble_owner kv st h = Some k"
        using k other_recs [of ?H T p e k] inv \<open>no_insert e\<close> \<open>store_allowed kv ?H e st\<close> unfolding owner_view [OF inv'] owns by (auto simp: st)
      with k show ?thesis by simp
    qed
    with inv' show ?thesis by (simp add: app map_le_def)
  qed
  show "store_allowed kv ?H (SDelete i) st \<and> pebble_owner kv (js_apply (sw_store ?w) (SDelete i) st) h \<noteq> Some i" for h
  proof -
    have ok: "store_allowed kv ?H (SDelete i) st" by (simp add: st)
    then have "run_inv \<alpha> ?H (store_step kv ?H (SDelete i) st)" by (rule runs.step_inv [OF inv])
    then show ?thesis using ok by (simp add: app owner_view st DeleteJob_recs)
  qed
qed

end

context pebble_db
begin

lemma submissions_store:
  "job_store (pebble_world kv s hostname) (run_inv \<alpha> (su_hash s)) (pebble_owner kv) (store_allowed kv (su_hash s))"
  by (rule submissions.job_store_axioms)

end

section \<open>Properties\<close>


lemma no_ghost_jobs_sqlite:
  assumes "sqlite_inv (co_store a)" "sq_jobs (co_store a) = []"
    and "ok_run (service_step (sqlite_world s hostname)) (\<lambda>e v. service_ok sqlite_allowed e v \<and> unproxied e) es (start_service a)"
  defines "v \<equiv> service_after (sqlite_world s hostname) es a"
  shows "(\<forall>n i. (n, RDuplicate i) \<in> set (sv_replies v) \<longrightarrow> i \<in> set (sv_queued v))
    \<and> (quiet v \<longrightarrow> (\<forall>r \<in> set (sq_jobs (co_store (sv_core v))). rw_id r \<in> set (sv_queued v)))"
proof -
  have "sqlite_submissions.svc_inv s hostname v"
    unfolding v_def using assms(1-3) by (intro sqlite_submissions.run_ok) (simp_all add: sqlite_owner_def fun_eq_iff)
  note v = sqlite_submissions.svc_invD(1,5) [OF this] sqlite_submissions.quiet_rows [OF this]
  show ?thesis using v(2) v(3) sqlite_owner_iff [OF v(1)] by blast
qed

definition sample_checks :: check_world where
  "sample_checks = \<lparr> cw_remote = None, cw_schema = None,
     cw_readings = \<lparr> rd_now = 0, rd_memoryMB = 0, rd_dbBytes = 0, rd_syncLag = 0 \<rparr> \<rparr>"

definition sample_dispatch :: dispatch_world where
  "sample_dispatch = \<lparr> dw_fuel = 3, dw_draw = 0, dw_race = sample_race \<rparr>"

text \<open>A node whose targets may have one pending job each.\<close>

definition tight_node :: surroundings where
  "tight_node = sample_surroundings\<lparr>su_env := (\<lambda>k. if k = ''AQUIFER_MAX_PENDING_PER_UPSTREAM'' then ''1'' else [])\<rparr>"

definition sample_core :: "(ms \<times> (string \<times> stored) list Pebble) Aquifer" where
  "sample_core = \<lparr> co_store = (0, empty_store []), co_registry = NewRegistry (su_env tight_node) built_in_config 0 0 None,
     co_admission = None, co_inbound = None, co_draining = False, co_newKeys = [] \<rparr>"

definition queue_it :: "nat \<Rightarrow> string \<Rightarrow> Request \<Rightarrow> service_event list" where
  "queue_it n i req = [Arrive n False i 1000 req, Claim n, Insert n 1000 0, Checks n sample_checks, Queue n sample_dispatch]"

text \<open>A retry of a queued request, and a third request that the full target refuses.\<close>

definition sample_service_events :: "service_event list" where
  "sample_service_events =
     queue_it 0 ''a'' sample_request
     @ [Arrive 1 False ''b'' 1000 sample_request, Claim 1, Release 0, Claim 1, Insert 1 1000 0, Release 1]
     @ queue_it 2 ''c'' (sample_request\<lparr>r_IdempotentKey := ''k2''\<rparr>) @ [Discard 2, Release 2]"

lemma sample_service_run:
  "ok_run (service_step (pebble_world mem_kv tight_node Some))
     (\<lambda>e v. service_ok (store_allowed mem_kv (su_hash tight_node)) e v \<and> unproxied e) sample_service_events (start_service sample_core)"
  by code_simp

lemma sample_service_facts:
  "quiet (service_after (pebble_world mem_kv tight_node Some) sample_service_events sample_core)
   \<and> map fst (sv_replies (service_after (pebble_world mem_kv tight_node Some) sample_service_events sample_core)) = [0, 1, 2]
   \<and> (1, RDuplicate ''a'') \<in> set (sv_replies (service_after (pebble_world mem_kv tight_node Some) sample_service_events sample_core))
   \<and> sv_queued (service_after (pebble_world mem_kv tight_node Some) sample_service_events sample_core) = [''a'']"
  by code_simp


definition ghost_events :: "service_event list" where
  "ghost_events =
     queue_it 0 ''a'' (sample_request\<lparr>r_IdempotentKey := ''k0''\<rparr>) @ [Release 0]
     @ [Arrive 1 True ''b'' 1000 sample_request, Claim 1, Insert 1 1000 0, Checks 1 sample_checks, Hand 1]
     @ [Arrive 2 False ''c'' 1000 sample_request, Claim 2, Insert 2 1000 0, Release 2]
     @ [Queue 1 sample_dispatch, Discard 1]"


end
