(* ===== verification/Core_Proxy.thy ===== *)
theory Core_Proxy
  imports Core_Submit
begin

text \<open>
  \<^verbatim>\<open>internal/core/proxy.go\<close>, \<^verbatim>\<open>region_redirect.go\<close> and \<^verbatim>\<open>internal/region/redirect.go\<close>: proxy
  mode.  A prepared job is tried directly at its target; on overload or failure it falls
  back to the queue, after a tour of the other regions where that may help.  The
  replies of the target and of the regions, the clock and the hash of the rendezvous
  choice are arguments; the requests sent to other regions are returned as a log.
\<close>

section \<open>Overload signals\<close>

datatype codeMatcher = Literal int | Class int

fun code_matches :: "int \<Rightarrow> codeMatcher \<Rightarrow> bool" where
  "code_matches status (Class c) \<longleftrightarrow> div_trunc status 100 = c"
| "code_matches status (Literal n) \<longleftrightarrow> status = n"

definition code_part :: "string \<Rightarrow> codeMatcher option" where
  "code_part raw =
     (let part = trim_space raw
      in if length part = 3 \<and> part ! 1 \<in> {CHR ''x'', CHR ''X''} \<and> part ! 2 \<in> {CHR ''x'', CHR ''X''}
            \<and> part ! 0 \<in> {CHR ''1'', CHR ''2'', CHR ''3'', CHR ''4'', CHR ''5''}
         then Some (Class (int (digit_val (part ! 0))))
         else map_option Literal (parse_int64 part))"

definition parseCodeList :: "string \<Rightarrow> codeMatcher list" where
  "parseCodeList raw = List.map_filter code_part (split_on CHR '','' raw)"

definition codeListMatches :: "codeMatcher list \<Rightarrow> int \<Rightarrow> bool" where
  "codeListMatches matchers status = list_ex (code_matches status) matchers"

definition headerOrDefault :: "headers \<Rightarrow> string \<Rightarrow> string \<Rightarrow> string" where
  "headerOrDefault h name def = (let v = PacingHeader h name in if v \<noteq> '''' then v else def)"

definition defaultQueueCodes :: string where "defaultQueueCodes = ''429''"
definition defaultRerouteCodes :: string where "defaultRerouteCodes = ''503''"

definition classifyOverload :: "(string \<Rightarrow> (string \<times> f64) list option) \<Rightarrow> headers \<Rightarrow> int \<Rightarrow> string option" where
  "classifyOverload json h status =
     (if orca_Rps json h \<noteq> None then Some ''reroute''
      else if codeListMatches (parseCodeList (headerOrDefault h ''Reroute-Codes'' defaultRerouteCodes)) status
      then Some ''reroute''
      else if codeListMatches (parseCodeList (headerOrDefault h ''Queue-Codes'' defaultQueueCodes)) status
      then Some ''queue'' else None)"

definition breakerCooldown :: "environment \<Rightarrow> headers \<Rightarrow> ns" where
  "breakerCooldown env h =
     (case parse_int64 (header_get ''Retry-After'' h) of
        Some secs \<Rightarrow>
          if secs > 0 then wrap64 (wrap64 (secs * env_Int64 env ''AQUIFER_PROXY_BREAKER_RETRY_MULTIPLIER'' 3) * second)
          else wrap64 (env_Int64 env ''AQUIFER_PROXY_BREAKER_DEFAULT_COOLDOWN_SECONDS'' 5 * second)
      | None \<Rightarrow> wrap64 (env_Int64 env ''AQUIFER_PROXY_BREAKER_DEFAULT_COOLDOWN_SECONDS'' 5 * second))"

definition isOverloadSignal ::
  "(string \<Rightarrow> (string \<times> f64) list option) \<Rightarrow> environment \<Rightarrow> http_response \<Rightarrow> (ns \<times> string) option" where
  "isOverloadSignal json env resp =
     map_option (\<lambda>kind. (breakerCooldown env (rp_headers resp), kind)) (classifyOverload json (rp_headers resp) (rp_status resp))"

section \<open>Choosing regions\<close>

type_synonym Gate = "ns option"

definition Gate_Open :: "ns \<Rightarrow> Gate \<Rightarrow> bool" where
  "Gate_Open now g = (case g of None \<Rightarrow> False | Some until \<Rightarrow> now < until)"

definition Gate_Trip :: "ns \<Rightarrow> ns \<Rightarrow> Gate" where
  "Gate_Trip now cooldown = Some (now + cooldown)"

definition GateCooldown :: "environment \<Rightarrow> ns" where
  "GateCooldown env = wrap64 (env_Int64 env ''AQUIFER_REDIRECT_GATE_COOLDOWN_SECONDS'' 500 * second)"

definition ExhaustedRetryAfterSeconds :: "environment \<Rightarrow> int" where
  "ExhaustedRetryAfterSeconds env = env_Int64 env ''AQUIFER_REDIRECT_EXHAUSTED_RETRY_AFTER_SECONDS'' 900"

definition DefaultTargetURL :: "environment \<Rightarrow> string \<Rightarrow> string" where
  "DefaultTargetURL env region =
     ''http://'' @ region @ ''.'' @ env ''FLY_APP_NAME'' @ ''.internal:''
       @ (if env ''PORT'' = [] then ''8080'' else env ''PORT'') @ ''/proxy''"

text \<open>\<open>score\<close> is the hexadecimal digest of a region and a key.\<close>

definition region_Pick :: "(string \<Rightarrow> string \<Rightarrow> string) \<Rightarrow> string list \<Rightarrow> string \<Rightarrow> string" where
  "region_Pick score candidates key =
     (case candidates of
        [] \<Rightarrow> []
      | c # cs \<Rightarrow> fold (\<lambda>x best. if str_less (score best key) (score x key) then x else best) cs c)"

definition OrderedCandidates :: "(string \<Rightarrow> string \<Rightarrow> string) \<Rightarrow> string list \<Rightarrow> string list \<Rightarrow> string \<Rightarrow> string \<Rightarrow> string list" where
  "OrderedCandidates score live visited self key =
     (let eligible = filter (\<lambda>r. \<not> (r = self \<or> r \<in> set visited)) live
      in if eligible = [] then []
         else (let preferred = region_Pick score eligible key
               in preferred # filter (\<lambda>r. r \<noteq> preferred) eligible))"

definition selfMachineID :: "environment \<Rightarrow> string option \<Rightarrow> string \<Rightarrow> string" where
  "selfMachineID env hostname newID =
     (if env ''FLY_MACHINE_ID'' \<noteq> [] then env ''FLY_MACHINE_ID''
      else case hostname of Some h \<Rightarrow> if h \<noteq> [] then h else newID | None \<Rightarrow> newID)"

section \<open>Outcomes\<close>

datatype proxy_error = PrepareError submit_error | RedirectExhausted string

record ProxyOutcome =
  po_Err :: "proxy_error option"
  po_Duplicate :: bool
  po_ExistingJob :: "Job option"
  po_Job :: "Job option"
  po_Direct :: bool
  po_Status :: int
  po_Header :: headers
  po_Body :: string
  po_FallbackReason :: string
  po_FallbackStatus :: int
  po_pendingWebhook :: "payload_map option"
  po_RelayFrom :: "http_response option"
  po_RerouteRegion :: string

definition no_outcome :: ProxyOutcome where
  "no_outcome =
     \<lparr> po_Err = None, po_Duplicate = False, po_ExistingJob = None, po_Job = None, po_Direct = False, po_Status = 0,
       po_Header = [], po_Body = [], po_FallbackReason = [], po_FallbackStatus = 0, po_pendingWebhook = None,
       po_RelayFrom = None, po_RerouteRegion = [] \<rparr>"

section \<open>Redirect to another region\<close>

datatype redirectResult = redirectNotApplicable | redirectSucceeded | redirectExhausted

definition hop_request :: "Job \<Rightarrow> string \<Rightarrow> string \<Rightarrow> bool \<Rightarrow> Request" where
  "hop_request job region header directOnly =
     \<lparr> r_UserID = j_UserID job, r_IdempotentKey = j_IdempotentKey job, r_URL = j_URL job, r_PoolID = [],
       r_Method = j_Method job, r_Headers = j_Headers job, r_Body = j_Body job, r_WebhookURL = j_WebhookURL job,
       r_ExecuteBefore = j_ExecuteBefore job, r_IdempotencyScope = j_IdempotencyScope job,
       r_MaxRetries = Some (j_MaxRetries job), r_WebhookMaxRetries = j_WebhookMaxRetries job,
       r_OriginMachineID = j_OriginMachineID job, r_OriginRegion = j_OriginRegion job,
       r_VisitedRegions = j_VisitedRegions job @ [region], r_RerouteCount = j_RerouteCount job + 1,
       r_DirectOnly = directOnly, r_AccountQueueMode = header \<rparr>"

text \<open>A hop's reply is \<^const>\<open>None\<close> when the region could not be reached.  The result is the
  outcome, if the region took the job, and whether it was reached.\<close>

type_synonym hop = "string \<Rightarrow> Request \<Rightarrow> http_response option"
type_synonym hop_log = "(string \<times> Request) list"

definition tryRedirectHop :: "hop \<Rightarrow> Job \<Rightarrow> string \<Rightarrow> string \<Rightarrow> bool \<Rightarrow> ProxyOutcome option \<times> bool" where
  "tryRedirectHop hop job region header directOnly =
     (case hop region (hop_request job region header directOnly) of
        None \<Rightarrow> (None, False)
      | Some resp \<Rightarrow>
          if has_prefix (header_get ''Content-Type'' (rp_headers resp)) ''text/event-stream''
          then (Some (no_outcome\<lparr>po_RelayFrom := Some resp, po_RerouteRegion := region\<rparr>), True)
          else if rp_status resp \<ge> 200 \<and> rp_status resp < 300
          then (Some (no_outcome\<lparr>po_Direct := True, po_Status := rp_status resp,
                  po_Header := header_set ''X-Aquifer-Served-By-Region'' region (rp_headers resp), po_Body := rp_body resp\<rparr>), True)
          else (None, True))"

text \<open>The first phase: every candidate in turn, none of them allowed to queue the job.\<close>

fun direct_tour :: "hop \<Rightarrow> Job \<Rightarrow> string \<Rightarrow> string list \<Rightarrow> bool \<Rightarrow> ProxyOutcome option \<times> bool \<times> hop_log" where
  "direct_tour hop job header [] anyReached = (None, anyReached, [])"
| "direct_tour hop job header (region # rest) anyReached =
     (let sent = (region, hop_request job region header True)
      in case tryRedirectHop hop job region header True of
           (Some outcome, reached) \<Rightarrow> (Some outcome, anyReached \<or> reached, [sent])
         | (None, reached) \<Rightarrow>
             (case direct_tour hop job header rest (anyReached \<or> reached) of (o', r', asked) \<Rightarrow> (o', r', sent # asked)))"

record redirect_world =
  ro_adapter :: "(string \<times> string list) option"
  ro_machine :: string
  ro_score :: "string \<Rightarrow> string \<Rightarrow> string"
  ro_hop :: hop
  ro_cooldown :: ns
  ro_now :: ns
  ro_later :: ns

text \<open>The last component says whether the node's own row is to be deleted.\<close>

definition attemptRedirect ::
  "redirect_world \<Rightarrow> Job \<Rightarrow> string \<Rightarrow> Gate \<Rightarrow> ProxyOutcome \<times> redirectResult \<times> hop_log \<times> Gate \<times> bool" where
  "attemptRedirect rw job0 header gate =
     (if j_OriginMachineID job0 \<noteq> [] then (no_outcome, redirectNotApplicable, [], gate, False)
      else case ro_adapter rw of
        None \<Rightarrow> (no_outcome, redirectNotApplicable, [], gate, False)
      | Some (self, live) \<Rightarrow>
          if Gate_Open (ro_now rw) gate then (no_outcome, redirectExhausted, [], gate, False)
          else (let job = job0\<lparr>j_OriginMachineID := ro_machine rw, j_OriginRegion := self\<rparr>;
                    candidates = OrderedCandidates (ro_score rw) live (j_VisitedRegions job) self (j_IdempotentKey job)
                in if candidates = [] then (no_outcome, redirectExhausted, [], gate, False)
                   else case direct_tour (ro_hop rw) job header candidates False of
                     (Some outcome, _, asked) \<Rightarrow> (outcome, redirectSucceeded, asked, gate, True)
                   | (None, anyReached, asked) \<Rightarrow>
                       (let final = hd candidates; asked' = asked @ [(final, hop_request job final header False)]
                        in case tryRedirectHop (ro_hop rw) job final header False of
                             (Some outcome, _) \<Rightarrow> (outcome, redirectSucceeded, asked', gate, True)
                           | (None, reached) \<Rightarrow>
                               (no_outcome, redirectExhausted, asked',
                                if anyReached \<or> reached then Gate_Trip (ro_later rw) (ro_cooldown rw) else gate, False))))"

section \<open>The direct attempt\<close>

record 's node =
  nd_core :: "'s Aquifer"
  nd_gate :: Gate

record 's proxy_world =
  px_submit :: "'s submit_world"
  px_newID :: string
  px_now :: ms
  px_latency :: ns
  px_checks :: check_world
  px_started :: ns
  px_answered :: ns
  px_seal :: "(string \<Rightarrow> string \<Rightarrow> string \<Rightarrow> string + (string \<times> headers)) option"
  px_build :: "string \<Rightarrow> string \<Rightarrow> string option"
  px_send :: "http_request \<Rightarrow> string + http_response"
  px_node :: string
  px_json :: "string \<Rightarrow> (string \<times> f64) list option"
  px_redirect :: redirect_world

definition delete_row :: "'s proxy_world \<Rightarrow> Job \<Rightarrow> 's node \<Rightarrow> 's node" where
  "delete_row px job nd = nd\<lparr>nd_core := DeleteJob_row (px_submit px) (j_ID job) (nd_core nd)\<rparr>"

definition fallbackOutcome ::
  "'s proxy_world \<Rightarrow> Request \<Rightarrow> Job \<Rightarrow> string \<Rightarrow> int \<Rightarrow> bool \<Rightarrow> 's node \<Rightarrow> ProxyOutcome \<times> hop_log \<times> 's node" where
  "fallbackOutcome px req job reason status tryRedirect nd =
     (let fallback = (\<lambda>asked nd. (no_outcome\<lparr>po_Job := Some job, po_FallbackReason := reason, po_FallbackStatus := status\<rparr>, asked,
                       if r_DirectOnly req then delete_row px job nd else nd))
      in if tryRedirect
         then (case attemptRedirect (px_redirect px) job (r_AccountQueueMode req) (nd_gate nd) of
                 (outcome, redirectSucceeded, asked, gate, moot) \<Rightarrow>
                   (outcome, asked, if moot then delete_row px job (nd\<lparr>nd_gate := gate\<rparr>) else nd\<lparr>nd_gate := gate\<rparr>)
               | (_, redirectExhausted, asked, gate, _) \<Rightarrow>
                   (no_outcome\<lparr>po_Err := Some (RedirectExhausted (j_ID job))\<rparr>, asked, delete_row px job (nd\<lparr>nd_gate := gate\<rparr>))
               | (_, redirectNotApplicable, asked, gate, _) \<Rightarrow> fallback asked (nd\<lparr>nd_gate := gate\<rparr>))
         else fallback [] nd)"

definition set_worker :: "string \<Rightarrow> URLWorker \<Rightarrow> 's node \<Rightarrow> 's node" where
  "set_worker key wk nd =
     (let a = nd_core nd; r = co_registry a
      in nd\<lparr>nd_core := a\<lparr>co_registry := r\<lparr>rg_workers := al_put key wk (rg_workers r)\<rparr>\<rparr>\<rparr>)"

definition remember :: "string \<Rightarrow> bool \<Rightarrow> 's node \<Rightarrow> 's node" where
  "remember key on nd = nd\<lparr>nd_core := (nd_core nd)\<lparr>co_registry := remember_destination key on (co_registry (nd_core nd))\<rparr>\<rparr>"

text \<open>What the headers of a response tell about the target.\<close>

definition learn_headers :: "string \<Rightarrow> http_response \<Rightarrow> URLWorker \<Rightarrow> 's node \<Rightarrow> URLWorker \<times> 's node" where
  "learn_headers key resp wk nd =
     (let wk1 = HandleMaxBacklogHeader (PacingHeader (rp_headers resp) ''Max-Backlog'') wk
      in case ParseAccountQueueValue (PacingHeader (rp_headers resp) ''Account-Queue'') of
           None \<Rightarrow> (wk1, set_worker key wk1 nd)
         | Some on \<Rightarrow>
             (let (wk2, told) = HandleDestinationAccountQueue on wk1; nd1 = set_worker key wk2 nd
              in (wk2, if told then remember key on nd1 else nd1)))"

definition save_result :: "'s proxy_world \<Rightarrow> Job \<Rightarrow> http_response \<Rightarrow> 's \<Rightarrow> 's" where
  "save_result px job resp st =
     (if IsWebhookDelivery job then st
      else (let env = su_env (sw_around (px_submit px));
                (body, cut) = TruncateStringBytes (rp_body resp) (env_Int64 env ''AQUIFER_RESULT_MAX_BYTES'' defaultLocalResultMaxBytes)
            in js_apply (sw_store (px_submit px)) (SPutResult (j_ID job)
                 \<lparr> re_JobID = j_ID job, re_Status = StatusCompleted, re_ResponseStatus = rp_status resp,
                   re_ContentType = header_get ''Content-Type'' (rp_headers resp), re_Body = body, re_BodyTruncated = cut,
                   re_RecordedAt = unix_ms (px_answered px), re_Source = ''aquifer'' \<rparr>) st))"

definition direct_success :: "'s proxy_world \<Rightarrow> Job \<Rightarrow> http_response \<Rightarrow> 's node \<Rightarrow> ProxyOutcome \<times> 's node" where
  "direct_success px job resp nd =
     (let a = nd_core nd;
          st1 = js_apply (sw_store (px_submit px)) (SUpdate (unix_ms (px_answered px)) (j_ID job) StatusCompleted) (co_store a);
          st2 = save_result px job resp st1
      in (no_outcome\<lparr>po_Job := Some job, po_Direct := True, po_Status := rp_status resp, po_Header := rp_headers resp,
            po_Body := rp_body resp,
            po_pendingWebhook := (if j_WebhookURL job \<noteq> []
              then Some [(''job_id'', JStr (j_ID job)), (''status'', JStr ''completed''),
                         (''response_status'', JInt (rp_status resp)), (''body'', JStr (rp_body resp))]
              else None)\<rparr>,
          nd\<lparr>nd_core := a\<lparr>co_store := st2\<rparr>\<rparr>))"

definition answer_result :: "attempt_result \<Rightarrow> int \<times> bool option" where
  "answer_result result = (case result of AErr _ is_local \<Rightarrow> (0, Some is_local) | AResp resp \<Rightarrow> (rp_status resp, None))"

definition direct_attempt :: "'s proxy_world \<Rightarrow> Request \<Rightarrow> Job \<Rightarrow> string \<Rightarrow> URLWorker \<Rightarrow> 's node \<Rightarrow> ProxyOutcome \<times> hop_log \<times> 's node" where
  "direct_attempt px req job key wk nd =
     (let env = su_env (sw_around (px_submit px));
          counts = js_Counts (sw_store (px_submit px)) (unix_ms (px_started px)) (co_store (nd_core nd));
          queues = worker_snapshot wk;
          result = MakeRequest (px_seal px) (px_build px) (px_send px) (px_node px) job (j_URL job)
                     (c_TotalJobs counts) (c_QueueDepth counts) 0 (qs_ActiveQueues queues) (qs_UpstreamBacklog queues);
          (status, local_error) = answer_result result;
          wk1 = ReportAnswer (unix_ms (px_answered px)) status local_error wk
      in case result of
           AErr _ _ \<Rightarrow> fallbackOutcome px req job ''upstream_unreachable'' 0 True (set_worker key wk1 nd)
         | AResp resp \<Rightarrow>
             (let (wk2, nd2) = learn_headers key resp wk1 nd
              in case isOverloadSignal (px_json px) env resp of
                   Some (cooldown, kind) \<Rightarrow>
                     fallbackOutcome px req job ''upstream_overloaded'' (rp_status resp) (kind = ''reroute'')
                       (set_worker key (TripBreaker (px_answered px) cooldown kind wk2) nd2)
                 | None \<Rightarrow>
                     (let nd3 = (if PacingHeader (rp_headers resp) ''Queue-Active'' = ''true''
                                 then set_worker key (TripBreaker (px_answered px) (breakerCooldown env (rp_headers resp)) ''queue'' wk2) nd2
                                 else nd2);
                          (outcome, nd4) = direct_success px job resp nd3
                      in (outcome, [], nd4))))"

text \<open>\<open>None\<close> when it waits for the idempotency key.\<close>

definition AttemptDirect :: "'s proxy_world \<Rightarrow> Request \<Rightarrow> 's node \<Rightarrow> (ProxyOutcome \<times> hop_log \<times> 's node) option" where
  "AttemptDirect px req nd0 =
     (case PrepareJob (px_submit px) (px_newID px) (px_now px) (px_latency px) (px_checks px) req (nd_core nd0) of
        (Blocked, _) \<Rightarrow> None
      | (PUnclaimed err, a) \<Rightarrow> Some (no_outcome\<lparr>po_Err := Some (PrepareError err)\<rparr>, [], nd0\<lparr>nd_core := a\<rparr>)
      | (PFailed err, a) \<Rightarrow> Some (no_outcome\<lparr>po_Err := Some (PrepareError err)\<rparr>, [], nd0\<lparr>nd_core := a\<rparr>)
      | (PDuplicate dup, a) \<Rightarrow>
          Some (no_outcome\<lparr>po_Duplicate := True,
                  po_ExistingJob := js_GetJob (sw_store (px_submit px)) (unix_ms (px_started px)) (er_JobID dup) (co_store a)\<rparr>,
                [], nd0\<lparr>nd_core := a\<rparr>)
      | (PJob job, a) \<Rightarrow>
          (let nd = nd0\<lparr>nd_core := a\<rparr>
           in if ExecutionExpired (unix_ms (px_started px)) job
              then Some (no_outcome\<lparr>po_Job := Some job, po_FallbackReason := ''execution_deadline_exceeded''\<rparr>, [], nd)
              else if j_PoolID job \<noteq> [] then Some (fallbackOutcome px req job ''pool_routed'' 0 False nd)
              else (let (key, wk, r) = resolveWorkerLocked (sw_around (px_submit px)) job (co_registry a);
                        nd1 = nd\<lparr>nd_core := a\<lparr>co_registry := r\<rparr>\<rparr>
                    in if BreakerOpen (px_started px) wk
                       then Some (fallbackOutcome px req job ''domain_degraded'' 0 (BreakerKind wk = ''reroute'') nd1)
                       else if QueueActive wk then Some (fallbackOutcome px req job ''domain_degraded'' 0 False nd1)
                       else Some (direct_attempt px req job key wk nd1))))"

section \<open>The tour\<close>

lemma tour_regions:
  assumes "direct_tour hop job header cs r = (out, any_reached, asked)"
  shows "asked = map (\<lambda>c. (c, hop_request job c header True)) (take (length asked) cs)"
  using assms
proof (induction cs arbitrary: r out any_reached asked)
  case (Cons c cs)
  then show ?case by (auto simp: Let_def split: prod.splits option.splits)
qed simp

lemma tour_failed:
  assumes "direct_tour hop job header cs r = (None, any_reached, asked)"
  shows "length asked = length cs \<and> (\<forall>c \<in> set cs. fst (tryRedirectHop hop job c header True) = None)
    \<and> (any_reached \<longleftrightarrow> r \<or> (\<exists>c \<in> set cs. snd (tryRedirectHop hop job c header True)))"
  using assms
proof (induction cs arbitrary: r any_reached asked)
  case (Cons c cs)
  then show ?case by (fastforce simp: Let_def split: prod.splits option.splits)
qed simp

lemma tour_taken:
  assumes "direct_tour hop job header cs r = (Some out, any_reached, asked)"
  shows "asked \<noteq> [] \<and> fst (tryRedirectHop hop job (fst (last asked)) header True) = Some out
    \<and> (\<forall>c \<in> set (map fst (butlast asked)). fst (tryRedirectHop hop job c header True) = None)"
  using assms
proof (induction cs arbitrary: r any_reached asked)
  case (Cons c cs)
  show ?case
  proof (cases "fst (tryRedirectHop hop job c header True)")
    case None
    then obtain reached where hop: "tryRedirectHop hop job c header True = (None, reached)" by (metis prod.collapse)
    obtain o' r' asked' where rest: "direct_tour hop job header cs (r \<or> reached) = (o', r', asked')" by (metis prod_cases3)
    have eq: "o' = Some out" "asked = (c, hop_request job c header True) # asked'"
      using Cons.prems hop rest by (simp_all add: Let_def)
    have "asked' \<noteq> [] \<and> fst (tryRedirectHop hop job (fst (last asked')) header True) = Some out
        \<and> (\<forall>c \<in> set (map fst (butlast asked')). fst (tryRedirectHop hop job c header True) = None)"
      using Cons.IH [of "r \<or> reached" r' asked'] rest eq(1) by simp
    with eq(2) None show ?thesis by auto
  next
    case (Some o1)
    then obtain reached where hop: "tryRedirectHop hop job c header True = (Some o1, reached)" by (metis prod.collapse)
    with Cons.prems show ?thesis by (auto simp: Let_def)
  qed
qed simp

text \<open>The rendezvous choice is a candidate that no candidate beats.\<close>

lemma pick_best:
  assumes "cs \<noteq> []"
  shows "region_Pick score cs key \<in> set cs \<and> (\<forall>c \<in> set cs. \<not> str_less (score (region_Pick score cs key) key) (score c key))"
proof -
  let ?f = "\<lambda>x best. if str_less (score best key) (score x key) then x else best"
  have "fold ?f xs b \<in> insert b (set xs) \<and> (\<forall>c \<in> insert b (set xs). \<not> str_less (score (fold ?f xs b) key) (score c key))" for xs b
  proof (induction xs rule: rev_induct)
    case (snoc x xs)
    then show ?case using str_less_trans str_less_irrefl by auto
  qed simp
  with assms show ?thesis by (cases cs) (auto simp: region_Pick_def)
qed

lemma pick_agrees:
  assumes "set cs = set ds" "cs \<noteq> []" and inj: "inj_on (\<lambda>c. score c key) (set cs)"
  shows "region_Pick score cs key = region_Pick score ds key"
proof -
  have "ds \<noteq> []" using assms by auto
  with pick_best [of cs score key] pick_best [of ds score key] assms
  have "score (region_Pick score cs key) key = score (region_Pick score ds key) key"
    by (metis str_less_linear)
  with pick_best [of cs score key] pick_best [of ds score key] assms \<open>ds \<noteq> []\<close> show ?thesis
    by (auto dest: inj_onD)
qed

lemma candidates_set: "set (OrderedCandidates score live visited self key) = {r \<in> set live. r \<noteq> self \<and> r \<notin> set visited}"
  using pick_best [of "filter (\<lambda>r. \<not> (r = self \<or> r \<in> set visited)) live" score key]
  by (auto simp: OrderedCandidates_def Let_def filter_empty_conv)


text \<open>The candidates of a tour, and the job as it travels.\<close>

definition tour_candidates :: "redirect_world \<Rightarrow> Job \<Rightarrow> string list" where
  "tour_candidates ro job =
     (case ro_adapter ro of
        None \<Rightarrow> []
      | Some (self, live) \<Rightarrow> OrderedCandidates (ro_score ro) live (j_VisitedRegions job) self (j_IdempotentKey job))"

definition touring :: "redirect_world \<Rightarrow> Job \<Rightarrow> Job" where
  "touring ro job =
     (case ro_adapter ro of
        None \<Rightarrow> job | Some (self, live) \<Rightarrow> job\<lparr>j_OriginMachineID := ro_machine ro, j_OriginRegion := self\<rparr>)"

lemma redirect_cases:
  assumes "attemptRedirect ro job header gate = (out, res, asked, gate', moot)"
  obtains "asked = []" "res \<noteq> redirectSucceeded" "gate' = gate" "\<not> moot"
  | any_reached where "res = redirectSucceeded" "moot" "gate' = gate" "tour_candidates ro job \<noteq> []"
      "direct_tour (ro_hop ro) (touring ro job) header (tour_candidates ro job) False = (Some out, any_reached, asked)"
  | any_reached reached first final where "tour_candidates ro job \<noteq> []" "final = hd (tour_candidates ro job)"
      "direct_tour (ro_hop ro) (touring ro job) header (tour_candidates ro job) False = (None, any_reached, first)"
      "asked = first @ [(final, hop_request (touring ro job) final header False)]"
      "tryRedirectHop (ro_hop ro) (touring ro job) final header False = (if res = redirectSucceeded then Some out else None, reached)"
      "res \<noteq> redirectNotApplicable" "moot \<longleftrightarrow> res = redirectSucceeded"
      "gate' = (if res = redirectExhausted \<and> (any_reached \<or> reached) then Gate_Trip (ro_later ro) (ro_cooldown ro) else gate)"
proof (cases "j_OriginMachineID job \<noteq> [] \<or> ro_adapter ro = None")
  case True
  with assms that(1) show ?thesis by (auto simp: attemptRedirect_def split: if_splits)
next
  case False
  then obtain self live where ad: "ro_adapter ro = Some (self, live)" and o: "j_OriginMachineID job = []" by auto
  have c: "tour_candidates ro job = OrderedCandidates (ro_score ro) live (j_VisitedRegions job) self (j_IdempotentKey job)"
    and t: "touring ro job = job\<lparr>j_OriginMachineID := ro_machine ro, j_OriginRegion := self\<rparr>"
    by (simp_all add: tour_candidates_def touring_def ad)
  have same: "j_VisitedRegions (touring ro job) = j_VisitedRegions job" "j_IdempotentKey (touring ro job) = j_IdempotentKey job"
    by (simp_all add: t)
  note r = assms [unfolded attemptRedirect_def o ad option.case prod.case, simplified Let_def, folded t, unfolded same, folded c]
  show ?thesis
  proof (cases "Gate_Open (ro_now ro) gate \<or> tour_candidates ro job = []")
    case True
    with r that(1) show ?thesis by (auto split: if_splits)
  next
    case False
    obtain o1 any_reached first where tour:
      "direct_tour (ro_hop ro) (touring ro job) header (tour_candidates ro job) False = (o1, any_reached, first)" by (metis prod_cases3)
    obtain o2 reached where fin:
      "tryRedirectHop (ro_hop ro) (touring ro job) (hd (tour_candidates ro job)) header False = (o2, reached)" by (metis prod.collapse)
    show ?thesis
    proof (cases o1)
      case (Some x)
      with r tour False that(2) [of any_reached] show ?thesis by auto
    next
      case None
      with r tour fin False that(3) [of "hd (tour_candidates ro job)" any_reached first reached] show ?thesis
        by (cases o2) auto
    qed
  qed
qed

text \<open>(C7) A redirect tour commits a job in at most one place.  Every request but at most one
  forbids the region to queue the job, and each such request was turned down by its
  region before the next was sent; the committing request comes last, after every
  candidate refused, and goes to the rendezvous choice; the node's own row is given up
  exactly when the last region asked took the job.  Only live regions other than the
  node's own and those visited are asked, and the gate is tripped only by a tour that
  failed although a region was reached.
\<close>

theorem redirect_commits_once:
  assumes "attemptRedirect ro job header gate = (out, res, asked, gate', moot)"
  shows "length (filter (\<lambda>(_, q). \<not> r_DirectOnly q) asked) \<le> 1
    \<and> (\<forall>(region, q) \<in> set (butlast asked). r_DirectOnly q \<and> fst (tryRedirectHop (ro_hop ro) (touring ro job) region header True) = None)
    \<and> (\<forall>region q. asked \<noteq> [] \<and> last asked = (region, q) \<and> \<not> r_DirectOnly q
         \<longrightarrow> map fst (butlast asked) = tour_candidates ro job \<and> region = hd (tour_candidates ro job))
    \<and> (moot \<longleftrightarrow> res = redirectSucceeded)
    \<and> (res = redirectSucceeded \<longrightarrow> asked \<noteq> []
         \<and> fst (tryRedirectHop (ro_hop ro) (touring ro job) (fst (last asked)) header (r_DirectOnly (snd (last asked)))) = Some out)
    \<and> (\<forall>(region, q) \<in> set asked. region \<in> set (tour_candidates ro job) \<and> q = hop_request (touring ro job) region header (r_DirectOnly q))
    \<and> (gate' \<noteq> gate \<longrightarrow> res = redirectExhausted
         \<and> (\<exists>(region, q) \<in> set asked. snd (tryRedirectHop (ro_hop ro) (touring ro job) region header (r_DirectOnly q))))"
  using assms
proof (cases rule: redirect_cases)
  case 1
  then show ?thesis by (cases res) auto
next
  case (2 any_reached)
  let ?h = "\<lambda>c. (c, hop_request (touring ro job) c header True)"
  define k where "k = length asked"
  have asked: "asked = map ?h (take k (tour_candidates ro job))" unfolding k_def by (rule tour_regions [OF 2(5)])
  note taken = tour_taken [OF 2(5)]
  have only: "r_DirectOnly q" "q = hop_request (touring ro job) c header True" "c \<in> set (tour_candidates ro job)" if "(c, q) \<in> set asked" for c q
    using that asked in_set_takeD [of c k "tour_candidates ro job"] by (auto simp: hop_request_def)
  have none: "filter (\<lambda>(_, q). \<not> r_DirectOnly q) asked = []" using only(1) by (auto simp: filter_empty_conv)
  have last: "last asked \<in> set asked" using taken by simp
  have late: "r_DirectOnly (snd (last asked))" using only(1) [of "fst (last asked)" "snd (last asked)"] last by simp
  have early: "r_DirectOnly q \<and> fst (tryRedirectHop (ro_hop ro) (touring ro job) c header True) = None" if "(c, q) \<in> set (butlast asked)" for c q
    using that taken only(1) in_set_butlastD [OF that] by force
  show ?thesis
    using 2(1-3) none late taken early only(2,3) by (auto simp: only(1))
next
  case (3 any_reached reached first final)
  let ?h = "\<lambda>c. (c, hop_request (touring ro job) c header True)"
  note failed = tour_failed [OF 3(3)]
  have first: "first = map ?h (tour_candidates ro job)" using tour_regions [OF 3(3)] failed by simp
  have flags: "r_DirectOnly (hop_request j c header b) = b" for j c b by (simp add: hop_request_def)
  have final: "final \<in> set (tour_candidates ro job)" using 3(1,2) by simp
  show ?thesis
    using 3 failed final by (auto simp: first flags comp_def split: if_splits)
qed

section \<open>The receiving node\<close>

lemma fallback_elsewhere:
  assumes "j_OriginMachineID job \<noteq> []"
  shows "fallbackOutcome px req job reason status try nd =
    (no_outcome\<lparr>po_Job := Some job, po_FallbackReason := reason, po_FallbackStatus := status\<rparr>, [],
     if r_DirectOnly req then delete_row px job nd else nd)"
proof -
  have "nd\<lparr>nd_gate := nd_gate nd\<rparr> = nd" by (cases nd) simp
  with assms show ?thesis by (simp add: fallbackOutcome_def attemptRedirect_def Let_def)
qed

lemma set_worker_store [simp]: "co_store (nd_core (set_worker key wk nd)) = co_store (nd_core nd)"
  by (simp add: set_worker_def Let_def)

lemma learn_headers_store [simp]: "co_store (nd_core (snd (learn_headers key resp wk nd))) = co_store (nd_core nd)"
  by (simp add: learn_headers_def Let_def HandleDestinationAccountQueue_def remember_def split: option.split)

lemma direct_attempt_elsewhere:
  assumes o: "j_OriginMachineID job \<noteq> []" and run: "direct_attempt px req job key wk nd = (out, asked, nd')"
  shows "asked = [] \<and> po_Job out = Some job
    \<and> (\<not> po_Direct out \<longrightarrow> (\<exists>nd1. co_store (nd_core nd1) = co_store (nd_core nd) \<and> nd' = (if r_DirectOnly req then delete_row px job nd1 else nd1)))"
proof -
  define result where "result = MakeRequest (px_seal px) (px_build px) (px_send px) (px_node px) job (j_URL job)
      (c_TotalJobs (js_Counts (sw_store (px_submit px)) (unix_ms (px_started px)) (co_store (nd_core nd))))
      (c_QueueDepth (js_Counts (sw_store (px_submit px)) (unix_ms (px_started px)) (co_store (nd_core nd)))) 0
      (qs_ActiveQueues (worker_snapshot wk)) (qs_UpstreamBacklog (worker_snapshot wk))"
  note run = run [unfolded direct_attempt_def Let_def, folded result_def]
  show ?thesis
  proof (cases result)
    case (AErr e is_local)
    with run show ?thesis
      by (auto simp: answer_result_def fallback_elsewhere [OF o] no_outcome_def intro!: exI [of _ "set_worker _ _ _"])
  next
    case (AResp resp)
    let ?wk1 = "ReportAnswer (unix_ms (px_answered px)) (rp_status resp) None wk"
    obtain wk2 nd2 where learn: "learn_headers key resp ?wk1 nd = (wk2, nd2)" by (metis prod.collapse)
    then have st: "co_store (nd_core nd2) = co_store (nd_core nd)" using learn_headers_store [of key resp ?wk1 nd] by simp
    show ?thesis
    proof (cases "isOverloadSignal (px_json px) (su_env (sw_around (px_submit px))) resp")
      case None
      with run AResp learn show ?thesis by (auto simp: answer_result_def direct_success_def no_outcome_def Let_def split: if_splits)
    next
      case (Some ck)
      obtain cooldown kind where ck: "ck = (cooldown, kind)" by (cases ck)
      let ?nd3 = "set_worker key (TripBreaker (px_answered px) cooldown kind wk2) nd2"
      have "asked = [] \<and> po_Job out = Some job \<and> nd' = (if r_DirectOnly req then delete_row px job ?nd3 else ?nd3)"
        using run AResp learn Some ck by (auto simp: answer_result_def fallback_elsewhere [OF o] no_outcome_def)
      moreover have "co_store (nd_core ?nd3) = co_store (nd_core nd)" by (simp add: st)
      ultimately show ?thesis by blast
    qed
  qed
qed

lemma AttemptDirect_elsewhere:
  assumes o: "r_OriginMachineID req \<noteq> []" and run: "AttemptDirect px req nd = Some (out, asked, nd')"
    and job: "po_Job out = Some job" "\<not> po_Direct out"
  shows "\<exists>a nd1. PrepareJob (px_submit px) (px_newID px) (px_now px) (px_latency px) (px_checks px) req (nd_core nd) = (PJob job, a)
    \<and> co_store (nd_core nd1) = co_store a
    \<and> nd' = (if r_DirectOnly req \<and> \<not> ExecutionExpired (unix_ms (px_started px)) job then delete_row px job nd1 else nd1) \<and> asked = []"
proof -
  let ?p = "PrepareJob (px_submit px) (px_newID px) (px_now px) (px_latency px) (px_checks px) req (nd_core nd)"
  obtain r a where p: "?p = (r, a)" by (cases ?p)
  have "\<exists>j. r = PJob j" using run job(1) p by (cases r) (auto simp: AttemptDirect_def no_outcome_def)
  then obtain j where r: "r = PJob j" by blast
  have "j = new_job (su_hash (sw_around (px_submit px))) (px_newID px) (px_now px) req"
    using p r by (auto simp: PrepareJob_def prepareJob_def submit_begin_def Let_def split: prepared.splits prod.splits sum.splits option.splits if_splits)
  then have o': "j_OriginMachineID j \<noteq> []" using o by (simp add: new_job_def)
  obtain key wk rg where res: "resolveWorkerLocked (sw_around (px_submit px)) j (co_registry a) = (key, wk, rg)" by (metis prod_cases3)
  let ?nd = "nd\<lparr>nd_core := a\<rparr>" and ?nd1 = "nd\<lparr>nd_core := a\<lparr>co_registry := rg\<rparr>\<rparr>"
  have st: "co_store (nd_core ?nd) = co_store a" "co_store (nd_core ?nd1) = co_store a" by simp_all
  note defs = AttemptDirect_def p r prod.case prepared.case Let_def res fallback_elsewhere [OF o']
  show ?thesis
  proof (cases "ExecutionExpired (unix_ms (px_started px)) j \<or> j_PoolID j \<noteq> []")
    case True
    then have "j = job" "asked = []" "nd' = (if r_DirectOnly req \<and> \<not> ExecutionExpired (unix_ms (px_started px)) j then delete_row px j ?nd else ?nd)"
      using run job(1) by (auto simp: defs no_outcome_def split: if_splits)
    with p r st(1) show ?thesis by blast
  next
    case False
    show ?thesis
    proof (cases "BreakerOpen (px_started px) wk \<or> QueueActive wk")
      case True
      with False have "j = job" "asked = []" "nd' = (if r_DirectOnly req then delete_row px j ?nd1 else ?nd1)"
        using run job(1) by (auto simp: defs no_outcome_def split: if_splits)
      with False p r st(2) show ?thesis by (intro exI [of _ a] exI [of _ ?nd1]) simp
    next
      case quiet: False
      with False have at: "direct_attempt px req j key wk ?nd1 = (out, asked, nd')" using run by (simp add: defs)
      from direct_attempt_elsewhere [OF o' at] job have "j = job" "asked = []"
        "\<exists>nd2. co_store (nd_core nd2) = co_store a \<and> nd' = (if r_DirectOnly req then delete_row px j nd2 else nd2)" by simp_all
      with False p r show ?thesis by auto
    qed
  qed
qed

text \<open>A prepared job has its row.\<close>

lemma PrepareJob_row:
  assumes db: "pebble_db kv \<alpha>" and inv: "run_inv \<alpha> (su_hash s) (co_store a)"
    and ok: "store_allowed kv (su_hash s) (SInsert now (new_job (su_hash s) newID now req)) (co_store a)"
    and prep: "PrepareJob (pebble_world kv s hostname) newID now latency cw req a = (PJob job, a')"
  shows "run_inv \<alpha> (su_hash s) (co_store a') \<and> getRecord kv (j_ID job) (snd (co_store a')) \<noteq> None"
proof -
  let ?w = "pebble_world kv s hostname" and ?H = "su_hash s"
  have job: "job = new_job ?H newID now req"
    using prep by (auto simp: PrepareJob_def prepareJob_def submit_begin_def Let_def pebble_world_def
        split: prepared.splits prod.splits sum.splits option.splits if_splits)
  obtain keys a1 where ins: "submit_insert ?w now latency job (a\<lparr>co_newKeys := keys\<rparr>) = (None, a1)" and same: "co_store a' = co_store a1"
  proof -
    from prep obtain keys a1 a2 where "submit_insert ?w now latency job (a\<lparr>co_newKeys := keys\<rparr>) = (None, a1)"
        "submit_checks ?w cw job a1 = (None, a2)" "co_store a' = co_store a2"
      by (auto simp: PrepareJob_def prepareJob_def release_for_def split: prepared.splits prod.splits sum.splits option.splits)
    then show thesis using that job_store.checks_keep(1) [OF pebble_db.submissions_store [OF db], of s hostname cw job a1] by simp
  qed
  let ?r = "js_CheckOrInsert (sw_store ?w) now job (co_store a)"
  have a1: "co_store a1 = snd ?r" and new: "\<not> snd (fst ?r)"
    using ins by (auto simp: submit_insert_def split: prod.splits if_splits)
  note store = pebble_db.submissions_store [OF db, of s hostname]
  have none: "pebble_owner kv (co_store a) (claim_key ?w job) = None"
    using job_store.duplicate [OF store inv ok [folded job]] new by (cases "pebble_owner kv (co_store a) (claim_key ?w job)") auto
  note fresh = job_store.fresh [OF store inv ok [folded job] none]
  then have inv': "run_inv \<alpha> ?H (co_store a1)" and own: "pebble_owner kv (co_store a1) (claim_key ?w job) = Some (j_ID job)"
    by (simp_all add: a1)
  then show ?thesis
    using pebble_db.owner_view [OF db inv', of "claim_key ?w job" "j_ID job"] by (auto simp: same pebble_db.getRecord_view [OF db])
qed


section \<open>Instances\<close>

definition sample_tour :: redirect_world where
  "sample_tour =
     \<lparr> ro_adapter = Some (''iad'', [''fra'', ''iad'', ''lhr'']), ro_machine = ''m1'', ro_score = (\<lambda>c k. c),
       ro_hop = (\<lambda>region q. if r_DirectOnly q then Some \<lparr> rp_status = 503, rp_headers = [], rp_body = [] \<rparr>
                 else Some \<lparr> rp_status = 200, rp_headers = [(''content-type'', ''text/event-stream'')], rp_body = [] \<rparr>),
       ro_cooldown = 1, ro_now = 0, ro_later = 1 \<rparr>"

theorem redirect_commits_once_witness:
  "map (\<lambda>(region, q). (region, r_DirectOnly q)) (fst (snd (snd (attemptRedirect sample_tour sample_job [] None))))
     = [(''lhr'', True), (''fra'', True), (''lhr'', False)]
   \<and> length (filter (\<lambda>(_, q). \<not> r_DirectOnly q) (fst (snd (snd (attemptRedirect sample_tour sample_job [] None))))) \<le> 1
   \<and> snd (snd (snd (snd (attemptRedirect sample_tour sample_job [] None))))"
proof -
  obtain out res asked gate' moot where eq: "attemptRedirect sample_tour sample_job [] None = (out, res, asked, gate', moot)"
    by (metis prod_cases5)
  have "map (\<lambda>(region, q). (region, r_DirectOnly q)) (fst (snd (snd (attemptRedirect sample_tour sample_job [] None))))
     = [(''lhr'', True), (''fra'', True), (''lhr'', False)]" by code_simp
  moreover have "fst (snd (attemptRedirect sample_tour sample_job [] None)) = redirectSucceeded" by code_simp
  ultimately show ?thesis using redirect_commits_once [OF eq] by (simp add: eq)
qed

definition sample_hop :: "ms \<Rightarrow> Request" where
  "sample_hop deadline = sample_request\<lparr>r_OriginMachineID := ''m1'', r_DirectOnly := True, r_ExecuteBefore := deadline\<rparr>"

definition sample_px :: "(ms \<times> (string \<times> stored) list Pebble) proxy_world" where
  "sample_px =
     \<lparr> px_submit = pebble_world mem_kv sample_surroundings Some, px_newID = ''a'', px_now = 1000, px_latency = 0,
       px_checks = sample_checks, px_started = 2000 * millisecond, px_answered = 3000 * millisecond, px_seal = None,
       px_build = (\<lambda>_ _. None), px_send = (\<lambda>_. Inl ''refused''), px_node = [], px_json = (\<lambda>_. None), px_redirect = sample_tour \<rparr>"

definition sample_proxy_node :: "(ms \<times> (string \<times> stored) list Pebble) node" where
  "sample_proxy_node = \<lparr> nd_core = sample_core, nd_gate = None \<rparr>"

definition stuck_row :: "ms \<Rightarrow> bool" where
  "stuck_row deadline = (case AttemptDirect sample_px (sample_hop deadline) sample_proxy_node of
     Some (out, asked, nd) \<Rightarrow> getRecord mem_kv ''a'' (snd (co_store (nd_core nd))) \<noteq> None | None \<Rightarrow> False)"

definition hop_job :: "ms \<Rightarrow> Job option" where
  "hop_job deadline = Option.bind (AttemptDirect sample_px (sample_hop deadline) sample_proxy_node)
     (\<lambda>(out, asked, nd). if po_Direct out then None else po_Job out)"


end
