(* ===== verification/Core_Server.thy ===== *)
theory Core_Server
  imports Core_Proxy
begin

text \<open>
  \<^verbatim>\<open>internal/core/server.go\<close>, \<^verbatim>\<open>cluster_routing.go\<close>, \<^verbatim>\<open>load.go\<close>, \<^verbatim>\<open>fullness.go\<close> and
  \<^verbatim>\<open>shutdown.go\<close>: the handlers around a submission.  A request of a cluster is first
  forwarded to the node that owns its user; what the network does with a forwarded
  request is an argument.  Answers are the status, the headers a caller acts on and
  the error; the informational load headers and the encoding of bodies are left out.
\<close>

section \<open>Request headers\<close>

definition applyMaxRetriesHeader :: "headers \<Rightarrow> Request \<Rightarrow> string + Request" where
  "applyMaxRetriesHeader h req =
     (let raw = PacingHeader h ''Max-Retries'';
          raw2 = PacingHeader h ''Webhook-Max-Retries'';
          second_header = (\<lambda>req. if raw2 = '''' then Inr req
            else (case parse_int64 (trim_space raw2) of
                    None \<Rightarrow> Inl ''X-Aqueduct-Webhook-Max-Retries must be an integer: -1 (retry until delivered) or 0-100''
                  | Some n \<Rightarrow> Inr (req\<lparr>r_WebhookMaxRetries := Some n\<rparr>)))
      in if raw = '''' then second_header req
         else (case parse_int64 (trim_space raw) of
                 None \<Rightarrow> Inl ''X-Aqueduct-Max-Retries must be an integer: -1 (retry until complete) or 0-100''
               | Some n \<Rightarrow> second_header (req\<lparr>r_MaxRetries := Some n\<rparr>)))"

definition positive_rate :: "string \<Rightarrow> f64 option" where
  "positive_rate s = (case parse_float s of Some v \<Rightarrow> if v > 0 then Some v else None | None \<Rightarrow> None)"

definition lowerRPS :: "string \<Rightarrow> string \<Rightarrow> string" where
  "lowerRPS a b =
     (case (positive_rate a, positive_rate b) of
        (Some av, Some bv) \<Rightarrow> if bv < av then b else a
      | (Some _, None) \<Rightarrow> a
      | (None, Some _) \<Rightarrow> b
      | (None, None) \<Rightarrow> [])"

definition clusterRoutingKey :: "Request \<Rightarrow> string" where
  "clusterRoutingKey req =
     (if r_IdempotencyScope req = IdempotencyScopeShared then ''shared'' @ nul # r_IdempotentKey req else r_UserID req)"

section \<open>Forwarding to the owner\<close>

text \<open>What became of a forwarded request: whether all of it was written, whether the caller had
  hung up, and the owner's answer if there was one.\<close>

record forward_reply =
  fr_delivered :: bool
  fr_cancelled :: bool
  fr_response :: "http_response option"

datatype forward_result =
    RunHere
  | ArrivedLate
  | BadTarget
  | MayBeAccepted string
  | Relayed string http_response
  | NoOwner "string list"

record forward_world =
  fw_score :: "string \<Rightarrow> string \<Rightarrow> string"
  fw_assign :: "nat \<Rightarrow> Member list \<Rightarrow> assign_error + Member"
  fw_now :: "nat \<Rightarrow> ns"
  fw_released :: "nat \<Rightarrow> bool"
  fw_url_ok :: "string \<Rightarrow> bool"
  fw_send :: "nat \<Rightarrow> string \<Rightarrow> forward_reply"

definition draining_answer :: "http_response \<Rightarrow> bool" where
  "draining_answer resp \<longleftrightarrow> rp_status resp = 503 \<and> PacingHeader (rp_headers resp) ''Node-State'' = ''draining''"

text \<open>The loop of \<open>forwardClusterRequest\<close>, with the number of attempts left; the log has the owners
  that were sent the request, with the replies.\<close>

fun forward_loop ::
  "nat \<Rightarrow> forward_world \<Rightarrow> bool \<Rightarrow> string \<Rightarrow> string \<Rightarrow> string list \<Rightarrow> Router
     \<Rightarrow> forward_result \<times> (string \<times> forward_reply) list \<times> Router" where
  "forward_loop 0 fw draining path key tried r = (NoOwner tried, [], r)"
| "forward_loop (Suc n) fw draining path key tried r =
     (let k = length tried
      in case ResolveOwner (fw_score fw) (fw_assign fw k) (fw_now fw k) (fw_now fw k) key (set tried) r of
           (None, r1) \<Rightarrow> (NoOwner tried, [], r1)
         | (Some owner, r1) \<Rightarrow>
             (let unavailable = fst (MarkUnavailable (fw_released fw k) key (mb_ID owner) (fw_now fw k) r1)
              in if mb_ID owner = mb_ID (rt_self r1)
                 then (if draining then forward_loop n fw draining path key (tried @ [mb_ID owner]) unavailable else (RunHere, [], r1))
                 else (let target = trim_right CHR ''/'' (mb_Address owner) @ path; reply = fw_send fw k target
                       in if \<not> fw_url_ok fw target then (BadTarget, [], r1)
                          else case fr_response reply of
                            None \<Rightarrow>
                              if fr_delivered reply \<and> \<not> fr_cancelled reply then (MayBeAccepted (mb_ID owner), [(mb_ID owner, reply)], r1)
                              else (case forward_loop n fw draining path key (tried @ [mb_ID owner]) unavailable of
                                      (res, sent, r2) \<Rightarrow> (res, (mb_ID owner, reply) # sent, r2))
                          | Some resp \<Rightarrow>
                              if draining_answer resp
                              then (case forward_loop n fw draining path key (tried @ [mb_ID owner]) unavailable of
                                      (res, sent, r2) \<Rightarrow> (res, (mb_ID owner, reply) # sent, r2))
                              else (Relayed (mb_ID owner) resp, [(mb_ID owner, reply)], r1))))"

definition forwardClusterRequest ::
  "forward_world \<Rightarrow> (string \<Rightarrow> string) \<Rightarrow> ms \<Rightarrow> bool \<Rightarrow> string \<Rightarrow> Request \<Rightarrow> Router option
     \<Rightarrow> forward_result \<times> (string \<times> forward_reply) list \<times> Router option" where
  "forwardClusterRequest fw header now draining path req router =
     (if HasForwardedHeader header
      then (if ForwardExpired header now then (ArrivedLate, [], router) else (RunHere, [], router))
      else case router of
             None \<Rightarrow> (RunHere, [], None)
           | Some r \<Rightarrow>
               (let key = clusterRoutingKey req; (ranked, r1) = rankedOwners (fw_score fw) (fw_now fw 0) key {} r
                in if ranked = [] then (RunHere, [], Some r1)
                   else case forward_loop (length ranked + 1) fw draining path key [] r1 of (res, sent, r2) \<Rightarrow> (res, sent, Some r2)))"

section \<open>Answers\<close>

definition core_RetryAfterSeconds :: "'s Aquifer \<Rightarrow> int" where
  "core_RetryAfterSeconds a = (case co_admission a of None \<Rightarrow> 5 | Some c \<Rightarrow> RetryAfterSeconds c)"

definition rejected_text :: "Decision \<Rightarrow> string" where
  "rejected_text d = ''admission rejected: '' @ d_Reason d @ '' (current '' @ itoa (d_Current d) @ '', limit '' @ itoa (d_Limit d) @ '')''"

definition error_response :: "int \<Rightarrow> submit_error \<Rightarrow> response" where
  "error_response retryAfter err =
     (case err of
        ErrAquiferDraining \<Rightarrow> WriteDraining retryAfter
      | AdmissionRejected d \<Rightarrow>
          \<lparr> rs_status = 429, rs_headers = [(''Retry-After'', itoa retryAfter)], rs_error = rejected_text d \<rparr>
      | ErrSchema detail \<Rightarrow> \<lparr> rs_status = 422, rs_headers = [], rs_error = detail \<rparr>
      | ErrInvalid msg \<Rightarrow> \<lparr> rs_status = 400, rs_headers = [], rs_error = msg \<rparr>)"

definition created_response :: "EnqueueResult \<Rightarrow> response" where
  "created_response result = \<lparr> rs_status = (if er_Duplicate result then 200 else 201), rs_headers = [], rs_error = [] \<rparr>"

definition forward_response :: "forward_result \<Rightarrow> response" where
  "forward_response res =
     (case res of
        ArrivedLate \<Rightarrow> \<lparr> rs_status = 503, rs_headers = [(''Retry-After'', ''1'')],
          rs_error = ''forwarded request arrived after its sender's deadline; nothing was accepted. Retry with the same idempotent_key'' \<rparr>
      | MayBeAccepted owner \<Rightarrow> \<lparr> rs_status = 504, rs_headers = [(''Retry-After'', ''1'')],
          rs_error = ''cluster owner did not answer in time; the job may have been accepted there. Retry with the same idempotent_key'' \<rparr>
      | Relayed owner resp \<Rightarrow>
          \<lparr> rs_status = rp_status resp, rs_headers = rp_headers resp @ [(''X-Aquifer-Cluster-Owner'', owner)], rs_error = [] \<rparr>
      | NoOwner tried \<Rightarrow> \<lparr> rs_status = 502, rs_headers = [], rs_error = ''cluster owner unavailable'' \<rparr>
      | _ \<Rightarrow> \<lparr> rs_status = 400, rs_headers = [], rs_error = [] \<rparr>)"

section \<open>Creating a job\<close>

definition with_router :: "Router option \<Rightarrow> 's Aquifer \<Rightarrow> 's Aquifer" where
  "with_router r a = a\<lparr>co_registry := (co_registry a)\<lparr>rg_router := r\<rparr>\<rparr>"

definition trackLocalClusterRequest :: "ns \<Rightarrow> Request \<Rightarrow> 's Aquifer \<Rightarrow> 's Aquifer" where
  "trackLocalClusterRequest now req a =
     (if r_UserID req = [] then a
      else with_router (map_option (TrackLocalJob (clusterRoutingKey req) now) (rg_router (co_registry a))) a)"

definition finishClusterRequest :: "ns \<Rightarrow> Request \<Rightarrow> 's Aquifer \<Rightarrow> 's Aquifer" where
  "finishClusterRequest now req a =
     (if r_UserID req = [] then a
      else with_router (map_option (CompleteLocalJob (clusterRoutingKey req) now) (rg_router (co_registry a))) a)"

record 's create_world =
  cr_submit :: "'s submit_world"
  cr_forward :: forward_world
  cr_headers :: headers
  cr_newID :: string
  cr_now :: ms
  cr_latency :: ns
  cr_checks :: check_world
  cr_dispatch :: dispatch_world
  cr_clock :: ns
  cr_finish :: ns

text \<open>\<open>None\<close> while the submission waits for its key or its handover has not returned.\<close>

definition createJob :: "'s create_world \<Rightarrow> Request \<Rightarrow> 's Aquifer \<Rightarrow> response option \<times> 's Aquifer" where
  "createJob cw req0 a =
     (case applyMaxRetriesHeader (cr_headers cw) (req0\<lparr>r_AccountQueueMode := PacingHeader (cr_headers cw) ''Account-Queue''\<rparr>) of
        Inl msg \<Rightarrow> (Some \<lparr> rs_status = 400, rs_headers = [], rs_error = msg \<rparr>, a)
      | Inr req \<Rightarrow>
          (case forwardClusterRequest (cr_forward cw) (\<lambda>name. header_get name (cr_headers cw)) (cr_now cw) (co_draining a)
                  ''/jobs'' req (rg_router (co_registry a)) of
             (RunHere, _, r) \<Rightarrow>
               (case Enqueue (cr_submit cw) (cr_newID cw) (cr_now cw) (cr_latency cw) (cr_checks cw) (cr_dispatch cw) req
                       (trackLocalClusterRequest (cr_clock cw) req (with_router r a)) of
                  (None, a2) \<Rightarrow> (None, a2)
                | (Some (Inl err), a2) \<Rightarrow>
                    (Some (error_response (core_RetryAfterSeconds a2) err), finishClusterRequest (cr_finish cw) req a2)
                | (Some (Inr result), a2) \<Rightarrow> (Some (created_response result), finishClusterRequest (cr_finish cw) req a2))
           | (res, _, r) \<Rightarrow> (Some (forward_response res), with_router r a)))"

section \<open>Proxying a job\<close>

datatype proxy_answer =
    Answered response
  | Crashed
  | Status_of string Status
  | Stream_existing string
  | Relay_response int headers string
  | Relay_stream http_response string
  | Stream_queued string string int

definition stream_existing :: "Job option \<Rightarrow> bool \<Rightarrow> proxy_answer" where
  "stream_existing existing still_there =
     (case existing of
        None \<Rightarrow> Crashed
      | Some job \<Rightarrow>
          if j_Status job = StatusCompleted \<or> j_Status job = StatusFailed then Status_of (j_ID job) (j_Status job)
          else if still_there then Stream_existing (j_ID job)
          else Answered \<lparr> rs_status = 404, rs_headers = [], rs_error = ''job not found'' \<rparr>)"

text \<open>\<open>proxyJob\<close> from the outcome of the direct attempt on; \<open>None\<close> while a handover has not returned.
  A duplicate whose job is gone is the code's nil dereference, \<^const>\<open>Crashed\<close>.\<close>

definition proxy_answers ::
  "'s submit_world \<Rightarrow> environment \<Rightarrow> dispatch_world \<Rightarrow> ms \<Rightarrow> Request \<Rightarrow> ProxyOutcome \<Rightarrow> 's Aquifer \<Rightarrow> proxy_answer option \<times> 's Aquifer" where
  "proxy_answers w env dw now req out a =
     (case po_Err out of
        Some (PrepareError err) \<Rightarrow> (Some (Answered (error_response (core_RetryAfterSeconds a) err)), a)
      | Some (RedirectExhausted i) \<Rightarrow>
          (Some (Answered \<lparr> rs_status = 429, rs_headers = [(''Retry-After'', itoa (ExhaustedRetryAfterSeconds env))],
             rs_error = ''job '' @ i @ '': cross-region redirect exhausted, no known-live region could help'' \<rparr>), a)
      | None \<Rightarrow>
          if po_Duplicate out
          then (Some (stream_existing (po_ExistingJob out)
                  (case po_ExistingJob out of None \<Rightarrow> False
                   | Some job \<Rightarrow> js_GetJob (sw_store w) now (j_ID job) (co_store a) \<noteq> None)), a)
          else if po_Direct out then (Some (Relay_response (po_Status out) (po_Header out) (po_Body out)), a)
          else case po_RelayFrom out of
            Some resp \<Rightarrow> (Some (Relay_stream resp (po_RerouteRegion out)), a)
          | None \<Rightarrow>
              if r_DirectOnly req
              then (Some (Answered \<lparr> rs_status = 503, rs_headers = [], rs_error = ''could not complete directly'' \<rparr>), a)
              else case po_Job out of
                None \<Rightarrow> (Some Crashed, a)
              | Some job \<Rightarrow>
                  if js_GetJob (sw_store w) now (j_ID job) (co_store a) = None
                  then (Some (Answered \<lparr> rs_status = 404, rs_headers = [], rs_error = ''job not found'' \<rparr>), a)
                  else (case Dispatch w dw job (r_AccountQueueMode req) a of
                          (None, a1) \<Rightarrow> (None, a1)
                        | (Some (Inl (AdmissionRejected d)), a1) \<Rightarrow>
                            (Some (Answered (error_response (core_RetryAfterSeconds a1) (AdmissionRejected d))), a1)
                        | (Some (Inl err), a1) \<Rightarrow>
                            (Some (Answered \<lparr> rs_status = 400, rs_headers = [], rs_error = ''aquifer is draining'' \<rparr>), a1)
                        | (Some (Inr queue), a1) \<Rightarrow>
                            (Some (Stream_queued (j_ID job) (po_FallbackReason out) (po_FallbackStatus out)), a1)))"

section \<open>Pools and results\<close>

definition RegisterPoolMember ::
  "ns \<Rightarrow> string \<Rightarrow> string \<Rightarrow> string \<Rightarrow> f64 \<Rightarrow> int \<Rightarrow> PoolRegistry option \<Rightarrow> string + PoolRegistry" where
  "RegisterPoolMember now poolID memberID address declaredRPS heartbeatSeconds pools =
     (case pools of
        None \<Rightarrow> Inl ''pool registry not configured''
      | Some pr \<Rightarrow>
          if poolID = [] \<or> memberID = [] \<or> address = [] then Inl ''pool_id, member_id, and address are required''
          else if declaredRPS \<le> 0 then Inl ''capacity_rps must be greater than 0''
          else (let interval = wrap64 (heartbeatSeconds * second)
                in Inr (PoolRegistry_Register now poolID memberID address declaredRPS
                     (if interval \<le> 0 then 30 * second else interval) pr)))"

definition GetJobResult ::
  "environment \<Rightarrow> (string \<Rightarrow> string) \<Rightarrow> (string \<Rightarrow> Result option) option \<Rightarrow> string \<Rightarrow> string \<Rightarrow> string \<Rightarrow> string + Result" where
  "GetJobResult env H reader userID idempotentKey scope =
     (if idempotentKey = [] then Inl ''idempotent_key is required''
      else if scope = IdempotencyScopeShared \<and> \<not> SharedIdempotencyEnabled env
      then Inl ''idempotency_scope \"shared\" requires AQUIFER_SHARED_IDEMPOTENCY_ENABLED=true''
      else if scope \<noteq> IdempotencyScopeShared \<and> userID = [] then Inl ''user_id is required unless idempotency_scope is shared''
      else case Option.bind reader (\<lambda>look. look (DedupHash H userID idempotentKey scope)) of
             None \<Rightarrow> Inl ''job result not found'' | Some result \<Rightarrow> Inr result)"

section \<open>Load, fullness and shutdown\<close>

record loadReadings =
  lr_CPU :: f64
  lr_CPUs :: int
  lr_JobRate :: f64
  lr_MessageRate :: f64
  lr_HTTPUsers :: int
  lr_WSSessions :: int
  lr_MaxSessions :: int
  lr_MemoryLimitMB :: int
  lr_MemoryMB :: int

record Load =
  ld_HTTPUsers :: int
  ld_HTTPCapacity :: int
  ld_WSSessions :: int
  ld_WSCapacity :: int

definition loadCost :: "f64 \<Rightarrow> int \<Rightarrow> f64 \<Rightarrow> f64" where
  "loadCost cpu n assumed = (if n > 0 \<and> cpu > 0 then cpu / of_int n else assumed)"

definition computeLoad :: "loadReadings \<Rightarrow> Load" where
  "computeLoad r =
     (let cpus = of_int (max (lr_CPUs r) 1);
          httpNeed = lr_JobRate r / (750 * cpus); wsNeed = lr_MessageRate r / (3000 * cpus);
          need = httpNeed + wsNeed;
          httpCPU = (if need > 0 then lr_CPU r * httpNeed / need else 0);
          wsCPU = (if need > 0 then lr_CPU r * wsNeed / need else 0);
          headroom = max (8 / 10 - lr_CPU r) 0;
          perUser = loadCost httpCPU (lr_HTTPUsers r) (10 / (750 * cpus));
          perSession = loadCost wsCPU (lr_WSSessions r) (1 / (3000 * cpus));
          httpCapacity = min (lr_HTTPUsers r + \<lfloor>headroom / perUser\<rfloor>) 10000;
          wsCapacity = min (lr_WSSessions r + \<lfloor>headroom / perSession\<rfloor>) (lr_MaxSessions r);
          wsCapacity = (if lr_MemoryLimitMB r > 0
             then min wsCapacity (lr_WSSessions r + div_trunc (max (lr_MemoryLimitMB r - lr_MemoryMB r) 0 * 1024) 90) else wsCapacity)
      in \<lparr> ld_HTTPUsers = lr_HTTPUsers r, ld_HTTPCapacity = max httpCapacity (lr_HTTPUsers r),
           ld_WSSessions = lr_WSSessions r, ld_WSCapacity = max wsCapacity (lr_WSSessions r) \<rparr>)"

record loadAverages =
  la_cpu :: f64
  la_jobRate :: f64
  la_messageRate :: f64

record loadSampler =
  ls_at :: "ns option"
  ls_cpuTime :: ns
  ls_jobs :: int
  ls_messages :: int
  ls_averages :: "loadAverages option"
  ls_last :: Load

definition smooth :: "f64 \<Rightarrow> f64 \<Rightarrow> f64" where
  "smooth old new = old + 3 / 10 * (new - old)"

text \<open>\<open>sample\<close> has the readings of the moment; its CPU and rates are replaced by the averages.\<close>

definition load_reading :: "ns \<Rightarrow> ns \<Rightarrow> int \<Rightarrow> int \<Rightarrow> int \<Rightarrow> loadSampler \<Rightarrow> loadAverages" where
  "load_reading now cpuTime jobs messages cpus s =
     (case ls_at s of
        None \<Rightarrow> \<lparr> la_cpu = 0, la_jobRate = 0, la_messageRate = 0 \<rparr>
      | Some t \<Rightarrow>
          \<lparr> la_cpu = min (seconds (cpuTime - ls_cpuTime s) / (seconds (now - t) * of_int cpus)) 1,
            la_jobRate = of_int (jobs - ls_jobs s) / seconds (now - t),
            la_messageRate = of_int (messages - ls_messages s) / seconds (now - t) \<rparr>)"

definition load_averages :: "loadAverages \<Rightarrow> loadSampler \<Rightarrow> loadAverages" where
  "load_averages reading s =
     (case ls_averages s of
        None \<Rightarrow> reading
      | Some avg \<Rightarrow>
          \<lparr> la_cpu = smooth (la_cpu avg) (la_cpu reading), la_jobRate = smooth (la_jobRate avg) (la_jobRate reading),
            la_messageRate = smooth (la_messageRate avg) (la_messageRate reading) \<rparr>)"

definition core_Load :: "ns \<Rightarrow> ns \<Rightarrow> int \<Rightarrow> int \<Rightarrow> loadReadings \<Rightarrow> loadSampler \<Rightarrow> Load \<times> loadSampler" where
  "core_Load now cpuTime jobs messages sample s =
     (if (case ls_at s of Some t \<Rightarrow> now - t < 5 * second | None \<Rightarrow> False) then (ls_last s, s)
      else (let avg = load_averages (load_reading now cpuTime jobs messages (lr_CPUs sample) s) s;
                load = computeLoad (sample\<lparr>lr_CPU := la_cpu avg, lr_JobRate := la_jobRate avg, lr_MessageRate := la_messageRate avg\<rparr>)
            in (load, \<lparr> ls_at = Some now, ls_cpuTime = cpuTime, ls_jobs = jobs, ls_messages = messages, ls_averages = Some avg,
                       ls_last = load \<rparr>)))"

definition fullnessPercent :: "f64 \<Rightarrow> int" where
  "fullnessPercent ratio = f64_to_int (math_Round (clamp ratio 0 1 * 100))"

text \<open>A node without an admission controller has ratio 0 there.\<close>

definition core_Fullness :: "ns \<Rightarrow> readings \<Rightarrow> 's Aquifer \<Rightarrow> Sampled \<Rightarrow> int \<times> Sampled" where
  "core_Fullness now rd a s =
     sampled_Get now (fullnessPercent (max (case co_admission a of None \<Rightarrow> 0 | Some c \<Rightarrow> fst (FullnessRatio rd c))
       (BacklogFullnessRatio (co_registry a)))) s"

record ShutdownConfig =
  sc_Timeout :: ns
  sc_Quiesce :: ns
  sc_WebSocketGrace :: ns

definition shutdownEnvInt64 :: "environment \<Rightarrow> string \<Rightarrow> int \<Rightarrow> bool \<Rightarrow> int" where
  "shutdownEnvInt64 env key fallback allowZero =
     (let raw = env key
      in if raw = [] then fallback
         else (case parse_int64 raw of
                 None \<Rightarrow> fallback
               | Some v \<Rightarrow> if v < 0 \<or> (\<not> allowZero \<and> v = 0) then fallback else v))"

definition LoadShutdownConfig :: "environment \<Rightarrow> ShutdownConfig" where
  "LoadShutdownConfig env =
     (let cfg = \<lparr> sc_Timeout = wrap64 (shutdownEnvInt64 env ''AQUIFER_SHUTDOWN_TIMEOUT_SECONDS'' 30 False * second),
                  sc_Quiesce = wrap64 (shutdownEnvInt64 env ''AQUIFER_SHUTDOWN_QUIESCE_MS'' 500 True * millisecond),
                  sc_WebSocketGrace = wrap64 (shutdownEnvInt64 env ''AQUIFER_WS_DRAIN_GRACE_SECONDS'' 5 True * second) \<rparr>
      in if sc_WebSocketGrace cfg > sc_Timeout cfg then cfg\<lparr>sc_WebSocketGrace := sc_Timeout cfg\<rparr> else cfg)"

section \<open>Forwarding\<close>

text \<open>Whether the owner may have the job: it answered otherwise than that it is draining, or it had
  the whole request and did not answer.\<close>

definition may_accept :: "forward_reply \<Rightarrow> bool" where
  "may_accept reply = (case fr_response reply of Some resp \<Rightarrow> \<not> draining_answer resp | None \<Rightarrow> fr_delivered reply)"

lemma forward_loop_once:
  assumes "forward_loop n fw draining path key tried r = (res, sent, r')"
    and connected: "\<And>k target. \<not> fr_cancelled (fw_send fw k target)"
  shows "length sent \<le> n \<and> length (filter (may_accept \<circ> snd) sent) \<le> 1
    \<and> (filter (may_accept \<circ> snd) sent \<noteq> [] \<longrightarrow>
         (res = MayBeAccepted (fst (last sent)) \<or> (\<exists>resp. res = Relayed (fst (last sent)) resp)) \<and> may_accept (snd (last sent)))
    \<and> (filter (may_accept \<circ> snd) sent = [] \<longrightarrow> res = RunHere \<and> \<not> draining \<or> res = BadTarget \<or> (\<exists>tried. res = NoOwner tried))"
  using assms(1)
proof (induction n arbitrary: tried r res sent r')
  case 0
  then show ?case by auto
next
  case (Suc n)
  let ?k = "length tried"
  obtain found r1 where res: "ResolveOwner (fw_score fw) (fw_assign fw ?k) (fw_now fw ?k) (fw_now fw ?k) key (set tried) r = (found, r1)"
    by fastforce
  show ?case
  proof (cases found)
    case None
    with Suc.prems res show ?thesis by (auto simp: Let_def)
  next
    case (Some owner)
    define r2 where "r2 = fst (MarkUnavailable (fw_released fw ?k) key (mb_ID owner) (fw_now fw ?k) r1)"
    define target where "target = trim_right CHR ''/'' (mb_Address owner) @ path"
    define reply where "reply = fw_send fw ?k target"
    note run = Suc.prems [unfolded forward_loop.simps Let_def res Some prod.case option.case, folded r2_def, folded target_def, folded reply_def]
    obtain res' sent' r3 where rest: "forward_loop n fw draining path key (tried @ [mb_ID owner]) r2 = (res', sent', r3)" by (metis prod_cases3)
    note IH = Suc.IH [OF rest]
    have live: "\<not> fr_cancelled reply" by (simp add: reply_def connected)
    consider "mb_ID owner = mb_ID (rt_self r1)" | "mb_ID owner \<noteq> mb_ID (rt_self r1)" "\<not> fw_url_ok fw target"
      | "mb_ID owner \<noteq> mb_ID (rt_self r1)" "fw_url_ok fw target" "may_accept reply"
      | "mb_ID owner \<noteq> mb_ID (rt_self r1)" "fw_url_ok fw target" "\<not> may_accept reply" by blast
    then show ?thesis
    proof cases
      case 1
      with run rest IH show ?thesis by (auto split: if_splits)
    next
      case 2
      with run show ?thesis by auto
    next
      case 3
      with run live show ?thesis by (cases "fr_response reply") (auto simp: may_accept_def)
    next
      case 4
      with run live rest have eq: "res = res'" "sent = (mb_ID owner, reply) # sent'"
        by (cases "fr_response reply"; auto simp: may_accept_def)+
      have none: "filter (may_accept \<circ> snd) sent = filter (may_accept \<circ> snd) sent'" using 4(3) by (simp add: eq(2))
      show ?thesis
      proof (cases "sent' = []")
        case True
        with IH eq none show ?thesis by auto
      next
        case False
        with IH eq none 4(3) show ?thesis by (simp add: last.simps)
      qed
    qed
  qed
qed

text \<open>(C3) A forwarded request is accepted by at most one node while its caller stays connected.
  Among the owners asked at most one may have accepted it, and then it is the last one
  and its answer, or the advice to retry, goes to the caller; the job runs locally only
  if no owner asked may have it and the node is not draining.  No more owners are asked
  than there are ranked, plus one.
\<close>

theorem forward_single_acceptance:
  assumes run: "forwardClusterRequest fw header now draining path req router = (res, sent, router')"
    and connected: "\<forall>k target. \<not> fr_cancelled (fw_send fw k target)"
  shows "length (filter (may_accept \<circ> snd) sent) \<le> 1
    \<and> (filter (may_accept \<circ> snd) sent \<noteq> [] \<longrightarrow>
         (res = MayBeAccepted (fst (last sent)) \<or> (\<exists>resp. res = Relayed (fst (last sent)) resp)) \<and> may_accept (snd (last sent)))
    \<and> (res = RunHere \<longrightarrow> filter (may_accept \<circ> snd) sent = [] \<and> (sent \<noteq> [] \<longrightarrow> \<not> draining))
    \<and> (\<forall>r. router = Some r \<longrightarrow> length sent \<le> length (fst (rankedOwners (fw_score fw) (fw_now fw 0) (clusterRoutingKey req) {} r)) + 1)"
proof (cases "HasForwardedHeader header \<or> router = None")
  case True
  with run show ?thesis by (auto simp: forwardClusterRequest_def split: if_splits)
next
  case False
  then obtain r where r: "router = Some r" by auto
  obtain ranked r1 where ranked: "rankedOwners (fw_score fw) (fw_now fw 0) (clusterRoutingKey req) {} r = (ranked, r1)" by fastforce
  obtain res' sent' r2 where loop: "forward_loop (length ranked + 1) fw draining path (clusterRoutingKey req) [] r1 = (res', sent', r2)"
    by (metis prod_cases3)
  show ?thesis
  proof (cases "ranked = []")
    case True
    with run False r ranked show ?thesis by (auto simp: forwardClusterRequest_def Let_def)
  next
    case nonempty: False
    with run False r ranked loop have eq: "res = res'" "sent = sent'"
      by (auto simp: forwardClusterRequest_def Let_def simp del: forward_loop.simps)
    have "length sent \<le> length ranked + 1" and rest: "length (filter (may_accept \<circ> snd) sent) \<le> 1"
      "filter (may_accept \<circ> snd) sent \<noteq> [] \<longrightarrow>
         (res = MayBeAccepted (fst (last sent)) \<or> (\<exists>resp. res = Relayed (fst (last sent)) resp)) \<and> may_accept (snd (last sent))"
      "filter (may_accept \<circ> snd) sent = [] \<longrightarrow> res = RunHere \<and> \<not> draining \<or> res = BadTarget \<or> (\<exists>tried. res = NoOwner tried)"
      using forward_loop_once [OF loop] connected unfolding eq by blast+
    then show ?thesis using ranked r by auto
  qed
qed

definition two_nodes :: Router where
  "two_nodes = the (NewRouter (sample_cluster\<lparr>cc_Provider := ''static'', cc_Members := [sample_node ''a'' 0, sample_node ''b'' 0]\<rparr>) False)"

definition sample_forward :: "(string \<Rightarrow> forward_reply) \<Rightarrow> forward_world" where
  "sample_forward send = \<lparr> fw_score = (\<lambda>i k. i), fw_assign = (\<lambda>_ _. Inl Nil_Reply), fw_now = (\<lambda>_. 0), fw_released = (\<lambda>_. True),
     fw_url_ok = (\<lambda>_. True), fw_send = (\<lambda>_ target. send target) \<rparr>"

definition gave_up :: forward_reply where
  "gave_up = \<lparr> fr_delivered = True, fr_cancelled = False, fr_response = None \<rparr>"

theorem forward_single_acceptance_witness:
  "fst (forwardClusterRequest (sample_forward (\<lambda>_. gave_up)) (\<lambda>_. []) 0 False ''/jobs'' sample_request (Some two_nodes)) = MayBeAccepted ''b''
   \<and> length (filter (may_accept \<circ> snd) (fst (snd (forwardClusterRequest (sample_forward (\<lambda>_. gave_up)) (\<lambda>_. []) 0 False ''/jobs''
        sample_request (Some two_nodes))))) \<le> 1"
proof -
  obtain res sent router' where eq: "forwardClusterRequest (sample_forward (\<lambda>_. gave_up)) (\<lambda>_. []) 0 False ''/jobs'' sample_request (Some two_nodes)
      = (res, sent, router')" by (metis prod_cases3)
  have "fst (forwardClusterRequest (sample_forward (\<lambda>_. gave_up)) (\<lambda>_. []) 0 False ''/jobs'' sample_request (Some two_nodes)) = MayBeAccepted ''b''"
    by code_simp
  with forward_single_acceptance [OF eq] eq show ?thesis by (simp add: sample_forward_def gave_up_def)
qed


definition hung_up :: forward_reply where
  "hung_up = \<lparr> fr_delivered = True, fr_cancelled = True, fr_response = None \<rparr>"

definition sample_create :: "(ms \<times> (string \<times> stored) list Pebble) create_world" where
  "sample_create =
     \<lparr> cr_submit = pebble_world mem_kv sample_surroundings Some, cr_forward = sample_forward (\<lambda>_. hung_up), cr_headers = [],
       cr_newID = ''a'', cr_now = 1000, cr_latency = 0, cr_checks = sample_checks, cr_dispatch = sample_dispatch, cr_clock = 0, cr_finish = 0 \<rparr>"


section \<open>Reported load and settings\<close>

text \<open>The two capacities as the load already served plus a spare part, cut to the limits.\<close>

lemma computeLoad_parts:
  obtains h s where "computeLoad r =
      \<lparr> ld_HTTPUsers = lr_HTTPUsers r, ld_HTTPCapacity = max (min (lr_HTTPUsers r + h) 10000) (lr_HTTPUsers r),
        ld_WSSessions = lr_WSSessions r,
        ld_WSCapacity = max (if lr_MemoryLimitMB r > 0
           then min (min (lr_WSSessions r + s) (lr_MaxSessions r))
                  (lr_WSSessions r + div_trunc (max (lr_MemoryLimitMB r - lr_MemoryMB r) 0 * 1024) 90)
           else min (lr_WSSessions r + s) (lr_MaxSessions r)) (lr_WSSessions r) \<rparr>"
    "8 / 10 \<le> lr_CPU r \<Longrightarrow> h = 0" "8 / 10 \<le> lr_CPU r \<Longrightarrow> s = 0"
proof -
  have room: "8 / 10 \<le> lr_CPU r \<Longrightarrow> max (8 / 10 - lr_CPU r) 0 = (0 :: f64)" by simp
  show thesis by (rule that, unfold computeLoad_def Let_def, rule refl) (simp_all add: room)
qed

text \<open>The load a node reports is sound: a capacity is never below what the node already
  serves and never above the larger of that and its limit, a node at its CPU target
  reports no spare capacity at all, and the sessions it says it can add fit in the
  memory that is free.
\<close>

lemma load_report_bounds:
  "let l = computeLoad r
   in ld_HTTPUsers l = lr_HTTPUsers r \<and> ld_WSSessions l = lr_WSSessions r
      \<and> lr_HTTPUsers r \<le> ld_HTTPCapacity l \<and> ld_HTTPCapacity l \<le> max 10000 (lr_HTTPUsers r)
      \<and> lr_WSSessions r \<le> ld_WSCapacity l \<and> ld_WSCapacity l \<le> max (lr_MaxSessions r) (lr_WSSessions r)
      \<and> (8 / 10 \<le> lr_CPU r \<longrightarrow> ld_HTTPCapacity l = lr_HTTPUsers r \<and> ld_WSCapacity l = lr_WSSessions r)
      \<and> (0 < lr_MemoryLimitMB r \<longrightarrow>
           90 * (ld_WSCapacity l - lr_WSSessions r) \<le> 1024 * max (lr_MemoryLimitMB r - lr_MemoryMB r) 0)"
proof -
  obtain h s where l: "computeLoad r =
      \<lparr> ld_HTTPUsers = lr_HTTPUsers r, ld_HTTPCapacity = max (min (lr_HTTPUsers r + h) 10000) (lr_HTTPUsers r),
        ld_WSSessions = lr_WSSessions r,
        ld_WSCapacity = max (if lr_MemoryLimitMB r > 0
           then min (min (lr_WSSessions r + s) (lr_MaxSessions r))
                  (lr_WSSessions r + div_trunc (max (lr_MemoryLimitMB r - lr_MemoryMB r) 0 * 1024) 90)
           else min (lr_WSSessions r + s) (lr_MaxSessions r)) (lr_WSSessions r) \<rparr>"
    and spare: "8 / 10 \<le> lr_CPU r \<Longrightarrow> h = 0" "8 / 10 \<le> lr_CPU r \<Longrightarrow> s = 0" by (rule computeLoad_parts [of r], rule that)
  let ?m = "max (lr_MemoryLimitMB r - lr_MemoryMB r) 0"
  have trunc: "0 \<le> div_trunc (?m * 1024) 90" "90 * div_trunc (?m * 1024) 90 \<le> 1024 * ?m"
    by (simp_all add: div_trunc_def pos_imp_zdiv_nonneg_iff)
  have gen: "0 \<le> d \<Longrightarrow> 90 * d \<le> M \<Longrightarrow> 90 * (max (min x (S + d)) S - S) \<le> M" for d M x S :: int
    by (auto simp: min_def max_def)
  have memory: "90 * (max (min x (lr_WSSessions r + div_trunc (?m * 1024) 90)) (lr_WSSessions r) - lr_WSSessions r) \<le> 1024 * ?m" for x
    by (rule gen [OF trunc])
  have upper: "max (min a L) c \<le> max L c" "max (min (min a L) b) c \<le> max L c" for a b c L :: int
    by (auto simp: min_def max_def)
  show ?thesis
    using spare memory trunc(1) upper unfolding Let_def l by (intro conjI impI) simp_all
qed

text \<open>The shutdown settings are well-formed whatever the environment says, as long as its
  numbers stay below the range of a duration: the timeout is positive, the other two
  are not negative, and the drain of WebSocket sessions gets no more than the timeout.
\<close>

theorem shutdown_settings_ok:
  assumes "\<forall>key v. parse_int64 (env key) = Some v \<longrightarrow> v \<le> 9223372036"
  shows "let cfg = LoadShutdownConfig env
    in 0 < sc_Timeout cfg \<and> 0 \<le> sc_Quiesce cfg \<and> 0 \<le> sc_WebSocketGrace cfg \<and> sc_WebSocketGrace cfg \<le> sc_Timeout cfg"
proof -
  have range: "0 \<le> shutdownEnvInt64 env key d z \<and> shutdownEnvInt64 env key d z \<le> 9223372036 \<and> (\<not> z \<longrightarrow> 0 < shutdownEnvInt64 env key d z)"
    if "0 < d" "d \<le> 9223372036" for key d z
    using assms that by (auto simp: shutdownEnvInt64_def Let_def split: option.split)
  have wrap: "wrap64 (v * second) = v * second" "wrap64 (v * millisecond) = v * millisecond" if "0 \<le> v" "v \<le> 9223372036" for v
    using that by (simp_all add: wrap64_def int64_min_def)
  let ?t = "shutdownEnvInt64 env ''AQUIFER_SHUTDOWN_TIMEOUT_SECONDS'' 30 False"
  let ?q = "shutdownEnvInt64 env ''AQUIFER_SHUTDOWN_QUIESCE_MS'' 500 True"
  let ?g = "shutdownEnvInt64 env ''AQUIFER_WS_DRAIN_GRACE_SECONDS'' 5 True"
  have "0 < ?t" "0 \<le> ?q" "0 \<le> ?g" "wrap64 (?t * second) = ?t * second" "wrap64 (?q * millisecond) = ?q * millisecond"
    "wrap64 (?g * second) = ?g * second"
    using range [of 30 "''AQUIFER_SHUTDOWN_TIMEOUT_SECONDS''" False] range [of 500 "''AQUIFER_SHUTDOWN_QUIESCE_MS''" True]
      range [of 5 "''AQUIFER_WS_DRAIN_GRACE_SECONDS''" True] by (simp_all add: wrap)
  then show ?thesis by (simp add: LoadShutdownConfig_def Let_def)
qed

theorem shutdown_settings_ok_witness:
  "sc_WebSocketGrace (LoadShutdownConfig (\<lambda>key. if key = ''AQUIFER_WS_DRAIN_GRACE_SECONDS'' then ''40'' else ''x'')) = 30 * second
   \<and> sc_WebSocketGrace (LoadShutdownConfig (\<lambda>key. if key = ''AQUIFER_WS_DRAIN_GRACE_SECONDS'' then ''40'' else ''x''))
      \<le> sc_Timeout (LoadShutdownConfig (\<lambda>key. if key = ''AQUIFER_WS_DRAIN_GRACE_SECONDS'' then ''40'' else ''x''))"
proof -
  let ?env = "\<lambda>key. if key = ''AQUIFER_WS_DRAIN_GRACE_SECONDS'' then ''40'' else ''x''"
  have "parse_int64 ''40'' = Some 40" "parse_int64 ''x'' = None" by code_simp+
  then have "\<forall>key v. parse_int64 (?env key) = Some v \<longrightarrow> v \<le> 9223372036" by (simp split: if_split)
  moreover have "sc_WebSocketGrace (LoadShutdownConfig ?env) = 30 * second" by code_simp
  ultimately show ?thesis using shutdown_settings_ok [of ?env] unfolding Let_def by blast
qed

definition shared_request :: Request where
  "shared_request = sample_request\<lparr>r_IdempotencyScope := IdempotencyScopeShared\<rparr>"

definition shared_node :: surroundings where
  "shared_node = sample_surroundings\<lparr>su_env := (\<lambda>k. if k = ''AQUIFER_SHARED_IDEMPOTENCY_ENABLED'' then ''true'' else [])\<rparr>"


end
